(* ===== verification/Prelude.thy ===== *)
theory Prelude
  imports Main "HOL-Library.Word"
begin

text \<open>
  Shared vocabulary of the development: the names of the Rust types, the error
  values, the fixed-width operations the crates use, and the generic facts about
  lists, options and words that the component theories rely on.

  Rust's unsigned integers are machine words. The release profile of the workspace
  leaves \<^verbatim>\<open>overflow-checks\<close> off, so the plain operators wrap, exactly as
  word arithmetic does; \<^verbatim>\<open>usize\<close> values that only count elements of
  a container held in memory are natural numbers. \<^verbatim>\<open>num_bigint::BigInt\<close> values are
  integers, with the truncating division that type has. The text that
  \<^verbatim>\<open>format!\<close> puts into an error is not modelled: an error is its constructor. \<open>Panic\<close>
  is not a value of the code's error type: it marks the paths where an array index is out of
  range and the thread unwinds.
\<close>

unbundle bit_operations_syntax

named_theorems bits_simps \<open>bitmask operations read bit by bit\<close>
named_theorems codec_simps \<open>a reader applied to what the matching writer produced\<close>

type_synonym byte = "8 word"
type_synonym bytes = "8 word list"
type_synonym u8 = "8 word"
type_synonym u32 = "32 word"
type_synonym u64 = "64 word"

datatype quil_error = InvalidArgument | NotFound | Serialization | Internal | Store | ExecutionUnavailable | Panic

type_synonym 'a result = "quil_error + 'a"

abbreviation Ok :: "'a \<Rightarrow> 'e + 'a" where "Ok \<equiv> Inr"
abbreviation Err :: "'e \<Rightarrow> 'e + 'a" where "Err \<equiv> Inl"

subsection \<open>Fixed-width arithmetic of the standard library\<close>

definition u64_max :: u64 where
  "u64_max = - 1"

definition saturating_add :: "u64 \<Rightarrow> u64 \<Rightarrow> u64" where
  "saturating_add a b = (if a + b < a then u64_max else a + b)"

definition saturating_sub :: "u64 \<Rightarrow> u64 \<Rightarrow> u64" where
  "saturating_sub a b = (if a < b then 0 else a - b)"

definition saturating_mul :: "u64 \<Rightarrow> u64 \<Rightarrow> u64" where
  "saturating_mul a b = (if unat a * unat b < 2 ^ 64 then a * b else u64_max)"

definition checked_add :: "u64 \<Rightarrow> u64 \<Rightarrow> u64 option" where
  "checked_add a b = (let s = a + b in if s < a then None else Some s)"

text \<open>Division of \<^verbatim>\<open>BigInt\<close> and of signed machine integers truncates towards zero.\<close>

definition bigint_quot :: "int \<Rightarrow> int \<Rightarrow> int" where
  "bigint_quot num den =
     (let q = abs num div abs den in if (num < 0) = (den < 0) then q else - q)"

lemma bigint_quot_nonneg [simp]:
  "0 \<le> num \<Longrightarrow> 0 \<le> den \<Longrightarrow> bigint_quot num den = num div den"
  by (simp add: bigint_quot_def)

lemma unat_u64_max [simp]: "unat u64_max = 2 ^ 64 - 1"
  by (simp add: u64_max_def unsigned_minus_1_eq_mask mask_eq_exp_minus_1)

lemma u64_max_top [simp]: "x \<le> u64_max"
  by (simp add: u64_max_def)

lemma u64_max_not_less [simp]: "\<not> u64_max < x"
  by (simp add: not_less)

lemma unat_u64_bound: "unat (x :: u64) < 18446744073709551616"
proof -
  have "unat x < 2 ^ LENGTH(64)" by (rule unsigned_less)
  then show ?thesis by simp
qed

lemma unat_u32_bound: "unat (x :: u32) < 4294967296"
proof -
  have "unat x < 2 ^ LENGTH(32)" by (rule unsigned_less)
  then show ?thesis by simp
qed

lemma u64_add_wraps_iff: "a + b < (a :: u64) \<longleftrightarrow> 2 ^ 64 \<le> unat a + unat b"
  using no_plus_overflow_unat_size [of a b] by (auto simp: word_size not_less [symmetric])

lemma unat_saturating_add:
  "unat (saturating_add a b) = min (unat a + unat b) (2 ^ 64 - 1)"
  by (simp add: saturating_add_def u64_add_wraps_iff unat_word_ariths)

lemma unat_saturating_sub: "unat (saturating_sub a b) = unat a - unat b"
  by (simp add: saturating_sub_def word_less_nat_alt unat_sub word_le_nat_alt)

lemma unat_saturating_mul:
  "unat (saturating_mul a b) = min (unat a * unat b) (2 ^ 64 - 1)"
  by (simp add: saturating_mul_def unat_word_ariths)

lemma checked_add_Some:
  "checked_add a b = Some c \<longleftrightarrow> unat a + unat b < 2 ^ 64 \<and> c = a + b"
  by (auto simp: checked_add_def Let_def u64_add_wraps_iff)

lemma unat_add_no_wrap:
  "unat a + unat b < 2 ^ 64 \<Longrightarrow> unat (a + b :: u64) = unat a + unat b"
  by (simp add: unat_word_ariths)

subsection \<open>Signed integers and decimal text\<close>

text \<open>
  An \<^verbatim>\<open>i64\<close> is the integer it denotes; \<open>wrap_i64\<close> is the two's-complement
  reduction its wrapping operators apply. \<open>parse_u64\<close> is \<^verbatim>\<open>str::parse::<u64>\<close>: an
  optional plus sign, at least one decimal digit, and no overflow at any step.
\<close>

definition wrap_i64 :: "int \<Rightarrow> int" where
  "wrap_i64 x = (x + 9223372036854775808) mod 18446744073709551616 - 9223372036854775808"

definition i64_max :: int where
  "i64_max = 9223372036854775807"

lemma wrap_i64_id:
  "- 9223372036854775808 \<le> x \<Longrightarrow> x < 9223372036854775808 \<Longrightarrow> wrap_i64 x = x"
  by (simp add: wrap_i64_def)

lemma wrap_i64_range: "- 9223372036854775808 \<le> wrap_i64 x" "wrap_i64 x < 9223372036854775808"
  using pos_mod_bound [of 18446744073709551616 "x + 9223372036854775808"]
    pos_mod_sign [of 18446744073709551616 "x + 9223372036854775808"]
  by (simp_all add: wrap_i64_def)

fun parse_digits :: "int \<Rightarrow> string \<Rightarrow> int option" where
  "parse_digits acc [] = Some acc"
| "parse_digits acc (c # cs) =
     (let d = of_char c - 48 in
      if 0 \<le> d \<and> d \<le> 9 \<and> acc * 10 + d < 18446744073709551616
      then parse_digits (acc * 10 + d) cs else None)"

definition parse_u64 :: "string \<Rightarrow> u64 option" where
  "parse_u64 s =
     (let digits = (case s of CHR ''+'' # cs \<Rightarrow> cs | _ \<Rightarrow> s) in
      if digits = [] then None else map_option word_of_int (parse_digits 0 digits))"

subsection \<open>Lists\<close>

text \<open>
  \<^verbatim>\<open>slice.get(i)\<close>: out of range is \<^verbatim>\<open>None\<close>. \<^verbatim>\<open>Iterator::position\<close>
  is the index of the first element that satisfies the test.
\<close>

definition list_get :: "'a list \<Rightarrow> nat \<Rightarrow> 'a option" where
  "list_get xs i = (if i < length xs then Some (xs ! i) else None)"

fun position :: "('a \<Rightarrow> bool) \<Rightarrow> 'a list \<Rightarrow> nat option" where
  "position p [] = None"
| "position p (x # xs) = (if p x then Some 0 else map_option Suc (position p xs))"

text \<open>\<^verbatim>\<open>Vec::resize(n, v)\<close>: truncate or pad.\<close>

definition vec_resize :: "'a list \<Rightarrow> nat \<Rightarrow> 'a \<Rightarrow> 'a list" where
  "vec_resize xs n v = take n xs @ replicate (n - length xs) v"

lemma list_get_nth [simp]: "i < length xs \<Longrightarrow> list_get xs i = Some (xs ! i)"
  by (simp add: list_get_def)

lemma list_get_beyond [simp]: "length xs \<le> i \<Longrightarrow> list_get xs i = None"
  by (simp add: list_get_def)

lemma length_vec_resize [simp]: "length (vec_resize xs n v) = n"
  by (simp add: vec_resize_def)

lemma nth_vec_resize:
  "i < n \<Longrightarrow> vec_resize xs n v ! i = (if i < length xs then xs ! i else v)"
  by (simp add: vec_resize_def nth_append)

lemma position_None: "position p xs = None \<longleftrightarrow> (\<forall>x \<in> set xs. \<not> p x)"
  by (induction xs) auto

lemma position_Some:
  "position p xs = Some i \<Longrightarrow> i < length xs \<and> p (xs ! i) \<and> (\<forall>j < i. \<not> p (xs ! j))"
proof (induction xs arbitrary: i)
  case Nil
  then show ?case by simp
next
  case (Cons x xs)
  show ?case
  proof (cases "p x")
    case True
    with Cons.prems show ?thesis by simp
  next
    case False
    with Cons.prems obtain k where k: "position p xs = Some k" "i = Suc k" by auto
    with Cons.IH [OF k(1)] False show ?thesis
      by (auto simp: less_Suc_eq_0_disj)
  qed
qed

lemma take_position_sat:
  "position p xs = Some i \<Longrightarrow> x \<in> set (take i xs) \<Longrightarrow> \<not> p x"
  using position_Some [of p xs i] by (auto simp: in_set_conv_nth)

end
