(* ===== verification/Bitmask.thy ===== *)
theory Bitmask
  imports Prelude
begin

text \<open>
  Signer bitmasks (\<^verbatim>\<open>crates/quil-consensus/src/bitmask.rs\<close>): a byte vector read as a set
  of committee indices, bit \<^verbatim>\<open>i % 8\<close> of byte \<^verbatim>\<open>i / 8\<close>, with absent trailing
  bytes equal to zero. The operations come first, in the order of the file; then
  the reading of a mask as the set of its signers, which the interface at the
  end states for the clients.
\<close>

subsection \<open>Operations\<close>

definition count_ones :: "byte \<Rightarrow> nat" where
  "count_ones b = length (filter (bit b) [0..<8])"

definition count_bits :: "bytes \<Rightarrow> u32" where
  "count_bits bitmask = sum_list (map (\<lambda>b. of_nat (count_ones b)) bitmask)"

definition byte_or_zero :: "bytes \<Rightarrow> nat \<Rightarrow> byte" where
  "byte_or_zero a i = (case list_get a i of None \<Rightarrow> 0 | Some b \<Rightarrow> b)"

definition has_overlapping_bits :: "bytes \<Rightarrow> bytes \<Rightarrow> bool" where
  "has_overlapping_bits a b =
     list_ex (\<lambda>i. byte_or_zero a i AND byte_or_zero b i \<noteq> 0) [0..<max (length a) (length b)]"

definition bit_is_set :: "bytes \<Rightarrow> nat \<Rightarrow> bool" where
  "bit_is_set bitmask index =
     (case list_get bitmask (index div 8) of
        None \<Rightarrow> False
      | Some b \<Rightarrow> drop_bit (index mod 8) b AND 1 = 1)"

definition mask_set_bit :: "bytes \<Rightarrow> nat \<Rightarrow> bytes" where
  "mask_set_bit bitmask index =
     (let byte_idx = index div 8;
          bit_idx = index mod 8;
          grown = (if length bitmask \<le> byte_idx then vec_resize bitmask (byte_idx + 1) 0
                   else bitmask)
      in grown[byte_idx := grown ! byte_idx OR push_bit bit_idx 1])"

definition intersect :: "bytes \<Rightarrow> bytes \<Rightarrow> bytes" where
  "intersect a b = map (\<lambda>i. a ! i AND b ! i) [0..<min (length a) (length b)]"

definition mask_union :: "bytes \<Rightarrow> bytes \<Rightarrow> bytes" where
  "mask_union a b =
     map (\<lambda>i. byte_or_zero a i OR byte_or_zero b i) [0..<max (length a) (length b)]"

definition set_bit_indices :: "bytes \<Rightarrow> nat list" where
  "set_bit_indices bitmask =
     concat (map (\<lambda>(byte_idx, b).
               map (\<lambda>bit. byte_idx * 8 + bit)
                 (filter (\<lambda>bit. b AND push_bit bit 1 \<noteq> 0) [0..<8]))
       (enumerate 0 bitmask))"

subsection \<open>A mask is the set of its signers\<close>

definition signers :: "bytes \<Rightarrow> nat set" where
  "signers m = {i. bit_is_set m i}"

lemma byte_bit_beyond: "8 \<le> n \<Longrightarrow> \<not> bit (b :: byte) n"
  using bit_imp_le_length [of b n] by auto

lemma and_push_bit_iff:
  assumes "n < 8"
  shows "((b :: byte) AND push_bit n 1 \<noteq> 0) = bit b n"
proof -
  have "bit (b AND push_bit n 1) m \<longleftrightarrow> m = n \<and> bit b n" for m
    using assms byte_bit_beyond [of m b]
    by (auto simp: bit_simps)
  then show ?thesis
    by (metis bit_0_eq bot_apply bot_bool_def bit_eq_iff)
qed

lemma byte_eq_iff: "(a :: byte) = b \<longleftrightarrow> (\<forall>n < 8. bit a n = bit b n)"
  by (metis bit_eq_iff byte_bit_beyond not_le)

lemma byte_zero_iff: "(a :: byte) = 0 \<longleftrightarrow> (\<forall>n < 8. \<not> bit a n)"
  using byte_eq_iff [of a 0] by simp

lemma bit_is_set_alt:
  "bit_is_set m i \<longleftrightarrow> bit (byte_or_zero m (i div 8)) (i mod 8)"
  by (simp add: bit_is_set_def byte_or_zero_def and_one_eq bit_iff_odd_drop_bit odd_iff_mod_2_eq_one
      split: option.splits)

lemma bit_is_set_split: "n < 8 \<Longrightarrow> bit_is_set m (k * 8 + n) \<longleftrightarrow> bit (byte_or_zero m k) n"
  by (simp add: bit_is_set_alt)

lemma byte_or_zero_beyond: "length m \<le> i \<Longrightarrow> byte_or_zero m i = 0"
  by (simp add: byte_or_zero_def)

lemma bit_is_set_bound: "bit_is_set m i \<Longrightarrow> i < 8 * length m"
  by (rule ccontr) (auto simp: bit_is_set_alt byte_or_zero_beyond not_less less_eq_div_iff_mult_less_eq)

lemma finite_signers [simp]: "finite (signers m)"
  by (rule finite_subset [of _ "{..<8 * length m}"]) (auto simp: signers_def dest: bit_is_set_bound)


lemma byte_or_zero_Cons:
  "byte_or_zero (b # m) k = (case k of 0 \<Rightarrow> b | Suc j \<Rightarrow> byte_or_zero m j)"
  by (simp add: byte_or_zero_def list_get_def split: nat.split)

lemma byte_or_zero_nth: "i < length m \<Longrightarrow> byte_or_zero m i = m ! i"
  by (simp add: byte_or_zero_def)

lemma byte_or_zero_map_upt:
  "byte_or_zero (map f [0..<n]) i = (if i < n then f i else 0)"
  by (simp add: byte_or_zero_def list_get_def)

lemma byte_or_zero_set_bit:
  "byte_or_zero (mask_set_bit m i) k =
     (if k = i div 8 then byte_or_zero m k OR push_bit (i mod 8) 1 else byte_or_zero m k)"
  by (auto simp: mask_set_bit_def byte_or_zero_def list_get_def nth_vec_resize nth_list_update
      Let_def split: option.splits)

lemma signers_mask_set_bit [bits_simps]: "signers (mask_set_bit m i) = insert i (signers m)"
proof -
  have "bit_is_set (mask_set_bit m i) j \<longleftrightarrow> j = i \<or> bit_is_set m j" for j
    unfolding bit_is_set_alt byte_or_zero_set_bit
    by (auto simp: bit_simps) (metis div_mult_mod_eq)
  then show ?thesis by (auto simp: signers_def)
qed

lemma signers_intersect [bits_simps]: "signers (intersect a b) = signers a \<inter> signers b"
proof -
  have "byte_or_zero (intersect a b) k = byte_or_zero a k AND byte_or_zero b k" for k
    by (simp add: intersect_def byte_or_zero_map_upt)
      (auto simp: byte_or_zero_def list_get_def)
  then show ?thesis by (auto simp: signers_def bit_is_set_alt bit_simps)
qed

lemma signers_mask_union [bits_simps]: "signers (mask_union a b) = signers a \<union> signers b"
proof -
  have "byte_or_zero (mask_union a b) k = byte_or_zero a k OR byte_or_zero b k" for k
    by (simp add: mask_union_def byte_or_zero_map_upt)
      (auto simp: byte_or_zero_def list_get_def)
  then show ?thesis by (auto simp: signers_def bit_is_set_alt bit_simps)
qed

lemma has_overlapping_bits_signers [bits_simps]:
  "has_overlapping_bits a b \<longleftrightarrow> signers a \<inter> signers b \<noteq> {}"
proof
  assume "has_overlapping_bits a b"
  then obtain k where "byte_or_zero a k AND byte_or_zero b k \<noteq> 0"
    by (auto simp: has_overlapping_bits_def list_ex_iff)
  then obtain n where "n < 8" "bit (byte_or_zero a k) n" "bit (byte_or_zero b k) n"
    by (auto simp: byte_zero_iff bit_simps)
  then have "k * 8 + n \<in> signers a \<inter> signers b"
    by (simp add: signers_def bit_is_set_split)
  then show "signers a \<inter> signers b \<noteq> {}" by blast
next
  assume "signers a \<inter> signers b \<noteq> {}"
  then obtain i where i: "bit_is_set a i" "bit_is_set b i" by (auto simp: signers_def)
  then have "byte_or_zero a (i div 8) AND byte_or_zero b (i div 8) \<noteq> 0"
    unfolding bit_is_set_alt by (metis bit_and_iff bit_0_eq bot_apply bot_bool_def)
  moreover from i have "i div 8 < max (length a) (length b)"
    using bit_is_set_bound [of a i] by (simp add: less_mult_imp_div_less mult.commute less_max_iff_disj)
  ultimately show "has_overlapping_bits a b"
    unfolding has_overlapping_bits_def list_ex_iff by auto
qed

lemma list_ex_upt_bits:
  "filter (\<lambda>bit. b AND push_bit bit 1 \<noteq> 0) [0..<8] = filter (bit (b :: byte)) [0..<8]"
  by (rule filter_cong) (simp_all only: and_push_bit_iff set_upt atLeastLessThan_iff)

text \<open>The index enumeration, generalised to a mask that starts at byte \<open>n\<close>.\<close>

definition indices_from :: "nat \<Rightarrow> bytes \<Rightarrow> nat list" where
  "indices_from n m =
     concat (map (\<lambda>(byte_idx, b). map (\<lambda>bit. byte_idx * 8 + bit) (filter (bit b) [0..<8]))
       (enumerate n m))"

lemma indices_from_simps [simp]:
  "indices_from n [] = []"
  "indices_from n (b # m) = map (\<lambda>i. n * 8 + i) (filter (bit b) [0..<8]) @ indices_from (Suc n) m"
  by (simp_all add: indices_from_def)

lemma set_bit_indices_from: "set_bit_indices m = indices_from 0 m"
  unfolding set_bit_indices_def indices_from_def list_ex_upt_bits ..

lemma set_indices_from:
  "set (indices_from n m) = {n * 8 + i | i. bit_is_set m i}"
proof (induction m arbitrary: n)
  case Nil
  then show ?case by (simp add: bit_is_set_alt byte_or_zero_beyond)
next
  case (Cons b m)
  have split: "bit_is_set (b # m) i \<longleftrightarrow> (i < 8 \<and> bit b i) \<or> (8 \<le> i \<and> bit_is_set m (i - 8))" for i
  proof (cases "i < 8")
    case True
    then show ?thesis by (simp add: bit_is_set_alt byte_or_zero_Cons)
  next
    case False
    then have "i div 8 = Suc ((i - 8) div 8)" "i mod 8 = (i - 8) mod 8"
      by (simp_all add: div_if [of i] mod_if [of i])
    with False show ?thesis by (simp add: bit_is_set_alt byte_or_zero_Cons)
  qed
  have "{n * 8 + i | i. bit_is_set (b # m) i} =
        {n * 8 + i | i. i < 8 \<and> bit b i} \<union> {Suc n * 8 + i | i. bit_is_set m i}"
    unfolding split by (auto; metis le_add_diff_inverse add.assoc add.commute mult_Suc)
  with Cons.IH show ?case by auto
qed

lemma sorted_indices_from: "sorted_wrt (<) (indices_from n m)"
proof (induction m arbitrary: n)
  case Nil
  then show ?case by simp
next
  case (Cons b m)
  have "sorted_wrt (<) (filter (bit b) [0..<8])"
    by (rule sorted_wrt_filter) simp
  then have "sorted_wrt (<) (map (\<lambda>i. n * 8 + i) (filter (bit b) [0..<8]))"
    by (simp add: sorted_wrt_map)
  with Cons.IH show ?case
    by (auto simp: sorted_wrt_append set_indices_from)
qed

lemma length_indices_from:
  "length (indices_from n m) = sum_list (map count_ones m)"
  by (induction m arbitrary: n) (simp_all add: count_ones_def)

lemma count_ones_le: "count_ones b \<le> 8"
  using length_filter_le [of "bit b" "[0..<8]"] by (simp add: count_ones_def)

lemma sum_count_ones_le: "sum_list (map count_ones m) \<le> 8 * length m"
  using count_ones_le by (induction m) (auto simp: add_le_mono)

lemma set_set_bit_indices [bits_simps]: "set (set_bit_indices m) = signers m"
  by (simp add: set_bit_indices_from set_indices_from signers_def)

lemma card_signers: "card (signers m) = sum_list (map count_ones m)"
proof -
  have "distinct (set_bit_indices m)"
    using sorted_indices_from [of 0 m] strict_sorted_iff [of "set_bit_indices m"]
    by (simp add: set_bit_indices_from)
  then show ?thesis
    by (simp add: distinct_card length_indices_from set_bit_indices_from
        flip: set_set_bit_indices)
qed

lemma count_bits_nat: "count_bits m = of_nat (card (signers m))"
  unfolding card_signers count_bits_def by (induction m) simp_all

subsection \<open>The interface of a signer set\<close>

text \<open>
  What a client of a signer mask relies on: each operation acts on the set of
  signers. The lemmas of the block are proved from these laws alone; the
  interpretation discharges the laws for the byte-vector operations.
\<close>

locale signer_set =
  fixes members :: "'m \<Rightarrow> nat set"
    and add :: "'m \<Rightarrow> nat \<Rightarrow> 'm"
    and meet :: "'m \<Rightarrow> 'm \<Rightarrow> 'm"
    and join :: "'m \<Rightarrow> 'm \<Rightarrow> 'm"
    and overlaps :: "'m \<Rightarrow> 'm \<Rightarrow> bool"
    and indices :: "'m \<Rightarrow> nat list"
  assumes members_finite: "finite (members m)"
    and members_add: "members (add m i) = insert i (members m)"
    and members_meet: "members (meet a b) = members a \<inter> members b"
    and members_join: "members (join a b) = members a \<union> members b"
    and overlaps_members: "overlaps a b \<longleftrightarrow> members a \<inter> members b \<noteq> {}"
    and indices_members: "set (indices m) = members m"
    and indices_ascending: "sorted_wrt (<) (indices m)"
begin

lemma overlap_evidence:
  "overlaps a b \<longleftrightarrow> indices (meet a b) \<noteq> []"
  using indices_members [of "meet a b"] by (auto simp: overlaps_members members_meet)

lemma overlap_sym: "overlaps a b = overlaps b a"
  by (auto simp: overlaps_members)

lemma indices_eq_sorted_list: "indices m = sorted_list_of_set (members m)"
proof -
  have "sorted (indices m)" "distinct (indices m)"
    using indices_ascending [of m] by (simp_all add: strict_sorted_iff)
  then have "sorted_list_of_set (set (indices m)) = indices m"
    by (rule sorted_list_of_set.idem_if_sorted_distinct)
  then show ?thesis by (simp add: indices_members)
qed

lemma card_join_meet:
  "card (members (join a b)) + card (members (meet a b)) = card (members a) + card (members b)"
  using card_Un_Int [OF members_finite [of a] members_finite [of b]]
  by (simp add: members_join members_meet)

lemma quorum_overlap:
  assumes "members a \<subseteq> {..<n}" "members b \<subseteq> {..<n}"
    and "n < card (members a) + card (members b)"
  shows "overlaps a b"
proof (rule ccontr)
  assume "\<not> overlaps a b"
  then have "members (meet a b) = {}" by (simp add: overlaps_members members_meet)
  with card_join_meet [of a b] have "card (members (join a b)) = card (members a) + card (members b)"
    by simp
  moreover have "card (members (join a b)) \<le> n"
    using card_mono [of "{..<n}" "members (join a b)"] assms(1,2) by (simp add: members_join)
  ultimately show False using assms(3) by simp
qed

end

interpretation mask: signer_set signers mask_set_bit intersect mask_union has_overlapping_bits
  set_bit_indices
  by unfold_locales (simp_all add: bits_simps, simp add: set_bit_indices_from sorted_indices_from)


subsection \<open>Properties\<close>

text \<open>Setting a bit of a signer mask makes exactly that signer a member: afterwards index
  \<open>j\<close> tests as set iff it is the index just set or was set before, and the enumeration
  of the mask is the ascending list of the members. Holds for every mask and index, also one
  past the end, where the mask grows.\<close>

theorem mask_set_bit_lookup:
  "bit_is_set (mask_set_bit m i) j = (j = i \<or> bit_is_set m j) \<and>
   set_bit_indices (mask_set_bit m i) = sorted_list_of_set (insert i {k. bit_is_set m k})"
proof -
  have "j \<in> signers (mask_set_bit m i) \<longleftrightarrow> j = i \<or> j \<in> signers m"
    by (simp add: bits_simps)
  moreover have "set_bit_indices (mask_set_bit m i) = sorted_list_of_set (insert i (signers m))"
    by (simp only: mask.indices_eq_sorted_list signers_mask_set_bit)
  ultimately show ?thesis by (simp add: signers_def)
qed

text \<open>C21. Equivocation between quorums is always caught: two signer masks over a committee of
  \<open>n\<close> members whose population counts add up to more than \<open>n\<close> overlap, and the
  enumeration of their intersection names at least one double signer, who is in both.\<close>

theorem quorum_equivocation_detected:
  assumes "\<And>i. bit_is_set a i \<Longrightarrow> i < n" and "\<And>i. bit_is_set b i \<Longrightarrow> i < n"
    and "length a < 2 ^ 29" and "length b < 2 ^ 29"
    and "n < unat (count_bits a) + unat (count_bits b)"
  shows "has_overlapping_bits a b \<and>
    (\<exists>i \<in> set (set_bit_indices (intersect a b)). bit_is_set a i \<and> bit_is_set b i)"
proof -
  have count: "unat (count_bits m) = card (signers m)" if "length m < 2 ^ 29" for m
  proof -
    have "card (signers m) \<le> 8 * length m"
      unfolding card_signers by (rule sum_count_ones_le)
    with that show ?thesis
      by (simp add: count_bits_nat unat_of_nat take_bit_nat_eq_self)
  qed
  have ov: "has_overlapping_bits a b"
    by (rule mask.quorum_overlap [where n = n]) (use assms count in \<open>auto simp: signers_def\<close>)
  then have "signers a \<inter> signers b \<noteq> {}" by (simp add: bits_simps)
  then obtain i where "i \<in> signers a" "i \<in> signers b" by blast
  moreover from this have "i \<in> set (set_bit_indices (intersect a b))" by (simp add: bits_simps)
  ultimately show ?thesis using ov by (auto simp: signers_def)
qed

theorem quorum_equivocation_witness:
  "has_overlapping_bits [7] [6] \<and>
    (\<exists>i \<in> set (set_bit_indices (intersect [7] [6])). bit_is_set [7] i \<and> bit_is_set [6] i)"
proof (rule quorum_equivocation_detected [where n = 4])
  show "i < 4" if "bit_is_set [7] i" for i
  proof -
    have "i \<in> set (set_bit_indices [7])" using that by (simp add: bits_simps signers_def)
    moreover have "set_bit_indices [7] = [0, 1, 2]" by code_simp
    ultimately show ?thesis by auto
  qed
  show "i < 4" if "bit_is_set [6] i" for i
  proof -
    have "i \<in> set (set_bit_indices [6])" using that by (simp add: bits_simps signers_def)
    moreover have "set_bit_indices [6] = [1, 2]" by code_simp
    ultimately show ?thesis by auto
  qed
  show "(4 :: nat) < unat (count_bits [7]) + unat (count_bits [6])" by code_simp
qed simp_all

end
