(* ===== verification/Fork_Choice.thy ===== *)
theory Fork_Choice
  imports Prelude "HOL-Library.Monad_Syntax"
begin

text \<open>
  The fork-choice rule (\<^verbatim>\<open>crates/quil-engine/src/fork_choice.rs\<close>): a branch is scored by
  an exponentially decayed sum of per-frame scores times a diversity bonus, and a
  branch replaces the previous choice only when it beats the best score so far by
  strictly more than a margin. All arithmetic is exact integer arithmetic; a division by a
  zero parameter panics in the code and is \<open>None\<close> here.
\<close>

subsection \<open>Data\<close>

definition SCALE :: u64 where
  "SCALE = u64_max"

record frame =
  distance :: int
  seniority :: u64
  prover_address :: bytes

record branch =
  frames :: "frame list"

record params =
  r_max :: int
  wr_numer :: u64
  wp_numer :: u64
  w_denom :: u64
  al_numer :: u64
  al_denom :: u64
  blend_window :: nat
  beta_numer :: u64
  beta_denom :: u64
  epsilon :: u64

definition default_params :: params where
  "default_params =
     \<lparr>r_max = uint u64_max, wr_numer = 7, wp_numer = 3, w_denom = 10, al_numer = 9,
      al_denom = 10, blend_window = 5, beta_numer = 1, beta_denom = 10, epsilon = 0\<rparr>"

subsection \<open>Scoring\<close>

definition bigint_div :: "int \<Rightarrow> int \<Rightarrow> int option" where
  "bigint_div a b = (if b = 0 then None else Some (bigint_quot a b))"

definition u64_clamp :: "u64 \<Rightarrow> u64 \<Rightarrow> u64 \<Rightarrow> u64" where
  "u64_clamp x lo hi = (if x < lo then lo else if hi < x then hi else x)"

definition rho_scaled :: "int \<Rightarrow> int \<Rightarrow> u64 option" where
  "rho_scaled rank rmax =
     do {
       res \<leftarrow> bigint_div ((rmax - rank) * uint SCALE) rmax;
       Some (if res < 0 then 0
             else if uint SCALE < res then SCALE
             else word_of_int res)
     }"

definition frame_score :: "params \<Rightarrow> frame \<Rightarrow> int option" where
  "frame_score cfg f =
     do {
       rho \<leftarrow> rho_scaled (distance f) (r_max cfg);
       bigint_div (uint (wr_numer cfg) * uint rho
                   + uint (wp_numer cfg) * uint (u64_clamp (seniority f) 0 SCALE))
         (uint (w_denom cfg))
     }"

fun raw_score :: "params \<Rightarrow> int \<Rightarrow> frame list \<Rightarrow> int option" where
  "raw_score cfg raw [] = Some raw"
| "raw_score cfg raw (f # fs) =
     do {
       s \<leftarrow> frame_score cfg f;
       decayed \<leftarrow> bigint_div (raw * uint (al_numer cfg)) (uint (al_denom cfg));
       raw_score cfg (decayed + s) fs
     }"

definition unique_provers :: "frame list \<Rightarrow> nat" where
  "unique_provers fs = length (remdups (map prover_address (filter (\<lambda>f. 0 < seniority f) fs)))"

definition branch_score :: "branch \<Rightarrow> params \<Rightarrow> int option" where
  "branch_score br cfg =
     (if frames br = [] then Some 0
      else do {
        raw \<leftarrow> raw_score cfg 0 (frames br);
        let m = min (blend_window cfg) (length (frames br));
        if m = 0 then Some 0
        else do {
          let start = length (frames br) - m;
          let unique = unique_provers (drop start (frames br));
          blend_scaled \<leftarrow> bigint_div (int unique * uint SCALE) (int m);
          bonus \<leftarrow> bigint_div (uint (beta_numer cfg) * blend_scaled) (uint (beta_denom cfg));
          bigint_div (raw * (uint SCALE + bonus)) (uint SCALE)
        }
      })"

subsection \<open>Choice\<close>

fun choice_loop :: "params \<Rightarrow> nat \<Rightarrow> branch list \<Rightarrow> nat \<times> int \<Rightarrow> (nat \<times> int) option" where
  "choice_loop cfg i [] best = Some best"
| "choice_loop cfg i (br # brs) (best_idx, best_score) =
     do {
       score \<leftarrow> branch_score br cfg;
       choice_loop cfg (i + 1) brs
         (if best_score + uint (epsilon cfg) < score then (i, score) else (best_idx, best_score))
     }"

definition fork_choice :: "branch list \<Rightarrow> params \<Rightarrow> nat \<Rightarrow> nat option" where
  "fork_choice branches cfg prev_choice =
     do {
       best_score \<leftarrow> (if prev_choice < length branches
                      then branch_score (branches ! prev_choice) cfg else Some 0);
       (best_idx, _) \<leftarrow> choice_loop cfg 0 branches (prev_choice, best_score);
       Some best_idx
     }"

subsection \<open>Arithmetic of the scores\<close>

lemma uint_SCALE: "uint SCALE = 2 ^ 64 - 1"
  by (simp add: SCALE_def u64_max_def unsigned_minus_1_eq_mask mask_eq_exp_minus_1)

lemma uint_SCALE_pos [simp]: "0 < uint SCALE" "uint SCALE \<noteq> 0"
  by (simp_all add: uint_SCALE)

lemma uint_le_SCALE: "uint (x :: u64) \<le> uint SCALE"
  using uint_lt2p [of x] by (simp add: uint_SCALE)

lemma clamp_SCALE [simp]: "u64_clamp x 0 SCALE = x"
  by (simp add: u64_clamp_def SCALE_def)

lemma rho_scaled_Some:
  assumes "0 < rmax"
  shows "\<exists>\<rho>. rho_scaled rank rmax = Some \<rho> \<and>
    uint \<rho> = max 0 (min (uint SCALE) (bigint_quot ((rmax - rank) * uint SCALE) rmax))"
proof -
  let ?q = "bigint_quot ((rmax - rank) * uint SCALE) rmax"
  have "uint (word_of_int ?q :: u64) = ?q" if "0 \<le> ?q" "?q \<le> uint SCALE"
    using that by (simp add: uint_word_of_int uint_SCALE take_bit_int_eq_self)
  with assms show ?thesis
    by (auto simp: rho_scaled_def bigint_div_def min_def max_def uint_SCALE)
qed

definition params_ok :: "params \<Rightarrow> bool" where
  "params_ok cfg \<longleftrightarrow> 0 < r_max cfg \<and> 0 < w_denom cfg \<and> 0 < al_denom cfg \<and> 0 < beta_denom cfg"

lemma word_pos_uint: "0 < (x :: u64) \<Longrightarrow> 0 < uint x"
  by (simp add: word_less_def)

lemma frame_score_nonneg:
  assumes "params_ok cfg"
  shows "\<exists>s. frame_score cfg f = Some s \<and> 0 \<le> s"
proof -
  from assms obtain \<rho> where "rho_scaled (distance f) (r_max cfg) = Some \<rho>"
    using rho_scaled_Some by (meson params_ok_def)
  moreover have "0 < uint (w_denom cfg)"
    using assms by (simp add: params_ok_def word_pos_uint)
  ultimately show ?thesis
    by (simp add: frame_score_def bigint_div_def pos_imp_zdiv_nonneg_iff)
qed

lemma raw_score_nonneg:
  assumes "params_ok cfg" "0 \<le> raw"
  shows "\<exists>s. raw_score cfg raw fs = Some s \<and> 0 \<le> s"
  using assms(2)
proof (induction fs arbitrary: raw)
  case Nil
  then show ?case by simp
next
  case (Cons f fs)
  obtain s where s: "frame_score cfg f = Some s" "0 \<le> s"
    using frame_score_nonneg [OF assms(1)] by blast
  have al: "0 < uint (al_denom cfg)"
    using assms(1) by (simp add: params_ok_def word_pos_uint)
  have "0 \<le> raw * uint (al_numer cfg) div uint (al_denom cfg) + s"
    using Cons.prems s(2) al by (simp add: pos_imp_zdiv_nonneg_iff)
  from Cons.IH [OF this] show ?case
    using s al Cons.prems by (auto simp: bigint_div_def)
qed

lemma branch_score_nonneg:
  assumes "params_ok cfg"
  shows "\<exists>s. branch_score br cfg = Some s \<and> 0 \<le> s"
proof -
  obtain raw where raw: "raw_score cfg 0 (frames br) = Some raw" "0 \<le> raw"
    using raw_score_nonneg [OF assms, of 0] by auto
  have "0 < uint (beta_denom cfg)"
    using assms by (simp add: params_ok_def word_pos_uint)
  with raw show ?thesis
    by (cases "min (blend_window cfg) (length (frames br)) = 0")
      (simp_all add: branch_score_def bigint_div_def Let_def pos_imp_zdiv_nonneg_iff)
qed

text \<open>The score as a total function, for the parameters it is defined at.\<close>

definition score_of :: "params \<Rightarrow> branch \<Rightarrow> int" where
  "score_of cfg br = (case branch_score br cfg of Some s \<Rightarrow> s | None \<Rightarrow> 0)"

lemma score_of_Some: "params_ok cfg \<Longrightarrow> branch_score br cfg = Some (score_of cfg br)"
  using branch_score_nonneg [of cfg br] by (auto simp: score_of_def)

lemma score_of_nonneg: "params_ok cfg \<Longrightarrow> 0 \<le> score_of cfg br"
  using branch_score_nonneg [of cfg br] by (auto simp: score_of_def)

lemma choice_loop_spec:
  assumes "params_ok cfg"
  shows "\<exists>k s. choice_loop cfg i brs (bi, bs) = Some (k, s) \<and> bs \<le> s \<and>
    (\<forall>br \<in> set brs. score_of cfg br \<le> s + uint (epsilon cfg)) \<and>
    ((k, s) = (bi, bs) \<or>
     (\<exists>j < length brs. k = i + j \<and> s = score_of cfg (brs ! j) \<and> bs + uint (epsilon cfg) < s))"
proof (induction brs arbitrary: i bi bs)
  case Nil
  then show ?case by simp
next
  case (Cons br brs)
  define e where "e = uint (epsilon cfg)"
  have e: "0 \<le> e" by (simp add: e_def)
  let ?b = "if bs + e < score_of cfg br then (i, score_of cfg br) else (bi, bs)"
  obtain k s where ks: "choice_loop cfg (Suc i) brs ?b = Some (k, s)" "snd ?b \<le> s"
      "\<forall>br \<in> set brs. score_of cfg br \<le> s + e"
      "(k, s) = ?b \<or> (\<exists>j < length brs. k = Suc i + j \<and> s = score_of cfg (brs ! j) \<and> snd ?b + e < s)"
    using Cons.IH [of "Suc i" "fst ?b" "snd ?b"] by (auto simp: e_def)
  have "choice_loop cfg i (br # brs) (bi, bs) = Some (k, s)"
    using ks(1) by (simp add: score_of_Some [OF assms] flip: e_def)
  moreover have "bs \<le> s" using ks(2) e by (auto split: if_splits)
  moreover have "score_of cfg br \<le> s + e" using ks(2) e by (auto split: if_splits)
  moreover have "(k, s) = (bi, bs) \<or>
     (\<exists>j < length (br # brs). k = i + j \<and> s = score_of cfg ((br # brs) ! j) \<and> bs + e < s)"
    using ks(4)
  proof
    assume "(k, s) = ?b"
    then show ?thesis by (auto split: if_splits)
  next
    assume "\<exists>j < length brs. k = Suc i + j \<and> s = score_of cfg (brs ! j) \<and> snd ?b + e < s"
    then obtain j where "j < length brs" "k = Suc i + j" "s = score_of cfg (brs ! j)"
        "snd ?b + e < s" by blast
    then show ?thesis using e
      by (intro disjI2 exI [of _ "Suc j"]) (auto split: if_splits)
  qed
  ultimately show ?case using ks(3) by (auto simp flip: e_def)
qed

text \<open>
  The raw score of the default parameters stays below ten times \<^verbatim>\<open>SCALE\<close>: the decay of
  nine tenths leaves room for one frame score per step.
\<close>

lemma default_params_ok: "params_ok default_params"
  by (simp add: params_ok_def default_params_def u64_max_def unsigned_minus_1_eq_mask
      mask_eq_exp_minus_1)

lemma frame_score_default_le:
  assumes "frame_score default_params f = Some s"
  shows "s \<le> uint SCALE"
proof -
  obtain \<rho> where \<rho>: "rho_scaled (distance f) (r_max default_params) = Some \<rho>"
    using assms by (auto simp: frame_score_def split: bind_splits)
  with assms have "s = (7 * uint \<rho> + 3 * uint (seniority f)) div 10"
    by (simp add: frame_score_def bigint_div_def default_params_def)
  also have "\<dots> \<le> (10 * uint SCALE) div 10"
    using uint_le_SCALE [of \<rho>] uint_le_SCALE [of "seniority f"] by (intro zdiv_mono1) auto
  finally show ?thesis by simp
qed

lemma raw_score_default_le:
  assumes "raw_score default_params raw fs = Some s" "0 \<le> raw" "raw \<le> 10 * uint SCALE"
  shows "s \<le> 10 * uint SCALE"
  using assms
proof (induction fs arbitrary: raw)
  case Nil
  then show ?case by simp
next
  case (Cons f fs)
  obtain t where t: "frame_score default_params f = Some t" "0 \<le> t"
    using frame_score_nonneg [OF default_params_ok] by blast
  have "raw * 9 div 10 + t \<le> 10 * uint SCALE"
    using Cons.prems(3) frame_score_default_le [OF t(1)] by linarith
  moreover have "0 \<le> raw * 9 div 10 + t" using Cons.prems(2) t(2) by simp
  moreover have "raw_score default_params (raw * 9 div 10 + t) fs = Some s"
    using Cons.prems(1,2) t(1) by (simp add: bigint_div_def) (simp add: default_params_def)
  ultimately show ?case by (intro Cons.IH)
qed

lemma unique_provers_le: "unique_provers fs \<le> length fs"
proof -
  have "unique_provers fs \<le> length (filter (\<lambda>f. 0 < seniority f) fs)"
    unfolding unique_provers_def by (metis length_map length_remdups_leq)
  also have "\<dots> \<le> length fs" by simp
  finally show ?thesis .
qed

lemma score_of_default_le: "score_of default_params br \<le> 11 * uint SCALE"
proof (cases "frames br = []")
  case True
  then show ?thesis by (simp add: score_of_def branch_score_def)
next
  case False
  define m where "m = min 5 (length (frames br))"
  define u where "u = unique_provers (drop (length (frames br) - m) (frames br))"
  have m: "0 < m" "m \<le> length (frames br)" using False by (auto simp: m_def)
  have "u \<le> m" unfolding u_def using unique_provers_le [of "drop (length (frames br) - m) (frames br)"] m
    by simp
  obtain raw where raw: "raw_score default_params 0 (frames br) = Some raw" "0 \<le> raw"
    using raw_score_nonneg [OF default_params_ok, of 0] by auto
  have raw_le: "raw \<le> 10 * uint SCALE" using raw_score_default_le [OF raw(1)] by simp
  define b where "b = int u * uint SCALE div int m"
  have "b \<le> int m * uint SCALE div int m"
    unfolding b_def using \<open>u \<le> m\<close> m by (intro zdiv_mono1 mult_right_mono) auto
  then have "b \<le> uint SCALE" using m by simp
  then have "uint SCALE + b div 10 \<le> uint SCALE + uint SCALE div 10" by (simp add: zdiv_mono1)
  then have "raw * (uint SCALE + b div 10) \<le> raw * (uint SCALE + uint SCALE div 10)"
    using raw(2) by (rule mult_left_mono)
  also have "\<dots> \<le> 10 * uint SCALE * (uint SCALE + uint SCALE div 10)"
    using raw_le by (intro mult_right_mono) (auto simp: uint_SCALE)
  also have "\<dots> \<le> (11 * uint SCALE) * uint SCALE"
    by (simp add: uint_SCALE)
  finally have "raw * (uint SCALE + b div 10) div uint SCALE \<le> (11 * uint SCALE) * uint SCALE div uint SCALE"
    by (rule zdiv_mono1) simp
  then have le: "raw * (uint SCALE + b div 10) div uint SCALE \<le> 11 * uint SCALE" by simp
  have b0: "0 \<le> b" unfolding b_def using m by (simp add: pos_imp_zdiv_nonneg_iff)
  have "branch_score br default_params = Some (raw * (uint SCALE + b div 10) div uint SCALE)"
    using False raw m b0
    by (simp add: branch_score_def Let_def bigint_div_def)
      (simp add: default_params_def flip: m_def u_def b_def)
  with le show ?thesis by (simp add: score_of_def)
qed

subsection \<open>The interface of a choice with hysteresis\<close>

text \<open>
  What a client may rely on when it asks for the branch to extend: the answer is a branch
  of the list, no branch beats it by more than the margin, and a changed answer beats the
  previous one by more than the margin.
\<close>

locale hysteresis_choice =
  fixes pick :: "'b list \<Rightarrow> nat \<Rightarrow> nat option"
    and score :: "'b \<Rightarrow> int"
    and margin :: int
  assumes margin_nonneg: "0 \<le> margin"
    and pick_spec: "prev < length bs \<Longrightarrow>
      \<exists>k < length bs. pick bs prev = Some k \<and>
        (\<forall>b \<in> set bs. score b \<le> score (bs ! k) + margin) \<and>
        (k \<noteq> prev \<longrightarrow> score (bs ! prev) + margin < score (bs ! k))"
begin

lemma pick_keeps_good_enough:
  assumes "prev < length bs" "\<forall>b \<in> set bs. score b \<le> score (bs ! prev) + margin"
  shows "pick bs prev = Some prev"
proof -
  from pick_spec [OF assms(1)] obtain k where k: "k < length bs" "pick bs prev = Some k"
      "k \<noteq> prev \<longrightarrow> score (bs ! prev) + margin < score (bs ! k)" by blast
  moreover have "score (bs ! k) \<le> score (bs ! prev) + margin"
    using assms(2) k(1) by simp
  ultimately show ?thesis by fastforce
qed

lemma pick_in_range: "prev < length bs \<Longrightarrow> \<exists>k < length bs. pick bs prev = Some k"
  using pick_spec by blast

lemma pick_settles:
  assumes "prev < length bs" "pick bs prev = Some k"
  shows "pick bs k = Some k"
  using pick_spec [OF assms(1)] assms(2)
  by (auto intro!: pick_keeps_good_enough)

end

lemma fork_choice_spec:
  assumes "params_ok cfg" "prev < length bs"
  shows "\<exists>k < length bs. fork_choice bs cfg prev = Some k \<and>
    (\<forall>b \<in> set bs. score_of cfg b \<le> score_of cfg (bs ! k) + uint (epsilon cfg)) \<and>
    (k \<noteq> prev \<longrightarrow> score_of cfg (bs ! prev) + uint (epsilon cfg) < score_of cfg (bs ! k))"
  using choice_loop_spec [OF assms(1), of 0 bs prev "score_of cfg (bs ! prev)"] assms(2)
  by (auto simp: fork_choice_def score_of_Some [OF assms(1)])

interpretation default_choice: hysteresis_choice
  "\<lambda>bs prev. fork_choice bs default_params prev" "score_of default_params" 0
proof
  show "\<exists>k < length bs. fork_choice bs default_params prev = Some k \<and>
      (\<forall>b \<in> set bs. score_of default_params b \<le> score_of default_params (bs ! k) + 0) \<and>
      (k \<noteq> prev \<longrightarrow> score_of default_params (bs ! prev) + 0 < score_of default_params (bs ! k))"
    if "prev < length bs" for prev bs
  proof -
    have "uint (epsilon default_params) = 0" by (simp add: default_params_def)
    with fork_choice_spec [OF default_params_ok that] show ?thesis by simp
  qed
qed simp

subsection \<open>Properties\<close>

text \<open>C22. Fork choice is total, optimal up to the margin, and sticky: with non-zero
  denominators and a previous choice inside the list, it returns a branch of the list, no
  branch scores more than the margin above it, and it differs from the previous choice only
  if it beats the previous choice by strictly more than the margin.\<close>

theorem fork_choice_optimal_and_sticky:
  assumes "params_ok cfg" and "prev < length bs"
  shows "\<exists>k s. fork_choice bs cfg prev = Some k \<and> k < length bs \<and>
    branch_score (bs ! k) cfg = Some s \<and>
    (\<forall>i < length bs. \<exists>t. branch_score (bs ! i) cfg = Some t \<and> t \<le> s + uint (epsilon cfg) \<and>
       (i = prev \<and> k \<noteq> prev \<longrightarrow> t + uint (epsilon cfg) < s))"
proof -
  obtain k where "k < length bs" "fork_choice bs cfg prev = Some k"
      "\<forall>b \<in> set bs. score_of cfg b \<le> score_of cfg (bs ! k) + uint (epsilon cfg)"
      "k \<noteq> prev \<longrightarrow> score_of cfg (bs ! prev) + uint (epsilon cfg) < score_of cfg (bs ! k)"
    using fork_choice_spec [OF assms] by blast
  then show ?thesis
    by (intro exI [of _ k] exI [of _ "score_of cfg (bs ! k)"])
      (auto simp: score_of_Some [OF assms(1)])
qed

text \<open>Two one-frame branches; the second is extended by an active prover.\<close>

definition sample_branches :: "branch list" where
  "sample_branches =
     [\<lparr>frames = [\<lparr>distance = 0, seniority = 0, prover_address = [1]\<rparr>]\<rparr>,
      \<lparr>frames = [\<lparr>distance = 0, seniority = 1000, prover_address = [2]\<rparr>]\<rparr>]"

theorem fork_choice_optimal_and_sticky_witness:
  "\<exists>k s. fork_choice sample_branches default_params 0 = Some k \<and> k < length sample_branches \<and>
    branch_score (sample_branches ! k) default_params = Some s \<and>
    (\<forall>i < length sample_branches. \<exists>t. branch_score (sample_branches ! i) default_params = Some t \<and>
       t \<le> s + uint (epsilon default_params) \<and>
       (i = 0 \<and> k \<noteq> 0 \<longrightarrow> t + uint (epsilon default_params) < s))"
  by (rule fork_choice_optimal_and_sticky [OF default_params_ok])
    (simp add: sample_branches_def)

text \<open>Under the default parameters every branch has a score between zero and eleven times
  \<^verbatim>\<open>SCALE\<close>, however long it is, and fork choice from any branch settles: asking again
  with the answer as the previous choice gives the same answer.\<close>

theorem fork_choice_default_bounded_and_settled:
  assumes "prev < length bs"
  shows "(\<forall>b. \<exists>s. branch_score b default_params = Some s \<and> 0 \<le> s \<and> s \<le> 11 * (2 ^ 64 - 1)) \<and>
    (\<exists>k. fork_choice bs default_params prev = Some k \<and> fork_choice bs default_params k = Some k)"
proof
  show "\<forall>b. \<exists>s. branch_score b default_params = Some s \<and> 0 \<le> s \<and> s \<le> 11 * (2 ^ 64 - 1)"
    using score_of_Some [OF default_params_ok] score_of_nonneg [OF default_params_ok]
      score_of_default_le by (metis uint_SCALE)
  show "\<exists>k. fork_choice bs default_params prev = Some k \<and> fork_choice bs default_params k = Some k"
    using default_choice.pick_in_range [OF assms] default_choice.pick_settles [OF assms] by blast
qed

theorem fork_choice_default_bounded_and_settled_witness:
  "(\<forall>b. \<exists>s. branch_score b default_params = Some s \<and> 0 \<le> s \<and> s \<le> 11 * (2 ^ 64 - 1)) \<and>
    (\<exists>k. fork_choice sample_branches default_params 0 = Some k \<and>
         fork_choice sample_branches default_params k = Some k)"
  by (rule fork_choice_default_bounded_and_settled) (simp add: sample_branches_def)

text \<open>A previous choice outside the list is not ignored: when no branch scores more than the
  margin, fork choice returns that out-of-range index unchanged, so a caller that
  indexes with the answer must pass an index of the list.\<close>

theorem fork_choice_returns_stale_index:
  assumes "params_ok cfg" and "length bs \<le> prev"
    and "\<forall>b \<in> set bs. \<forall>s. branch_score b cfg = Some s \<longrightarrow> s \<le> uint (epsilon cfg)"
  shows "fork_choice bs cfg prev = Some prev"
proof -
  obtain k s where ks: "choice_loop cfg 0 bs (prev, 0) = Some (k, s)"
      "(k, s) = (prev, 0) \<or> (\<exists>j < length bs. k = j \<and> s = score_of cfg (bs ! j) \<and> uint (epsilon cfg) < s)"
    using choice_loop_spec [OF assms(1), of 0 bs prev 0] by auto
  have "\<not> (\<exists>j < length bs. uint (epsilon cfg) < score_of cfg (bs ! j))"
    using assms(3) score_of_Some [OF assms(1)] by (auto simp: not_less) (metis not_less nth_mem)
  with ks have "k = prev" by auto
  with ks(1) assms(2) show ?thesis by (simp add: fork_choice_def)
qed

theorem fork_choice_returns_stale_index_witness:
  "fork_choice [\<lparr>frames = []\<rparr>] default_params 7 = Some 7"
  by (rule fork_choice_returns_stale_index [OF default_params_ok])
    (simp_all add: branch_score_def)

end
