(* ===== verification/Byte_Codec.thy ===== *)
theory Byte_Codec
  imports Prelude
begin

text \<open>
  Big-endian integers and length-prefixed fields, the building blocks of the binary formats of
  the crates. A reader takes the bytes that are left and returns a value with the
  bytes after it, as a cursor does; \<open>try_then\<close> is Rust's question mark. The
  contract between a writer and its reader is the locale \<open>codec\<close>, and \<open>sized_reader\<close>
  says that a reader never produces more than it consumed.
\<close>

subsection \<open>Readers and writers\<close>

definition try_then :: "'a result \<Rightarrow> ('a \<Rightarrow> 'b result) \<Rightarrow> 'b result" where
  "try_then r f = (case r of Err e \<Rightarrow> Err e | Ok x \<Rightarrow> f x)"

lemma try_then_simps [simp]: "try_then (Ok x) f = f x" "try_then (Err e) f = Err e"
  by (simp_all add: try_then_def)

lemma try_then_Ok: "try_then r f = Ok y \<longleftrightarrow> (\<exists>x. r = Ok x \<and> f x = Ok y)"
  by (cases r) simp_all

lemma try_then_cong [fundef_cong]:
  "r = r' \<Longrightarrow> (\<And>x. r' = Ok x \<Longrightarrow> f x = g x) \<Longrightarrow> try_then r f = try_then r' g"
  by (cases r') simp_all

fun be_bytes :: "nat \<Rightarrow> nat \<Rightarrow> bytes" where
  "be_bytes 0 x = []"
| "be_bytes (Suc n) x = be_bytes n (x div 256) @ [of_nat x]"

definition from_be :: "bytes \<Rightarrow> nat" where
  "from_be bs = foldl (\<lambda>a b. 256 * a + unat b) 0 bs"

definition read_exact :: "nat \<Rightarrow> bytes \<Rightarrow> (bytes \<times> bytes) result" where
  "read_exact n bs = (if length bs < n then Err Serialization else Ok (take n bs, drop n bs))"

definition read_u8 :: "bytes \<Rightarrow> (u8 \<times> bytes) result" where
  "read_u8 bs = (case bs of [] \<Rightarrow> Err Serialization | b # r \<Rightarrow> Ok (b, r))"

definition read_u32 :: "bytes \<Rightarrow> (u32 \<times> bytes) result" where
  "read_u32 bs = try_then (read_exact 4 bs) (\<lambda>(b, r). Ok (of_nat (from_be b), r))"

definition read_i32 :: "bytes \<Rightarrow> (int \<times> bytes) result" where
  "read_i32 bs = try_then (read_u32 bs) (\<lambda>(w, r). Ok (sint w, r))"

definition read_u64 :: "bytes \<Rightarrow> (u64 \<times> bytes) result" where
  "read_u64 bs = try_then (read_exact 8 bs) (\<lambda>(b, r). Ok (of_nat (from_be b), r))"

definition write_u32 :: "u32 \<Rightarrow> bytes" where
  "write_u32 w = be_bytes 4 (unat w)"

definition write_i32 :: "int \<Rightarrow> bytes" where
  "write_i32 p = write_u32 (word_of_int p)"

definition write_u64 :: "u64 \<Rightarrow> bytes" where
  "write_u64 w = be_bytes 8 (unat w)"

definition write_field :: "bytes \<Rightarrow> bytes" where
  "write_field d = write_u64 (of_nat (length d)) @ d"

definition read_field :: "nat \<Rightarrow> bytes \<Rightarrow> (bytes \<times> bytes) result" where
  "read_field cap bs =
     try_then (read_u64 bs) (\<lambda>(len, r). if cap < unat len then Err Serialization else read_exact (unat len) r)"

fun read_n :: "(bytes \<Rightarrow> ('a \<times> bytes) result) \<Rightarrow> nat \<Rightarrow> bytes \<Rightarrow> ('a list \<times> bytes) result" where
  "read_n rd 0 bs = Ok ([], bs)"
| "read_n rd (Suc n) bs =
     try_then (rd bs) (\<lambda>(x, r). try_then (read_n rd n r) (\<lambda>(xs, r'). Ok (x # xs, r')))"

subsection \<open>Contracts\<close>

locale codec =
  fixes enc :: "'a \<Rightarrow> bytes"
    and rd :: "bytes \<Rightarrow> ('b \<times> bytes) result"
    and fits :: "'a \<Rightarrow> bool"
    and norm :: "'a \<Rightarrow> 'b"
  assumes read_write: "fits x \<Longrightarrow> rd (enc x @ rest) = Ok (norm x, rest)"
begin

lemma read_n_write:
  "list_all fits xs \<Longrightarrow> read_n rd (length xs) (concat (map enc xs) @ rest) = Ok (map norm xs, rest)"
  by (induction xs) (simp_all add: read_write)

lemma unambiguous:
  assumes "fits x" "fits y" "enc x @ r = enc y @ s"
  shows "norm x = norm y \<and> r = s"
  using read_write [OF assms(1), of r] read_write [OF assms(2), of s] assms(3) by simp

end

locale sized_reader =
  fixes rd :: "bytes \<Rightarrow> ('b \<times> bytes) result"
    and weight :: "'b \<Rightarrow> nat"
  assumes consumes: "rd bs = Ok (x, rest) \<Longrightarrow> weight x + length rest \<le> length bs"
begin

lemma consumes_n:
  "read_n rd n bs = Ok (xs, rest) \<Longrightarrow> sum_list (map weight xs) + length rest \<le> length bs \<and> length xs = n"
proof (induction n arbitrary: bs xs)
  case (Suc n)
  from Suc.prems obtain x ys r where x: "rd bs = Ok (x, r)" "read_n rd n r = Ok (ys, rest)" "xs = x # ys"
    by (auto simp: try_then_Ok)
  with Suc.IH [OF x(2)] consumes [OF x(1)] show ?case by simp
qed simp

end

subsection \<open>Integers\<close>

lemma length_be_bytes [simp]: "length (be_bytes n x) = n"
  by (induction n arbitrary: x) simp_all

lemma from_be_snoc: "from_be (bs @ [b]) = 256 * from_be bs + unat b"
  by (simp add: from_be_def)

lemma from_be_bytes: "from_be (be_bytes n x) = x mod 256 ^ n"
proof (induction n arbitrary: x)
  case 0
  then show ?case by (simp add: from_be_def)
next
  case (Suc n)
  have "x mod 256 ^ Suc n = 256 * (x div 256 mod 256 ^ n) + x mod 256"
    using mod_mult2_eq [of x 256 "256 ^ n"] by simp
  then show ?case using Suc by (simp add: from_be_snoc unat_of_nat)
qed

lemma be_from_bytes: "be_bytes (length bs) (from_be bs) = bs"
proof (induction bs rule: rev_induct)
  case (snoc b bs)
  have "unat b < 256" using unsigned_less [of b] by simp
  then have "(256 * from_be bs + unat b) div 256 = from_be bs" by simp
  moreover have "(of_nat (256 * from_be bs + unat b) :: byte) = b"
    by (simp add: word_unat_eq_iff unat_word_ariths unat_of_nat \<open>unat b < 256\<close>)
  ultimately show ?case using snoc by (simp add: from_be_snoc)
qed simp

lemma from_be_less: "from_be bs < 256 ^ length bs"
proof -
  have "from_be bs = from_be bs mod 256 ^ length bs"
    using from_be_bytes [of "length bs" "from_be bs"] by (simp add: be_from_bytes)
  also have "\<dots> < 256 ^ length bs" by simp
  finally show ?thesis .
qed

lemma read_exact_append [simp]: "length b = n \<Longrightarrow> read_exact n (b @ r) = Ok (b, r)"
  by (simp add: read_exact_def)

lemma read_exact_consumes: "read_exact n bs = Ok (b, r) \<Longrightarrow> bs = b @ r \<and> length b = n"
  by (auto simp: read_exact_def split: if_splits)

lemma read_u8_Cons [simp]: "read_u8 (b # r) = Ok (b, r)"
  by (simp add: read_u8_def)

lemma read_u32_write [simp, codec_simps]: "read_u32 (write_u32 w @ r) = Ok (w, r)"
  using unat_u32_bound [of w]
  by (simp add: read_u32_def write_u32_def from_be_bytes)

lemma read_u64_write [simp, codec_simps]: "read_u64 (write_u64 w @ r) = Ok (w, r)"
  using unat_u64_bound [of w]
  by (simp add: read_u64_def write_u64_def from_be_bytes)

lemma read_i32_write [simp, codec_simps]:
  "- (2 ^ 31) \<le> p \<Longrightarrow> p < 2 ^ 31 \<Longrightarrow> read_i32 (write_i32 p @ r) = Ok (p, r)"
  by (simp add: read_i32_def write_i32_def signed_of_int signed_take_bit_int_eq_self)

lemma read_field_write [simp, codec_simps]:
  assumes "length d \<le> cap" "cap < 2 ^ 64"
  shows "read_field cap (write_field d @ r) = Ok (d, r)"
  using assms by (simp add: read_field_def write_field_def unat_of_nat)

lemma read_field_oversized:
  assumes "cap < length d" "length d < 2 ^ 64"
  shows "read_field cap (write_field d @ r) = Err Serialization"
  using assms by (simp add: read_field_def write_field_def unat_of_nat)

interpretation word32: codec write_u32 read_u32 "\<lambda>_. True" id
  by unfold_locales simp

interpretation word64: codec write_u64 read_u64 "\<lambda>_. True" id
  by unfold_locales simp

interpretation int32: codec write_i32 read_i32 "\<lambda>p. - (2 ^ 31) \<le> p \<and> p < 2 ^ 31" id
  by unfold_locales simp

interpretation field: codec write_field "read_field cap" "\<lambda>d. length d \<le> cap \<and> cap < 2 ^ 64" id for cap
  by unfold_locales simp

lemma read_u32_consumes:
  assumes "read_u32 bs = Ok (w, r)"
  shows "bs = write_u32 w @ r"
proof -
  obtain b where b: "bs = b @ r" "length b = 4" "w = of_nat (from_be b)"
    using assms by (auto simp: read_u32_def try_then_Ok dest!: read_exact_consumes)
  then have "unat w = from_be b" using from_be_less [of b] by (simp add: unat_of_nat)
  with b be_from_bytes [of b] show ?thesis by (simp add: write_u32_def)
qed

lemma read_u64_consumes:
  assumes "read_u64 bs = Ok (w, r)"
  shows "bs = write_u64 w @ r"
proof -
  obtain b where b: "bs = b @ r" "length b = 8" "w = of_nat (from_be b)"
    using assms by (auto simp: read_u64_def try_then_Ok dest!: read_exact_consumes)
  then have "unat w = from_be b" using from_be_less [of b] by (simp add: unat_of_nat)
  with b be_from_bytes [of b] show ?thesis by (simp add: write_u64_def)
qed

lemma read_field_consumes: "read_field cap bs = Ok (d, r) \<Longrightarrow> bs = write_field d @ r \<and> length d \<le> cap"
  by (auto simp: read_field_def try_then_Ok write_field_def dest!: read_u64_consumes read_exact_consumes
      split: if_splits)

lemma length_writes [simp]:
  "length (write_u32 w) = 4" "length (write_u64 w') = 8" "length (write_i32 p) = 4"
  "length (write_field d) = 8 + length d"
  by (simp_all add: write_u32_def write_u64_def write_i32_def write_field_def)

interpretation field: sized_reader "read_field cap" length for cap
  by unfold_locales (auto dest!: read_field_consumes)

interpretation int32: sized_reader read_i32 "\<lambda>_. 4"
  by unfold_locales (auto simp: read_i32_def try_then_Ok dest!: read_u32_consumes)

end
