(* ===== verification/Nibble.thy ===== *)
theory Nibble
  imports Prelude "HOL-Library.Sublist"
begin

text \<open>
  Six-bit nibbles of a key (\<^verbatim>\<open>crates/quil-tries/src/nibble.rs\<close>). A key is read most
  significant bit first; the last nibble is padded with zero bits, and a
  position past the last byte reads as \<open>-1\<close>. The reference reading is \<open>key_bit\<close>, one bit
  at a time; the code shifts and masks whole bytes.
\<close>

subsection \<open>Operations\<close>

abbreviation (input) BRANCH_NODES :: nat where "BRANCH_NODES \<equiv> 64"
abbreviation (input) BRANCH_BITS :: nat where "BRANCH_BITS \<equiv> 6"
abbreviation (input) BRANCH_MASK :: nat where "BRANCH_MASK \<equiv> 63"

definition get_next_nibble :: "bytes \<Rightarrow> nat \<Rightarrow> int" where
  "get_next_nibble key pos =
     (let start_byte = pos div 8 in
      if length key \<le> start_byte then - 1
      else
        let start_bit = pos mod 8;
            bits_from_current_byte = 8 - start_bit;
            res = unat (key ! start_byte) AND (2 ^ bits_from_current_byte - 1)
        in if BRANCH_BITS \<le> bits_from_current_byte
           then int (drop_bit (bits_from_current_byte - BRANCH_BITS) res AND BRANCH_MASK)
           else
             let remaining_bits = BRANCH_BITS - bits_from_current_byte;
                 shifted = push_bit remaining_bits res;
                 filled = (if start_byte + 1 < length key
                           then shifted OR drop_bit (8 - remaining_bits) (unat (key ! (start_byte + 1)))
                           else shifted)
             in int (filled AND BRANCH_MASK))"

lemma get_next_nibble_past: "get_next_nibble key pos = - 1 \<longleftrightarrow> 8 * length key \<le> pos"
proof -
  have "(length key \<le> pos div 8) = (8 * length key \<le> pos)"
    by (simp add: less_eq_div_iff_mult_less_eq mult.commute)
  then show ?thesis by (auto simp: get_next_nibble_def Let_def)
qed

function full_path_from :: "bytes \<Rightarrow> nat \<Rightarrow> int list" where
  "full_path_from key depth =
     (let n = get_next_nibble key depth in
      if n = - 1 then [] else n # full_path_from key (depth + BRANCH_BITS))"
  by pat_completeness auto
termination
  by (relation "measure (\<lambda>(key, depth). 8 * length key - depth)")
    (auto simp: get_next_nibble_past)

definition get_full_path :: "bytes \<Rightarrow> int list" where
  "get_full_path key = full_path_from key 0"

function get_nibbles_until_diverge :: "bytes \<Rightarrow> bytes \<Rightarrow> nat \<Rightarrow> int list \<times> nat" where
  "get_nibbles_until_diverge key1 key2 depth =
     (let n1 = get_next_nibble key1 depth; n2 = get_next_nibble key2 depth in
      if n1 \<noteq> n2 \<or> n1 = - 1 then ([], depth)
      else let (nibbles, d) = get_nibbles_until_diverge key1 key2 (depth + BRANCH_BITS)
           in (n1 # nibbles, d))"
  by pat_completeness auto
termination
  by (relation "measure (\<lambda>(key1, key2, depth). 8 * length key1 - depth)")
    (auto simp: get_next_nibble_past)

declare full_path_from.simps [simp del] get_nibbles_until_diverge.simps [simp del]

subsection \<open>The bits of a key\<close>

definition key_bit :: "bytes \<Rightarrow> nat \<Rightarrow> bool" where
  "key_bit key i \<longleftrightarrow> i < 8 * length key \<and> bit (key ! (i div 8)) (7 - i mod 8)"

lemma nat_ones_mask: "(2 :: nat) ^ k - Suc 0 = mask k" "(63 :: nat) = mask 6"
  by (simp_all add: mask_eq_exp_minus_1)

lemma div_mod_split8: "r < 8 \<Longrightarrow> p = 8 * b + r \<Longrightarrow> p div 8 = b \<and> p mod 8 = (r :: nat)"
  by simp

lemma bit_nibble_nat:
  assumes "pos < 8 * length key"
  shows "bit (nat (get_next_nibble key pos)) n \<longleftrightarrow> n < 6 \<and> key_bit key (pos + 5 - n)"
proof -
  define b s where "b = pos div 8" and "s = pos mod 8"
  have s: "s < 8" and pos: "pos = 8 * b + s" by (simp_all add: b_def s_def)
  have b: "b < length key" using assms by (simp add: b_def less_mult_imp_div_less mult.commute)
  show ?thesis
  proof (cases "s \<le> 2")
    case True
    have "bit (nat (get_next_nibble key pos)) n \<longleftrightarrow> n < 6 \<and> bit (key ! b) (2 - s + n)"
      using True b unfolding get_next_nibble_def
      by (auto simp: Let_def nat_ones_mask bit_simps not_le simp flip: b_def s_def)
    moreover have "key_bit key (pos + 5 - n) \<longleftrightarrow> bit (key ! b) (2 - s + n)" if "n < 6"
    proof -
      have "(pos + 5 - n) div 8 = b \<and> (pos + 5 - n) mod 8 = s + 5 - n"
        by (rule div_mod_split8) (use that True pos in linarith)+
      moreover have "7 - (s + 5 - n) = 2 - s + n" using that True by linarith
      moreover have "pos + 5 - n < 8 * length key" using that True pos b by linarith
      ultimately show ?thesis by (simp add: key_bit_def)
    qed
    ultimately show ?thesis by blast
  next
    case False
    have "bit (nat (get_next_nibble key pos)) n \<longleftrightarrow> n < 6 \<and>
        (if n < s - 2 then b + 1 < length key \<and> bit (key ! (b + 1)) (10 - s + n)
         else bit (key ! b) (n - (s - 2)))"
    proof -
      have "8 - (6 - (8 - s)) + n = 10 - s + n" "6 - (8 - s) = s - 2" using False s by linarith+
      moreover have "\<not> bit (key ! (b + 1)) (10 - s + n)" if "\<not> n < s - 2"
        using bit_imp_le_length [of "key ! (b + 1)" "10 - s + n"] that False s by auto
      ultimately show ?thesis
        using False b s unfolding get_next_nibble_def
        by (auto simp: Let_def nat_ones_mask bit_simps not_le simp flip: b_def s_def)
    qed
    moreover have "key_bit key (pos + 5 - n) \<longleftrightarrow>
        (if n < s - 2 then b + 1 < length key \<and> bit (key ! (b + 1)) (10 - s + n)
         else bit (key ! b) (n - (s - 2)))" if "n < 6"
    proof (cases "n < s - 2")
      case True
      have "(pos + 5 - n) div 8 = b + 1 \<and> (pos + 5 - n) mod 8 = s - 3 - n"
        by (rule div_mod_split8) (use that True False s pos in auto)
      moreover have "7 - (s - 3 - n) = 10 - s + n" using that True False s by linarith
      moreover have "pos + 5 - n < 8 * length key \<longleftrightarrow> b + 1 < length key"
        using that True False s pos by linarith
      ultimately show ?thesis using True by (simp add: key_bit_def)
    next
      case ge: False
      have "(pos + 5 - n) div 8 = b \<and> (pos + 5 - n) mod 8 = s + 5 - n"
        by (rule div_mod_split8) (use that ge False s pos in linarith)+
      moreover have "7 - (s + 5 - n) = n - (s - 2)" using that ge False s by linarith
      moreover have "pos + 5 - n < 8 * length key" using that ge False s pos b by linarith
      ultimately show ?thesis using ge by (simp add: key_bit_def)
    qed
    ultimately show ?thesis by blast
  qed
qed
lemma get_next_nibble_range:
  assumes "pos < 8 * length key"
  shows "0 \<le> get_next_nibble key pos" "get_next_nibble key pos < 64"
proof -
  have m: "(x :: nat) AND 63 < 64" for x
    using take_bit_nat_less_exp [of 6 x] by (simp add: nat_ones_mask(2) flip: take_bit_eq_mask)
  show "0 \<le> get_next_nibble key pos" "get_next_nibble key pos < 64"
    using assms m by (auto simp: get_next_nibble_def Let_def less_mult_imp_div_less mult.commute)
qed

subsection \<open>Paths\<close>

lemma ceil_div_step: "0 < (x :: nat) \<Longrightarrow> (x + 5) div 6 = Suc ((x - 6 + 5) div 6)"
  by (cases "6 \<le> x") (simp_all add: le_div_geq)

lemma full_path_from_nth:
  "length (full_path_from key d) = (8 * length key - d + 5) div 6 \<and>
   (\<forall>k < length (full_path_from key d). full_path_from key d ! k = get_next_nibble key (d + 6 * k))"
proof (induction key d rule: full_path_from.induct)
  case (1 key d)
  show ?case
  proof (cases "d < 8 * length key")
    case True
    then have step: "full_path_from key d = get_next_nibble key d # full_path_from key (d + 6)"
      by (subst full_path_from.simps) (simp add: Let_def get_next_nibble_past)
    have IH: "length (full_path_from key (d + 6)) = (8 * length key - (d + 6) + 5) div 6"
        "\<forall>k < length (full_path_from key (d + 6)).
           full_path_from key (d + 6) ! k = get_next_nibble key (d + 6 + 6 * k)"
      using "1.IH" True by (auto simp: get_next_nibble_past)
    have "(8 * length key - d + 5) div 6 = Suc ((8 * length key - (d + 6) + 5) div 6)"
      using True ceil_div_step [of "8 * length key - d"] by simp
    then have "length (full_path_from key d) = (8 * length key - d + 5) div 6"
      by (simp only: step list.size IH(1))
    then show ?thesis unfolding step using IH
      by (auto simp: nth_Cons add.assoc split: nat.split)
  next
    case False
    then have "full_path_from key d = []"
      by (subst full_path_from.simps) (simp add: Let_def get_next_nibble_past)
    with False show ?thesis by simp
  qed
qed

lemma length_full_path: "length (get_full_path key) = (8 * length key + 5) div 6"
  using full_path_from_nth [of key 0] by (simp add: get_full_path_def)

lemma nth_full_path: "k < length (get_full_path key) \<Longrightarrow> get_full_path key ! k = get_next_nibble key (6 * k)"
  using full_path_from_nth [of key 0] by (simp add: get_full_path_def)

lemma in_path_iff: "k < length (get_full_path key) \<longleftrightarrow> 6 * k < 8 * length key"
  unfolding length_full_path Suc_le_eq [symmetric] less_eq_div_iff_mult_less_eq [OF zero_less_numeral]
  by auto

lemma nibble_at:
  "get_next_nibble key (6 * k) = (if k < length (get_full_path key) then get_full_path key ! k else - 1)"
  using nth_full_path [of k key] get_next_nibble_past [of key "6 * k"] by (simp add: in_path_iff)

lemma path_range: "n \<in> set (get_full_path key) \<Longrightarrow> 0 \<le> n \<and> n < 64"
  using get_next_nibble_range [of "6 * _" key] by (auto simp: in_set_conv_nth nth_full_path in_path_iff)

lemma path_length_inj:
  assumes "(8 * a + 5) div 6 = (8 * b + 5) div (6 :: nat)"
  shows "a = b"
proof (rule ccontr)
  have less: "(8 * x + 5) div 6 < (8 * y + 5) div (6 :: nat)" if "x < y" for x y
    using div_le_mono [of "8 * x + 5 + 6" "8 * y + 5" 6] that by simp
  assume "a \<noteq> b"
  then show False using less [of a b] less [of b a] assms by (cases "a < b") auto
qed

lemma get_full_path_inject: "get_full_path k1 = get_full_path k2 \<longleftrightarrow> k1 = k2"
proof
  assume eq: "get_full_path k1 = get_full_path k2"
  then have len: "length k1 = length k2"
    by (metis length_full_path path_length_inj)
  have bits: "key_bit k1 i = key_bit k2 i" if "i < 8 * length k1" for i
  proof -
    let ?k = "i div 6"
    have k: "6 * ?k < 8 * length k1" using that by linarith
    have "get_next_nibble k1 (6 * ?k) = get_next_nibble k2 (6 * ?k)"
      using eq by (simp add: nibble_at)
    then have "bit (nat (get_next_nibble k1 (6 * ?k))) (5 - i mod 6)
             = bit (nat (get_next_nibble k2 (6 * ?k))) (5 - i mod 6)" by simp
    moreover have "6 * ?k + 5 - (5 - i mod 6) = i" "5 - i mod 6 < 6"
      using div_mult_mod_eq [of i 6] by linarith+
    ultimately show ?thesis using k len by (simp add: bit_nibble_nat)
  qed
  show "k1 = k2"
  proof (rule nth_equalityI [OF len])
    fix j assume j: "j < length k1"
    show "k1 ! j = k2 ! j"
    proof (rule bit_eqI)
      fix n assume "possible_bit TYPE(byte) n"
      then have n: "n < 8" by (simp add: possible_bit_word)
      have "(8 * j + (7 - n)) div 8 = j \<and> (8 * j + (7 - n)) mod 8 = 7 - n"
        by (rule div_mod_split8) simp_all
      with bits [of "8 * j + (7 - n)"] j len n show "bit (k1 ! j) n = bit (k2 ! j) n"
        by (simp add: key_bit_def)
    qed
  qed
qed simp

lemma nibbles_until_diverge:
  "get_nibbles_until_diverge k1 k2 (6 * d) =
     (let c = longest_common_prefix (drop d (get_full_path k1)) (drop d (get_full_path k2))
      in (c, 6 * (d + length c)))"
proof (induction "length (get_full_path k1) - d" arbitrary: d)
  case 0
  then have "get_next_nibble k1 (6 * d) = - 1" by (simp add: nibble_at)
  with 0 show ?case by (subst get_nibbles_until_diverge.simps) (simp add: Let_def)
next
  case (Suc m)
  then have d1: "d < length (get_full_path k1)" by simp
  then have n1: "get_next_nibble k1 (6 * d) = get_full_path k1 ! d" "get_full_path k1 ! d \<noteq> - 1"
    using path_range [of "get_full_path k1 ! d" k1] by (auto simp: nibble_at)
  show ?case
  proof (cases "d < length (get_full_path k2) \<and> get_full_path k1 ! d = get_full_path k2 ! d")
    case True
    then have "drop d (get_full_path k1) = get_full_path k1 ! d # drop (Suc d) (get_full_path k1)"
      "drop d (get_full_path k2) = get_full_path k1 ! d # drop (Suc d) (get_full_path k2)"
      using d1 by (metis Cons_nth_drop_Suc)+
    moreover have "m = length (get_full_path k1) - Suc d" using Suc.hyps(2) by simp
    then have "get_nibbles_until_diverge k1 k2 (6 * d + 6) =
       (let c = longest_common_prefix (drop (Suc d) (get_full_path k1)) (drop (Suc d) (get_full_path k2))
        in (c, 6 * (Suc d + length c)))"
      using Suc.hyps(1) [of "Suc d"] by (simp add: add.commute)
    ultimately show ?thesis
      using n1 True
      by (subst get_nibbles_until_diverge.simps) (simp add: Let_def nibble_at [of k2])
  next
    case False
    then have "get_next_nibble k1 (6 * d) \<noteq> get_next_nibble k2 (6 * d)"
      using n1 by (auto simp: nibble_at [of k2])
    moreover have "longest_common_prefix (drop d (get_full_path k1)) (drop d (get_full_path k2)) = []"
      using False d1 by (cases "d < length (get_full_path k2)") (auto simp flip: Cons_nth_drop_Suc)
    ultimately show ?thesis
      by (subst get_nibbles_until_diverge.simps) (simp add: Let_def)
  qed
qed

subsection \<open>Properties\<close>

text \<open>The shift-and-mask extraction of a nibble equals its reference definition: the six key
  bits from the position on, most significant first, with zero bits past the end of the key,
  and \<open>-1\<close> exactly when the position is past the last byte.\<close>

theorem get_next_nibble_reference:
  "get_next_nibble key pos =
     (if pos < 8 * length key
      then int (horner_sum of_bool 2 (map (\<lambda>j. key_bit key (pos + 5 - j)) [0..<6]))
      else - 1)"
proof (cases "pos < 8 * length key")
  case True
  let ?h = "horner_sum of_bool 2 (map (\<lambda>j. key_bit key (pos + 5 - j)) [0..<6]) :: nat"
  have "nat (get_next_nibble key pos) = ?h"
  proof (rule bit_eqI)
    fix n
    have "bit ?h n \<longleftrightarrow> n < 6 \<and> key_bit key (pos + 5 - n)"
      unfolding bit_horner_sum_bit_iff by (auto simp del: upt_rec_numeral)
    with True show "bit (nat (get_next_nibble key pos)) n \<longleftrightarrow> bit ?h n"
      by (simp only: bit_nibble_nat)
  qed
  then have "int (nat (get_next_nibble key pos)) = int ?h" by (rule arg_cong)
  with True get_next_nibble_range(1) [OF True] show ?thesis
    by (simp del: upt_rec_numeral)
next
  case False
  then show ?thesis by (simp add: get_next_nibble_past)
qed

end
