(* ===== verification/Trie_Node.thy ===== *)
theory Trie_Node
  imports Nibble
begin

text \<open>
  Nodes of the vector commitment tree (\<^verbatim>\<open>crates/quil-tries/src/node.rs\<close>): a leaf or a
  64-way branch with a compressed nibble prefix. A branch of the code is a struct with
  recursive children; here the children and the prefix are arguments of the constructor
  and the remaining fields are the record \<open>branch_meta\<close>. \<^verbatim>\<open>usize\<close> counters are
  64-bit words. The hash function and the commitment scheme are code outside the
  repository and are parameters: \<open>sha\<close> for SHA-512, \<open>commit_raw\<close> for the
  inclusion prover's commitment of a vector, \<open>None\<close> where it fails.
\<close>

subsection \<open>Data\<close>

record leaf_node =
  key :: bytes
  leaf_value :: bytes
  hash_target :: bytes
  leaf_commitment :: bytes
  leaf_size :: int

record branch_meta =
  branch_commitment :: bytes
  branch_size :: int
  leaf_count :: u64
  longest_branch :: u64
  full_prefix :: "int list"
  fully_loaded :: bool

datatype vc_node = Leaf leaf_node | Branch "int list" "vc_node option list" branch_meta

definition new_meta :: branch_meta where
  "new_meta = \<lparr>branch_commitment = [], branch_size = 0, leaf_count = 0, longest_branch = 0,
     full_prefix = [], fully_loaded = True\<rparr>"

definition new_branch :: "int list \<Rightarrow> vc_node" where
  "new_branch pre = Branch pre (replicate BRANCH_NODES None) new_meta"

text \<open>The child slot \<open>i\<close>; the array of the code has 64 slots, so no index is out of range.\<close>

definition child :: "vc_node option list \<Rightarrow> nat \<Rightarrow> vc_node option" where
  "child cs i = (if i < length cs then cs ! i else None)"

subsection \<open>Leaf operations\<close>

definition compute_commitment :: "(bytes \<Rightarrow> bytes) \<Rightarrow> leaf_node \<Rightarrow> leaf_node" where
  "compute_commitment sha l =
     l\<lparr>leaf_commitment :=
         sha ([0] @ key l @ (if hash_target l \<noteq> [] then hash_target l else leaf_value l))\<rparr>"

definition value_is_bound :: "leaf_node \<Rightarrow> bool" where
  "value_is_bound l = (hash_target l = [])"

definition leaf_commit :: "(bytes \<Rightarrow> bytes) \<Rightarrow> bool \<Rightarrow> leaf_node \<Rightarrow> leaf_node" where
  "leaf_commit sha recalculate l =
     (if recalculate \<or> leaf_commitment l = [] then compute_commitment sha l else l)"

subsection \<open>Branch operations\<close>

definition u32_be :: "int \<Rightarrow> bytes" where
  "u32_be p = (let w = (word_of_int p :: u32) in
     [ucast (drop_bit 24 w), ucast (drop_bit 16 w), ucast (drop_bit 8 w), ucast w])"

fun node_commitment :: "vc_node \<Rightarrow> bytes" where
  "node_commitment (Leaf l) = leaf_commitment l"
| "node_commitment (Branch pre cs m) = branch_commitment m"

fun node_size :: "vc_node \<Rightarrow> int" where
  "node_size (Leaf l) = leaf_size l"
| "node_size (Branch pre cs m) = branch_size m"

fun is_leaf :: "vc_node \<Rightarrow> bool" where
  "is_leaf (Leaf l) = True"
| "is_leaf (Branch pre cs m) = False"

definition is_branch :: "vc_node \<Rightarrow> bool" where
  "is_branch n = (\<not> is_leaf n)"

text \<open>What one child contributes to its parent's vector.\<close>

fun child_entry :: "(bytes \<Rightarrow> bytes) \<Rightarrow> vc_node option \<Rightarrow> bytes" where
  "child_entry sha None = replicate 64 0"
| "child_entry sha (Some (Leaf l)) = vec_resize (leaf_commitment l) 64 0"
| "child_entry sha (Some (Branch pre cs m)) =
     sha ([1] @ concat (map u32_be pre) @ branch_commitment m)"

definition get_polynomial :: "(bytes \<Rightarrow> bytes) \<Rightarrow> vc_node option list \<Rightarrow> bytes" where
  "get_polynomial sha cs = concat (map (\<lambda>c. vec_resize (child_entry sha c) 64 0) cs)"

definition branch_commit ::
  "(bytes \<Rightarrow> bytes) \<Rightarrow> (bytes \<Rightarrow> nat \<Rightarrow> bytes option) \<Rightarrow> bool \<Rightarrow> vc_node option list \<Rightarrow>
   branch_meta \<Rightarrow> branch_meta" where
  "branch_commit sha commit_raw recalculate cs m =
     (if \<not> recalculate \<and> branch_commitment m \<noteq> [] then m
      else m\<lparr>branch_commitment :=
               (case commit_raw (get_polynomial sha cs) 64 of
                  Some c \<Rightarrow> c | None \<Rightarrow> replicate 64 0)\<rparr>)"

definition child_count :: "vc_node option list \<Rightarrow> nat" where
  "child_count cs = length (filter (\<lambda>c. c \<noteq> None) cs)"

subsection \<open>Whole sub-trees\<close>

fun collect_leaves :: "vc_node \<Rightarrow> leaf_node list" where
  "collect_leaves (Leaf l) = [l]"
| "collect_leaves (Branch pre cs m) =
     concat (map (\<lambda>c. case c of None \<Rightarrow> [] | Some t \<Rightarrow> collect_leaves t) cs)"

fun first_some :: "'a option list \<Rightarrow> 'a option" where
  "first_some [] = None"
| "first_some (None # xs) = first_some xs"
| "first_some (Some x # xs) = Some x"

fun find_leaf_value :: "bytes \<Rightarrow> vc_node \<Rightarrow> bytes option" where
  "find_leaf_value target (Leaf l) = (if key l = target then Some (leaf_value l) else None)"
| "find_leaf_value target (Branch pre cs m) =
     first_some (map (\<lambda>c. case c of None \<Rightarrow> None | Some t \<Rightarrow> find_leaf_value target t) cs)"

fun has_unbound_value :: "vc_node \<Rightarrow> bool" where
  "has_unbound_value (Leaf l) = (\<not> value_is_bound l)"
| "has_unbound_value (Branch pre cs m) =
     list_ex (\<lambda>c. case c of None \<Rightarrow> False | Some t \<Rightarrow> has_unbound_value t) cs"

subsection \<open>Facts about children\<close>

lemma child_in_set: "child cs i = Some c \<Longrightarrow> Some c \<in> set cs"
  by (auto simp: child_def in_set_conv_nth split: if_splits)

lemma child_nth [simp]: "i < length cs \<Longrightarrow> child cs i = cs ! i"
  by (simp add: child_def)

lemma child_beyond [simp]: "length cs \<le> i \<Longrightarrow> child cs i = None"
  by (simp add: child_def)

lemma size_child_less:
  assumes "Some c \<in> set cs"
  shows "size c < size (Branch p cs m)"
  using assms by (induction cs) (auto simp: less_Suc_eq_le intro: le_trans)

lemma set_collect_leaves_Branch:
  "set (collect_leaves (Branch p cs m)) = (\<Union>t \<in> {t. Some t \<in> set cs}. set (collect_leaves t))"
  by (auto split: option.splits)

lemma first_some_None: "first_some xs = None \<longleftrightarrow> (\<forall>x \<in> set xs. x = None)"
  by (induction xs rule: first_some.induct) auto

lemma first_some_in: "first_some xs = Some x \<Longrightarrow> Some x \<in> set xs"
  by (induction xs rule: first_some.induct) auto

text \<open>A search finds a value exactly when some leaf carries the key.\<close>

lemma find_leaf_value_None:
  "find_leaf_value k t = None \<longleftrightarrow> (\<forall>l \<in> set (collect_leaves t). key l \<noteq> k)"
  by (induction t rule: collect_leaves.induct)
    (fastforce simp: first_some_None split: option.splits)+

lemma find_leaf_value_in:
  "find_leaf_value k t = Some v \<Longrightarrow> \<exists>l \<in> set (collect_leaves t). key l = k \<and> leaf_value l = v"
proof (induction t rule: collect_leaves.induct)
  case (1 l)
  then show ?case by (simp split: if_splits)
next
  case (2 pre cs m)
  from first_some_in [OF "2.prems" [simplified]] obtain t
    where "Some t \<in> set cs" "find_leaf_value k t = Some v"
    by (auto split: option.splits)
  with "2.IH" [of "Some t" t] show ?case by (auto intro!: bexI [of _ "Some t"])
qed

lemma has_unbound_value_iff:
  "has_unbound_value t \<longleftrightarrow> (\<exists>l \<in> set (collect_leaves t). hash_target l \<noteq> [])"
  by (induction t rule: collect_leaves.induct)
    (auto simp: value_is_bound_def list_ex_iff split: option.splits; force)+

end
