(* ===== verification/Commitment_Tree.thy ===== *)
theory Commitment_Tree
  imports Trie_Node
begin

text \<open>
  The in-memory vector commitment tree (\<^verbatim>\<open>crates/quil-tries/src/tree.rs\<close>): insertion,
  lookup, deletion with the collapse of single-child branches, commitment, and the traversal
  proof of a key. Depths are bit positions, as in the code; the proofs measure them
  in nibbles. \<^verbatim>\<open>commit_node\<close> splits its work over threads for large trees; the
  children are committed independently of each other, so the model commits them in order.
\<close>

subsection \<open>Operations\<close>

record vc_tree =
  root :: "vc_node option"

definition new_tree :: vc_tree where
  "new_tree = \<lparr>root = None\<rparr>"

definition new_leaf :: "(bytes \<Rightarrow> bytes) \<Rightarrow> bytes \<Rightarrow> bytes \<Rightarrow> bytes \<Rightarrow> int \<Rightarrow> leaf_node" where
  "new_leaf sha k v h s =
     compute_commitment sha
       \<lparr>key = k, leaf_value = v, hash_target = h, leaf_commitment = [], leaf_size = s\<rparr>"

text \<open>
  The prefix loop of every descent: the first prefix nibble that differs from the
  key's, with its index and the key's nibble there.
\<close>

fun first_mismatch :: "bytes \<Rightarrow> nat \<Rightarrow> int list \<Rightarrow> (nat \<times> int \<times> int) option" where
  "first_mismatch k d [] = None"
| "first_mismatch k d (p # ps) =
     (let n = get_next_nibble k d in
      if n \<noteq> p then Some (0, p, n)
      else map_option (\<lambda>(i, x). (Suc i, x)) (first_mismatch k (d + BRANCH_BITS) ps))"

definition child_leaf_count :: "vc_node option \<Rightarrow> u64" where
  "child_leaf_count c = (case c of None \<Rightarrow> 0 | Some (Leaf l) \<Rightarrow> 1 | Some (Branch p cs m) \<Rightarrow> leaf_count m)"

definition child_longest :: "vc_node option \<Rightarrow> u64" where
  "child_longest c =
     (case c of None \<Rightarrow> 0 | Some (Leaf l) \<Rightarrow> 0 | Some (Branch p cs m) \<Rightarrow> longest_branch m)"

definition refresh_meta :: "vc_node option list \<Rightarrow> branch_meta \<Rightarrow> branch_meta" where
  "refresh_meta cs m =
     m\<lparr>branch_commitment := [],
       leaf_count := sum_list (map child_leaf_count cs),
       longest_branch := 1 + fold max (map child_longest cs) 0\<rparr>"

definition split_leaf :: "(bytes \<Rightarrow> bytes) \<Rightarrow> leaf_node \<Rightarrow> leaf_node \<Rightarrow> nat \<Rightarrow> vc_node" where
  "split_leaf sha existing leaf d =
     (let (common, dd) = get_nibbles_until_diverge (key existing) (key leaf) d;
          n1 = get_next_nibble (key existing) dd;
          n2 = get_next_nibble (key leaf) dd;
          cs0 = replicate BRANCH_NODES None;
          cs1 = (if 0 \<le> n1 then cs0[nat n1 := Some (Leaf existing)] else cs0);
          cs2 = (if 0 \<le> n2 then cs1[nat n2 := Some (Leaf leaf)] else cs1)
      in Branch common cs2 (new_meta\<lparr>leaf_count := 2, branch_commitment := []\<rparr>))"

definition split_branch ::
  "int list \<Rightarrow> vc_node option list \<Rightarrow> branch_meta \<Rightarrow> nat \<Rightarrow> int \<Rightarrow> int \<Rightarrow> leaf_node \<Rightarrow> vc_node result" where
  "split_branch pre cs m i p n leaf =
     (if p < 0 \<or> int BRANCH_NODES \<le> p then Err Panic
      else
        let old = Branch (drop (Suc i) pre) cs (m\<lparr>branch_commitment := []\<rparr>);
            cs1 = (replicate BRANCH_NODES None)[nat p := Some old];
            cs2 = (if 0 \<le> n then cs1[nat n := Some (Leaf leaf)] else cs1)
        in Ok (Branch (take i pre) cs2
             (new_meta\<lparr>leaf_count := saturating_add (leaf_count m) 1,
                       longest_branch := saturating_add (longest_branch m) 1\<rparr>)))"

lemma size_child_option:
  "size_option size (child cs i) \<le> Suc (size_list (size_option size) cs)"
proof (cases "child cs i")
  case (Some c)
  then have "Some c \<in> set cs" by (rule child_in_set)
  then have "size_option size (Some c) < Suc (size_list (size_option size) cs)"
    by (induction cs) auto
  with Some show ?thesis by simp
qed simp

function (sequential) insert_recursive ::
  "(bytes \<Rightarrow> bytes) \<Rightarrow> vc_node option \<Rightarrow> bytes \<Rightarrow> bytes \<Rightarrow> bytes \<Rightarrow> int \<Rightarrow> nat \<Rightarrow> vc_node result" where
  "insert_recursive sha None k v h s d = Ok (Leaf (new_leaf sha k v h s))"
| "insert_recursive sha (Some (Leaf existing)) k v h s d =
     (if key existing = k then Ok (Leaf (new_leaf sha k v h s))
      else Ok (split_leaf sha existing (new_leaf sha k v h s) d))"
| "insert_recursive sha (Some (Branch pre cs m)) k v h s d =
     (case first_mismatch k d pre of
        Some (i, p, n) \<Rightarrow> split_branch pre cs m i p n (new_leaf sha k v h s)
      | None \<Rightarrow>
          let d' = d + BRANCH_BITS * length pre; nibble = get_next_nibble k d' in
          if nibble < 0 then Err InvalidArgument
          else
            (case insert_recursive sha (child cs (nat nibble)) k v h s (d' + BRANCH_BITS) of
               Err e \<Rightarrow> Err e
             | Ok c \<Rightarrow>
                 let cs' = cs[nat nibble := Some c] in Ok (Branch pre cs' (refresh_meta cs' m))))"
  by pat_completeness auto
termination
  by (relation "measure (\<lambda>(sha, n, k, v, h, s, d). size_option size n)")
    (auto simp: less_Suc_eq_le intro!: le_trans [OF size_child_option])

function (sequential) get_recursive :: "vc_node option \<Rightarrow> bytes \<Rightarrow> nat \<Rightarrow> leaf_node option" where
  "get_recursive None k d = None"
| "get_recursive (Some (Leaf leaf)) k d = (if key leaf = k then Some leaf else None)"
| "get_recursive (Some (Branch pre cs m)) k d =
     (case first_mismatch k d pre of
        Some _ \<Rightarrow> None
      | None \<Rightarrow>
          let d' = d + BRANCH_BITS * length pre; nibble = get_next_nibble k d' in
          if nibble < 0 then None
          else get_recursive (child cs (nat nibble)) k (d' + BRANCH_BITS))"
  by pat_completeness auto
termination
  by (relation "measure (\<lambda>(n, k, d). size_option size n)")
    (auto simp: less_Suc_eq_le intro!: le_trans [OF size_child_option])

fun merge_branch_with_child :: "int list \<Rightarrow> nat \<Rightarrow> vc_node \<Rightarrow> vc_node" where
  "merge_branch_with_child pre i (Leaf leaf) = Leaf leaf"
| "merge_branch_with_child pre i (Branch cpre ccs cm) =
     Branch (pre @ [int i] @ cpre) ccs (cm\<lparr>branch_commitment := []\<rparr>)"

definition remaining_slots :: "vc_node option list \<Rightarrow> nat list" where
  "remaining_slots cs = map fst (filter (\<lambda>(i, c). case c of None \<Rightarrow> False | Some _ \<Rightarrow> True) (List.enumerate 0 cs))"

definition collapse :: "int list \<Rightarrow> vc_node option list \<Rightarrow> branch_meta \<Rightarrow> vc_node option" where
  "collapse pre cs m =
     (case remaining_slots cs of
        [] \<Rightarrow> None
      | [i] \<Rightarrow> (case cs ! i of None \<Rightarrow> None | Some only \<Rightarrow> Some (merge_branch_with_child pre i only))
      | _ \<Rightarrow> Some (Branch pre cs (refresh_meta cs m)))"

function (sequential) delete_recursive :: "vc_node option \<Rightarrow> bytes \<Rightarrow> nat \<Rightarrow> bool \<times> vc_node option" where
  "delete_recursive None k d = (False, None)"
| "delete_recursive (Some (Leaf leaf)) k d =
     (if key leaf = k then (True, None) else (False, Some (Leaf leaf)))"
| "delete_recursive (Some (Branch pre cs m)) k d =
     (case first_mismatch k d pre of
        Some _ \<Rightarrow> (False, Some (Branch pre cs m))
      | None \<Rightarrow>
          let d' = d + BRANCH_BITS * length pre; nibble = get_next_nibble k d' in
          if nibble < 0 then (False, Some (Branch pre cs m))
          else
            let (found, new_child) = delete_recursive (child cs (nat nibble)) k (d' + BRANCH_BITS);
                cs' = cs[nat nibble := new_child]
            in if \<not> found then (False, Some (Branch pre cs' m))
               else (True, collapse pre cs' m))"
  by pat_completeness auto
termination
  by (relation "measure (\<lambda>(n, k, d). size_option size n)")
    (auto simp: less_Suc_eq_le intro!: le_trans [OF size_child_option])

fun commit_node ::
  "(bytes \<Rightarrow> bytes) \<Rightarrow> (bytes \<Rightarrow> nat \<Rightarrow> bytes option) \<Rightarrow> bool \<Rightarrow> vc_node \<Rightarrow> vc_node" where
  "commit_node sha commit_raw recalculate (Leaf l) = Leaf (leaf_commit sha recalculate l)"
| "commit_node sha commit_raw recalculate (Branch pre cs m) =
     (let cs' = map (map_option (commit_node sha commit_raw recalculate)) cs;
          aggregate = sum_list (map (\<lambda>c. case c of None \<Rightarrow> 0 | Some t \<Rightarrow> node_size t) cs')
      in Branch pre cs' (branch_commit sha commit_raw recalculate cs' (m\<lparr>branch_size := aggregate\<rparr>)))"

text \<open>
  The tree as a whole. \<^verbatim>\<open>insert\<close> takes the root out before it recurses and puts the new
  root back only on success; a failed recursion leaves the tree without a root.
\<close>

definition tree_insert :: "(bytes \<Rightarrow> bytes) \<Rightarrow> vc_tree \<Rightarrow> bytes \<Rightarrow> bytes \<Rightarrow> bytes \<Rightarrow> int \<Rightarrow> vc_tree \<times> unit result" where
  "tree_insert sha t k v h s =
     (case insert_recursive sha (root t) k v h s 0 of
        Ok n \<Rightarrow> (t\<lparr>root := Some n\<rparr>, Ok ())
      | Err e \<Rightarrow> (t\<lparr>root := None\<rparr>, Err e))"

definition tree_delete :: "vc_tree \<Rightarrow> bytes \<Rightarrow> vc_tree \<times> unit result" where
  "tree_delete t k =
     (if k = [] then (t, Err InvalidArgument)
      else let (found, new_root) = delete_recursive (root t) k 0
           in (t\<lparr>root := new_root\<rparr>, if found then Ok () else Err NotFound))"

definition get_leaf :: "vc_tree \<Rightarrow> bytes \<Rightarrow> leaf_node option" where
  "get_leaf t k = get_recursive (root t) k 0"

definition tree_get :: "vc_tree \<Rightarrow> bytes \<Rightarrow> bytes option" where
  "tree_get t k = map_option leaf_value (get_leaf t k)"

definition has_unbound_values :: "vc_tree \<Rightarrow> bool" where
  "has_unbound_values t = (case root t of None \<Rightarrow> False | Some n \<Rightarrow> has_unbound_value n)"

definition tree_leaves :: "vc_tree \<Rightarrow> (bytes \<times> bytes) list" where
  "tree_leaves t = (case root t of None \<Rightarrow> []
               | Some n \<Rightarrow> map (\<lambda>l. (key l, leaf_value l)) (collect_leaves n))"

definition tree_commit ::
  "(bytes \<Rightarrow> bytes) \<Rightarrow> (bytes \<Rightarrow> nat \<Rightarrow> bytes option) \<Rightarrow> vc_tree \<Rightarrow> vc_tree \<times> bytes" where
  "tree_commit sha commit_raw t =
     (case root t of
        None \<Rightarrow> (t, replicate 64 0)
      | Some n \<Rightarrow> let n' = commit_node sha commit_raw True n
                  in (t\<lparr>root := Some n'\<rparr>, node_commitment n'))"

end
