(* ===== verification/Tree_Map.thy ===== *)
theory Tree_Map
  imports Commitment_Tree
begin

text \<open>
  Correctness of the vector commitment tree: the tree is a map from keys to leaves. A node at
  nibble path \<open>\<pi>\<close> is well formed when every leaf below it extends \<open>\<pi>\<close> by the
  prefixes and slots on the way, and every branch has at least two occupied slots.
  Lookup, insertion and deletion are then shown to act on the set of leaves.
\<close>

abbreviation path :: "bytes \<Rightarrow> int list" where
  "path \<equiv> get_full_path"

abbreviation leaf_set :: "vc_node \<Rightarrow> leaf_node set" where
  "leaf_set t \<equiv> set (collect_leaves t)"

inductive wf_node :: "int list \<Rightarrow> vc_node \<Rightarrow> bool" where
  wf_Leaf: "prefix \<pi> (path (key l)) \<Longrightarrow> wf_node \<pi> (Leaf l)"
| wf_Branch: "length cs = 64 \<Longrightarrow> 2 \<le> child_count cs \<Longrightarrow>
    (\<And>i c. i < 64 \<Longrightarrow> cs ! i = Some c \<Longrightarrow> wf_node (\<pi> @ pre @ [int i]) c) \<Longrightarrow>
    wf_node \<pi> (Branch pre cs m)"

inductive_simps wf_node_Leaf [simp]: "wf_node \<pi> (Leaf l)"
inductive_simps wf_node_Branch: "wf_node \<pi> (Branch pre cs m)"

definition slot_leaves :: "vc_node option \<Rightarrow> leaf_node set" where
  "slot_leaves c = (case c of None \<Rightarrow> {} | Some t \<Rightarrow> leaf_set t)"

lemma slot_leaves_simps [simp]:
  "slot_leaves None = {}" "slot_leaves (Some t) = leaf_set t"
  by (simp_all add: slot_leaves_def)

lemma leaf_set_Branch: "leaf_set (Branch pre cs m) = (\<Union>i < length cs. slot_leaves (cs ! i))"
proof -
  have "leaf_set (Branch pre cs m) = (\<Union>c \<in> set cs. slot_leaves c)"
    by (auto simp: slot_leaves_def split: option.splits)
  then show ?thesis by (simp add: set_conv_nth) (auto simp: lessThan_def)
qed

declare collect_leaves.simps(2) [simp del]

subsection \<open>Counting occupied slots\<close>

lemma child_count_alt: "child_count cs = card {i. i < length cs \<and> cs ! i \<noteq> None}"
  by (simp add: child_count_def length_filter_conv_card)

lemma remaining_slots_alt: "remaining_slots cs = filter (\<lambda>i. cs ! i \<noteq> None) [0..<length cs]"
proof -
  have "map fst (filter (\<lambda>(i, c). case c of None \<Rightarrow> False | Some _ \<Rightarrow> True) (zip [n..<n + length cs] cs)) =
      filter (\<lambda>i. cs ! (i - n) \<noteq> None) [n..<n + length cs]" for n
  proof (induction cs arbitrary: n)
    case (Cons c cs)
    have "[n..<n + length (c # cs)] = n # [Suc n..<Suc n + length cs]"
      by (simp add: upt_rec [of n] del: upt_Suc)
    moreover have "filter (\<lambda>i. cs ! (i - Suc n) \<noteq> None) [Suc n..<Suc n + length cs] =
        filter (\<lambda>i. (c # cs) ! (i - n) \<noteq> None) [Suc n..<Suc n + length cs]"
      by (intro filter_cong) (auto simp: nth_Cons' diff_Suc split: nat.splits)
    ultimately show ?case using Cons.IH [of "Suc n"] by (auto split: option.splits)
  qed simp
  from this [of 0] show ?thesis by (simp add: remaining_slots_def enumerate_eq_zip)
qed

lemma length_remaining_slots: "length (remaining_slots cs) = child_count cs"
proof -
  have "length (remaining_slots cs) = card (set (remaining_slots cs))"
    by (rule distinct_card [symmetric]) (simp add: remaining_slots_alt)
  also have "set (remaining_slots cs) = {i. i < length cs \<and> cs ! i \<noteq> None}"
    by (auto simp: remaining_slots_alt)
  finally show ?thesis by (simp add: child_count_alt)
qed

lemma child_count_update_Some:
  assumes "j < length cs"
  shows "child_count cs \<le> child_count (cs[j := Some c])"
  unfolding child_count_alt
  by (rule card_mono) (use assms in \<open>auto simp: nth_list_update split: if_splits\<close>)

lemma child_count_update_ge:
  assumes "2 \<le> child_count cs"
  shows "1 \<le> child_count (cs[j := c])"
proof (rule ccontr)
  assume "\<not> 1 \<le> child_count (cs[j := c])"
  then have "{i. i < length cs \<and> cs[j := c] ! i \<noteq> None} = {}"
    by (auto simp: child_count_alt Suc_le_eq card_gt_0_iff)
  then have "{i. i < length cs \<and> cs ! i \<noteq> None} \<subseteq> {j}"
    by auto (metis nth_list_update_neq option.distinct(1))
  then have "child_count cs \<le> card {j}" unfolding child_count_alt by (rule card_mono [OF finite.emptyI [THEN finite.insertI]])
  with assms show False by simp
qed

lemma two_slots:
  assumes "2 \<le> child_count cs"
  obtains i j c d where "i < length cs" "j < length cs" "i \<noteq> j" "cs ! i = Some c" "cs ! j = Some d"
proof -
  let ?S = "{i. i < length cs \<and> cs ! i \<noteq> None}"
  have "2 \<le> card ?S" using assms by (simp add: child_count_alt)
  then obtain i j where "i \<in> ?S" "j \<in> ?S" "i \<noteq> j"
    by (metis (no_types, lifting) card_2_iff' card_le_Suc0_iff_eq not_less_eq_eq numeral_2_eq_2 card.infinite not_numeral_le_zero)
  then show ?thesis using that by auto
qed

lemma child_count_two:
  assumes "i < length cs" "j < length cs" "i \<noteq> j" "cs ! i \<noteq> None" "cs ! j \<noteq> None"
  shows "2 \<le> child_count cs"
proof -
  have "card {i, j} \<le> child_count cs"
    unfolding child_count_alt by (rule card_mono) (use assms in auto)
  with assms(3) show ?thesis by simp
qed

subsection \<open>Leaves below a path\<close>

lemma wf_leaves:
  "wf_node \<pi> t \<Longrightarrow> leaf_set t \<noteq> {} \<and> (\<forall>l \<in> leaf_set t. prefix \<pi> (path (key l)))"
proof (induction rule: wf_node.induct)
  case (wf_Leaf \<pi> l)
  then show ?case by simp
next
  case (wf_Branch cs \<pi> pre m)
  obtain i c where ic: "i < length cs" "cs ! i = Some c" using two_slots [OF wf_Branch(2)] by blast
  then have "slot_leaves (cs ! i) \<noteq> {}" using wf_Branch by simp
  then have "leaf_set (Branch pre cs m) \<noteq> {}" using ic(1) by (auto simp: leaf_set_Branch)
  moreover have "prefix \<pi> (path (key l))" if "l \<in> leaf_set (Branch pre cs m)" for l
  proof -
    from that obtain i c where "i < length cs" "cs ! i = Some c" "l \<in> leaf_set c"
      by (auto simp: leaf_set_Branch slot_leaves_def split: option.splits)
    then have "prefix (\<pi> @ pre @ [int i]) (path (key l))" using wf_Branch by simp
    then show ?thesis by (metis append_prefixD)
  qed
  ultimately show ?case by blast
qed

lemma wf_slot_leaves:
  assumes "wf_node \<pi> (Branch pre cs m)" "i < length cs" "l \<in> slot_leaves (cs ! i)"
  shows "prefix (\<pi> @ pre @ [int i]) (path (key l))"
proof -
  from assms(3) obtain c where "cs ! i = Some c" "l \<in> leaf_set c"
    by (auto simp: slot_leaves_def split: option.splits)
  with assms wf_leaves show ?thesis by (fastforce simp: wf_node_Branch)
qed

lemma wf_branch_leaf_prefix:
  assumes "wf_node \<pi> (Branch pre cs m)" "l \<in> leaf_set (Branch pre cs m)"
  shows "prefix (\<pi> @ pre) (path (key l)) \<and> length (\<pi> @ pre) < length (path (key l))"
proof -
  from assms(2) obtain i where "i < length cs" "l \<in> slot_leaves (cs ! i)"
    by (auto simp: leaf_set_Branch)
  from wf_slot_leaves [OF assms(1) this] show ?thesis
    by (auto dest: prefix_length_le) (metis append.assoc append_prefixD)
qed

lemma wf_prefix_range:
  assumes "wf_node \<pi> (Branch pre cs m)" "p \<in> set pre"
  shows "0 \<le> p \<and> p < 64"
proof -
  obtain l where "l \<in> leaf_set (Branch pre cs m)" using wf_leaves [OF assms(1)] by fastforce
  from wf_branch_leaf_prefix [OF assms(1) this] have "p \<in> set (path (key l))"
    using assms(2) by (auto simp: prefix_def)
  then show ?thesis by (rule path_range)
qed

lemma prefix_snoc_unique:
  assumes "prefix (\<pi> @ pre @ [int i]) xs" "prefix (\<pi> @ pre @ [int j]) xs"
  shows "i = j"
  using assms by (auto simp: prefix_def)

lemma prefix_snoc_nth:
  assumes "prefix \<pi> xs" "length \<pi> < length xs"
  shows "prefix (\<pi> @ [p]) xs \<longleftrightarrow> xs ! length \<pi> = p"
proof -
  obtain q r where "xs = \<pi> @ q # r"
    using assms by (auto simp: prefix_def neq_Nil_conv)
  then show ?thesis by (auto simp: nth_append)
qed

subsection \<open>Descending along a key\<close>

lemma first_mismatch_spec:
  assumes "prefix \<pi> (path k)" "\<forall>p \<in> set pre. 0 \<le> p"
  shows "(case first_mismatch k (6 * length \<pi>) pre of
      None \<Rightarrow> prefix (\<pi> @ pre) (path k)
    | Some (i, p, n) \<Rightarrow> i < length pre \<and> p = pre ! i \<and> n \<noteq> p \<and> prefix (\<pi> @ take i pre) (path k) \<and>
        n = get_next_nibble k (6 * (length \<pi> + i)))"
  using assms
proof (induction pre arbitrary: \<pi>)
  case Nil
  then show ?case by simp
next
  case (Cons p pre)
  let ?n = "get_next_nibble k (6 * length \<pi>)"
  show ?case
  proof (cases "?n = p")
    case False
    with Cons.prems show ?thesis by (simp add: Let_def)
  next
    case True
    then have lt: "length \<pi> < length (path k)" "path k ! length \<pi> = p"
      using Cons.prems(2) by (auto simp: nibble_at split: if_splits)
    then have pr: "prefix (\<pi> @ [p]) (path k)"
      using Cons.prems(1) by (simp add: prefix_snoc_nth)
    have len: "6 * length (\<pi> @ [p]) = 6 * length \<pi> + 6" by simp
    from Cons.IH [OF pr, unfolded len] Cons.prems(2) True show ?thesis
      by (auto simp: Let_def add.left_commute split: option.splits)
  qed
qed

lemma descend_cases:
  assumes wf: "wf_node \<pi> (Branch pre cs m)" and k: "prefix \<pi> (path k)"
  obtains (mismatch) i n where "first_mismatch k (6 * length \<pi>) pre = Some (i, pre ! i, n)"
      "i < length pre" "n \<noteq> pre ! i" "prefix (\<pi> @ take i pre) (path k)"
      "n = get_next_nibble k (6 * (length \<pi> + i))"
    | (short) "first_mismatch k (6 * length \<pi>) pre = None" "path k = \<pi> @ pre"
      "get_next_nibble k (6 * length \<pi> + 6 * length pre) < 0"
    | (slot) j where "first_mismatch k (6 * length \<pi>) pre = None" "j < 64"
      "get_next_nibble k (6 * length \<pi> + 6 * length pre) = int j"
      "prefix (\<pi> @ pre @ [int j]) (path k)"
proof (cases "first_mismatch k (6 * length \<pi>) pre")
  case (Some x)
  obtain i p n where "x = (i, p, n)" by (cases x)
  with Some first_mismatch_spec [OF k, of pre] wf_prefix_range [OF wf] show ?thesis
    by (intro mismatch [of i n]) auto
next
  case None
  let ?d = "length (\<pi> @ pre)"
  have pr: "prefix (\<pi> @ pre) (path k)"
    using None first_mismatch_spec [OF k, of pre] wf_prefix_range [OF wf] by auto
  have nib: "get_next_nibble k (6 * length \<pi> + 6 * length pre) =
      (if ?d < length (path k) then path k ! ?d else - 1)"
    using nibble_at [of k ?d] by (simp add: distrib_left)
  show ?thesis
  proof (cases "?d < length (path k)")
    case True
    obtain r where r: "path k = (\<pi> @ pre) @ r" "r \<noteq> []" using pr True by (auto simp: prefix_def)
    then have at: "path k ! ?d = hd r" by (simp add: nth_append hd_conv_nth)
    have "hd r \<in> set (path k)" using r by simp
    then have "0 \<le> hd r" "hd r < 64" using path_range by auto
    then show ?thesis
      using None nib True at r by (intro slot [of "nat (hd r)"]) (auto simp: prefix_def neq_Nil_conv)
  next
    case False
    then have "path k = \<pi> @ pre" using pr by (auto simp: prefix_def)
    with None nib False show ?thesis by (intro short) auto
  qed
qed

subsection \<open>Lookup\<close>


lemma in_leaf_set_Branch:
  "i < length cs \<Longrightarrow> l \<in> slot_leaves (cs ! i) \<Longrightarrow> l \<in> leaf_set (Branch pre cs m)"
  by (auto simp: leaf_set_Branch)

lemma leaf_key_slot:
  assumes wf: "wf_node \<pi> (Branch pre cs m)" and j: "prefix (\<pi> @ pre @ [int j]) (path k)" "j < 64"
    and l: "l \<in> leaf_set (Branch pre cs m)" "key l = k"
  shows "l \<in> slot_leaves (cs ! j)"
proof -
  have len: "length cs = 64" using wf by (simp add: wf_node_Branch)
  obtain i where i: "i < length cs" "l \<in> slot_leaves (cs ! i)"
    using l(1) by (auto simp: leaf_set_Branch)
  then have "prefix (\<pi> @ pre @ [int i]) (path k)" using wf_slot_leaves [OF wf] l(2) by auto
  with j(1) have "i = j" by (rule prefix_snoc_unique [rotated])
  with i show ?thesis by simp
qed

lemma leaf_key_absent:
  assumes wf: "wf_node \<pi> (Branch pre cs m)" and np: "\<not> (\<exists>j < 64. prefix (\<pi> @ pre @ [int j]) (path k))"
    and l: "l \<in> leaf_set (Branch pre cs m)"
  shows "key l \<noteq> k"
proof -
  have len: "length cs = 64" using wf by (simp add: wf_node_Branch)
  obtain i where "i < length cs" "l \<in> slot_leaves (cs ! i)"
    using l by (auto simp: leaf_set_Branch)
  then show ?thesis using wf_slot_leaves [OF wf] np len by auto
qed

lemma mismatch_no_slot:
  assumes "prefix (\<pi> @ take i pre) (path k)" "i < length pre" "n \<noteq> pre ! i"
    "n = get_next_nibble k (6 * (length \<pi> + i))"
  shows "\<not> prefix (\<pi> @ pre @ xs) (path k)"
proof
  assume "prefix (\<pi> @ pre @ xs) (path k)"
  then obtain r where r: "path k = (\<pi> @ pre) @ xs @ r" by (auto simp: prefix_def)
  have "length \<pi> + i < length (path k)" using assms(2) by (simp add: r)
  moreover have "path k ! (length \<pi> + i) = pre ! i" using assms(2) by (simp add: r nth_append)
  ultimately show False using assms(3,4) nibble_at [of k "length \<pi> + i"] by simp
qed

lemma get_recursive_spec:
  assumes "wf_node \<pi> t" "prefix \<pi> (path k)"
  shows "get_recursive (Some t) k (6 * length \<pi>) = Some l \<longleftrightarrow> l \<in> leaf_set t \<and> key l = k"
  using assms
proof (induction arbitrary: l rule: wf_node.induct)
  case (wf_Leaf \<pi> l')
  then show ?case by auto
next
  case (wf_Branch cs \<pi> pre m)
  have wf: "wf_node \<pi> (Branch pre cs m)" using wf_Branch.hyps by (blast intro: wf_node.wf_Branch)
  from wf wf_Branch.prems show ?case
  proof (cases rule: descend_cases)
    case (mismatch i n)
    then show ?thesis
      using leaf_key_absent [OF wf, of k l] mismatch_no_slot [OF mismatch(4,2,3,5)] by auto
  next
    case short
    then show ?thesis using leaf_key_absent [OF wf, of k l] by auto
  next
    case (slot j)
    have step: "get_recursive (Some (Branch pre cs m)) k (6 * length \<pi>) =
        get_recursive (cs ! j) k (6 * length (\<pi> @ pre @ [int j]))"
      using slot wf_Branch.hyps(1) by (simp add: Let_def add.commute)
    show ?thesis
    proof (cases "cs ! j")
      case None
      then show ?thesis unfolding step using leaf_key_slot [OF wf slot(4,2), of l] by auto
    next
      case (Some c)
      have "get_recursive (Some c) k (6 * length (\<pi> @ pre @ [int j])) = Some l \<longleftrightarrow> l \<in> leaf_set c \<and> key l = k"
        by (rule wf_Branch.IH [OF slot(2) Some slot(4)])
      then show ?thesis unfolding step Some
        using leaf_key_slot [OF wf slot(4,2), of l] Some slot(2) wf_Branch.hyps(1)
        by (auto intro: in_leaf_set_Branch [of j])
    qed
  qed
qed

subsection \<open>Leaf counters\<close>

text \<open>Every branch counts the leaves below it (modulo the width of the counter).\<close>

fun counted :: "vc_node \<Rightarrow> bool" where
  "counted (Leaf l) = True"
| "counted (Branch pre cs m) =
     (list_all (case_option True counted) cs \<and>
      leaf_count m = of_nat (length (collect_leaves (Branch pre cs m))))"

definition slot_size :: "vc_node option \<Rightarrow> nat" where
  "slot_size c = (case c of None \<Rightarrow> 0 | Some t \<Rightarrow> length (collect_leaves t))"

lemma slot_size_simps [simp]: "slot_size None = 0" "slot_size (Some t) = length (collect_leaves t)"
  by (simp_all add: slot_size_def)

lemma length_collect_Branch: "length (collect_leaves (Branch pre cs m)) = sum_list (map slot_size cs)"
  by (auto simp: collect_leaves.simps(2) length_concat slot_size_def comp_def
      intro!: arg_cong [where f = sum_list] split: option.splits)

lemma child_leaf_count_counted:
  "(\<And>t. c = Some t \<Longrightarrow> counted t) \<Longrightarrow> child_leaf_count c = of_nat (slot_size c)"
  by (cases c rule: option.exhaust; cases "the c")
    (auto simp: child_leaf_count_def)

lemma refresh_meta_count:
  assumes "list_all (case_option True counted) cs"
  shows "leaf_count (refresh_meta cs m) = of_nat (length (collect_leaves (Branch pre cs m')))"
proof -
  have "map child_leaf_count cs = map (\<lambda>c. of_nat (slot_size c)) cs"
    using assms by (auto simp: list_all_iff intro!: child_leaf_count_counted)
  then show ?thesis
    by (simp add: refresh_meta_def length_collect_Branch)
      (induction cs, simp_all)
qed

lemma counted_refresh:
  "list_all (case_option True counted) cs \<Longrightarrow> counted (Branch pre cs (refresh_meta cs m))"
  by (simp add: refresh_meta_count [where m' = "refresh_meta cs m"])

lemma slot_sizes_two:
  assumes "i \<noteq> j" "i < 64" "j < 64"
  shows "sum_list (map slot_size ((replicate 64 None)[i := Some a, j := Some b])) =
    length (collect_leaves a) + length (collect_leaves b)"
proof -
  have "sum_list (map slot_size ((replicate 64 None)[i := Some a, j := Some b])) =
      (\<Sum>x < 64. (if x = i then length (collect_leaves a) else 0) +
                  (if x = j then length (collect_leaves b) else 0))"
    unfolding sum_list_sum_nth
    by (auto simp: atLeast0LessThan nth_list_update assms intro!: sum.cong)
  also have "\<dots> = length (collect_leaves a) + length (collect_leaves b)"
    using assms by (simp add: sum.distrib sum.delta)
  finally show ?thesis .
qed


lemma counted_update:
  assumes "list_all (case_option True counted) cs"
    "\<And>t. c = Some t \<Longrightarrow> counted t"
  shows "list_all (case_option True counted) (cs[j := c])"
  using assms set_update_subset_insert [of cs j c] by (fastforce simp: list_all_iff split: option.splits)

lemma counted_two:
  assumes "i \<noteq> j" "i < 64" "j < 64" "counted a" "counted b"
    "leaf_count m = of_nat (length (collect_leaves a) + length (collect_leaves b))"
  shows "counted (Branch pre ((replicate 64 None)[i := Some a, j := Some b]) m)"
  unfolding counted.simps length_collect_Branch slot_sizes_two [OF assms(1-3)]
  by (intro conjI counted_update) (use assms in \<open>auto simp: list_all_iff\<close>)

lemma slot_size_le: "c \<in> set cs \<Longrightarrow> slot_size c \<le> length (collect_leaves (Branch pre cs m))"
  by (simp add: length_collect_Branch member_le_sum_list)

lemma saturating_add_count:
  assumes "n < 2 ^ 64 - 1"
  shows "saturating_add (of_nat n :: u64) 1 = of_nat (n + 1)"
proof -
  have "unat (of_nat n :: u64) = n" using assms by (simp add: unat_of_nat)
  then have "unat (saturating_add (of_nat n :: u64) 1) = unat (of_nat (n + 1) :: u64)"
    using assms by (simp only: unat_saturating_add) (simp add: unat_of_nat del: of_nat_Suc of_nat_add)
  then show ?thesis by (rule word_unat_eq_iff [THEN iffD2])
qed

definition countable :: "vc_node \<Rightarrow> bool" where
  "countable t \<longleftrightarrow> counted t \<and> length (collect_leaves t) < 2 ^ 64 - 1"

lemma countable_child:
  assumes "countable (Branch pre cs m)" "Some c \<in> set cs"
  shows "countable c"
  using assms slot_size_le [OF assms(2), of pre m] by (fastforce simp: countable_def list_all_iff)

subsection \<open>Insertion\<close>

definition compatible :: "bytes \<Rightarrow> leaf_node set \<Rightarrow> bool" where
  "compatible k L \<longleftrightarrow> (\<forall>l \<in> L. key l = k \<or> parallel (path k) (path (key l)))"

lemma longest_common_prefix_append:
  "longest_common_prefix (as @ xs) (as @ ys) = as @ longest_common_prefix xs ys"
  by (induction as) auto

lemma parallel_split:
  assumes "parallel (path k1) (path k2)" "prefix \<pi> (path k1)" "prefix \<pi> (path k2)"
  obtains c i j where "get_nibbles_until_diverge k1 k2 (6 * length \<pi>) = (c, 6 * (length \<pi> + length c))"
    "get_next_nibble k1 (6 * (length \<pi> + length c)) = int i" "get_next_nibble k2 (6 * (length \<pi> + length c)) = int j"
    "i \<noteq> j" "i < 64" "j < 64"
    "prefix (\<pi> @ c @ [int i]) (path k1)" "prefix (\<pi> @ c @ [int j]) (path k2)"
proof -
  obtain a b where ab: "path k1 = \<pi> @ a" "path k2 = \<pi> @ b" using assms(2,3) by (auto simp: prefix_def)
  then have "parallel a b" using assms(1) by (simp add: parallel_def)
  then obtain c x xs y ys where c: "x \<noteq> y" "a = c @ x # xs" "b = c @ y # ys"
    using parallel_decomp by blast
  have x: "0 \<le> x" "x < 64" and y: "0 \<le> y" "y < 64"
    using path_range [of x k1] path_range [of y k2] ab c by auto
  have div: "get_nibbles_until_diverge k1 k2 (6 * length \<pi>) = (c, 6 * (length \<pi> + length c))"
    unfolding nibbles_until_diverge using ab c by (simp add: longest_common_prefix_append Let_def)
  have n: "get_next_nibble k1 (6 * (length \<pi> + length c)) = x" "get_next_nibble k2 (6 * (length \<pi> + length c)) = y"
    using ab c nibble_at [of k1 "length \<pi> + length c"] nibble_at [of k2 "length \<pi> + length c"]
    by (simp_all add: nth_append)
  show ?thesis
    by (rule that [of c "nat x" "nat y"]) (use div n x y c ab in \<open>auto simp: prefix_def\<close>)
qed

lemma leaf_set_two:
  assumes "i \<noteq> j" "i < 64" "j < 64"
  shows "leaf_set (Branch pre ((replicate 64 None)[i := Some a, j := Some b]) m) = leaf_set a \<union> leaf_set b"
  using assms by (auto simp: leaf_set_Branch nth_list_update split: if_splits)

lemma wf_two:
  assumes "i \<noteq> j" "i < 64" "j < 64" "wf_node (\<pi> @ pre @ [int i]) a" "wf_node (\<pi> @ pre @ [int j]) b"
  shows "wf_node \<pi> (Branch pre ((replicate 64 None)[i := Some a, j := Some b]) m)"
proof (rule wf_node.wf_Branch)
  show "2 \<le> child_count ((replicate 64 None)[i := Some a, j := Some b])"
    by (rule child_count_two [of i _ j]) (use assms in simp_all)
qed (use assms in \<open>auto simp: nth_list_update split: if_splits\<close>)

lemma key_new_leaf [simp]: "key (new_leaf sha k v h s) = k"
  by (simp add: new_leaf_def compute_commitment_def)

lemma split_leaf_spec:
  assumes "parallel (path (key a)) (path (key b))" "prefix \<pi> (path (key a))" "prefix \<pi> (path (key b))"
  shows "wf_node \<pi> (split_leaf sha a b (6 * length \<pi>)) \<and> leaf_set (split_leaf sha a b (6 * length \<pi>)) = {a, b} \<and>
    counted (split_leaf sha a b (6 * length \<pi>))"
proof -
  obtain c i j where c: "get_nibbles_until_diverge (key a) (key b) (6 * length \<pi>) = (c, 6 * (length \<pi> + length c))"
    "get_next_nibble (key a) (6 * (length \<pi> + length c)) = int i" "get_next_nibble (key b) (6 * (length \<pi> + length c)) = int j"
    "i \<noteq> j" "i < 64" "j < 64" "prefix (\<pi> @ c @ [int i]) (path (key a))" "prefix (\<pi> @ c @ [int j]) (path (key b))"
    using parallel_split [OF assms] by metis
  have eq: "split_leaf sha a b (6 * length \<pi>) =
      Branch c ((replicate 64 None)[i := Some (Leaf a), j := Some (Leaf b)])
        (new_meta\<lparr>leaf_count := 2, branch_commitment := []\<rparr>)"
    unfolding split_leaf_def c(1) Let_def prod.case c(2,3) by simp
  show ?thesis unfolding eq using c by (auto simp: wf_two leaf_set_two simp del: counted.simps(2) intro!: counted_two)
qed

lemma split_branch_spec:
  assumes wf: "wf_node \<pi> (Branch pre cs m)" and i: "i < length pre" and n: "n \<noteq> pre ! i" "0 \<le> n" "n < 64"
    and leaf: "prefix (\<pi> @ take i pre @ [n]) (path (key leaf))"
  shows "\<exists>t. split_branch pre cs m i (pre ! i) n leaf = Ok t \<and> wf_node \<pi> t \<and>
    leaf_set t = insert leaf (leaf_set (Branch pre cs m)) \<and> (countable (Branch pre cs m) \<longrightarrow> counted t)"
proof -
  let ?p = "pre ! i"
  let ?old = "Branch (drop (Suc i) pre) cs (m\<lparr>branch_commitment := []\<rparr>)"
  have p: "0 \<le> ?p" "?p < 64" using wf_prefix_range [OF wf] i by auto
  have pre: "take i pre @ ?p # drop (Suc i) pre = pre" using i by (simp add: id_take_nth_drop [symmetric])
  have old: "wf_node (\<pi> @ take i pre @ [?p]) ?old"
    using wf pre by (simp add: wf_node_Branch) (metis append.assoc append_Cons append_Nil)
  have ls: "leaf_set ?old = leaf_set (Branch pre cs m)" by (simp add: leaf_set_Branch)
  have len: "length (collect_leaves ?old) = length (collect_leaves (Branch pre cs m))"
    by (simp add: length_collect_Branch)
  have cnt: "counted (Branch (take i pre) ((replicate 64 None)[nat ?p := Some ?old, nat n := Some (Leaf leaf)])
      (new_meta\<lparr>leaf_count := saturating_add (leaf_count m) 1, longest_branch := l\<rparr>))"
    if "countable (Branch pre cs m)" for l
    using that p n len saturating_add_count
    by (intro counted_two) (auto simp: countable_def length_collect_Branch)
  show ?thesis
    using p n old leaf ls cnt wf_two [of "nat ?p" "nat n" \<pi> "take i pre" ?old "Leaf leaf"]
      leaf_set_two [of "nat ?p" "nat n" "take i pre" ?old "Leaf leaf"]
    by (simp add: split_branch_def Let_def)
qed

lemma leaf_set_update:
  assumes wf: "wf_node \<pi> (Branch pre cs m)" and j: "prefix (\<pi> @ pre @ [int j]) (path k)" "j < 64"
    and c: "slot_leaves c = X \<union> {l \<in> slot_leaves (cs ! j). key l \<noteq> k}"
  shows "leaf_set (Branch pre (cs[j := c]) m') = X \<union> {l \<in> leaf_set (Branch pre cs m). key l \<noteq> k}"
proof -
  have len: "length cs = 64" using wf by (simp add: wf_node_Branch)
  have other: "key l \<noteq> k" if "i < 64" "i \<noteq> j" "l \<in> slot_leaves (cs ! i)" for i l
    using wf_slot_leaves [OF wf, of i l] j(1) that len prefix_snoc_unique by auto
  have "leaf_set (Branch pre (cs[j := c]) m') =
      (\<Union>i \<in> {..<64} - {j}. slot_leaves (cs ! i)) \<union> slot_leaves c"
    using j(2) len by (auto simp: leaf_set_Branch nth_list_update split: if_splits)
  also have "\<dots> = X \<union> {l \<in> (\<Union>i < 64. slot_leaves (cs ! i)). key l \<noteq> k}"
    unfolding c using other j(2) by auto
  finally show ?thesis by (simp add: leaf_set_Branch len)
qed

lemma wf_update:
  assumes "wf_node \<pi> (Branch pre cs m)" "j < 64" "wf_node (\<pi> @ pre @ [int j]) c"
  shows "wf_node \<pi> (Branch pre (cs[j := Some c]) m')"
  using assms child_count_update_Some [of j cs c]
  by (auto simp: wf_node_Branch nth_list_update split: if_splits)

lemma path_extends_not_parallel: "prefix xs ys \<Longrightarrow> \<not> parallel xs ys"
  by (simp add: parallel_def)

lemma compatible_extends:
  assumes "compatible k L" "l \<in> L" "prefix (path k) (path (key l))"
  shows "key l = k"
  using assms by (auto simp: compatible_def parallel_def)

lemma insert_recursive_spec:
  assumes "wf_node \<pi> t" "prefix \<pi> (path k)" "compatible k (leaf_set t)"
  shows "\<exists>t'. insert_recursive sha (Some t) k v h s (6 * length \<pi>) = Ok t' \<and> wf_node \<pi> t' \<and>
    leaf_set t' = insert (new_leaf sha k v h s) {l \<in> leaf_set t. key l \<noteq> k} \<and> (countable t \<longrightarrow> counted t')"
  using assms
proof (induction rule: wf_node.induct)
  case (wf_Leaf \<pi> l)
  show ?case
  proof (cases "key l = k")
    case False
    then have "parallel (path (key l)) (path (key (new_leaf sha k v h s)))"
      using wf_Leaf by (simp add: compatible_def parallel_commute)
    with wf_Leaf False show ?thesis
      using split_leaf_spec [of l "new_leaf sha k v h s" \<pi> sha] by auto
  qed (use wf_Leaf in auto)
next
  case (wf_Branch cs \<pi> pre m)
  let ?new = "new_leaf sha k v h s"
  have wf: "wf_node \<pi> (Branch pre cs m)" using wf_Branch.hyps by (blast intro: wf_node.wf_Branch)
  have len: "length cs = 64" by (rule wf_Branch.hyps)
  obtain l0 where l0: "l0 \<in> leaf_set (Branch pre cs m)" using wf_leaves [OF wf] by fastforce
  note l0p = wf_branch_leaf_prefix [OF wf l0]
  from wf wf_Branch.prems(1) show ?case
  proof (cases rule: descend_cases)
    case (mismatch i n)
    have "length \<pi> + i < length (path k)"
    proof (rule ccontr)
      assume "\<not> ?thesis"
      then have eq: "path k = \<pi> @ take i pre"
        using mismatch(2,4) by (auto simp: prefix_def)
      then have "prefix (path k) (path (key l0))"
        using l0p by (auto simp: prefix_def) (metis append.assoc append_take_drop_id)
      then have "key l0 = k" using compatible_extends [OF wf_Branch.prems(2) l0] by blast
      with eq l0p mismatch(2) show False by auto
    qed
    moreover from this have n: "n = path k ! length (\<pi> @ take i pre)"
      using mismatch(2,5) nibble_at [of k "length \<pi> + i"] by (simp add: min_def)
    ultimately have pr: "prefix (\<pi> @ take i pre @ [n]) (path k)" and "n \<in> set (path k)"
      using mismatch(2,4) prefix_snoc_nth [of "\<pi> @ take i pre" "path k" n] by (simp_all add: min_def)
    then have range: "0 \<le> n" "n < 64" using path_range by auto
    have "leaf_set (Branch pre cs m) = {l \<in> leaf_set (Branch pre cs m). key l \<noteq> k}"
      using leaf_key_absent [OF wf, of k] mismatch_no_slot [OF mismatch(4,2,3,5)] by auto
    with split_branch_spec [OF wf mismatch(2,3) range, of ?new] pr mismatch(1) show ?thesis by auto
  next
    case short
    then have "key l0 = k" using compatible_extends [OF wf_Branch.prems(2) l0] l0p by simp
    with short l0p show ?thesis by simp
  next
    case (slot j)
    have step: "insert_recursive sha (Some (Branch pre cs m)) k v h s (6 * length \<pi>) =
        (case insert_recursive sha (cs ! j) k v h s (6 * length (\<pi> @ pre @ [int j])) of
           Err e \<Rightarrow> Err e
         | Ok c \<Rightarrow> Ok (Branch pre (cs[j := Some c]) (refresh_meta (cs[j := Some c]) m)))"
      using slot len by (simp add: Let_def add.commute cong: sum.case_cong)
    have "\<exists>c. insert_recursive sha (cs ! j) k v h s (6 * length (\<pi> @ pre @ [int j])) = Ok c \<and>
        wf_node (\<pi> @ pre @ [int j]) c \<and> leaf_set c = insert ?new {l \<in> slot_leaves (cs ! j). key l \<noteq> k} \<and>
        (countable (Branch pre cs m) \<longrightarrow> counted c)"
    proof (cases "cs ! j")
      case None
      then show ?thesis using slot(4) by simp
    next
      case (Some c)
      have "compatible k (leaf_set c)"
        using wf_Branch.prems(2) in_leaf_set_Branch [of j cs _ pre m] Some slot(2) len
        by (simp add: compatible_def)
      moreover have "countable c" if "countable (Branch pre cs m)"
        using that Some slot(2) len by (metis countable_child nth_mem)
      ultimately show ?thesis using wf_Branch.IH [OF slot(2) Some slot(4)] Some by auto
    qed
    then obtain c where c: "insert_recursive sha (cs ! j) k v h s (6 * length (\<pi> @ pre @ [int j])) = Ok c"
        "wf_node (\<pi> @ pre @ [int j]) c" "leaf_set c = insert ?new {l \<in> slot_leaves (cs ! j). key l \<noteq> k}"
        "countable (Branch pre cs m) \<Longrightarrow> counted c"
      by blast
    have "leaf_set (Branch pre (cs[j := Some c]) (refresh_meta (cs[j := Some c]) m)) =
        {?new} \<union> {l \<in> leaf_set (Branch pre cs m). key l \<noteq> k}"
      by (rule leaf_set_update [OF wf slot(4,2)]) (simp add: c(3))
    moreover have "counted (Branch pre (cs[j := Some c]) (refresh_meta (cs[j := Some c]) m))"
      if "countable (Branch pre cs m)"
      using that c(4) by (intro counted_refresh counted_update) (auto simp: countable_def)
    ultimately show ?thesis
      unfolding step c(1) using wf_update [OF wf slot(2) c(2)] by simp
  qed
qed

subsection \<open>Deletion\<close>

lemma child_wf_merge:
  assumes "wf_node (\<pi> @ pre @ [int i]) c"
  shows "wf_node \<pi> (merge_branch_with_child pre i c) \<and>
    leaf_set (merge_branch_with_child pre i c) = leaf_set c \<and>
    (counted c \<longrightarrow> counted (merge_branch_with_child pre i c))"
proof (cases c)
  case (Leaf l)
  with assms show ?thesis by simp (metis append_prefixD)
next
  case (Branch cpre ccs cm)
  with assms show ?thesis by (simp add: wf_node_Branch leaf_set_Branch length_collect_Branch)
qed

lemma collapse_spec:
  assumes len: "length cs = 64" and ne: "1 \<le> child_count cs"
    and wf: "\<And>i c. i < 64 \<Longrightarrow> cs ! i = Some c \<Longrightarrow> wf_node (\<pi> @ pre @ [int i]) c"
  shows "\<exists>u. collapse pre cs m = Some u \<and> wf_node \<pi> u \<and> leaf_set u = leaf_set (Branch pre cs m') \<and>
    (list_all (case_option True counted) cs \<longrightarrow> counted u)"
proof (cases "remaining_slots cs" rule: remdups_adj.cases)
  case 1
  with ne length_remaining_slots [of cs] show ?thesis by simp
next
  case (2 i)
  have rs: "set (remaining_slots cs) = {i. i < 64 \<and> cs ! i \<noteq> None}"
    using len by (auto simp: remaining_slots_alt)
  with 2 obtain c where i: "i < 64" "cs ! i = Some c" by auto
  have "slot_leaves (cs ! j) = {}" if "j < 64" "j \<noteq> i" for j
  proof -
    have "j \<notin> set (remaining_slots cs)" using that(2) 2 by simp
    with rs that(1) show ?thesis by simp
  qed
  then have "leaf_set (Branch pre cs m') = leaf_set c"
    using i len by (auto simp: leaf_set_Branch) (metis empty_iff slot_leaves_simps(2))
  moreover have "counted c" if "list_all (case_option True counted) cs"
    using that i len by (auto simp: list_all_length)
  ultimately show ?thesis using 2 i child_wf_merge [OF wf [OF i]] by (auto simp: collapse_def)
next
  case (3 i j js)
  then have "2 \<le> child_count cs" using length_remaining_slots [of cs] by simp
  then have "wf_node \<pi> (Branch pre cs (refresh_meta cs m))"
    using len wf by (blast intro: wf_node.wf_Branch)
  with 3 show ?thesis by (auto simp: collapse_def leaf_set_Branch simp del: counted.simps intro: counted_refresh)
qed

definition deleted :: "int list \<Rightarrow> bytes \<Rightarrow> vc_node option \<Rightarrow> bool \<times> vc_node option \<Rightarrow> bool" where
  "deleted \<pi> k t r \<longleftrightarrow>
     (if \<exists>l \<in> slot_leaves t. key l = k
      then fst r \<and> slot_leaves (snd r) = {l \<in> slot_leaves t. key l \<noteq> k} \<and>
        (\<forall>u. snd r = Some u \<longrightarrow> wf_node \<pi> u \<and> ((\<forall>n. t = Some n \<longrightarrow> counted n) \<longrightarrow> counted u))
      else r = (False, t))"

lemma delete_recursive_spec:
  assumes "wf_node \<pi> t" "prefix \<pi> (path k)"
  shows "deleted \<pi> k (Some t) (delete_recursive (Some t) k (6 * length \<pi>))"
  using assms
proof (induction rule: wf_node.induct)
  case (wf_Leaf \<pi> l)
  then show ?case by (auto simp: deleted_def)
next
  case (wf_Branch cs \<pi> pre m)
  have wf: "wf_node \<pi> (Branch pre cs m)" using wf_Branch.hyps by (blast intro: wf_node.wf_Branch)
  have len: "length cs = 64" by (rule wf_Branch.hyps)
  from wf wf_Branch.prems show ?case
  proof (cases rule: descend_cases)
    case (mismatch i n)
    then have "\<forall>l \<in> leaf_set (Branch pre cs m). key l \<noteq> k"
      using leaf_key_absent [OF wf, of k] mismatch_no_slot [OF mismatch(4,2,3,5)] by blast
    with mismatch(1) show ?thesis by (auto simp: deleted_def)
  next
    case short
    then have "\<forall>l \<in> leaf_set (Branch pre cs m). key l \<noteq> k"
      using leaf_key_absent [OF wf, of k] by auto
    with short show ?thesis by (auto simp: deleted_def)
  next
    case (slot j)
    let ?r = "delete_recursive (cs ! j) k (6 * length (\<pi> @ pre @ [int j]))"
    have step: "delete_recursive (Some (Branch pre cs m)) k (6 * length \<pi>) =
        (if \<not> fst ?r then (False, Some (Branch pre (cs[j := snd ?r]) m))
         else (True, collapse pre (cs[j := snd ?r]) m))"
      using slot len by (simp add: Let_def add.commute split: prod.splits)
    have r: "deleted (\<pi> @ pre @ [int j]) k (cs ! j) ?r"
    proof (cases "cs ! j")
      case (Some c)
      then show ?thesis using wf_Branch.IH [OF slot(2) Some slot(4)] by simp
    qed (simp add: deleted_def)
    have ex: "(\<exists>l \<in> leaf_set (Branch pre cs m). key l = k) \<longleftrightarrow> (\<exists>l \<in> slot_leaves (cs ! j). key l = k)"
      using leaf_key_slot [OF wf slot(4,2)] in_leaf_set_Branch [of j cs _ pre m] slot(2) len by auto
    show ?thesis
    proof (cases "\<exists>l \<in> slot_leaves (cs ! j). key l = k")
      case False
      with r have "?r = (False, cs ! j)" by (simp add: deleted_def)
      with step False ex show ?thesis by (auto simp: deleted_def)
    next
      case True
      with r have d: "fst ?r" "slot_leaves (snd ?r) = {} \<union> {l \<in> slot_leaves (cs ! j). key l \<noteq> k}"
          "\<And>u. snd ?r = Some u \<Longrightarrow> wf_node (\<pi> @ pre @ [int j]) u"
          "\<And>u. snd ?r = Some u \<Longrightarrow> (\<forall>n. cs ! j = Some n \<longrightarrow> counted n) \<Longrightarrow> counted u"
        by (auto simp: deleted_def)
      have "wf_node (\<pi> @ pre @ [int i]) c" if "i < 64" "cs[j := snd ?r] ! i = Some c" for i c
        using that d(3) wf_Branch.hyps len by (cases "i = j") auto
      then obtain u where u: "collapse pre (cs[j := snd ?r]) m = Some u" "wf_node \<pi> u"
          "leaf_set u = leaf_set (Branch pre (cs[j := snd ?r]) m)"
          "list_all (case_option True counted) (cs[j := snd ?r]) \<Longrightarrow> counted u"
        using collapse_spec [of "cs[j := snd ?r]" \<pi> pre m m] len
          child_count_update_ge [OF wf_Branch.hyps(2), of j "snd ?r"] by auto
      have "leaf_set u = {l \<in> leaf_set (Branch pre cs m). key l \<noteq> k}"
        using leaf_set_update [OF wf slot(4,2) d(2), of m] u(3) by simp
      moreover have "counted u" if "counted (Branch pre cs m)"
        using that d(4) slot(2) len by (intro u(4) counted_update) (auto simp: list_all_length dest!: spec [of _ j] split: option.splits)
      ultimately show ?thesis using step d(1) u(1,2) True ex by (simp add: deleted_def)
    qed
  qed
qed

subsection \<open>Canonical shape\<close>

fun shape :: "vc_node \<Rightarrow> vc_node" where
  "shape (Leaf l) = Leaf l"
| "shape (Branch pre cs m) = Branch pre (map (map_option shape) cs) new_meta"

lemma slot_leaves_characterised:
  assumes wf: "wf_node \<pi> (Branch pre cs m)" and i: "i < 64"
  shows "slot_leaves (cs ! i) =
    {l \<in> leaf_set (Branch pre cs m). prefix (\<pi> @ pre @ [int i]) (path (key l))}"
proof -
  have len: "length cs = 64" using wf by (simp add: wf_node_Branch)
  show ?thesis
  proof (intro set_eqI iffI)
    fix l assume "l \<in> slot_leaves (cs ! i)"
    then show "l \<in> {l \<in> leaf_set (Branch pre cs m). prefix (\<pi> @ pre @ [int i]) (path (key l))}"
      using wf_slot_leaves [OF wf] i len by (auto intro: in_leaf_set_Branch)
  next
    fix l assume "l \<in> {l \<in> leaf_set (Branch pre cs m). prefix (\<pi> @ pre @ [int i]) (path (key l))}"
    then show "l \<in> slot_leaves (cs ! i)" using leaf_key_slot [OF wf _ i] by blast
  qed
qed

lemma wf_slot_None:
  assumes "wf_node \<pi> (Branch pre cs m)" "i < 64"
  shows "cs ! i = None \<longleftrightarrow> slot_leaves (cs ! i) = {}"
  using assms wf_leaves by (cases "cs ! i") (auto simp: wf_node_Branch)

lemma wf_branch_diverges:
  assumes wf: "wf_node \<pi> (Branch pre cs m)"
  obtains a b i j where "a \<in> leaf_set (Branch pre cs m)" "b \<in> leaf_set (Branch pre cs m)" "i \<noteq> j"
    "prefix (\<pi> @ pre @ [int i]) (path (key a))" "prefix (\<pi> @ pre @ [int j]) (path (key b))"
proof -
  have len: "length cs = 64" and two: "2 \<le> child_count cs" using wf by (simp_all add: wf_node_Branch)
  obtain i j c d where ij: "i < length cs" "j < length cs" "i \<noteq> j" "cs ! i = Some c" "cs ! j = Some d"
    using two_slots [OF two] by metis
  then obtain a b where "a \<in> slot_leaves (cs ! i)" "b \<in> slot_leaves (cs ! j)"
    using wf_slot_None [OF wf] len by (metis equals0I option.distinct(1))
  then show ?thesis
    using that [of a b i j] wf_slot_leaves [OF wf] in_leaf_set_Branch ij(1,2,3) by metis
qed

lemma branch_prefix_le:
  assumes wf1: "wf_node \<pi> (Branch p1 cs1 m1)" and wf2: "wf_node \<pi> (Branch p2 cs2 m2)"
    and eq: "leaf_set (Branch p1 cs1 m1) = leaf_set (Branch p2 cs2 m2)"
  shows "prefix p2 p1"
proof -
  obtain a b i j where ab: "a \<in> leaf_set (Branch p1 cs1 m1)" "b \<in> leaf_set (Branch p1 cs1 m1)" "i \<noteq> j"
    "prefix (\<pi> @ p1 @ [int i]) (path (key a))" "prefix (\<pi> @ p1 @ [int j]) (path (key b))"
    using wf_branch_diverges [OF wf1] by metis
  have p2: "prefix (\<pi> @ p2) (path (key a))" "prefix (\<pi> @ p2) (path (key b))"
    using wf_branch_leaf_prefix [OF wf2] ab(1,2) eq by auto
  obtain ra rb where r: "path (key a) = \<pi> @ p1 @ int i # ra" "path (key b) = \<pi> @ p1 @ int j # rb"
    using ab(4,5) by (auto simp: prefix_def)
  have "prefix p2 (p1 @ int i # ra)" "prefix p2 (p1 @ int j # rb)"
    using p2 unfolding r by simp_all
  then have "prefix p2 (longest_common_prefix (p1 @ int i # ra) (p1 @ int j # rb))"
    by (simp add: longest_common_prefix_max_prefix)
  then show ?thesis using ab(3) by (simp add: longest_common_prefix_append)
qed

lemma wf_branch_not_single:
  assumes "wf_node \<pi> (Branch pre cs m)"
  shows "leaf_set (Branch pre cs m) \<noteq> {l}"
proof
  assume *: "leaf_set (Branch pre cs m) = {l}"
  obtain a b i j where "a \<in> leaf_set (Branch pre cs m)" "b \<in> leaf_set (Branch pre cs m)" "i \<noteq> j"
    "prefix (\<pi> @ pre @ [int i]) (path (key a))" "prefix (\<pi> @ pre @ [int j]) (path (key b))"
    using wf_branch_diverges [OF assms] by metis
  with * prefix_snoc_unique show False by auto
qed

lemma canonical_shape:
  assumes "wf_node \<pi> s" "wf_node \<pi> t" "leaf_set s = leaf_set t"
  shows "shape s = shape t"
  using assms
proof (induction arbitrary: t rule: wf_node.induct)
  case (wf_Leaf \<pi> l)
  then show ?case using wf_branch_not_single by (cases t) fastforce+
next
  case (wf_Branch cs \<pi> pre m)
  have wf: "wf_node \<pi> (Branch pre cs m)" using wf_Branch.hyps by (blast intro: wf_node.wf_Branch)
  show ?case
  proof (cases t)
    case (Leaf l)
    with wf_branch_not_single [OF wf, of l] wf_Branch.prems(2) show ?thesis by simp
  next
    case (Branch p2 cs2 m2)
    note wf2 = wf_Branch.prems(1) [unfolded Branch] and eq = wf_Branch.prems(2) [unfolded Branch]
    have pre: "p2 = pre"
      using branch_prefix_le [OF wf wf2 eq] branch_prefix_le [OF wf2 wf eq [symmetric]]
      by (simp add: prefix_order.antisym)
    have len: "length cs = 64" "length cs2 = 64" using wf wf2 by (simp_all add: wf_node_Branch)
    have "map_option shape (cs ! i) = map_option shape (cs2 ! i)" if i: "i < 64" for i
    proof -
      have sl: "slot_leaves (cs ! i) = slot_leaves (cs2 ! i)"
        using slot_leaves_characterised [OF wf i] slot_leaves_characterised [OF wf2 i] eq pre by simp
      show ?thesis
      proof (cases "cs ! i")
        case None
        with sl wf_slot_None [OF wf2 i] show ?thesis by simp
      next
        case (Some c)
        then obtain c2 where c2: "cs2 ! i = Some c2"
          using sl wf_slot_None [OF wf i] wf_slot_None [OF wf2 i] by (cases "cs2 ! i") auto
        moreover have "wf_node (\<pi> @ pre @ [int i]) c2"
          using wf2 c2 i pre by (simp add: wf_node_Branch)
        ultimately show ?thesis using wf_Branch.IH [OF i Some] sl Some by simp
      qed
    qed
    then have "map (map_option shape) cs = map (map_option shape) cs2"
      by (intro nth_equalityI) (simp_all add: len)
    with Branch pre show ?thesis by simp
  qed
qed

text \<open>Recalculated commitments depend on the shape only.\<close>

lemma child_entry_cong:
  "map_option shape c = map_option shape c' \<Longrightarrow> map_option node_commitment c = map_option node_commitment c' \<Longrightarrow>
   child_entry sha c = child_entry sha c'"
  by (cases "(sha, c)" rule: child_entry.cases; cases "(sha, c')" rule: child_entry.cases) auto

lemma get_polynomial_entries:
  "get_polynomial sha cs = concat (map (\<lambda>x. vec_resize x 64 0) (map (child_entry sha) cs))"
  by (simp add: get_polynomial_def comp_def)

lemma commit_node_shape:
  "shape s = shape t \<Longrightarrow>
   shape (commit_node sha cr True s) = shape (commit_node sha cr True t) \<and>
   node_commitment (commit_node sha cr True s) = node_commitment (commit_node sha cr True t)"
proof (induction s arbitrary: t rule: shape.induct)
  case (1 l)
  then show ?case by (cases t) auto
next
  case (2 pre cs m)
  then obtain cs2 m2 where t: "t = Branch pre cs2 m2" "map (map_option shape) cs = map (map_option shape) cs2"
    by (cases t) auto
  let ?C = "map_option (commit_node sha cr True)"
  have len: "length cs = length cs2" using t(2) by (rule map_eq_imp_length_eq)
  have child: "map_option shape (?C (cs ! i)) = map_option shape (?C (cs2 ! i)) \<and>
      map_option node_commitment (?C (cs ! i)) = map_option node_commitment (?C (cs2 ! i))"
    if i: "i < length cs" for i
  proof -
    have e: "map_option shape (cs ! i) = map_option shape (cs2 ! i)"
      using arg_cong [OF t(2), of "\<lambda>xs. xs ! i"] i len by simp
    show ?thesis
    proof (cases "cs ! i")
      case (Some c)
      with e obtain c2 where c2: "cs2 ! i = Some c2" "shape c = shape c2" by (cases "cs2 ! i") auto
      have "cs ! i \<in> set cs" using i by simp
      with c2 Some show ?thesis using "2.IH" [of "cs ! i" c c2] by simp
    qed (use e in simp)
  qed
  have shapes: "map (map_option shape) (map ?C cs) = map (map_option shape) (map ?C cs2)"
    by (rule nth_equalityI) (use child len in auto)
  have "map (child_entry sha) (map ?C cs) = map (child_entry sha) (map ?C cs2)"
    by (rule nth_equalityI) (use child len in \<open>auto intro!: child_entry_cong\<close>)
  then have poly: "get_polynomial sha (map ?C cs) = get_polynomial sha (map ?C cs2)"
    by (simp only: get_polynomial_entries)
  show ?case unfolding t(1) using shapes poly by (simp add: branch_commit_def Let_def)
qed

end
