(* ===== verification/Keyed_Store.thy ===== *)
theory Keyed_Store
  imports Tree_Map
begin

text \<open>
  The contract of the vector commitment tree towards its clients (the hypergraph, the state
  stores and the shard trees): a store of leaves under keys of one length whose digest
  is a function of its content. The contract is the locale \<open>keyed_store\<close>; its
  lemmas speak of whole histories of operations. The tree of
  \<^verbatim>\<open>crates/quil-tries/src/tree.rs\<close> is an interpretation.
\<close>

subsection \<open>The contract\<close>

datatype ('k, 'a) store_op = Put 'k 'a | Del 'k

primrec op_key :: "('k, 'a) store_op \<Rightarrow> 'k" where
  "op_key (Put k a) = k"
| "op_key (Del k) = k"

locale keyed_store =
  fixes inv :: "'s \<Rightarrow> bool"
    and ok_key :: "'k \<Rightarrow> bool"
    and empty :: 's
    and find :: "'s \<Rightarrow> 'k \<Rightarrow> 'v option"
    and put :: "'s \<Rightarrow> 'k \<Rightarrow> 'a \<Rightarrow> 's \<times> unit result"
    and del :: "'s \<Rightarrow> 'k \<Rightarrow> 's \<times> unit result"
    and entry :: "'k \<Rightarrow> 'a \<Rightarrow> 'v"
    and digest :: "'s \<Rightarrow> 'd"
  assumes inv_empty: "inv empty"
    and find_empty: "find empty k = None"
    and find_key: "inv s \<Longrightarrow> find s k = Some v \<Longrightarrow> ok_key k"
    and put_ok: "inv s \<Longrightarrow> ok_key k \<Longrightarrow> snd (put s k a) = Ok ()"
    and put_inv: "inv s \<Longrightarrow> ok_key k \<Longrightarrow> inv (fst (put s k a))"
    and put_find: "inv s \<Longrightarrow> ok_key k \<Longrightarrow> find (fst (put s k a)) = (find s)(k \<mapsto> entry k a)"
    and del_result: "inv s \<Longrightarrow> ok_key k \<Longrightarrow> snd (del s k) = (if find s k = None then Err NotFound else Ok ())"
    and del_inv: "inv s \<Longrightarrow> ok_key k \<Longrightarrow> inv (fst (del s k))"
    and del_find: "inv s \<Longrightarrow> ok_key k \<Longrightarrow> find (fst (del s k)) = (find s)(k := None)"
    and digest_canonical: "inv s \<Longrightarrow> inv t \<Longrightarrow> find s = find t \<Longrightarrow> digest s = digest t"
begin

primrec apply_op :: "'s \<Rightarrow> ('k, 'a) store_op \<Rightarrow> 's" where
  "apply_op s (Put k a) = fst (put s k a)"
| "apply_op s (Del k) = fst (del s k)"

primrec effect :: "('k \<Rightarrow> 'v option) \<Rightarrow> ('k, 'a) store_op \<Rightarrow> ('k \<Rightarrow> 'v option)" where
  "effect m (Put k a) = m(k \<mapsto> entry k a)"
| "effect m (Del k) = m(k := None)"

lemma apply_op_refines:
  assumes "inv s" "ok_key (op_key oper)"
  shows "inv (apply_op s oper) \<and> find (apply_op s oper) = effect (find s) oper"
  using assms by (cases oper) (simp_all add: put_inv put_find del_inv del_find)

lemma history_refines:
  assumes "inv s" "\<forall>oper \<in> set opers. ok_key (op_key oper)"
  shows "inv (foldl apply_op s opers) \<and> find (foldl apply_op s opers) = foldl effect (find s) opers"
  using assms
proof (induction opers arbitrary: s)
  case (Cons oper opers)
  then show ?case using apply_op_refines [of s oper] by simp
qed simp

theorem digest_history_independent:
  assumes "\<forall>oper \<in> set xs. ok_key (op_key oper)" "\<forall>oper \<in> set ys. ok_key (op_key oper)"
    "foldl effect Map.empty xs = foldl effect Map.empty ys"
  shows "digest (foldl apply_op empty xs) = digest (foldl apply_op empty ys)"
proof -
  have "find empty = Map.empty" by (rule ext) (rule find_empty)
  with assms history_refines [OF inv_empty assms(1)] history_refines [OF inv_empty assms(2)]
  show ?thesis by (intro digest_canonical) auto
qed

lemma digest_put_del:
  assumes "inv s" "ok_key k" "find s k = None"
  shows "digest (fst (del (fst (put s k a)) k)) = digest s"
  using assms by (intro digest_canonical) (auto simp: put_inv put_find del_inv del_find)

lemma digest_put_commute:
  assumes "inv s" "ok_key k" "ok_key k'" "k \<noteq> k'"
  shows "digest (fst (put (fst (put s k a)) k' b)) = digest (fst (put (fst (put s k' b)) k a))"
  using assms by (intro digest_canonical) (auto simp: put_inv put_find)

end

subsection \<open>Well-formed trees\<close>

text \<open>
  A set of keys is usable when no key's nibble path is a prefix of another's. The keys of one
  length are such a set; the fields of a vertex, which mix lengths, are another.
\<close>

definition apart_keys :: "bytes set \<Rightarrow> bool" where
  "apart_keys K \<longleftrightarrow> [] \<notin> K \<and> (\<forall>k \<in> K. \<forall>k' \<in> K. k' = k \<or> parallel (path k) (path k'))"

definition wf_over :: "bytes set \<Rightarrow> vc_tree \<Rightarrow> bool" where
  "wf_over K t \<longleftrightarrow> (\<forall>r. root t = Some r \<longrightarrow> wf_node [] r \<and> (\<forall>l \<in> leaf_set r. key l \<in> K))"

definition wf_tree :: "nat \<Rightarrow> vc_tree \<Rightarrow> bool" where
  "wf_tree n t \<longleftrightarrow>
     (\<forall>r. root t = Some r \<longrightarrow> wf_node [] r \<and> (\<forall>l \<in> leaf_set r. length (key l) = n \<and> key l \<noteq> []))"

definition usable_key :: "nat \<Rightarrow> bytes \<Rightarrow> bool" where
  "usable_key n k \<longleftrightarrow> length k = n \<and> k \<noteq> []"

abbreviation tree_put :: "(bytes \<Rightarrow> bytes) \<Rightarrow> vc_tree \<Rightarrow> bytes \<Rightarrow> bytes \<times> bytes \<times> int \<Rightarrow> vc_tree \<times> unit result" where
  "tree_put sha t k a \<equiv> (case a of (v, h, s) \<Rightarrow> tree_insert sha t k v h s)"

abbreviation tree_entry :: "(bytes \<Rightarrow> bytes) \<Rightarrow> bytes \<Rightarrow> bytes \<times> bytes \<times> int \<Rightarrow> leaf_node" where
  "tree_entry sha k a \<equiv> (case a of (v, h, s) \<Rightarrow> new_leaf sha k v h s)"

lemma option_eqI: "(\<And>x. a = Some x \<longleftrightarrow> b = Some x) \<Longrightarrow> a = b"
  by (cases a) (auto simp: eq_commute)

lemma prefix_same_length: "prefix xs ys \<Longrightarrow> length xs = length ys \<Longrightarrow> xs = ys"
  by (auto simp: prefix_def)

lemma apart_compatible:
  "apart_keys K \<Longrightarrow> k \<in> K \<Longrightarrow> \<forall>l \<in> L. key l \<in> K \<Longrightarrow> compatible k L"
  by (auto simp: apart_keys_def compatible_def)

lemma fixed_keys_apart: "apart_keys (Collect (usable_key n))"
proof -
  have "parallel (path k) (path k')" if "length k = length k'" "k' \<noteq> k" for k k'
  proof -
    have "length (path k) = length (path k')" using that(1) by (simp add: length_full_path)
    moreover have "path k \<noteq> path k'" using that(2) by (auto simp: get_full_path_inject)
    ultimately show ?thesis unfolding parallel_def by (metis prefix_same_length)
  qed
  then show ?thesis by (auto simp: apart_keys_def usable_key_def)
qed

lemma wf_tree_over: "wf_tree n = wf_over (Collect (usable_key n))"
  by (rule ext) (simp add: wf_tree_def wf_over_def usable_key_def)

lemma usable_key_over: "usable_key n = (\<lambda>k. k \<in> Collect (usable_key n))"
  by simp

lemma get_leaf_iff:
  assumes "wf_over K t"
  shows "get_leaf t k = Some l \<longleftrightarrow> l \<in> slot_leaves (root t) \<and> key l = k"
  using assms get_recursive_spec [of "[]" _ k l]
  by (cases "root t") (auto simp: get_leaf_def wf_over_def)

lemma get_leaf_None:
  assumes "wf_over K t"
  shows "get_leaf t k = None \<longleftrightarrow> (\<forall>l \<in> slot_leaves (root t). key l \<noteq> k)"
  using get_leaf_iff [OF assms, of k] by (cases "get_leaf t k") auto

lemma tree_insert_spec:
  assumes K: "apart_keys K" and wf: "wf_over K t" and k: "k \<in> K"
  obtains r where "tree_insert sha t k v h s = (t\<lparr>root := Some r\<rparr>, Ok ())" "wf_over K (t\<lparr>root := Some r\<rparr>)"
    "leaf_set r = insert (new_leaf sha k v h s) {l \<in> slot_leaves (root t). key l \<noteq> k}"
    "(\<forall>u. root t = Some u \<longrightarrow> countable u) \<longrightarrow> counted r"
proof (cases "root t")
  case None
  then show ?thesis
    using k that [of "Leaf (new_leaf sha k v h s)"]
    by (auto simp: tree_insert_def wf_over_def)
next
  case (Some r0)
  have "compatible k (leaf_set r0)"
    using wf Some by (intro apart_compatible [OF K k]) (auto simp: wf_over_def)
  then obtain r where r: "insert_recursive sha (Some r0) k v h s 0 = Ok r" "wf_node [] r"
      "leaf_set r = insert (new_leaf sha k v h s) {l \<in> leaf_set r0. key l \<noteq> k}" "countable r0 \<longrightarrow> counted r"
    using insert_recursive_spec [of "[]" r0 k sha v h s] wf Some by (auto simp: wf_over_def)
  moreover have "wf_over K (t\<lparr>root := Some r\<rparr>)"
    using r wf k Some by (auto simp: wf_over_def)
  ultimately show ?thesis using that [of r] Some by (auto simp: tree_insert_def)
qed

lemma tree_delete_spec:
  assumes K: "apart_keys K" and wf: "wf_over K t" and k: "k \<in> K"
  obtains r where "tree_delete t k = (t\<lparr>root := r\<rparr>, if get_leaf t k = None then Err NotFound else Ok ())"
    "wf_over K (t\<lparr>root := r\<rparr>)" "slot_leaves r = {l \<in> slot_leaves (root t). key l \<noteq> k}"
    "(\<forall>u. root t = Some u \<longrightarrow> counted u) \<longrightarrow> (\<forall>u. r = Some u \<longrightarrow> counted u)"
proof -
  obtain found r where d: "delete_recursive (root t) k 0 = (found, r)" by fastforce
  have spec: "deleted [] k (root t) (found, r)"
  proof (cases "root t")
    case None
    with d show ?thesis by (simp add: deleted_def)
  next
    case (Some u)
    with wf delete_recursive_spec [of "[]" u k] d show ?thesis by (simp add: wf_over_def)
  qed
  have found: "found \<longleftrightarrow> get_leaf t k \<noteq> None"
    using spec get_leaf_None [OF wf, of k] by (auto simp: deleted_def split: if_splits)
  have leaves: "slot_leaves r = {l \<in> slot_leaves (root t). key l \<noteq> k}"
    using spec by (auto simp: deleted_def split: if_splits)
  have "wf_node [] u" if "r = Some u" for u
    using spec wf that by (auto simp: deleted_def wf_over_def split: if_splits)
  then have "wf_over K (t\<lparr>root := r\<rparr>)"
    using wf leaves by (cases "root t") (auto simp: wf_over_def)
  moreover have "(\<forall>u. root t = Some u \<longrightarrow> counted u) \<longrightarrow> (\<forall>u. r = Some u \<longrightarrow> counted u)"
    using spec by (auto simp: deleted_def split: if_splits)
  moreover have "tree_delete t k = (t\<lparr>root := r\<rparr>, if get_leaf t k = None then Err NotFound else Ok ())"
    using K k found d by (auto simp: tree_delete_def apart_keys_def)
  ultimately show ?thesis using that [of r] leaves by blast
qed

definition root_digest :: "(bytes \<Rightarrow> bytes) \<Rightarrow> (bytes \<Rightarrow> nat \<Rightarrow> bytes option) \<Rightarrow> vc_tree \<Rightarrow> bytes" where
  "root_digest sha cr t = snd (tree_commit sha cr t)"

lemma find_eq_leaves:
  assumes "wf_over K s" "wf_over K t" "get_leaf s = get_leaf t"
  shows "slot_leaves (root s) = slot_leaves (root t)"
  using get_leaf_iff [OF assms(1)] get_leaf_iff [OF assms(2)] assms(3) by (intro set_eqI) metis

lemma root_digest_canonical:
  assumes "wf_over K s" "wf_over K t" "get_leaf s = get_leaf t"
  shows "root_digest sha cr s = root_digest sha cr t"
proof -
  have leaves: "slot_leaves (root s) = slot_leaves (root t)" by (rule find_eq_leaves [OF assms])
  have ne: "slot_leaves (Some r) \<noteq> {}" if "wf_node [] r" for r using wf_leaves [OF that] by simp
  show ?thesis
  proof (cases "root s"; cases "root t")
    fix a b assume ab: "root s = Some a" "root t = Some b"
    then have "shape a = shape b"
      using assms leaves by (intro canonical_shape [of "[]"]) (auto simp: wf_over_def)
    with ab commit_node_shape [of a b sha cr] show ?thesis
      by (simp add: root_digest_def tree_commit_def Let_def)
  qed (use assms leaves ne in \<open>auto simp: root_digest_def tree_commit_def wf_over_def\<close>)
qed

lemma tree_keyed_store:
  assumes K: "apart_keys K"
  shows "keyed_store (wf_over K) (\<lambda>k. k \<in> K) new_tree get_leaf (tree_put sha) tree_delete
    (tree_entry sha) (root_digest sha cr)"
proof unfold_locales
  show "wf_over K new_tree" by (simp add: wf_over_def new_tree_def)
next
  fix k show "get_leaf new_tree k = None" by (simp add: get_leaf_def new_tree_def)
next
  fix s k v assume "wf_over K s" "get_leaf s k = Some v"
  then show "k \<in> K"
    using get_leaf_iff [of K s k v]
    by (auto simp: wf_over_def slot_leaves_def split: option.splits)
next
  fix s k and a :: "bytes \<times> bytes \<times> int" assume *: "wf_over K s" "k \<in> K"
  obtain v h z where a: "a = (v, h, z)" by (cases a)
  obtain r where r: "tree_insert sha s k v h z = (s\<lparr>root := Some r\<rparr>, Ok ())" "wf_over K (s\<lparr>root := Some r\<rparr>)"
    "leaf_set r = insert (new_leaf sha k v h z) {l \<in> slot_leaves (root s). key l \<noteq> k}"
    by (rule tree_insert_spec [OF K *, of sha v h z]) blast
  show "snd (tree_put sha s k a) = Ok ()" "wf_over K (fst (tree_put sha s k a))" using r a by simp_all
  show "get_leaf (fst (tree_put sha s k a)) = (get_leaf s)(k \<mapsto> tree_entry sha k a)"
  proof
    fix k'
    show "get_leaf (fst (tree_put sha s k a)) k' = ((get_leaf s)(k \<mapsto> tree_entry sha k a)) k'"
    proof (cases "k' = k")
      case True
      have "get_leaf (s\<lparr>root := Some r\<rparr>) k = Some (new_leaf sha k v h z)"
        using get_leaf_iff [OF r(2), of k "new_leaf sha k v h z"] r(3) by simp
      with True a r(1) show ?thesis by simp
    next
      case False
      then have "get_leaf (s\<lparr>root := Some r\<rparr>) k' = Some l \<longleftrightarrow> get_leaf s k' = Some l" for l
        unfolding get_leaf_iff [OF r(2)] get_leaf_iff [OF *(1)] using r(3) by auto
      then have "get_leaf (s\<lparr>root := Some r\<rparr>) k' = get_leaf s k'" by (rule option_eqI)
      with False a r(1) show ?thesis by simp
    qed
  qed
next
  fix s k assume *: "wf_over K s" "k \<in> K"
  obtain r where r: "tree_delete s k = (s\<lparr>root := r\<rparr>, if get_leaf s k = None then Err NotFound else Ok ())"
    "wf_over K (s\<lparr>root := r\<rparr>)" "slot_leaves r = {l \<in> slot_leaves (root s). key l \<noteq> k}"
    by (rule tree_delete_spec [OF K *]) blast
  show "snd (tree_delete s k) = (if get_leaf s k = None then Err NotFound else Ok ())"
    "wf_over K (fst (tree_delete s k))" using r by simp_all
  show "get_leaf (fst (tree_delete s k)) = (get_leaf s)(k := None)"
  proof
    fix k'
    have "get_leaf (s\<lparr>root := r\<rparr>) k' = ((get_leaf s)(k := None)) k'"
    proof (rule option_eqI)
      fix l
      show "get_leaf (s\<lparr>root := r\<rparr>) k' = Some l \<longleftrightarrow> ((get_leaf s)(k := None)) k' = Some l"
        unfolding get_leaf_iff [OF r(2)] fun_upd_apply using get_leaf_iff [OF *(1), of k' l] r(3) by auto
    qed
    then show "get_leaf (fst (tree_delete s k)) k' = ((get_leaf s)(k := None)) k'"
      by (simp only: r(1) fst_conv)
  qed
qed (rule root_digest_canonical)

interpretation vct: keyed_store "wf_tree n" "usable_key n" new_tree get_leaf "tree_put sha" tree_delete
    "tree_entry sha" "root_digest sha cr"
  for n sha cr
  unfolding wf_tree_over by (subst usable_key_over) (rule tree_keyed_store [OF fixed_keys_apart])

lemmas fixed_insert_spec = tree_insert_spec [OF fixed_keys_apart, folded wf_tree_over, simplified mem_Collect_eq]
lemmas fixed_delete_spec = tree_delete_spec [OF fixed_keys_apart, folded wf_tree_over, simplified mem_Collect_eq]

subsection \<open>Histories of tree operations\<close>

primrec tree_step :: "(bytes \<Rightarrow> bytes) \<Rightarrow> vc_tree \<Rightarrow> (bytes, bytes \<times> bytes \<times> int) store_op \<Rightarrow> vc_tree" where
  "tree_step sha t (Put k a) = (case a of (v, h, s) \<Rightarrow> fst (tree_insert sha t k v h s))"
| "tree_step sha t (Del k) = fst (tree_delete t k)"

primrec leaf_effect ::
  "(bytes \<Rightarrow> bytes) \<Rightarrow> (bytes \<Rightarrow> leaf_node option) \<Rightarrow> (bytes, bytes \<times> bytes \<times> int) store_op \<Rightarrow>
   (bytes \<Rightarrow> leaf_node option)" where
  "leaf_effect sha m (Put k a) = m(k \<mapsto> (case a of (v, h, s) \<Rightarrow> new_leaf sha k v h s))"
| "leaf_effect sha m (Del k) = m(k := None)"

lemma tree_step_apply_op [simp]: "keyed_store.apply_op (tree_put sha) tree_delete = tree_step sha"
proof (intro ext)
  fix t and oper :: "(bytes, bytes \<times> bytes \<times> int) store_op"
  show "keyed_store.apply_op (tree_put sha) tree_delete t oper = tree_step sha t oper"
    by (cases oper) (auto split: prod.splits)
qed

lemma leaf_effect_effect [simp]: "keyed_store.effect (tree_entry sha) = leaf_effect sha"
proof (intro ext)
  fix m k and oper :: "(bytes, bytes \<times> bytes \<times> int) store_op"
  show "keyed_store.effect (tree_entry sha) m oper k = leaf_effect sha m oper k"
    by (cases oper) auto
qed

lemma wf_insert: "wf_tree n t \<Longrightarrow> usable_key n k \<Longrightarrow> wf_tree n (fst (tree_insert sha t k v h s))"
  using vct.put_inv [of n t k sha "(v, h, s)"] by simp

lemma wf_new_tree: "wf_tree n new_tree"
  by (rule vct.inv_empty)

lemmas wf_tree_intros = wf_new_tree wf_insert vct.del_inv

lemma usable_key_code: "usable_key n k \<longleftrightarrow> length k = n \<and> n \<noteq> 0"
  by (auto simp: usable_key_def)

definition demo_sha :: "bytes \<Rightarrow> bytes" where
  "demo_sha xs = take 64 (xs @ replicate 64 7)"

definition demo_tree :: vc_tree where
  "demo_tree = fst (tree_insert demo_sha (fst (tree_insert demo_sha new_tree [1, 2] [10] [] 1)) [1, 3] [11] [] 1)"

lemma wf_demo_tree: "wf_tree 2 demo_tree"
  unfolding demo_tree_def by (intro wf_tree_intros) (simp_all add: usable_key_code)

subsection \<open>Properties\<close>

text \<open>C12. Insertion into a tree whose keys all have the same non-zero length succeeds, keeps the
  tree well formed, and is a map update: the key now has the new leaf, with its
  commitment computed, and every other key has what it had.\<close>

theorem tree_insert_lookup:
  assumes "wf_tree n t" "usable_key n k"
  shows "snd (tree_insert sha t k v h s) = Ok () \<and> wf_tree n (fst (tree_insert sha t k v h s)) \<and>
    (\<forall>k'. get_leaf (fst (tree_insert sha t k v h s)) k' =
           (if k' = k then Some (new_leaf sha k v h s) else get_leaf t k'))"
  using vct.put_ok [OF assms, of sha "(v, h, s)"] vct.put_inv [OF assms, of sha "(v, h, s)"]
    vct.put_find [OF assms, of sha "(v, h, s)"] by simp

theorem tree_insert_lookup_witness:
  "tree_get (fst (tree_insert demo_sha demo_tree [9, 9] [12] [] 1)) [9, 9] = Some [12] \<and>
   get_leaf (fst (tree_insert demo_sha demo_tree [9, 9] [12] [] 1)) [1, 2] = get_leaf demo_tree [1, 2]"
  using tree_insert_lookup [OF wf_demo_tree, of "[9, 9]" demo_sha "[12]" "[]" 1]
  by (simp add: usable_key_code tree_get_def new_leaf_def compute_commitment_def)

text \<open>C13. Deletion reports \<open>NotFound\<close> exactly for an absent key, keeps the tree well formed
  (branches left with one child are merged away), removes the key and keeps every other.\<close>

theorem tree_delete_lookup:
  assumes "wf_tree n t" "usable_key n k"
  shows "snd (tree_delete t k) = (if get_leaf t k = None then Err NotFound else Ok ()) \<and>
    wf_tree n (fst (tree_delete t k)) \<and>
    (\<forall>k'. get_leaf (fst (tree_delete t k)) k' = (if k' = k then None else get_leaf t k'))"
  using vct.del_result [OF assms] vct.del_inv [OF assms] vct.del_find [OF assms] by simp

theorem tree_delete_lookup_witness:
  "snd (tree_delete demo_tree [1, 2]) = Ok () \<and> snd (tree_delete demo_tree [5, 5]) = Err NotFound \<and>
   get_leaf (fst (tree_delete demo_tree [1, 2])) [1, 2] = None \<and>
   get_leaf (fst (tree_delete demo_tree [1, 2])) [1, 3] = get_leaf demo_tree [1, 3]"
proof -
  have "get_leaf demo_tree [1, 2] \<noteq> None" "get_leaf demo_tree [5, 5] = None" by code_simp+
  then show ?thesis
    using tree_delete_lookup [OF wf_demo_tree, of "[1, 2]"] tree_delete_lookup [OF wf_demo_tree, of "[5, 5]"]
    by (simp add: usable_key_code)
qed

text \<open>C1. The root commitment is a function of the content: two histories of insertions and
  deletions over keys of one length that lead to the same map of leaves lead to the same
  root commitment, whatever hash and commitment scheme are used.\<close>

theorem root_digest_history_independent:
  assumes "\<forall>oper \<in> set xs. usable_key n (op_key oper)" "\<forall>oper \<in> set ys. usable_key n (op_key oper)"
    "foldl (leaf_effect sha) Map.empty xs = foldl (leaf_effect sha) Map.empty ys"
  shows "snd (tree_commit sha commit_raw (foldl (tree_step sha) new_tree xs)) =
    snd (tree_commit sha commit_raw (foldl (tree_step sha) new_tree ys))"
  using vct.digest_history_independent [OF assms(1,2), of sha] assms(3) by (simp add: root_digest_def)

theorem root_digest_history_independent_witness:
  "snd (tree_commit demo_sha (\<lambda>v n. Some (take n v))
      (foldl (tree_step demo_sha) new_tree [Put [1] ([5], [], 1), Put [2] ([6], [], 1), Del [1]])) =
   snd (tree_commit demo_sha (\<lambda>v n. Some (take n v))
      (foldl (tree_step demo_sha) new_tree [Put [2] ([6], [], 1)]))"
  by (rule root_digest_history_independent [of _ 1]) (auto simp: usable_key_code)

text \<open>Inserting a fresh key and deleting it again restores the root commitment.\<close>

lemma insert_delete_restores_commitment:
  assumes "wf_tree n t" "usable_key n k" "get_leaf t k = None"
  shows "snd (tree_commit sha commit_raw (fst (tree_delete (fst (tree_insert sha t k v h s)) k))) =
    snd (tree_commit sha commit_raw t)"
  using vct.digest_put_del [OF assms, where a = "(v, h, s)"] by (simp add: root_digest_def)

lemma insert_delete_restores_commitment_witness:
  "snd (tree_commit demo_sha (\<lambda>v n. Some (take n v))
      (fst (tree_delete (fst (tree_insert demo_sha demo_tree [9, 9] [1] [2] 3)) [9, 9]))) =
   snd (tree_commit demo_sha (\<lambda>v n. Some (take n v)) demo_tree)"
proof -
  have "get_leaf demo_tree [9, 9] = None" by code_simp
  then show ?thesis
    by (intro insert_delete_restores_commitment [OF wf_demo_tree]) (simp_all add: usable_key_code)
qed

text \<open>The leaf counters of all branches stay right: if every branch of a tree counts the
  leaves below it and the tree has fewer than \<open>2 ^ 64 - 1\<close> leaves, the same holds of the counters
  after an insertion and after a deletion.\<close>

theorem leaf_counts_preserved:
  assumes "wf_tree n t" "usable_key n k" "root t = Some r" "countable r"
  shows "(\<forall>u. root (fst (tree_insert sha t k v h s)) = Some u \<longrightarrow> counted u) \<and>
    (\<forall>u. root (fst (tree_delete t k)) = Some u \<longrightarrow> counted u)"
proof
  have c: "\<forall>u. root t = Some u \<longrightarrow> countable u" "\<forall>u. root t = Some u \<longrightarrow> counted u"
    using assms(3,4) by (simp_all add: countable_def)
  show "\<forall>u. root (fst (tree_insert sha t k v h s)) = Some u \<longrightarrow> counted u"
    by (rule fixed_insert_spec [OF assms(1,2), of sha v h s]) (use c in simp)
  show "\<forall>u. root (fst (tree_delete t k)) = Some u \<longrightarrow> counted u"
    by (rule fixed_delete_spec [OF assms(1,2)]) (use c in simp)
qed

theorem leaf_counts_preserved_witness:
  "countable (the (root demo_tree)) \<and>
   counted (the (root (fst (tree_insert demo_sha demo_tree [9, 9] [1] [2] 3))))"
proof -
  have key: "usable_key 2 [9, 9]" by (simp add: usable_key_code)
  have r: "root demo_tree = Some (the (root demo_tree))" "counted (the (root demo_tree))" by code_simp+
  have "length (collect_leaves (the (root demo_tree))) = 2" by code_simp
  with r(2) have c: "countable (the (root demo_tree))" by (simp add: countable_def)
  obtain u where "root (fst (tree_insert demo_sha demo_tree [9, 9] [1] [2] 3)) = Some u"
    by (rule fixed_insert_spec [OF wf_demo_tree key, of demo_sha "[1]" "[2]" 3]) simp
  with leaf_counts_preserved [OF wf_demo_tree key r(1) c, of demo_sha "[1]" "[2]" 3] c show ?thesis by simp
qed

text \<open>A failed insertion empties the tree: when the key's nibble path ends at the root
  branch, the insertion returns \<open>InvalidArgument\<close>, and the root, taken out before the
  recursion, is not put back.\<close>

theorem failed_insert_empties_tree:
  assumes "root t = Some (Branch (path k) cs m)"
  shows "tree_insert sha t k v h s = (t\<lparr>root := None\<rparr>, Err InvalidArgument)"
proof -
  have "first_mismatch k (6 * length ([] :: int list)) (path k) = None"
    using first_mismatch_spec [of "[]" k "path k"] path_range [of _ k]
    by (cases "first_mismatch k 0 (path k)") (auto simp: nibble_at)
  moreover have "get_next_nibble k (6 * length (path k)) = - 1"
    by (subst nibble_at) simp
  ultimately show ?thesis using assms by (simp add: tree_insert_def Let_def)
qed

theorem failed_insert_empties_tree_witness:
  "root (fst (tree_insert demo_sha (fst (tree_insert demo_sha
      (fst (tree_insert demo_sha new_tree [0] [1] [] 1)) [128] [1] [] 1)) [] [1] [] 1)) = None"
proof -
  let ?t = "fst (tree_insert demo_sha (fst (tree_insert demo_sha new_tree [0] [1] [] 1)) [128] [1] [] 1)"
  have "case root ?t of Some (Branch pre cs m) \<Rightarrow> pre = path [] | _ \<Rightarrow> False" by code_simp
  then obtain cs m where "root ?t = Some (Branch (path []) cs m)"
    by (auto split: option.splits vc_node.splits)
  then show ?thesis by (simp add: failed_insert_empties_tree)
qed

text \<open>
  Two behaviours outside the contract. A key whose nibble path extends another key's displaces
  it: the branch made for the pair has no slot for the shorter key, yet counts two leaves.
\<close>

lemma prefix_key_displaces_leaf:
  "(let t = fst (tree_insert demo_sha (fst (tree_insert demo_sha new_tree [0] [1] [] 1)) [0, 0] [2] [] 1)
    in tree_get t [0] = None \<and> tree_get t [0, 0] = Some [2] \<and> child_leaf_count (root t) = 2)"
  by code_simp

text \<open>
  The cached depth of a branch is not a function of its children: the branch made for two
  leaves has depth 0, and inserting one of them again, which changes no leaf, makes it 1.
\<close>

lemma longest_branch_history:
  "(let t = fst (tree_insert demo_sha (fst (tree_insert demo_sha new_tree [0] [1] [] 1)) [128] [2] [] 1);
        t' = fst (tree_insert demo_sha t [0] [1] [] 1)
    in child_longest (root t) = 0 \<and> child_longest (root t') = 1 \<and> tree_leaves t = tree_leaves t')"
  by code_simp

end
