(* ===== verification/Tree_Codec.thy ===== *)
theory Tree_Codec
  imports Byte_Codec Keyed_Store
begin

text \<open>
  The binary formats of the tree: the whole-tree blob of
  \<^verbatim>\<open>crates/quil-tries/src/serialize.rs\<close>, its per-node variant, and the wire format of
  \<^verbatim>\<open>go_format.rs\<close>. The two whole-tree formats have one layout; they differ in the cap on a
  field and in the bytes of a size. The byte representation of a \<^verbatim>\<open>BigInt\<close> is
  code of another package and a parameter: \<open>enc\<close> and \<open>dec\<close> stand for
  \<^verbatim>\<open>to_signed_bytes_be\<close> and \<^verbatim>\<open>from_signed_bytes_be\<close>, \<open>mag\<close> and
  \<open>of_mag\<close> for \<^verbatim>\<open>to_bytes_be\<close> and \<^verbatim>\<open>from_bytes_be\<close>. The
  nesting counter of the readers is the argument \<open>fuel\<close>: \<open>Suc MAX_DESERIALIZE_DEPTH - depth\<close>.
\<close>

subsection \<open>Operations\<close>

abbreviation (input) TYPE_NIL :: u8 where "TYPE_NIL \<equiv> 0"
abbreviation (input) TYPE_LEAF :: u8 where "TYPE_LEAF \<equiv> 1"
abbreviation (input) TYPE_BRANCH :: u8 where "TYPE_BRANCH \<equiv> 2"

definition MAX_TREE_PREFIX_LEN :: nat where "MAX_TREE_PREFIX_LEN = 256"
definition MAX_LENGTH_PREFIXED_FIELD :: nat where "MAX_LENGTH_PREFIXED_FIELD = 16 * 1024 * 1024"
definition MAX_DESERIALIZE_DEPTH :: nat where "MAX_DESERIALIZE_DEPTH = 128"
definition GO_FIELD_CAP :: nat where "GO_FIELD_CAP = 1024 * 1024 * 1024"

definition write_prefix :: "int list \<Rightarrow> bytes" where
  "write_prefix pre = write_u32 (of_nat (length pre)) @ concat (map write_i32 pre)"

definition write_counters :: "branch_meta \<Rightarrow> bytes" where
  "write_counters m = write_u64 (leaf_count m) @ write_u32 (ucast (longest_branch m))"

definition write_leaf :: "(int \<Rightarrow> bytes) \<Rightarrow> bytes \<Rightarrow> leaf_node \<Rightarrow> bytes" where
  "write_leaf enc v l =
     [TYPE_LEAF] @ write_field (key l) @ write_field v @ write_field (hash_target l) @
     write_field (leaf_commitment l) @ write_field (enc (leaf_size l))"

fun serialize_some :: "(int \<Rightarrow> bytes) \<Rightarrow> vc_node \<Rightarrow> bytes" where
  "serialize_some enc (Leaf l) = write_leaf enc (leaf_value l) l"
| "serialize_some enc (Branch pre cs m) =
     [TYPE_BRANCH] @ write_prefix pre @
     concat (map (\<lambda>c. case c of None \<Rightarrow> [TYPE_NIL] | Some t \<Rightarrow> serialize_some enc t) cs) @
     write_field (branch_commitment m) @ write_field (enc (branch_size m)) @ write_counters m"

definition serialize_node :: "(int \<Rightarrow> bytes) \<Rightarrow> vc_node option \<Rightarrow> bytes" where
  "serialize_node enc t = (case t of None \<Rightarrow> [TYPE_NIL] | Some n \<Rightarrow> serialize_some enc n)"

definition serialize_tree :: "(int \<Rightarrow> bytes) \<Rightarrow> vc_node option \<Rightarrow> bytes" where
  "serialize_tree enc t = serialize_node enc t"

definition serialize_node_solo :: "(int \<Rightarrow> bytes) \<Rightarrow> vc_node \<Rightarrow> bytes" where
  "serialize_node_solo enc n =
     (case n of
        Leaf l \<Rightarrow> write_leaf enc [] l
      | Branch pre cs m \<Rightarrow>
          [TYPE_BRANCH] @ write_prefix pre @ write_field (branch_commitment m) @
          write_field (enc (branch_size m)) @ write_counters m)"

definition read_size :: "nat \<Rightarrow> (bytes \<Rightarrow> int) \<Rightarrow> bytes \<Rightarrow> (int \<times> bytes) result" where
  "read_size cap dec bs =
     try_then (read_field cap bs) (\<lambda>(b, r). Ok (if b = [] then 0 else dec b, r))"

definition read_prefix :: "bytes \<Rightarrow> (int list \<times> bytes) result" where
  "read_prefix bs =
     try_then (read_u32 bs) (\<lambda>(n, r).
       if MAX_TREE_PREFIX_LEN < unat n then Err Serialization else read_n read_i32 (unat n) r)"

definition read_leaf :: "nat \<Rightarrow> (bytes \<Rightarrow> int) \<Rightarrow> bytes \<Rightarrow> (leaf_node \<times> bytes) result" where
  "read_leaf cap dec bs =
     try_then (read_field cap bs) (\<lambda>(k, r1).
     try_then (read_field cap r1) (\<lambda>(v, r2).
     try_then (read_field cap r2) (\<lambda>(h, r3).
     try_then (read_field cap r3) (\<lambda>(c, r4).
     try_then (read_size cap dec r4) (\<lambda>(s, r5).
       Ok (\<lparr>key = k, leaf_value = v, hash_target = h, leaf_commitment = c, leaf_size = s\<rparr>, r5))))))"

definition read_meta :: "nat \<Rightarrow> (bytes \<Rightarrow> int) \<Rightarrow> bool \<Rightarrow> bytes \<Rightarrow> (branch_meta \<times> bytes) result" where
  "read_meta cap dec loaded bs =
     try_then (read_field cap bs) (\<lambda>(c, r1).
     try_then (read_size cap dec r1) (\<lambda>(s, r2).
     try_then (read_u64 r2) (\<lambda>(n, r3).
     try_then (read_i32 r3) (\<lambda>(d, r4).
       Ok (\<lparr>branch_commitment = c, branch_size = s, leaf_count = n, longest_branch = word_of_int d,
            full_prefix = [], fully_loaded = loaded\<rparr>, r4)))))"

fun read_node :: "nat \<Rightarrow> (bytes \<Rightarrow> int) \<Rightarrow> nat \<Rightarrow> bytes \<Rightarrow> (vc_node option \<times> bytes) result" where
  "read_node cap dec 0 bs = Err Serialization"
| "read_node cap dec (Suc fuel) bs =
     try_then (read_u8 bs) (\<lambda>(tag, r).
       if tag = TYPE_NIL then Ok (None, r)
       else if tag = TYPE_LEAF then try_then (read_leaf cap dec r) (\<lambda>(l, r'). Ok (Some (Leaf l), r'))
       else if tag = TYPE_BRANCH then
         try_then (read_prefix r) (\<lambda>(pre, r1).
         try_then (read_n (read_node cap dec fuel) BRANCH_NODES r1) (\<lambda>(cs, r2).
         try_then (read_meta cap dec True r2) (\<lambda>(m, r3). Ok (Some (Branch pre cs m), r3))))
       else Err Serialization)"

definition deserialize_node_at_depth ::
  "(bytes \<Rightarrow> int) \<Rightarrow> nat \<Rightarrow> bytes \<Rightarrow> (vc_node option \<times> bytes) result" where
  "deserialize_node_at_depth dec d bs =
     read_node MAX_LENGTH_PREFIXED_FIELD dec (Suc MAX_DESERIALIZE_DEPTH - d) bs"

definition deserialize_tree :: "(bytes \<Rightarrow> int) \<Rightarrow> bytes \<Rightarrow> vc_node option result" where
  "deserialize_tree dec bs = try_then (deserialize_node_at_depth dec 0 bs) (\<lambda>(t, r). Ok t)"

definition deserialize_node_solo :: "(bytes \<Rightarrow> int) \<Rightarrow> bytes \<Rightarrow> vc_node result" where
  "deserialize_node_solo dec bs =
     try_then (read_u8 bs) (\<lambda>(tag, r).
       if tag = TYPE_LEAF then
         try_then (read_leaf MAX_LENGTH_PREFIXED_FIELD dec r) (\<lambda>(l, r'). Ok (Leaf l))
       else if tag = TYPE_BRANCH then
         try_then (read_prefix r) (\<lambda>(pre, r1).
         try_then (read_meta MAX_LENGTH_PREFIXED_FIELD dec False r1) (\<lambda>(m, r2).
           Ok (Branch pre (replicate BRANCH_NODES None) m)))
       else Err Serialization)"

text \<open>The wire format: a size is its magnitude, empty for zero, and a negative one is an error.\<close>

definition write_bigint :: "(int \<Rightarrow> bytes) \<Rightarrow> int \<Rightarrow> bytes result" where
  "write_bigint mag n =
     (if n < 0 then Err Serialization else Ok (write_field (if n = 0 then [] else mag n)))"

fun concat_results :: "bytes result list \<Rightarrow> bytes result" where
  "concat_results [] = Ok []"
| "concat_results (x # xs) = try_then x (\<lambda>b. try_then (concat_results xs) (\<lambda>bs. Ok (b @ bs)))"

fun write_some :: "(int \<Rightarrow> bytes) \<Rightarrow> vc_node \<Rightarrow> bytes result" where
  "write_some mag (Leaf l) =
     try_then (write_bigint mag (leaf_size l)) (\<lambda>s.
       Ok ([TYPE_LEAF] @ write_field (key l) @ write_field (leaf_value l) @ write_field (hash_target l) @
           write_field (leaf_commitment l) @ s))"
| "write_some mag (Branch pre cs m) =
     try_then (concat_results
        (map (\<lambda>c. case c of None \<Rightarrow> Ok [TYPE_NIL] | Some t \<Rightarrow> write_some mag t) cs)) (\<lambda>body.
     try_then (write_bigint mag (branch_size m)) (\<lambda>s.
       Ok ([TYPE_BRANCH] @ write_prefix pre @ body @ write_field (branch_commitment m) @ s @ write_counters m)))"

definition write_node :: "(int \<Rightarrow> bytes) \<Rightarrow> vc_node option \<Rightarrow> bytes result" where
  "write_node mag t = (case t of None \<Rightarrow> Ok [TYPE_NIL] | Some n \<Rightarrow> write_some mag n)"

definition serialize_go_tree :: "(int \<Rightarrow> bytes) \<Rightarrow> vc_node option \<Rightarrow> bytes result" where
  "serialize_go_tree mag t = write_node mag t"

definition deserialize_go_tree :: "(bytes \<Rightarrow> int) \<Rightarrow> bytes \<Rightarrow> vc_node option result" where
  "deserialize_go_tree of_mag bs =
     try_then (read_node GO_FIELD_CAP of_mag (Suc MAX_DESERIALIZE_DEPTH) bs) (\<lambda>(t, r). Ok t)"

subsection \<open>What a blob can carry\<close>

text \<open>
  The documented behaviour of the size conversions, at one value: reading back what was
  written gives the value, and the empty string stands for zero.
\<close>

definition size_fits :: "nat \<Rightarrow> (int \<Rightarrow> bytes) \<Rightarrow> (bytes \<Rightarrow> int) \<Rightarrow> int \<Rightarrow> bool" where
  "size_fits cap enc dec x \<longleftrightarrow>
     length (enc x) \<le> cap \<and> (if enc x = [] then x = 0 else dec (enc x) = x)"

definition leaf_fits :: "nat \<Rightarrow> (int \<Rightarrow> bytes) \<Rightarrow> (bytes \<Rightarrow> int) \<Rightarrow> leaf_node \<Rightarrow> bool" where
  "leaf_fits cap enc dec l \<longleftrightarrow> length (key l) \<le> cap \<and> length (leaf_value l) \<le> cap \<and>
     length (hash_target l) \<le> cap \<and> length (leaf_commitment l) \<le> cap \<and> size_fits cap enc dec (leaf_size l)"

definition meta_fits :: "nat \<Rightarrow> (int \<Rightarrow> bytes) \<Rightarrow> (bytes \<Rightarrow> int) \<Rightarrow> branch_meta \<Rightarrow> bool" where
  "meta_fits cap enc dec m \<longleftrightarrow> length (branch_commitment m) \<le> cap \<and> size_fits cap enc dec (branch_size m)"

definition prefix_fits :: "int list \<Rightarrow> bool" where
  "prefix_fits pre \<longleftrightarrow> length pre \<le> MAX_TREE_PREFIX_LEN \<and> list_all (\<lambda>p. - (2 ^ 31) \<le> p \<and> p < 2 ^ 31) pre"

fun node_fits :: "nat \<Rightarrow> (int \<Rightarrow> bytes) \<Rightarrow> (bytes \<Rightarrow> int) \<Rightarrow> nat \<Rightarrow> vc_node option \<Rightarrow> bool" where
  "node_fits cap enc dec 0 t = False"
| "node_fits cap enc dec (Suc fuel) t =
     (case t of
        None \<Rightarrow> True
      | Some (Leaf l) \<Rightarrow> leaf_fits cap enc dec l
      | Some (Branch pre cs m) \<Rightarrow>
          length cs = BRANCH_NODES \<and> prefix_fits pre \<and> meta_fits cap enc dec m \<and>
          list_all (node_fits cap enc dec fuel) cs)"

text \<open>What a reload changes: bookkeeping fields, and a depth counter beyond 32 bits.\<close>

definition reloaded_meta :: "bool \<Rightarrow> branch_meta \<Rightarrow> branch_meta" where
  "reloaded_meta loaded m =
     m\<lparr>longest_branch := scast (ucast (longest_branch m) :: u32), full_prefix := [], fully_loaded := loaded\<rparr>"

fun reloaded :: "vc_node \<Rightarrow> vc_node" where
  "reloaded (Leaf l) = Leaf l"
| "reloaded (Branch pre cs m) = Branch pre (map (map_option reloaded) cs) (reloaded_meta True m)"


subsection \<open>Round trips\<close>

lemma read_size_write [codec_simps]:
  assumes "size_fits cap enc dec x" "cap < 2 ^ 64"
  shows "read_size cap dec (write_field (enc x) @ r) = Ok (x, r)"
  using assms by (auto simp: read_size_def size_fits_def split: if_splits)

lemma read_prefix_write [codec_simps]:
  assumes "prefix_fits pre"
  shows "read_prefix (write_prefix pre @ r) = Ok (pre, r)"
  using assms int32.read_n_write [of pre r]
  by (simp add: read_prefix_def write_prefix_def prefix_fits_def MAX_TREE_PREFIX_LEN_def unat_of_nat)

lemma read_leaf_write [codec_simps]:
  assumes "leaf_fits cap enc dec l" "cap < 2 ^ 64"
  shows "read_leaf cap dec (tl (write_leaf enc (leaf_value l) l) @ r) = Ok (l, r)"
  using assms by (simp add: read_leaf_def write_leaf_def leaf_fits_def codec_simps)

lemma word_of_int_sint_u32: "word_of_int (sint (w :: u32)) = (scast w :: u64)"
  by simp

lemma read_counters_write:
  "read_u64 (write_counters m @ r) = Ok (leaf_count m, write_u32 (ucast (longest_branch m)) @ r)"
  by (simp add: write_counters_def)

lemma read_meta_write [codec_simps]:
  assumes "meta_fits cap enc dec m" "cap < 2 ^ 64"
  shows "read_meta cap dec loaded
      (write_field (branch_commitment m) @ write_field (enc (branch_size m)) @ write_counters m @ r) =
    Ok (reloaded_meta loaded m, r)"
  using assms
  by (simp add: read_meta_def meta_fits_def codec_simps read_counters_write read_i32_def reloaded_meta_def)

lemma serialize_node_simps [simp]:
  "serialize_node enc None = [TYPE_NIL]" "serialize_node enc (Some n) = serialize_some enc n"
  by (simp_all add: serialize_node_def)

lemma serialize_children:
  "(\<lambda>c. case c of None \<Rightarrow> [TYPE_NIL] | Some t \<Rightarrow> serialize_some enc t) = serialize_node enc"
  by (rule ext) (simp add: serialize_node_def)

lemma node_codec:
  assumes cap: "cap < 2 ^ 64"
  shows "codec (serialize_node enc) (read_node cap dec fuel) (node_fits cap enc dec fuel) (map_option reloaded)"
proof (induction fuel)
  case 0
  show ?case by (simp add: codec_def)
next
  case (Suc fuel)
  show ?case
  proof
    fix t rest assume fits: "node_fits cap enc dec (Suc fuel) t"
    show "read_node cap dec (Suc fuel) (serialize_node enc t @ rest) = Ok (map_option reloaded t, rest)"
    proof (cases t)
      case (Some n)
      show ?thesis
      proof (cases n)
        case (Leaf l)
        then show ?thesis using fits Some read_leaf_write [of cap enc dec l rest] cap
          by (simp add: write_leaf_def)
      next
        case (Branch pre cs m)
        have f: "length cs = 64" "prefix_fits pre" "meta_fits cap enc dec m" "list_all (node_fits cap enc dec fuel) cs"
          using fits Some Branch by simp_all
        have "read_n (read_node cap dec fuel) 64 (concat (map (serialize_node enc) cs) @ r) =
            Ok (map (map_option reloaded) cs, r)" for r
          using codec.read_n_write [OF Suc f(4)] f(1) by simp
        note children = this
        have bytes: "serialize_node enc t @ rest = TYPE_BRANCH # write_prefix pre @
            concat (map (serialize_node enc) cs) @ write_field (branch_commitment m) @
            write_field (enc (branch_size m)) @ write_counters m @ rest"
          unfolding Some Branch by (simp add: serialize_children)
        show ?thesis unfolding bytes unfolding Some Branch
          by (simp add: children read_prefix_write [OF f(2)] read_meta_write [OF f(3) cap])
      qed
    qed simp
  qed
qed

lemma shape_reloaded: "shape (reloaded t) = shape t"
  by (induction t rule: shape.induct) (auto simp: comp_def option.map_comp intro: option.map_cong)

lemma digest_reloaded:
  "root_digest sha cr \<lparr>root = map_option reloaded t\<rparr> = root_digest sha cr \<lparr>root = t\<rparr>"
  using commit_node_shape [OF shape_reloaded, of sha cr]
  by (cases t) (simp_all add: root_digest_def tree_commit_def Let_def)

text \<open>The wire format writes the same bytes, or refuses a negative size anywhere in the tree.\<close>

definition magnitude :: "(int \<Rightarrow> bytes) \<Rightarrow> int \<Rightarrow> bytes" where
  "magnitude mag n = (if n = 0 then [] else mag n)"

fun sizes_nonneg :: "vc_node \<Rightarrow> bool" where
  "sizes_nonneg (Leaf l) = (0 \<le> leaf_size l)"
| "sizes_nonneg (Branch pre cs m) = (0 \<le> branch_size m \<and> list_all (case_option True sizes_nonneg) cs)"

lemma concat_results_guarded:
  assumes "\<And>x. x \<in> set xs \<Longrightarrow> f x = (if P x then Ok (g x) else Err e)"
  shows "concat_results (map f xs) = (if list_all P xs then Ok (concat (map g xs)) else Err e)"
  using assms
proof (induction xs)
  case (Cons x xs)
  then show ?case by (cases "P x") auto
qed simp

lemma write_some_spec:
  "write_some mag t = (if sizes_nonneg t then Ok (serialize_some (magnitude mag) t) else Err Serialization)"
proof (induction mag t rule: write_some.induct)
  case (1 mag l)
  then show ?case by (simp add: write_bigint_def write_leaf_def magnitude_def)
next
  case (2 mag pre cs m)
  have "concat_results (map (\<lambda>c. case c of None \<Rightarrow> Ok [TYPE_NIL] | Some t \<Rightarrow> write_some mag t) cs) =
      (if list_all (case_option True sizes_nonneg) cs
       then Ok (concat (map (serialize_node (magnitude mag)) cs)) else Err Serialization)"
    by (rule concat_results_guarded) (use "2.IH" in \<open>auto simp: serialize_node_def split: option.splits\<close>)
  then show ?case
    by (simp add: write_bigint_def serialize_children) (auto simp: magnitude_def [of _ "branch_size m"] magnitude_def [of _ 0])
qed


subsection \<open>Bounds on what a reader accepts\<close>

fun field_bytes :: "vc_node \<Rightarrow> nat" where
  "field_bytes (Leaf l) =
     length (key l) + length (leaf_value l) + length (hash_target l) + length (leaf_commitment l)"
| "field_bytes (Branch pre cs m) =
     4 * length pre + length (branch_commitment m) + sum_list (map (case_option 0 field_bytes) cs)"

fun within_limits :: "nat \<Rightarrow> nat \<Rightarrow> vc_node option \<Rightarrow> bool" where
  "within_limits cap 0 t = False"
| "within_limits cap (Suc fuel) t =
     (case t of
        None \<Rightarrow> True
      | Some (Leaf l) \<Rightarrow> length (key l) \<le> cap \<and> length (leaf_value l) \<le> cap \<and>
          length (hash_target l) \<le> cap \<and> length (leaf_commitment l) \<le> cap
      | Some (Branch pre cs m) \<Rightarrow>
          length cs = BRANCH_NODES \<and> length pre \<le> MAX_TREE_PREFIX_LEN \<and>
          length (branch_commitment m) \<le> cap \<and> list_all (within_limits cap fuel) cs)"

lemma read_size_consumes: "read_size cap dec bs = Ok (x, r) \<Longrightarrow> length r \<le> length bs"
  by (auto simp: read_size_def try_then_Ok dest!: read_field_consumes)

lemma read_prefix_consumes:
  assumes "read_prefix bs = Ok (pre, r)"
  shows "4 * length pre + length r \<le> length bs \<and> length pre \<le> MAX_TREE_PREFIX_LEN"
  using assms int32.consumes_n
  by (fastforce simp: read_prefix_def try_then_Ok sum_list_triv split: if_splits dest!: read_u32_consumes)

lemma read_leaf_consumes:
  assumes "read_leaf cap dec bs = Ok (l, r)"
  shows "field_bytes (Leaf l) + length r \<le> length bs \<and> within_limits cap (Suc f) (Some (Leaf l))"
  using assms
  by (auto simp: read_leaf_def try_then_Ok dest!: read_field_consumes read_size_consumes)

lemma read_meta_consumes:
  assumes "read_meta cap dec loaded bs = Ok (m, r)"
  shows "length (branch_commitment m) + length r \<le> length bs \<and> length (branch_commitment m) \<le> cap"
  using assms
  by (auto simp: read_meta_def try_then_Ok read_i32_def
      dest!: read_field_consumes read_size_consumes read_u64_consumes read_u32_consumes)

lemma read_node_cases:
  assumes "read_node cap dec (Suc fuel) bs = Ok (t, rest)"
  obtains (nil) "bs = TYPE_NIL # rest" "t = None"
    | (leaf) l r where "bs = TYPE_LEAF # r" "read_leaf cap dec r = Ok (l, rest)" "t = Some (Leaf l)"
    | (branch) pre cs m r r1 r2 where "bs = TYPE_BRANCH # r" "read_prefix r = Ok (pre, r1)"
        "read_n (read_node cap dec fuel) BRANCH_NODES r1 = Ok (cs, r2)"
        "read_meta cap dec True r2 = Ok (m, rest)" "t = Some (Branch pre cs m)"
proof -
  obtain tag r where bs: "bs = tag # r" using assms by (cases bs) (simp_all add: read_u8_def)
  consider "tag = TYPE_NIL" | "tag = TYPE_LEAF" | "tag = TYPE_BRANCH"
    using assms bs by (auto split: if_splits)
  then show ?thesis
  proof cases
    case 1
    with assms bs nil show ?thesis by simp
  next
    case 2
    with assms bs leaf show ?thesis by (auto simp: try_then_Ok)
  next
    case 3
    with assms bs branch show ?thesis by (fastforce simp: try_then_Ok)
  qed
qed

lemma read_node_sized: "sized_reader (read_node cap dec fuel) (case_option 0 field_bytes)"
proof (induction fuel)
  case 0
  show ?case by (simp add: sized_reader_def)
next
  case (Suc fuel)
  show ?case
  proof
    fix bs t rest assume "read_node cap dec (Suc fuel) bs = Ok (t, rest)"
    then show "(case t of None \<Rightarrow> 0 | Some n \<Rightarrow> field_bytes n) + length rest \<le> length bs"
    proof (cases rule: read_node_cases)
      case (leaf l r)
      then show ?thesis using read_leaf_consumes [of cap dec r l rest 0] by simp
    next
      case (branch pre cs m r r1 r2)
      then show ?thesis
        using read_prefix_consumes [of r pre r1] read_meta_consumes [of cap dec True r2 m rest]
          sized_reader.consumes_n [OF Suc, of BRANCH_NODES r1 cs r2] by simp
    qed simp
  qed
qed

lemma read_n_all:
  assumes "read_n rd n bs = Ok (xs, r)" "\<And>bs x r. rd bs = Ok (x, r) \<Longrightarrow> P x"
  shows "list_all P xs \<and> length xs = n"
  using assms(1)
proof (induction n arbitrary: bs xs)
  case (Suc n)
  then show ?case using assms(2) by (fastforce simp: try_then_Ok)
qed simp

lemma read_node_limits: "read_node cap dec fuel bs = Ok (t, r) \<Longrightarrow> within_limits cap fuel t"
proof (induction fuel arbitrary: bs t r)
  case (Suc fuel)
  from Suc.prems show ?case
  proof (cases rule: read_node_cases)
    case (leaf l r')
    then show ?thesis using read_leaf_consumes [of cap dec r' l r fuel] by simp
  next
    case (branch pre cs m r' r1 r2)
    have "list_all (within_limits cap fuel) cs \<and> length cs = BRANCH_NODES"
      by (rule read_n_all [OF branch(3)]) (rule Suc.IH)
    with branch show ?thesis
      using read_prefix_consumes [of r' pre r1] read_meta_consumes [of cap dec True r2 m r] by simp
  qed simp
qed simp

subsection \<open>Properties\<close>

lemma field_cap_u64: "MAX_LENGTH_PREFIXED_FIELD < 2 ^ 64" "GO_FIELD_CAP < 2 ^ 64"
  by (simp_all add: MAX_LENGTH_PREFIXED_FIELD_def GO_FIELD_CAP_def)

text \<open>A size conversion for the examples: a sign byte and a unary magnitude.\<close>

definition demo_enc :: "int \<Rightarrow> bytes" where
  "demo_enc x = (if x < 0 then 1 else 0) # replicate (nat (abs x)) 9"

definition demo_dec :: "bytes \<Rightarrow> int" where
  "demo_dec bs = (case bs of [] \<Rightarrow> 0 | b # r \<Rightarrow> if b = 1 then - int (length r) else int (length r))"

lemma demo_size_fits: "length (demo_enc x) \<le> cap \<Longrightarrow> size_fits cap demo_enc demo_dec x"
  by (simp add: size_fits_def demo_enc_def demo_dec_def)

definition demo_leaf :: leaf_node where
  "demo_leaf = new_leaf demo_sha [1, 2] [3, 4, 5] [] 2"

definition demo_node :: vc_node where
  "demo_node = Branch [0, 5] ((replicate 64 None)[3 := Some (Leaf demo_leaf), 9 := Some (Leaf demo_leaf)])
     (new_meta\<lparr>leaf_count := 2, branch_size := 4\<rparr>)"

lemma demo_node_fits:
  "node_fits MAX_LENGTH_PREFIXED_FIELD demo_enc demo_dec (Suc MAX_DESERIALIZE_DEPTH) (Some demo_node)"
proof -
  have leaf: "leaf_fits MAX_LENGTH_PREFIXED_FIELD demo_enc demo_dec demo_leaf"
    by (simp add: leaf_fits_def demo_leaf_def new_leaf_def compute_commitment_def demo_sha_def
        demo_size_fits demo_enc_def MAX_LENGTH_PREFIXED_FIELD_def)
  have "node_fits MAX_LENGTH_PREFIXED_FIELD demo_enc demo_dec MAX_DESERIALIZE_DEPTH c"
    if "c \<in> set ((replicate 64 None)[3 := Some (Leaf demo_leaf), 9 := Some (Leaf demo_leaf)])" for c
    using that leaf by (auto simp: MAX_DESERIALIZE_DEPTH_def numeral_eq_Suc dest!: set_update_subset_insert [THEN subsetD])
  then show ?thesis
    by (simp add: demo_node_def prefix_fits_def meta_fits_def new_meta_def demo_size_fits demo_enc_def
        MAX_LENGTH_PREFIXED_FIELD_def MAX_TREE_PREFIX_LEN_def list_all_iff)
qed

text \<open>C14. A tree written as a blob reads back, whatever follows it in the buffer: for a
  tree within the limits of the format (fields of at most 16 MiB, prefixes of at most 256 nibbles,
  at most 128 nested branches) the reader returns it with only the bookkeeping fields reset
  and the depth counter cut to 32 bits, and its recomputed root commitment is that of the
  original.\<close>

theorem tree_blob_round_trip:
  assumes "node_fits MAX_LENGTH_PREFIXED_FIELD enc dec (Suc MAX_DESERIALIZE_DEPTH) t"
  shows "deserialize_tree dec (serialize_tree enc t @ junk) = Ok (map_option reloaded t) \<and>
    snd (tree_commit sha commit_raw \<lparr>root = map_option reloaded t\<rparr>) = snd (tree_commit sha commit_raw \<lparr>root = t\<rparr>)"
  using codec.read_write [OF node_codec [OF field_cap_u64(1)] assms, of junk] digest_reloaded [of sha commit_raw t]
  by (simp add: deserialize_tree_def deserialize_node_at_depth_def serialize_tree_def root_digest_def
      del: read_node.simps)

theorem tree_blob_round_trip_witness:
  "deserialize_tree demo_dec (serialize_tree demo_enc (Some demo_node)) = Ok (Some (reloaded demo_node))"
  using tree_blob_round_trip [OF demo_node_fits, of "[]"] by simp

text \<open>Reading a blob is safe on any input: a tree that comes out of the reader
  has at most 128 nested branches, prefixes of at most 256 nibbles, 64 slots per branch and fields of at
  most 16 MiB, and its fields together are no longer than the input, so a forged length
  cannot make the reader produce more than it was given.\<close>

theorem tree_blob_limits:
  assumes "deserialize_tree dec bs = Ok t"
  shows "within_limits MAX_LENGTH_PREFIXED_FIELD (Suc MAX_DESERIALIZE_DEPTH) t \<and>
    (case t of None \<Rightarrow> 0 | Some n \<Rightarrow> field_bytes n) \<le> length bs"
proof -
  obtain r where r: "read_node MAX_LENGTH_PREFIXED_FIELD dec (Suc MAX_DESERIALIZE_DEPTH) bs = Ok (t, r)"
    using assms by (auto simp: deserialize_tree_def deserialize_node_at_depth_def try_then_Ok)
  from read_node_limits [OF r] sized_reader.consumes [OF read_node_sized r] show ?thesis by simp
qed

theorem tree_blob_limits_witness:
  "deserialize_tree demo_dec [1, 0,0,0,0,0,0,0,1, 7, 0,0,0,0,0,0,0,0, 0,0,0,0,0,0,0,0, 0,0,0,0,0,0,0,0, 0,0,0,0,0,0,0,0] =
     Ok (Some (Leaf \<lparr>key = [7], leaf_value = [], hash_target = [], leaf_commitment = [], leaf_size = 0\<rparr>)) \<and>
   within_limits MAX_LENGTH_PREFIXED_FIELD (Suc MAX_DESERIALIZE_DEPTH)
     (Some (Leaf \<lparr>key = [7], leaf_value = [], hash_target = [], leaf_commitment = [], leaf_size = 0\<rparr>))"
proof -
  have *: "deserialize_tree demo_dec [1, 0,0,0,0,0,0,0,1, 7, 0,0,0,0,0,0,0,0, 0,0,0,0,0,0,0,0, 0,0,0,0,0,0,0,0, 0,0,0,0,0,0,0,0] =
     Ok (Some (Leaf \<lparr>key = [7], leaf_value = [], hash_target = [], leaf_commitment = [], leaf_size = 0\<rparr>))"
    by (simp add: deserialize_tree_def deserialize_node_at_depth_def read_leaf_def read_field_def read_size_def
        read_u64_def read_exact_def from_be_def MAX_LENGTH_PREFIXED_FIELD_def)
  from tree_blob_limits [OF *] * show ?thesis by simp
qed

text \<open>The wire format of the Go node: the writer succeeds exactly when no size in the tree is
  negative, and the reader then returns the tree, up to the bookkeeping fields.\<close>

theorem go_tree_round_trip:
  assumes "node_fits GO_FIELD_CAP (magnitude mag) of_mag (Suc MAX_DESERIALIZE_DEPTH) t"
  shows "serialize_go_tree mag t =
      (if (case t of None \<Rightarrow> True | Some n \<Rightarrow> sizes_nonneg n) then Ok (serialize_node (magnitude mag) t)
       else Err Serialization) \<and>
    deserialize_go_tree of_mag (serialize_node (magnitude mag) t) = Ok (map_option reloaded t)"
  using codec.read_write [OF node_codec [OF field_cap_u64(2)] assms, of "[]"]
  by (cases t) (simp_all add: serialize_go_tree_def write_node_def write_some_spec deserialize_go_tree_def
      del: read_node.simps)

theorem go_tree_round_trip_witness:
  "serialize_go_tree demo_enc (Some (Leaf demo_leaf)) = Ok (serialize_node (magnitude demo_enc) (Some (Leaf demo_leaf))) \<and>
   deserialize_go_tree demo_dec (serialize_node (magnitude demo_enc) (Some (Leaf demo_leaf))) = Ok (Some (Leaf demo_leaf)) \<and>
   serialize_go_tree demo_enc (Some (Leaf (demo_leaf\<lparr>leaf_size := -1\<rparr>))) = Err Serialization"
proof -
  have fits: "node_fits GO_FIELD_CAP (magnitude demo_enc) demo_dec (Suc MAX_DESERIALIZE_DEPTH)
      (Some (Leaf (demo_leaf\<lparr>leaf_size := s\<rparr>)))" if "abs s \<le> 2" for s
    using that by (auto simp: leaf_fits_def demo_leaf_def new_leaf_def compute_commitment_def demo_sha_def
        size_fits_def magnitude_def demo_enc_def demo_dec_def GO_FIELD_CAP_def)
  have leaf: "demo_leaf\<lparr>leaf_size := 2\<rparr> = demo_leaf"
    by (simp add: demo_leaf_def new_leaf_def compute_commitment_def)
  have "sizes_nonneg (Leaf demo_leaf)" by (simp add: demo_leaf_def new_leaf_def compute_commitment_def)
  with go_tree_round_trip [OF fits [of 2, unfolded leaf]] go_tree_round_trip [OF fits [of "-1"]]
  show ?thesis by simp
qed

text \<open>
  The per-node format keeps everything but a leaf's value and a branch's children.
\<close>

lemma solo_round_trip:
  assumes "node_fits MAX_LENGTH_PREFIXED_FIELD enc dec (Suc fuel) (Some n)"
  shows "deserialize_node_solo dec (serialize_node_solo enc n) =
    Ok (case n of Leaf l \<Rightarrow> Leaf (l\<lparr>leaf_value := []\<rparr>)
        | Branch pre cs m \<Rightarrow> Branch pre (replicate BRANCH_NODES None) (reloaded_meta False m))"
proof (cases n)
  case (Leaf l)
  then have "leaf_fits MAX_LENGTH_PREFIXED_FIELD enc dec (l\<lparr>leaf_value := []\<rparr>)"
    using assms by (simp add: leaf_fits_def)
  from read_leaf_write [OF this field_cap_u64(1), of "[]"] Leaf show ?thesis
    by (simp add: deserialize_node_solo_def serialize_node_solo_def write_leaf_def)
next
  case (Branch pre cs m)
  with assms read_prefix_write [of pre]
    read_meta_write [OF _ field_cap_u64(1), of enc dec m False "[]"] show ?thesis
    by (simp add: deserialize_node_solo_def serialize_node_solo_def)
qed

text \<open>
  The writers do not check the caps the readers enforce: a leaf value over 16 MiB is written
  and the blob then cannot be read.
\<close>

lemma oversized_value_unreadable:
  assumes "length (key l) \<le> MAX_LENGTH_PREFIXED_FIELD" "MAX_LENGTH_PREFIXED_FIELD < length (leaf_value l)"
    "length (leaf_value l) < 2 ^ 64"
  shows "deserialize_tree dec (serialize_tree enc (Some (Leaf l))) = Err Serialization"
  using assms
  by (simp add: deserialize_tree_def deserialize_node_at_depth_def serialize_tree_def write_leaf_def
      read_leaf_def read_field_oversized)

end
