(* ===== verification/Traversal_Proof.thy ===== *)
theory Traversal_Proof
  imports Byte_Codec Keyed_Store
begin

text \<open>
  Inclusion proofs of the tree (\<^verbatim>\<open>prove\<close>, \<^verbatim>\<open>prove_multiple\<close> and
  \<^verbatim>\<open>MultiKeyTraversalProof::to_bytes\<close> of \<^verbatim>\<open>crates/quil-tries/src/tree.rs\<close>):
  the walk from the root to a leaf collects, at every branch, the branch's vector, its
  commitment, the entry of the slot taken and the nibbles consumed. The aggregated proof over the
  vectors comes from the inclusion prover, a parameter \<open>pm\<close> that may fail.
\<close>

subsection \<open>Operations\<close>

type_synonym walk = "bytes list \<times> bytes list \<times> bytes list \<times> int list list"

definition leaf_payload :: "leaf_node \<Rightarrow> bytes" where
  "leaf_payload l = (if hash_target l \<noteq> [] then hash_target l else leaf_value l)"

definition slot_slice :: "bytes \<Rightarrow> nat \<Rightarrow> bytes" where
  "slot_slice poly i = (if i * 64 + 64 \<le> length poly then take 64 (drop (i * 64) poly) else replicate 64 0)"

function (sequential) prove_recursive :: "(bytes \<Rightarrow> bytes) \<Rightarrow> vc_node \<Rightarrow> bytes \<Rightarrow> nat \<Rightarrow> walk option" where
  "prove_recursive sha (Leaf l) k d =
     (if key l = k then Some ([], [leaf_commitment l], [leaf_payload l], []) else None)"
| "prove_recursive sha (Branch pre cs m) k d =
     (case first_mismatch k d pre of
        Some _ \<Rightarrow> None
      | None \<Rightarrow>
          let d' = d + BRANCH_BITS * length pre; final_nibble = get_next_nibble k d' in
          if final_nibble < 0 then None
          else
            let poly = get_polynomial sha cs; y = slot_slice poly (nat final_nibble) in
            (case child cs (nat final_nibble) of
               None \<Rightarrow> None
             | Some c \<Rightarrow>
                 (case prove_recursive sha c k (d' + BRANCH_BITS) of
                    None \<Rightarrow> None
                  | Some (pl, co, ys, pa) \<Rightarrow>
                      Some (poly # pl, branch_commitment m # co, y # ys, (pre @ [final_nibble]) # pa))))"
  by pat_completeness auto
termination
  by (relation "measure (\<lambda>(sha, n, k, d). size n)") (auto dest!: child_in_set size_child_less)

definition walk_indices :: "int list list \<Rightarrow> u64 list" where
  "walk_indices pa = map (\<lambda>p. word_of_int (if p = [] then 0 else last p)) pa"

definition walk_paths :: "int list list \<Rightarrow> u64 list list" where
  "walk_paths pa = map (map word_of_int) pa"

record traversal_sub_proof =
  sub_commits :: "bytes list"
  sub_ys :: "bytes list"
  sub_paths :: "u64 list list"

record 'p traversal_proof =
  multiproof :: 'p
  sub_proofs :: "traversal_sub_proof list"

type_synonym 'p multi_prover = "bytes list \<Rightarrow> bytes list \<Rightarrow> u64 list \<Rightarrow> nat \<Rightarrow> 'p option"

definition prove :: "(bytes \<Rightarrow> bytes) \<Rightarrow> 'p multi_prover \<Rightarrow> vc_tree \<Rightarrow> bytes \<Rightarrow> ('p \<times> traversal_sub_proof) option" where
  "prove sha pm t k =
     (if k = [] then None
      else case root t of
        None \<Rightarrow> None
      | Some n \<Rightarrow>
          (case prove_recursive sha n k 0 of
             None \<Rightarrow> None
           | Some (pl, co, y, pa) \<Rightarrow>
               if co = [] then None
               else case pm (butlast co) pl (walk_indices pa) 64 of
                 None \<Rightarrow> None
               | Some mp \<Rightarrow> Some (mp, \<lparr>sub_commits = co, sub_ys = y, sub_paths = walk_paths pa\<rparr>)))"

definition sub_walks :: "(bytes \<Rightarrow> bytes) \<Rightarrow> vc_node \<Rightarrow> bytes list \<Rightarrow> walk list" where
  "sub_walks sha n ks =
     List.map_filter (\<lambda>k. if k = [] then None
        else (case prove_recursive sha n k 0 of
                None \<Rightarrow> None
              | Some (pl, co, y, pa) \<Rightarrow> if co = [] then None else Some (pl, co, y, pa))) ks"

definition prove_multiple ::
  "(bytes \<Rightarrow> bytes) \<Rightarrow> 'p multi_prover \<Rightarrow> vc_tree \<Rightarrow> bytes list \<Rightarrow> 'p traversal_proof option" where
  "prove_multiple sha pm t ks =
     (case root t of
        None \<Rightarrow> None
      | Some n \<Rightarrow>
          let ws = sub_walks sha n ks;
              agg_commits = concat (map (\<lambda>(pl, co, y, pa). butlast co) ws);
              agg_polys = concat (map (\<lambda>(pl, co, y, pa). pl) ws);
              agg_indices = concat (map (\<lambda>(pl, co, y, pa). walk_indices pa) ws)
          in if agg_commits = [] then None
             else case pm agg_commits agg_polys agg_indices 64 of
               None \<Rightarrow> None
             | Some mp \<Rightarrow> Some \<lparr>multiproof = mp,
                 sub_proofs = map (\<lambda>(pl, co, y, pa). \<lparr>sub_commits = co, sub_ys = y, sub_paths = walk_paths pa\<rparr>) ws\<rparr>)"

text \<open>The wire form of a proof. The trait object of the code gives three accessors.\<close>

record kzg_multiproof =
  mp_commitment :: bytes
  mp_proof :: bytes
  mp_evaluations :: "bytes list"

definition put_blob :: "bytes \<Rightarrow> bytes" where
  "put_blob b = write_u32 (of_nat (length b)) @ b"

definition put_list :: "('a \<Rightarrow> bytes) \<Rightarrow> 'a list \<Rightarrow> bytes" where
  "put_list w xs = write_u32 (of_nat (length xs)) @ concat (map w xs)"

definition serialize_multiproof :: "kzg_multiproof \<Rightarrow> bytes" where
  "serialize_multiproof mp =
     put_blob (mp_commitment mp) @ put_blob (mp_proof mp) @ put_list put_blob (mp_evaluations mp)"

definition sub_proof_bytes :: "traversal_sub_proof \<Rightarrow> bytes" where
  "sub_proof_bytes sp =
     put_list put_blob (sub_commits sp) @ put_list put_blob (sub_ys sp) @ put_list (put_list write_u64) (sub_paths sp)"

definition to_bytes :: "kzg_multiproof traversal_proof \<Rightarrow> bytes" where
  "to_bytes p = put_blob (serialize_multiproof (multiproof p)) @ put_list sub_proof_bytes (sub_proofs p)"

subsection \<open>What a walk proves\<close>

lemma walk_exists_iff:
  "prove_recursive sha t k d \<noteq> None \<longleftrightarrow> get_recursive (Some t) k d \<noteq> None"
proof (induction sha t k d rule: prove_recursive.induct)
  case (2 sha pre cs m k d)
  let ?d = "d + BRANCH_BITS * length pre"
  let ?n = "get_next_nibble k ?d"
  show ?case
  proof (cases "first_mismatch k d pre = None \<and> \<not> ?n < 0")
    case True
    then show ?thesis
      using "2.IH" [of ?d ?n "get_polynomial sha cs" "slot_slice (get_polynomial sha cs) (nat ?n)"]
      by (cases "child cs (nat ?n)") (auto simp: Let_def split: option.splits)
  qed (auto simp: Let_def split: option.splits)
qed simp

lemma take_drop_concat:
  assumes "\<And>x. x \<in> set xs \<Longrightarrow> length x = n" "i < length xs"
  shows "take n (drop (i * n) (concat xs)) = xs ! i"
  using assms
proof (induction xs arbitrary: i)
  case (Cons x xs)
  then show ?case by (cases i) simp_all
qed simp

lemma slot_slice_polynomial:
  assumes "length cs = 64" "i < 64"
  shows "slot_slice (get_polynomial sha cs) i = vec_resize (child_entry sha (cs ! i)) 64 0"
proof -
  let ?xs = "map (\<lambda>c. vec_resize (child_entry sha c) 64 0) cs"
  have "length (concat ?xs) = 64 * 64"
    using assms(1) by (simp add: length_concat comp_def sum_list_triv)
  moreover have "take 64 (drop (i * 64) (concat ?xs)) = ?xs ! i"
    by (rule take_drop_concat) (use assms in auto)
  ultimately show ?thesis using assms by (simp add: slot_slice_def get_polynomial_def)
qed

text \<open>
  The check a verifier makes along a walk: the entry opened at a branch is the commitment
  of the leaf below, or the hash of the prefix and the commitment of the branch below.
\<close>

fun linked :: "(bytes \<Rightarrow> bytes) \<Rightarrow> leaf_node \<Rightarrow> bytes list \<Rightarrow> bytes list \<Rightarrow> int list list \<Rightarrow> bool" where
  "linked sha l [c] [y] [] = (c = leaf_commitment l \<and> y = leaf_payload l)"
| "linked sha l (c # c' # co) (y # ys) (p # pa) =
     (y = vec_resize (case pa of [] \<Rightarrow> vec_resize c' 64 0
                      | q # _ \<Rightarrow> sha ([1] @ concat (map u32_be (butlast q)) @ c')) 64 0 \<and>
      linked sha l (c' # co) ys pa)"
| "linked sha l _ _ _ = False"

lemma walk_head:
  assumes "prove_recursive sha t k d = Some (pl, co, ys, pa)"
  shows "\<exists>co'. co = node_commitment t # co'" "\<exists>y ys'. ys = y # ys'"
    "case t of Leaf l \<Rightarrow> pa = [] | Branch pre cs m \<Rightarrow> \<exists>n pa'. pa = (pre @ [n]) # pa'"
  using assms by (cases t; auto simp: Let_def split: option.splits if_splits prod.splits)+

lemma walk_linked:
  assumes "wf_node \<pi> t" "prefix \<pi> (path k)" "prove_recursive sha t k (6 * length \<pi>) = Some (pl, co, ys, pa)"
  shows "(\<exists>l. get_recursive (Some t) k (6 * length \<pi>) = Some l \<and> linked sha l co ys pa) \<and>
    length co = Suc (length pl) \<and> length pa = length pl \<and> prefix (\<pi> @ concat pa) (path k)"
  using assms
proof (induction arbitrary: pl co ys pa rule: wf_node.induct)
  case (wf_Leaf \<pi> l)
  then show ?case by (auto split: if_splits)
next
  case (wf_Branch cs \<pi> pre m)
  have wf: "wf_node \<pi> (Branch pre cs m)" using wf_Branch.hyps by (blast intro: wf_node.wf_Branch)
  from wf wf_Branch.prems(1) show ?case
  proof (cases rule: descend_cases)
    case (slot j)
    obtain c where c: "cs ! j = Some c"
      using slot wf_Branch.prems(2) wf_Branch.hyps(1) by (auto simp: Let_def split: option.splits)
    obtain pl' co' ys' pa' where w: "prove_recursive sha c k (6 * length (\<pi> @ pre @ [int j])) = Some (pl', co', ys', pa')"
      "pl = get_polynomial sha cs # pl'" "co = branch_commitment m # co'"
      "ys = slot_slice (get_polynomial sha cs) j # ys'" "pa = (pre @ [int j]) # pa'"
      using slot c wf_Branch.prems(2) wf_Branch.hyps(1)
      by (auto simp: Let_def add.commute split: option.splits prod.splits)
    have step: "get_recursive (Some (Branch pre cs m)) k (6 * length \<pi>) =
        get_recursive (Some c) k (6 * length (\<pi> @ pre @ [int j]))"
      using slot wf_Branch.hyps(1) c by (simp add: Let_def add.commute)
    note IH = wf_Branch.IH [OF slot(2) c slot(4) w(1)]
    have "linked sha l co ys pa" if l: "linked sha l co' ys' pa'" for l
      using walk_head [OF w(1)] l w slot_slice_polynomial [OF wf_Branch.hyps(1) slot(2), of sha] c
      by (cases c) auto
    with IH w step show ?thesis by auto
  qed (use wf_Branch.prems(2) in \<open>auto simp: Let_def\<close>)
qed

subsection \<open>Reading the wire form\<close>

text \<open>A reference reader for the wire form, used to show that the form is unambiguous.\<close>

definition get_blob :: "bytes \<Rightarrow> (bytes \<times> bytes) result" where
  "get_blob bs = try_then (read_u32 bs) (\<lambda>(n, r). read_exact (unat n) r)"

definition get_list :: "(bytes \<Rightarrow> ('a \<times> bytes) result) \<Rightarrow> bytes \<Rightarrow> ('a list \<times> bytes) result" where
  "get_list rd bs = try_then (read_u32 bs) (\<lambda>(n, r). read_n rd (unat n) r)"

context codec
begin

lemma list_codec: "codec (put_list enc) (get_list rd) (\<lambda>xs. length xs < 2 ^ 32 \<and> list_all fits xs) (map norm)"
  by unfold_locales (simp add: get_list_def put_list_def unat_of_nat read_n_write)

end

interpretation blob: codec put_blob get_blob "\<lambda>b. length b < 2 ^ 32" id
  by unfold_locales (simp add: get_blob_def put_blob_def unat_of_nat)

lemmas blobs_codec = blob.list_codec [simplified]

lemma paths_codec:
  "codec (put_list (put_list write_u64)) (get_list (get_list read_u64))
     (\<lambda>xs. length xs < 2 ^ 32 \<and> list_all (\<lambda>p. length p < 2 ^ 32) xs) id"
  using codec.list_codec [OF word64.list_codec] by (simp add: list_all_iff list.map_id0)

definition blobs_fit :: "bytes list \<Rightarrow> bool" where
  "blobs_fit bs \<longleftrightarrow> length bs < 2 ^ 32 \<and> list_all (\<lambda>b. length b < 2 ^ 32) bs"

definition sub_proof_fits :: "traversal_sub_proof \<Rightarrow> bool" where
  "sub_proof_fits sp \<longleftrightarrow> blobs_fit (sub_commits sp) \<and> blobs_fit (sub_ys sp) \<and>
     length (sub_paths sp) < 2 ^ 32 \<and> list_all (\<lambda>p. length p < 2 ^ 32) (sub_paths sp)"

definition get_sub_proof :: "bytes \<Rightarrow> (traversal_sub_proof \<times> bytes) result" where
  "get_sub_proof bs =
     try_then (get_list get_blob bs) (\<lambda>(c, r1).
     try_then (get_list get_blob r1) (\<lambda>(y, r2).
     try_then (get_list (get_list read_u64) r2) (\<lambda>(p, r3).
       Ok (\<lparr>sub_commits = c, sub_ys = y, sub_paths = p\<rparr>, r3))))"

interpretation sub_proof: codec sub_proof_bytes get_sub_proof sub_proof_fits id
proof
  fix sp :: traversal_sub_proof and rest assume "sub_proof_fits sp"
  then show "get_sub_proof (sub_proof_bytes sp @ rest) = Ok (id sp, rest)"
    by (simp add: sub_proof_fits_def blobs_fit_def get_sub_proof_def sub_proof_bytes_def
        codec.read_write [OF blobs_codec] codec.read_write [OF paths_codec])
qed

definition multiproof_fits :: "kzg_multiproof \<Rightarrow> bool" where
  "multiproof_fits mp \<longleftrightarrow> length (mp_commitment mp) < 2 ^ 32 \<and> length (mp_proof mp) < 2 ^ 32 \<and>
     blobs_fit (mp_evaluations mp)"

definition get_multiproof :: "bytes \<Rightarrow> (kzg_multiproof \<times> bytes) result" where
  "get_multiproof bs =
     try_then (get_blob bs) (\<lambda>(c, r1).
     try_then (get_blob r1) (\<lambda>(p, r2).
     try_then (get_list get_blob r2) (\<lambda>(e, r3).
       Ok (\<lparr>mp_commitment = c, mp_proof = p, mp_evaluations = e\<rparr>, r3))))"

interpretation kzg: codec serialize_multiproof get_multiproof multiproof_fits id
proof
  fix mp :: kzg_multiproof and rest assume "multiproof_fits mp"
  then show "get_multiproof (serialize_multiproof mp @ rest) = Ok (id mp, rest)"
    by (simp add: multiproof_fits_def blobs_fit_def get_multiproof_def serialize_multiproof_def
        codec.read_write [OF blobs_codec] blob.read_write [simplified])
qed

definition proof_fits :: "kzg_multiproof traversal_proof \<Rightarrow> bool" where
  "proof_fits p \<longleftrightarrow> multiproof_fits (multiproof p) \<and> length (serialize_multiproof (multiproof p)) < 2 ^ 32 \<and>
     length (sub_proofs p) < 2 ^ 32 \<and> list_all sub_proof_fits (sub_proofs p)"

lemma to_bytes_inj:
  assumes "proof_fits p" "proof_fits q" "to_bytes p = to_bytes q"
  shows "p = q"
proof -
  have "serialize_multiproof (multiproof p) = serialize_multiproof (multiproof q) \<and>
      put_list sub_proof_bytes (sub_proofs p) = put_list sub_proof_bytes (sub_proofs q)"
    using blob.unambiguous [OF _ _ assms(3) [unfolded to_bytes_def]] assms(1,2) by (simp add: proof_fits_def)
  then have "multiproof p = multiproof q" "sub_proofs p = sub_proofs q"
    using kzg.unambiguous [of "multiproof p" "multiproof q" "[]" "[]"]
      codec.unambiguous [OF sub_proof.list_codec, of "sub_proofs p" "sub_proofs q" "[]" "[]"] assms(1,2)
    by (simp_all add: proof_fits_def)
  then show ?thesis by simp
qed

subsection \<open>Properties\<close>

text \<open>Proofs exist exactly for stored keys and hang together: with a prover that does not
  fail, \<^verbatim>\<open>prove\<close> returns a proof for a non-empty key exactly when the tree holds it. In the
  proof the first commitment is the root's, the last payload is the leaf's, every opened
  entry is the hash of the next node on the way (so a verifier that knows the root commitment
  can follow it), and the paths spell out a prefix of the key's nibbles.\<close>

theorem traversal_proof_links:
  assumes "wf_tree n t" "k \<noteq> []" "\<And>co pl ix. pm co pl ix 64 \<noteq> None"
  shows "(prove sha pm t k \<noteq> None \<longleftrightarrow> get_leaf t k \<noteq> None) \<and>
    (\<forall>mp sp. prove sha pm t k = Some (mp, sp) \<longrightarrow>
      (\<exists>l pa. get_leaf t k = Some l \<and> linked sha l (sub_commits sp) (sub_ys sp) pa \<and>
        sub_paths sp = walk_paths pa \<and> prefix (concat pa) (get_full_path k) \<and>
        hd (sub_commits sp) = node_commitment (the (root t))))"
proof (cases "root t")
  case None
  then show ?thesis by (simp add: prove_def get_leaf_def)
next
  case (Some r)
  then have wf: "wf_node [] r" using assms(1) by (simp add: wf_tree_def)
  have iff: "prove_recursive sha r k 0 \<noteq> None \<longleftrightarrow> get_leaf t k \<noteq> None"
    using walk_exists_iff [of sha r k 0] Some by (simp add: get_leaf_def)
  show ?thesis
  proof (cases "prove_recursive sha r k 0")
    case None
    with iff Some show ?thesis by (simp add: prove_def)
  next
    case w: (Some w)
    obtain pl co ys pa where w': "w = (pl, co, ys, pa)" by (cases w)
    obtain mp where mp: "pm (butlast co) pl (walk_indices pa) 64 = Some mp" using assms(3) by fast
    from walk_linked [OF wf, of k sha pl co ys pa] walk_head [of sha r k 0 pl co ys pa] w w' mp iff Some assms(2)
    show ?thesis by (auto simp: prove_def get_leaf_def)
  qed
qed

theorem traversal_proof_links_witness:
  "prove demo_sha (\<lambda>co pl ix n. Some (length co)) demo_tree [1, 2] \<noteq> None \<and>
   prove demo_sha (\<lambda>co pl ix n. Some (length co)) demo_tree [7, 7] = None"
proof -
  have "get_leaf demo_tree [1, 2] \<noteq> None" "get_leaf demo_tree [7, 7] = None" by code_simp+
  then show ?thesis
    using traversal_proof_links [OF wf_demo_tree, of "[1, 2]" "\<lambda>co pl ix n. Some (length co)" demo_sha]
      traversal_proof_links [OF wf_demo_tree, of "[7, 7]" "\<lambda>co pl ix n. Some (length co)" demo_sha]
    by blast
qed

text \<open>The wire form of a multi-key proof is unambiguous: two proofs whose lists fit their 32-bit
  counts and that have the same bytes are the same proof.\<close>

theorem proof_bytes_unambiguous:
  assumes "proof_fits p" "proof_fits q"
  shows "to_bytes p = to_bytes q \<longleftrightarrow> p = q"
  using to_bytes_inj [OF assms] by blast

theorem proof_bytes_unambiguous_witness:
  "to_bytes \<lparr>multiproof = \<lparr>mp_commitment = [1], mp_proof = [], mp_evaluations = []\<rparr>, sub_proofs = []\<rparr> \<noteq>
   to_bytes \<lparr>multiproof = \<lparr>mp_commitment = [], mp_proof = [1], mp_evaluations = []\<rparr>, sub_proofs = []\<rparr>"
  by (subst proof_bytes_unambiguous)
    (simp_all add: proof_fits_def multiproof_fits_def blobs_fit_def serialize_multiproof_def put_blob_def put_list_def)

end
