(* ===== verification/Time_Reel.thy ===== *)
theory Time_Reel
  imports Bitmask Fork_Choice "HOL-Library.AList" "HOL-Library.Multiset"
begin

text \<open>
  The global time reel (\<^verbatim>\<open>crates/quil-engine/src/time_reel.rs\<close>): the tree of recent global
  frames, its head, the frames waiting for a parent and the signers caught
  equivocating. The reel is a record and every method returns the updated record; the events the
  code sends to its channel are appended to the field \<open>events\<close>.

  Hash maps are association lists with distinct keys. The code iterates over the node map in an
  unspecified order; the parameter \<open>ord\<close> is that order, a permutation of the
  entries. The other parameters are the identifier of a header (\<open>fid\<close>) and the selector of an
  output (\<open>sel\<close>), both Poseidon hashes in the code: \<open>compute_frame_id\<close> and
  \<open>compute_poseidon_selector\<close> give them from the hash. A result \<open>None\<close> stands for
  a call that does not return: the loops that follow parent links have no bound in
  the code, and \<open>None\<close> is the case where they go round a cycle. Waiting frames are kept
  under the hex form of their selector in the code and under the selector here.
\<close>

subsection \<open>Data\<close>

record header =
  frame_number :: u64
  timestamp :: int
  difficulty :: u32
  frame_output :: bytes
  parent_selector :: bytes
  signature_bitmask :: "bytes option"

record global_frame =
  frame_header :: "header option"

record 'i frame_node =
  node_frame :: global_frame
  parent :: "'i option"
  children :: "'i list"
  depth :: u64

record pending_frame =
  pend_frame :: global_frame
  pend_timestamp :: int

datatype event_type = NewHead | ForkDetected | EquivocationDetected

record global_event =
  event_kind :: event_type
  event_frame :: global_frame
  old_head :: "global_frame option"

record 'i reel =
  root :: "'i option"
  head :: "'i option"
  nodes :: "('i \<times> 'i frame_node) list"
  frames_by_number :: "(u64 \<times> 'i list) list"
  pending_frames :: "(bytes \<times> pending_frame list) list"
  equivocators :: "(u64 \<times> nat list) list"
  fork_choice_params :: params
  genesis_frame_number :: u64
  events :: "global_event list"

datatype reel_error = NoHeader | SelectorMismatch | RootExists

definition MAX_TREE_DEPTH :: u64 where "MAX_TREE_DEPTH = 10"
definition PENDING_FRAME_MAX_AGE_MS :: int where "PENDING_FRAME_MAX_AGE_MS = 90 * 60 * 1000"

definition new_reel :: "u8 \<Rightarrow> 'i reel" where
  "new_reel network =
     \<lparr>root = None, head = None, nodes = [], frames_by_number = [], pending_frames = [], equivocators = [],
      fork_choice_params = default_params,
      genesis_frame_number = (if network = 0 then 244200 else 0), events = []\<rparr>"

subsection \<open>Looking up\<close>

abbreviation node_at :: "'i reel \<Rightarrow> 'i \<Rightarrow> 'i frame_node option" where
  "node_at st i \<equiv> map_of (nodes st) i"

definition header_of :: "'i reel \<Rightarrow> 'i \<Rightarrow> header option" where
  "header_of st i = Option.bind (node_at st i) (\<lambda>n. frame_header (node_frame n))"

definition number_of :: "'i reel \<Rightarrow> 'i \<Rightarrow> u64" where
  "number_of st i = (case header_of st i of None \<Rightarrow> 0 | Some h \<Rightarrow> frame_number h)"

definition depth_of :: "'i reel \<Rightarrow> 'i \<Rightarrow> u64" where
  "depth_of st i = (case node_at st i of None \<Rightarrow> 0 | Some n \<Rightarrow> depth n)"

definition get_head :: "'i reel \<Rightarrow> global_frame option" where
  "get_head st = Option.bind (head st) (\<lambda>i. map_option node_frame (node_at st i))"

definition get_head_frame_number :: "'i reel \<Rightarrow> u64" where
  "get_head_frame_number st = (case head st of None \<Rightarrow> 0 | Some i \<Rightarrow> number_of st i)"

definition sizes :: "'i reel \<Rightarrow> nat \<times> nat \<times> nat" where
  "sizes st = (length (nodes st), sum_list (map (length \<circ> snd) (pending_frames st)), length (equivocators st))"

subsection \<open>Hashes and signer masks\<close>

definition hex_digit :: "nat \<Rightarrow> char" where
  "hex_digit n = char_of (if n < 10 then 48 + n else 87 + n)"

definition hex_encode :: "bytes \<Rightarrow> string" where
  "hex_encode bs = concat (map (\<lambda>b. [hex_digit (unat b div 16), hex_digit (unat b mod 16)]) bs)"

fun dec_digits :: "nat \<Rightarrow> string" where
  "dec_digits n = (if n < 10 then [char_of (48 + n)] else dec_digits (n div 10) @ [char_of (48 + n mod 10)])"

definition dec_int :: "int \<Rightarrow> string" where
  "dec_int x = (if x < 0 then CHR ''-'' # dec_digits (nat (- x)) else dec_digits (nat x))"

definition id_preimage :: "header \<Rightarrow> string" where
  "id_preimage h = dec_digits (unat (frame_number h)) @ '':'' @ dec_int (timestamp h) @ '':'' @
     hex_encode (frame_output h) @ '':'' @ hex_encode (parent_selector h)"

definition compute_frame_id :: "(bytes \<Rightarrow> bytes option) \<Rightarrow> header \<Rightarrow> string" where
  "compute_frame_id poseidon h =
     hex_encode (case poseidon (map of_char (id_preimage h)) of None \<Rightarrow> replicate 32 0 | Some x \<Rightarrow> x)"

definition compute_poseidon_selector :: "(bytes \<Rightarrow> bytes option) \<Rightarrow> bytes \<Rightarrow> bytes" where
  "compute_poseidon_selector poseidon out =
     (case poseidon out of None \<Rightarrow> replicate 32 0 | Some x \<Rightarrow> x)"

definition is_equal_frame :: "header \<Rightarrow> header \<Rightarrow> bool" where
  "is_equal_frame a b \<longleftrightarrow> frame_number a = frame_number b \<and> timestamp a = timestamp b \<and>
     difficulty a = difficulty b \<and> frame_output a = frame_output b \<and> parent_selector a = parent_selector b"

definition frame_mask :: "global_frame \<Rightarrow> bytes" where
  "frame_mask f =
     (case Option.bind (frame_header f) signature_bitmask of None \<Rightarrow> [] | Some m \<Rightarrow> m)"

definition frames_overlap :: "global_frame \<Rightarrow> global_frame \<Rightarrow> bool" where
  "frames_overlap a b =
     (let am = frame_mask a; bm = frame_mask b in
      list_ex (\<lambda>i. (if i < length am then am ! i else 0) AND (if i < length bm then bm ! i else 0) \<noteq> 0)
        [0..<max (length am) (length bm)])"

definition extract_overlapping_bits :: "global_frame \<Rightarrow> global_frame \<Rightarrow> nat list \<Rightarrow> nat list" where
  "extract_overlapping_bits a b eq =
     (let am = frame_mask a; bm = frame_mask b in
      fold List.insert
        (concat (map (\<lambda>i.
           let both = (if i < length am then am ! i else 0) AND (if i < length bm then bm ! i else 0) in
           map (\<lambda>bit. i * 8 + bit) (filter (\<lambda>bit. both AND push_bit bit 1 \<noteq> 0) [0..<8]))
          [0..<max (length am) (length bm)])) eq)"

definition equivocators_at :: "'i reel \<Rightarrow> u64 \<Rightarrow> nat list" where
  "equivocators_at st n = (case map_of (equivocators st) n of None \<Rightarrow> [] | Some e \<Rightarrow> e)"

definition compute_frame_seniority :: "'i reel \<Rightarrow> global_frame \<Rightarrow> u64" where
  "compute_frame_seniority st f =
     (case frame_header f of
        None \<Rightarrow> SCALE div 64
      | Some h \<Rightarrow>
          (case signature_bitmask h of
             None \<Rightarrow> SCALE div 64
           | Some m \<Rightarrow>
               let bit_count = (of_nat (length (filter (\<lambda>p. p \<notin> set (equivocators_at st (frame_number h)))
                                  (set_bit_indices m))) :: u64)
               in if bit_count = 0 then 0 else (SCALE div 64) * bit_count))"

subsection \<open>Following parents\<close>

fun find_root_in :: "nat \<Rightarrow> 'i reel \<Rightarrow> 'i \<Rightarrow> 'i option option" where
  "find_root_in 0 st i = None"
| "find_root_in (Suc fuel) st i =
     (case node_at st i of
        None \<Rightarrow> Some None
      | Some n \<Rightarrow> (case parent n of None \<Rightarrow> Some (Some i) | Some p \<Rightarrow> find_root_in fuel st p))"

text \<open>A chain of more links than there are nodes repeats one, so this many steps decide the loop.\<close>

definition link_fuel :: "'i reel \<Rightarrow> nat" where
  "link_fuel st = Suc (Suc (length (nodes st)))"

definition find_root :: "'i reel \<Rightarrow> 'i \<Rightarrow> 'i option option" where
  "find_root st i = find_root_in (link_fuel st) st i"

fun is_ancestor_in :: "nat \<Rightarrow> 'i reel \<Rightarrow> 'i \<Rightarrow> 'i \<Rightarrow> bool option" where
  "is_ancestor_in 0 st anc i = None"
| "is_ancestor_in (Suc fuel) st anc i =
     (if i = anc then Some True
      else case node_at st i of
        None \<Rightarrow> Some False
      | Some n \<Rightarrow> (case parent n of None \<Rightarrow> Some False | Some p \<Rightarrow> is_ancestor_in fuel st anc p))"

definition is_ancestor :: "'i reel \<Rightarrow> 'i \<Rightarrow> 'i \<Rightarrow> bool option" where
  "is_ancestor st anc i = is_ancestor_in (link_fuel st) st anc i"

fun filter_opt :: "('a \<Rightarrow> bool option) \<Rightarrow> 'a list \<Rightarrow> 'a list option" where
  "filter_opt p [] = Some []"
| "filter_opt p (x # xs) =
     (case p x of None \<Rightarrow> None
      | Some b \<Rightarrow> (case filter_opt p xs of None \<Rightarrow> None | Some ys \<Rightarrow> Some (if b then x # ys else ys)))"

type_synonym 'i order = "('i \<times> 'i frame_node) list \<Rightarrow> ('i \<times> 'i frame_node) list"

definition find_leaf_nodes :: "'i order \<Rightarrow> 'i reel \<Rightarrow> 'i list option" where
  "find_leaf_nodes ord st =
     (let leaves = map fst (filter (\<lambda>(i, n). children n = []) (ord (nodes st))) in
      case head st of
        None \<Rightarrow> Some leaves
      | Some head_id \<Rightarrow>
          (case find_root st head_id of
             None \<Rightarrow> None
           | Some head_root \<Rightarrow> filter_opt (\<lambda>i. map_option (\<lambda>r. r = head_root) (find_root st i)) leaves))"

fun lineage :: "nat \<Rightarrow> 'i reel \<Rightarrow> 'i \<Rightarrow> 'i list" where
  "lineage 0 st i = []"
| "lineage (Suc n) st i =
     (case node_at st i of
        None \<Rightarrow> []
      | Some nd \<Rightarrow> i # (case parent nd of None \<Rightarrow> [] | Some p \<Rightarrow> lineage n st p))"

definition node_to_branch :: "'i reel \<Rightarrow> 'i \<Rightarrow> branch" where
  "node_to_branch st leaf =
     \<lparr>frames = map (\<lambda>n. \<lparr>distance = 0, seniority = compute_frame_seniority st (node_frame n),
                         prover_address = take 32 (case frame_header (node_frame n) of None \<Rightarrow> [] | Some h \<Rightarrow> frame_output h)\<rparr>)
        (List.map_filter (node_at st) (rev (lineage (unat MAX_TREE_DEPTH) st leaf)))\<rparr>"

definition find_node_by_selector :: "(bytes \<Rightarrow> bytes) \<Rightarrow> 'i order \<Rightarrow> 'i reel \<Rightarrow> bytes \<Rightarrow> 'i option" where
  "find_node_by_selector sel ord st s =
     map_option fst (find (\<lambda>(i, n). case frame_header (node_frame n) of
        None \<Rightarrow> False | Some h \<Rightarrow> sel (frame_output h) = s) (ord (nodes st)))"

subsection \<open>Head selection\<close>

definition emit :: "event_type \<Rightarrow> global_frame \<Rightarrow> global_frame option \<Rightarrow> 'i reel \<Rightarrow> 'i reel" where
  "emit k f old st = st\<lparr>events := events st @ [\<lparr>event_kind = k, event_frame = f, old_head = old\<rparr>]\<rparr>"

definition send_head_event ::
  "(header \<Rightarrow> 'i) \<Rightarrow> 'i reel \<Rightarrow> 'i \<Rightarrow> global_frame option \<Rightarrow> 'i \<Rightarrow> 'i reel option" where
  "send_head_event fid st new_head old_frame no_id =
     (case node_at st new_head of
        None \<Rightarrow> Some st
      | Some n \<Rightarrow>
          (case old_frame of
             None \<Rightarrow> Some (emit NewHead (node_frame n) None st)
           | Some old \<Rightarrow>
               let old_id = (case frame_header old of None \<Rightarrow> no_id | Some h \<Rightarrow> fid h) in
               map_option (\<lambda>anc. emit (if anc then NewHead else ForkDetected) (node_frame n) (Some old) st)
                 (is_ancestor st old_id new_head)))"

definition set_head :: "(header \<Rightarrow> 'i) \<Rightarrow> 'i \<Rightarrow> 'i reel \<Rightarrow> 'i \<Rightarrow> 'i \<Rightarrow> 'i reel option" where
  "set_head fid no_id st head_id new_id =
     send_head_event fid (st\<lparr>head := Some new_id\<rparr>) new_id (map_option node_frame (node_at st head_id)) no_id"

definition max_depth :: "'i reel \<Rightarrow> 'i list \<Rightarrow> u64" where
  "max_depth st ids = fold max (List.map_filter (\<lambda>i. map_option depth (node_at st i)) ids) 0"

definition evaluate_fork_choice ::
  "(header \<Rightarrow> 'i) \<Rightarrow> 'i \<Rightarrow> 'i order \<Rightarrow> 'i reel \<Rightarrow> 'i \<Rightarrow> 'i reel option" where
  "evaluate_fork_choice fid no_id ord st new_id =
     (case head st of
        None \<Rightarrow>
          (case node_at st new_id of
             None \<Rightarrow> None
           | Some n \<Rightarrow> Some (emit NewHead (node_frame n) None (st\<lparr>head := Some new_id\<rparr>)))
      | Some head_id \<Rightarrow>
          let new_num = number_of st new_id; head_num = number_of st head_id in
          if head_num < new_num \<and> MAX_TREE_DEPTH < new_num - head_num then set_head fid no_id st head_id new_id
          else
            (case find_leaf_nodes ord st of
               None \<Rightarrow> None
             | Some leaves \<Rightarrow>
                 if length leaves \<le> 1 then
                   if depth_of st head_id < depth_of st new_id then set_head fid no_id st head_id new_id
                   else Some st
                 else
                   let competing = filter (\<lambda>i. depth_of st i = max_depth st leaves) leaves in
                   if length competing = 1 then
                     if competing ! 0 \<noteq> head_id then set_head fid no_id st head_id (competing ! 0) else Some st
                   else
                     let prev_choice = (case position (\<lambda>i. i = head_id) competing of None \<Rightarrow> 0 | Some k \<Rightarrow> k) in
                     (case fork_choice (map (node_to_branch st) competing) (fork_choice_params st) prev_choice of
                        None \<Rightarrow> None
                      | Some k \<Rightarrow>
                          (case list_get competing k of
                             None \<Rightarrow> None
                           | Some chosen \<Rightarrow>
                               if chosen \<noteq> head_id then set_head fid no_id st head_id chosen else Some st))))"

subsection \<open>Insertion\<close>

definition push_number :: "u64 \<Rightarrow> 'i \<Rightarrow> 'i reel \<Rightarrow> 'i reel" where
  "push_number n i st =
     st\<lparr>frames_by_number := AList.update n
        ((case map_of (frames_by_number st) n of None \<Rightarrow> [] | Some js \<Rightarrow> js) @ [i]) (frames_by_number st)\<rparr>"

definition add_node :: "'i \<Rightarrow> 'i frame_node \<Rightarrow> u64 \<Rightarrow> 'i reel \<Rightarrow> 'i reel" where
  "add_node i n num st = push_number num i (st\<lparr>nodes := AList.update i n (nodes st)\<rparr>)"

definition add_child :: "'i \<Rightarrow> 'i \<Rightarrow> 'i reel \<Rightarrow> 'i reel" where
  "add_child p i st =
     (case node_at st p of
        None \<Rightarrow> st
      | Some n \<Rightarrow> st\<lparr>nodes := AList.update p (n\<lparr>children := List.insert i (children n)\<rparr>) (nodes st)\<rparr>)"

definition push_pending :: "bytes \<Rightarrow> pending_frame \<Rightarrow> 'i reel \<Rightarrow> 'i reel" where
  "push_pending s p st =
     st\<lparr>pending_frames := AList.update s
        ((case map_of (pending_frames st) s of None \<Rightarrow> [] | Some ps \<Rightarrow> ps) @ [p]) (pending_frames st)\<rparr>"

fun fold_opt :: "('s \<Rightarrow> 'a \<Rightarrow> 's option) \<Rightarrow> 'a list \<Rightarrow> 's \<Rightarrow> 's option" where
  "fold_opt f [] s = Some s"
| "fold_opt f (x # xs) s = (case f s x of None \<Rightarrow> None | Some s' \<Rightarrow> fold_opt f xs s')"

text \<open>
  One waiting frame whose parent is now known. The argument \<open>rec\<close> is the recursive
  call for the frames that wait for this one.
\<close>

definition attach_pending ::
  "(header \<Rightarrow> 'i) \<Rightarrow> 'i \<Rightarrow> 'i order \<Rightarrow> ('i reel \<Rightarrow> 'i \<Rightarrow> 'i reel option) \<Rightarrow> 'i \<Rightarrow> u64 \<Rightarrow>
   'i reel \<Rightarrow> pending_frame \<Rightarrow> 'i reel option" where
  "attach_pending fid no_id ord rec pid parent_depth st p =
     (case frame_header (pend_frame p) of
        None \<Rightarrow> Some st
      | Some h \<Rightarrow>
          let i = fid h in
          (case node_at st i of
             Some existing \<Rightarrow>
               if parent existing = None then
                 let st1 = st\<lparr>nodes := AList.update i (existing\<lparr>parent := Some pid, depth := parent_depth + 1\<rparr>) (nodes st)\<rparr>
                 in Option.bind (rec (add_child pid i st1) i) (\<lambda>st2. evaluate_fork_choice fid no_id ord st2 i)
               else Some st
           | None \<Rightarrow>
               let n = \<lparr>node_frame = pend_frame p, parent = Some pid, children = [], depth = parent_depth + 1\<rparr>;
                   st1 = add_child pid i (add_node i n (frame_number h) st)
               in Option.bind (rec st1 i) (\<lambda>st2. evaluate_fork_choice fid no_id ord st2 i)))"

fun process_pending ::
  "(header \<Rightarrow> 'i) \<Rightarrow> (bytes \<Rightarrow> bytes) \<Rightarrow> 'i \<Rightarrow> 'i order \<Rightarrow> nat \<Rightarrow> 'i reel \<Rightarrow> 'i \<Rightarrow> 'i reel option" where
  "process_pending fid sel no_id ord 0 st pid = None"
| "process_pending fid sel no_id ord (Suc fuel) st pid =
     (case header_of st pid of
        None \<Rightarrow> Some st
      | Some h \<Rightarrow>
          let s = sel (frame_output h) in
          (case map_of (pending_frames st) s of
             None \<Rightarrow> Some st
           | Some ps \<Rightarrow>
               fold_opt (attach_pending fid no_id ord (process_pending fid sel no_id ord fuel) pid (depth_of st pid)) ps
                 (st\<lparr>pending_frames := AList.delete s (pending_frames st)\<rparr>)))"

definition run_pending ::
  "(header \<Rightarrow> 'i) \<Rightarrow> (bytes \<Rightarrow> bytes) \<Rightarrow> 'i \<Rightarrow> 'i order \<Rightarrow> 'i reel \<Rightarrow> 'i \<Rightarrow> 'i reel option" where
  "run_pending fid sel no_id ord st pid =
     process_pending fid sel no_id ord (Suc (length (pending_frames st))) st pid"

definition remove_node :: "'i \<Rightarrow> 'i reel \<Rightarrow> 'i reel" where
  "remove_node i st =
     (case node_at st i of
        None \<Rightarrow> st
      | Some n \<Rightarrow>
          let num = (case frame_header (node_frame n) of None \<Rightarrow> 0 | Some h \<Rightarrow> frame_number h);
              by_num = (case map_of (frames_by_number st) num of
                          None \<Rightarrow> frames_by_number st
                        | Some js \<Rightarrow>
                            let rest = filter (\<lambda>j. j \<noteq> i) js in
                            if rest = [] then AList.delete num (frames_by_number st)
                            else AList.update num rest (frames_by_number st));
              kept = map (\<lambda>(j, m). (j, if j \<in> set (children n) then m\<lparr>parent := None\<rparr> else m))
                       (AList.delete i (nodes st))
          in st\<lparr>nodes := kept, frames_by_number := by_num, equivocators := AList.delete num (equivocators st)\<rparr>)"

fun min_by_number :: "('i \<times> 'i frame_node) list \<Rightarrow> ('i \<times> 'i frame_node) option" where
  "min_by_number [] = None"
| "min_by_number (x # xs) =
     (let num = (\<lambda>(i, n). case frame_header (node_frame n) of None \<Rightarrow> u64_max | Some h \<Rightarrow> frame_number h) in
      case min_by_number xs of None \<Rightarrow> Some x | Some y \<Rightarrow> Some (if num y < num x then y else x))"

definition prune_old_frames :: "'i order \<Rightarrow> 'i reel \<Rightarrow> 'i reel" where
  "prune_old_frames ord st =
     (case Option.bind (head st) (node_at st) of
        None \<Rightarrow> st
      | Some hn \<Rightarrow>
          if depth hn < MAX_TREE_DEPTH then st
          else
            let min_keep = depth hn - MAX_TREE_DEPTH + 1;
                to_remove = map fst (filter (\<lambda>(i, n). depth n < min_keep) (ord (nodes st)))
            in if to_remove = [] then st
               else
                 let st1 = fold remove_node to_remove st in
                 (case min_by_number (filter (\<lambda>(i, n). depth n = min_keep) (ord (nodes st1))) of
                    None \<Rightarrow> st1
                  | Some (i, n) \<Rightarrow> st1\<lparr>root := Some i\<rparr>))"

definition prune_old_pending :: "int \<Rightarrow> 'i reel \<Rightarrow> 'i reel" where
  "prune_old_pending now_ms st =
     (let cutoff = now_ms - PENDING_FRAME_MAX_AGE_MS in
      st\<lparr>pending_frames := filter (\<lambda>(s, ps). ps \<noteq> [])
           (map (\<lambda>(s, ps). (s, filter (\<lambda>p. cutoff \<le> pend_timestamp p) ps)) (pending_frames st))\<rparr>)"

definition insert_genesis ::
  "(header \<Rightarrow> 'i) \<Rightarrow> (bytes \<Rightarrow> bytes) \<Rightarrow> 'i \<Rightarrow> 'i order \<Rightarrow> 'i reel \<Rightarrow> global_frame \<Rightarrow> 'i \<Rightarrow>
   ('i reel \<times> (reel_error + unit)) option" where
  "insert_genesis fid sel no_id ord st f i =
     (if root st \<noteq> None then Some (st, Inl RootExists)
      else
        let num = (case frame_header f of None \<Rightarrow> 0 | Some h \<Rightarrow> frame_number h);
            n = \<lparr>node_frame = f, parent = None, children = [], depth = 0\<rparr>;
            st1 = emit NewHead f None ((add_node i n num st)\<lparr>root := Some i, head := Some i\<rparr>)
        in map_option (\<lambda>st2. (prune_old_frames ord st2, Inr ())) (run_pending fid sel no_id ord st1 i))"

definition note_equivocation :: "global_frame \<Rightarrow> header \<Rightarrow> 'i \<Rightarrow> 'i reel \<Rightarrow> 'i reel" where
  "note_equivocation f h j st =
     (case node_at st j of
        None \<Rightarrow> st
      | Some existing \<Rightarrow>
          (case frame_header (node_frame existing) of
             None \<Rightarrow> st
           | Some eh \<Rightarrow>
               if \<not> is_equal_frame eh h \<and> frames_overlap (node_frame existing) f then
                 emit EquivocationDetected f None
                   (st\<lparr>equivocators := AList.update (frame_number h)
                      (extract_overlapping_bits (node_frame existing) f (equivocators_at st (frame_number h)))
                      (equivocators st)\<rparr>)
               else st))"

definition detect_equivocation :: "global_frame \<Rightarrow> header \<Rightarrow> 'i reel \<Rightarrow> 'i reel" where
  "detect_equivocation f h st =
     fold (note_equivocation f h)
       (case map_of (frames_by_number st) (frame_number h) of None \<Rightarrow> [] | Some js \<Rightarrow> js) st"

definition insert_inner ::
  "(header \<Rightarrow> 'i) \<Rightarrow> (bytes \<Rightarrow> bytes) \<Rightarrow> 'i \<Rightarrow> 'i order \<Rightarrow> int \<Rightarrow> 'i reel \<Rightarrow> global_frame \<Rightarrow>
   ('i reel \<times> (reel_error + unit)) option" where
  "insert_inner fid sel no_id ord now_ms st f =
     (case frame_header f of
        None \<Rightarrow> Some (st, Inl NoHeader)
      | Some h \<Rightarrow>
          let i = fid h in
          if node_at st i \<noteq> None then Some (st, Inr ())
          else
            let st1 = detect_equivocation f h st in
            if frame_number h = genesis_frame_number st1 \<or> (root st1 = None \<and> nodes st1 = [])
            then insert_genesis fid sel no_id ord st1 f i
            else
              (case find_node_by_selector sel ord st1 (parent_selector h) of
                 Some pid \<Rightarrow>
                   (case header_of st1 pid of
                      None \<Rightarrow> None
                    | Some ph \<Rightarrow>
                        if sel (frame_output ph) \<noteq> parent_selector h then Some (st1, Inl SelectorMismatch)
                        else
                          let n = \<lparr>node_frame = f, parent = Some pid, children = [], depth = depth_of st1 pid + 1\<rparr>;
                              st2 = add_child pid i (add_node i n (frame_number h) st1)
                          in map_option (\<lambda>st4. (prune_old_pending now_ms (prune_old_frames ord st4), Inr ()))
                               (Option.bind (run_pending fid sel no_id ord st2 i)
                                 (\<lambda>st3. evaluate_fork_choice fid no_id ord st3 i)))
               | None \<Rightarrow>
                   let p = \<lparr>pend_frame = f, pend_timestamp = timestamp h\<rparr>;
                       st2 = push_pending (parent_selector h) p st1
                   in if head st1 \<noteq> None \<and> get_head_frame_number st1 < frame_number h then
                        let n = \<lparr>node_frame = f, parent = None, children = [], depth = 1\<rparr>
                        in map_option (\<lambda>st4. (st4, Inr ()))
                             (evaluate_fork_choice fid no_id ord (add_node i n (frame_number h) st2) i)
                      else Some (st2, Inr ())))"

definition reel_insert ::
  "(bytes \<Rightarrow> bytes option) \<Rightarrow> string order \<Rightarrow> int \<Rightarrow> string reel \<Rightarrow> global_frame \<Rightarrow>
   (string reel \<times> (reel_error + unit)) option" where
  "reel_insert poseidon ord now_ms st f =
     insert_inner (compute_frame_id poseidon) (compute_poseidon_selector poseidon) [] ord now_ms st f"

end
