(* ===== verification/Reel_Properties.thy ===== *)
theory Reel_Properties
  imports Reel_Invariant
begin

text \<open>
  What the time reel guarantees and where it does not: every insertion returns when frame numbers
  grow along selectors, the invariant of \<^verbatim>\<open>Reel_Invariant\<close> holds along every history, the
  equivocators of a height are exactly the signers of conflicting frames, and pruning keeps a window
  of ten depths. Two scenarios evaluated on the model show what happens to a re-attached
  chain of orphans and to frames that name each other as parents.
\<close>

subsection \<open>Parent chains end\<close>

definition numbers_grow :: "(bytes \<Rightarrow> bytes) \<Rightarrow> header set \<Rightarrow> bool" where
  "numbers_grow sel F \<longleftrightarrow> (\<forall>g \<in> F. \<forall>f \<in> F. sel (frame_output g) = parent_selector f \<longrightarrow> frame_number g < frame_number f)"

lemma parent_smaller:
  assumes "reel_inv fid sel F st" "numbers_grow sel F" "node_at st i = Some n" "parent n = Some p"
  shows "node_at st p \<noteq> None \<and> number_of st p < number_of st i"
proof -
  obtain pn h ph where l: "node_at st p = Some pn" "frame_header (node_frame n) = Some h"
    "frame_header (node_frame pn) = Some ph" "sel (frame_output ph) = parent_selector h"
    using assms(1,3,4) unfolding reel_inv_def links_ok_def by blast
  have "h \<in> F" "ph \<in> F" using inv_node_header [OF assms(1)] assms(3) l by fastforce+
  then have "frame_number ph < frame_number h" using assms(2) l(4) unfolding numbers_grow_def by blast
  with l assms(3) show ?thesis by (simp add: number_of_def header_of_def)
qed

definition below :: "'i reel \<Rightarrow> 'i \<Rightarrow> 'i set" where
  "below st i = {j \<in> fst ` set (nodes st). number_of st j < number_of st i}"

lemma card_below_le: "card (below st i) \<le> length (nodes st)"
proof -
  have "card (below st i) \<le> card (fst ` set (nodes st))"
    by (rule card_mono) (auto simp: below_def)
  also have "\<dots> \<le> length (nodes st)" by (metis card_image_le card_length le_trans List.finite_set)
  finally show ?thesis .
qed

lemma below_parent:
  assumes "node_at st p \<noteq> None" "number_of st p < number_of st i"
  shows "card (below st p) < card (below st i)"
proof (rule psubset_card_mono)
  have "p \<in> fst ` set (nodes st)" using assms(1) by (simp add: map_of_eq_None_iff)
  then have "p \<in> below st i" "p \<notin> below st p" "below st p \<subseteq> below st i" using assms(2) by (auto simp: below_def)
  then show "below st p \<subset> below st i" by blast
qed (auto simp: below_def)

lemma find_root_in_returns:
  assumes "reel_inv fid sel F st" "numbers_grow sel F"
  shows "card (below st i) < fuel \<Longrightarrow> find_root_in fuel st i \<noteq> None"
proof (induction fuel arbitrary: i)
  case (Suc fuel)
  show ?case
  proof (cases "node_at st i")
    case (Some n)
    show ?thesis
    proof (cases "parent n")
      case p: (Some p)
      have "card (below st p) < card (below st i)"
        using parent_smaller [OF assms Some p] by (intro below_parent) auto
      with Suc Some p show ?thesis by simp
    qed (use Some in simp)
  qed simp
qed simp

lemma is_ancestor_in_returns:
  assumes "reel_inv fid sel F st" "numbers_grow sel F"
  shows "card (below st i) < fuel \<Longrightarrow> is_ancestor_in fuel st a i \<noteq> None"
proof (induction fuel arbitrary: i)
  case (Suc fuel)
  show ?case
  proof (cases "node_at st i")
    case (Some n)
    show ?thesis
    proof (cases "parent n")
      case p: (Some p)
      have "card (below st p) < card (below st i)"
        using parent_smaller [OF assms Some p] by (intro below_parent) auto
      with Suc Some p show ?thesis by auto
    qed (use Some in auto)
  qed auto
qed simp

lemma loops_return:
  assumes "reel_inv fid sel F st" "numbers_grow sel F"
  shows "find_root st i \<noteq> None" "is_ancestor st a i \<noteq> None"
  unfolding find_root_def is_ancestor_def link_fuel_def
  by (rule find_root_in_returns [OF assms] is_ancestor_in_returns [OF assms], use card_below_le [of st i] in simp)+

text \<open>
  The number of steps that \<^verbatim>\<open>is_ancestor\<close> is given decides: if the walk has not ended by then, it has
  met a node twice and does not end at all.
\<close>

lemma funpow_cycle:
  fixes f :: "'a \<Rightarrow> 'a"
  assumes "j < k" "(f ^^ j) x = (f ^^ k) x"
  shows "\<exists>l < k. (f ^^ m) x = (f ^^ l) x"
proof (induction m)
  case 0
  then show ?case using assms(1) by (intro exI [of _ 0]) auto
next
  case (Suc m)
  then obtain l where l: "l < k" "(f ^^ m) x = (f ^^ l) x" by blast
  show ?case
  proof (cases "Suc l < k")
    case True
    with l show ?thesis by (intro exI [of _ "Suc l"]) simp
  next
    case False
    then have "k = Suc l" using l(1) by simp
    with l assms show ?thesis by (intro exI [of _ j]) simp
  qed
qed

definition walk_up :: "'i reel \<Rightarrow> 'i \<Rightarrow> 'i" where
  "walk_up st i = (case Option.bind (node_at st i) parent of None \<Rightarrow> i | Some p \<Rightarrow> p)"

definition walk_stops :: "'i reel \<Rightarrow> 'i \<Rightarrow> 'i \<Rightarrow> bool" where
  "walk_stops st a i \<longleftrightarrow> i = a \<or> Option.bind (node_at st i) parent = None"

lemma is_ancestor_in_None_iff:
  "is_ancestor_in fuel st a i = None \<longleftrightarrow> (\<forall>k < fuel. \<not> walk_stops st a ((walk_up st ^^ k) i))"
proof (induction fuel arbitrary: i)
  case (Suc fuel)
  have all: "(\<forall>k < Suc fuel. P k) \<longleftrightarrow> P 0 \<and> (\<forall>k < fuel. P (Suc k))" for P :: "nat \<Rightarrow> bool"
    by (auto simp: less_Suc_eq_0_disj)
  show ?case
    by (cases "node_at st i"; cases "parent (the (node_at st i))")
      (auto simp: all Suc funpow_Suc_right walk_stops_def walk_up_def simp del: funpow.simps)
qed simp

lemma is_ancestor_decides:
  assumes "is_ancestor st a i = None"
  shows "is_ancestor_in fuel st a i = None"
proof -
  let ?u = "\<lambda>k. (walk_up st ^^ k) i"
  have run: "\<not> walk_stops st a (?u k)" if "k < link_fuel st" for k
    using assms that unfolding is_ancestor_def is_ancestor_in_None_iff by blast
  have "?u ` {..length (nodes st)} \<subseteq> fst ` set (nodes st)"
  proof
    fix y assume "y \<in> ?u ` {..length (nodes st)}"
    then have "\<not> walk_stops st a y" using run by (auto simp: link_fuel_def)
    then have "node_at st y \<noteq> None" by (auto simp: walk_stops_def split: bind_splits)
    then show "y \<in> fst ` set (nodes st)" by (simp add: map_of_eq_None_iff)
  qed
  then have "card (?u ` {..length (nodes st)}) \<le> card (fst ` set (nodes st))" by (rule card_mono [rotated]) simp
  also have "\<dots> \<le> length (nodes st)" by (metis card_image_le card_length le_trans List.finite_set)
  finally have "\<not> inj_on ?u {..length (nodes st)}" using card_image [of ?u "{..length (nodes st)}"] by auto
  then obtain x y where "x \<le> length (nodes st)" "y \<le> length (nodes st)" "x \<noteq> y" "?u x = ?u y"
    by (auto simp: inj_on_def)
  then obtain j k where jk: "j < k" "k \<le> length (nodes st)" "?u j = ?u k" by (metis nat_neq_iff)
  have "\<not> walk_stops st a (?u m)" for m
    using funpow_cycle [OF jk(1,3), of m] run jk(2) by (force simp: link_fuel_def)
  then show ?thesis unfolding is_ancestor_in_None_iff by blast
qed

lemma filter_opt_returns: "(\<And>x. x \<in> set xs \<Longrightarrow> p x \<noteq> None) \<Longrightarrow> filter_opt p xs \<noteq> None"
  by (induction xs) (auto split: option.splits)

lemma find_leaf_nodes_returns:
  assumes "reel_inv fid sel F st" "numbers_grow sel F"
  shows "find_leaf_nodes ord st \<noteq> None"
proof (cases "head st")
  case (Some h)
  obtain r where "find_root st h = Some r" using loops_return(1) [OF assms] by blast
  with Some show ?thesis
    using filter_opt_returns [of _ "\<lambda>i. map_option (\<lambda>r'. r' = r) (find_root st i)"] loops_return(1) [OF assms]
    by (simp add: find_leaf_nodes_def Let_def)
qed (simp add: find_leaf_nodes_def)

lemma same_tree_loops: "same_tree st st' \<Longrightarrow> is_ancestor_in fuel st' a i = is_ancestor_in fuel st a i"
  by (induction fuel arbitrary: i) (auto simp: same_tree_def split: option.splits)

lemma set_head_returns:
  assumes "reel_inv fid sel F st" "numbers_grow sel F"
  shows "set_head fid no_id st h i \<noteq> None"
proof -
  have "is_ancestor (st\<lparr>head := Some i\<rparr>) a i \<noteq> None" for a
    using loops_return(2) [OF assms, of a i]
    by (simp add: is_ancestor_def link_fuel_def same_tree_loops [OF same_tree_set_head] del: is_ancestor_in.simps)
  then show ?thesis by (auto simp: set_head_def send_head_event_def Let_def split: option.splits)
qed

lemma max_depth_attained:
  assumes "ids \<noteq> []" "\<forall>i \<in> set ids. node_at st i \<noteq> None"
  shows "\<exists>i \<in> set ids. depth_of st i = max_depth st ids"
proof -
  let ?ds = "List.map_filter (\<lambda>i. map_option depth (node_at st i)) ids"
  have ds: "set ?ds = depth_of st ` set ids"
    using assms(2) by (force simp: map_filter_def depth_of_def image_def)
  have m: "max_depth st ids = Max (insert 0 (set ?ds))"
    unfolding max_depth_def using Max.set_eq_fold [of 0 ?ds] by simp
  obtain i where i: "i \<in> set ids" using assms(1) by (cases ids) auto
  show ?thesis
  proof (cases "max_depth st ids = 0")
    case True
    have "depth_of st i \<le> Max (insert 0 (set ?ds))" using i ds by (intro Max_ge) auto
    with True m i show ?thesis by (intro bexI [of _ i]) simp_all
  next
    case False
    have "max_depth st ids \<in> insert 0 (set ?ds)" unfolding m by (intro Max_in) auto
    with False ds show ?thesis by auto
  qed
qed

lemma default_fork_choice_returns:
  assumes "prev < length bs"
  shows "\<exists>k < length bs. fork_choice bs default_params prev = Some k"
  using default_choice.pick_in_range [OF assms] by simp

lemma evaluate_returns:
  assumes ord: "iteration_order ord" and inv: "reel_inv fid sel F st" and grow: "numbers_grow sel F"
    and new: "node_at st i \<noteq> None"
  shows "evaluate_fork_choice fid no_id ord st i \<noteq> None"
proof (cases "head st")
  case None
  with new show ?thesis by (auto simp: evaluate_fork_choice_def)
next
  case (Some h)
  note sh = set_head_returns [OF inv grow]
  obtain leaves where l: "find_leaf_nodes ord st = Some leaves" using find_leaf_nodes_returns [OF inv grow] by blast
  define competing where "competing = filter (\<lambda>i. depth_of st i = max_depth st leaves) leaves"
  have pick: "\<exists>k < length competing. fork_choice (map (node_to_branch st) competing) (fork_choice_params st)
      (case position (\<lambda>i. i = h) competing of None \<Rightarrow> 0 | Some k \<Rightarrow> k) = Some k"
    if "\<not> length leaves \<le> 1"
  proof -
    have "leaves \<noteq> []" using that by auto
    with max_depth_attained [of leaves st] find_leaf_nodes_stored [OF ord l] have "competing \<noteq> []"
      by (auto simp: competing_def filter_empty_conv)
    then have "(case position (\<lambda>i. i = h) competing of None \<Rightarrow> 0 | Some k \<Rightarrow> k) < length (map (node_to_branch st) competing)"
      by (auto split: option.splits dest: position_Some)
    from default_fork_choice_returns [OF this] inv show ?thesis by (simp add: reel_inv_def)
  qed
  show ?thesis
    unfolding evaluate_fork_choice_def Some option.case Let_def l competing_def [symmetric]
    using sh pick by (auto split: option.splits)
qed


subsection \<open>Insertion returns\<close>

lemma fold_opt_returns:
  assumes "P s" "\<And>s x. P s \<Longrightarrow> x \<in> set xs \<Longrightarrow> \<exists>s'. f s x = Some s' \<and> P s'"
  shows "\<exists>s'. fold_opt f xs s = Some s' \<and> P s'"
  using assms
proof (induction xs arbitrary: s)
  case (Cons x xs)
  obtain s1 where "f s x = Some s1" "P s1" using Cons.prems by fastforce
  with Cons.IH [of s1] Cons.prems(2) show ?case by auto
qed simp

lemma attach_pending_returns:
  assumes ord: "iteration_order ord" and inv: "reel_inv fid sel F st" and ids: "ids_faithful fid F"
    and grow: "numbers_grow sel F" and ph: "header_of st pid = Some ph" and p: "waits_for sel F ph p"
    and len: "length (pending_frames st) < fuel"
    and rec: "\<And>s i. reel_inv fid sel F s \<Longrightarrow> header_of s i \<noteq> None \<Longrightarrow> length (pending_frames s) < fuel \<Longrightarrow>
      process_pending fid sel no_id ord fuel s i \<noteq> None"
  shows "attach_pending fid no_id ord (process_pending fid sel no_id ord fuel) pid d st p \<noteq> None"
proof -
  obtain h where h: "frame_header (pend_frame p) = Some h" "sel (frame_output ph) = parent_selector h" "h \<in> F"
    using p by (auto simp: waits_for_def)
  have finish: "Option.bind (process_pending fid sel no_id ord fuel s1 (fid h))
      (\<lambda>s2. evaluate_fork_choice fid no_id ord s2 (fid h)) \<noteq> None"
    if s1: "reel_inv fid sel F s1 \<and> extends st s1" "header_of s1 (fid h) = Some h1" for s1 h1
  proof -
    have "length (pending_frames s1) < fuel" using s1(1) len by (simp add: extends_def)
    with rec s1 obtain s2 where s2: "process_pending fid sel no_id ord fuel s1 (fid h) = Some s2" by blast
    have r: "reel_inv fid sel F s2 \<and> extends s1 s2"
      using process_pending_inv [OF ord ids _ _ s2] s1 by blast
    then have "node_at s2 (fid h) \<noteq> None" using s1(2) by (fastforce simp: extends_def header_of_node)
    with evaluate_returns [OF ord _ grow this] r s2 show ?thesis by simp
  qed
  show ?thesis
  proof (cases "node_at st (fid h)")
    case (Some n0)
    then obtain h0 where h0: "frame_header (node_frame n0) = Some h0" "fid h0 = fid h" "h0 \<in> F"
      using inv_node_header [OF inv] by blast
    with h(3) ids have "sel (frame_output ph) = parent_selector h0" unfolding ids_faithful_def h(2) by metis
    note r = reparent_inv [OF inv Some ph h0(1) this refl, of "d + 1"]
    show ?thesis
    proof (cases "parent n0 = None")
      case True
      have "header_of (add_child pid (fid h) (st\<lparr>nodes := AList.update (fid h)
            (n0\<lparr>parent := Some pid, depth := d + 1\<rparr>) (nodes st)\<rparr>)) (fid h) = Some h0"
        using h0(1) unfolding header_of_add_child by (simp add: header_of_def)
      from finish [OF r this] True Some h(1) show ?thesis by (simp add: attach_pending_def Let_def)
    qed (use Some h(1) in \<open>auto simp: attach_pending_def Let_def\<close>)
  next
    case None
    let ?n = "\<lparr>node_frame = pend_frame p, parent = Some pid, children = [], depth = d + 1\<rparr>"
    have "reel_inv fid sel F (add_child pid (fid h) (add_node (fid h) ?n (frame_number h) st)) \<and>
        extends st (add_child pid (fid h) (add_node (fid h) ?n (frame_number h) st))"
      using attach_new_inv [OF inv None ph, of ?n h] h by simp
    from finish [OF this, of h] None h(1) show ?thesis by (simp add: attach_pending_def Let_def)
  qed
qed

lemma process_pending_returns:
  assumes ord: "iteration_order ord" and ids: "ids_faithful fid F" and grow: "numbers_grow sel F"
  shows "reel_inv fid sel F st \<Longrightarrow> header_of st pid \<noteq> None \<Longrightarrow> length (pending_frames st) < fuel \<Longrightarrow>
    process_pending fid sel no_id ord fuel st pid \<noteq> None"
proof (induction fuel arbitrary: st pid)
  case (Suc fuel)
  obtain ph where ph: "header_of st pid = Some ph" using Suc.prems(2) by blast
  let ?s = "sel (frame_output ph)"
  show ?case
  proof (cases "map_of (pending_frames st) ?s")
    case None
    with ph show ?thesis by (simp add: Let_def)
  next
    case (Some ps)
    let ?st1 = "st\<lparr>pending_frames := AList.delete ?s (pending_frames st)\<rparr>"
    let ?f = "attach_pending fid no_id ord (process_pending fid sel no_id ord fuel) pid (depth_of st pid)"
    let ?P = "\<lambda>s. reel_inv fid sel F s \<and> extends ?st1 s"
    have len: "length (pending_frames ?st1) < fuel"
      using length_delete_less [of "pending_frames st" ?s] Some Suc.prems(3) by simp
    have "\<exists>s'. fold_opt ?f ps ?st1 = Some s' \<and> ?P s'"
    proof (rule fold_opt_returns [where P = ?P])
      show "?P ?st1" using delete_pending_inv [OF Suc.prems(1)] by simp
      fix s p assume s: "?P s" and p: "p \<in> set ps"
      have hs: "header_of s pid = Some ph" using s ph by (simp add: extends_def)
      have w: "waits_for sel F ph p" by (rule pending_waits [OF Suc.prems(1) Some p])
      have "length (pending_frames s) < fuel" using s len by (simp add: extends_def)
      then obtain s' where s': "?f s p = Some s'"
        using attach_pending_returns [OF ord conjunct1 [OF s] ids grow hs w _ Suc.IH] by blast
      have "reel_inv fid sel F s' \<and> extends s s'"
        by (rule attach_pending_inv [OF ord _ ids hs w _ s'])
          (use s process_pending_inv [OF ord ids] in blast)+
      with s s' show "\<exists>s'. ?f s p = Some s' \<and> ?P s'" by (blast intro: extends_trans)
    qed
    with ph Some show ?thesis by (auto simp: Let_def)
  qed
qed simp

lemma run_pending_returns:
  assumes "iteration_order ord" "ids_faithful fid F" "numbers_grow sel F" "reel_inv fid sel F st" "header_of st i \<noteq> None"
  shows "run_pending fid sel no_id ord st i \<noteq> None"
  unfolding run_pending_def by (rule process_pending_returns [OF assms]) simp

lemma insert_inner_returns:
  assumes ord: "iteration_order ord" and ids: "ids_faithful fid F" and grow: "numbers_grow sel F"
    and inv: "reel_inv fid sel F st" and f: "\<And>h. frame_header f = Some h \<Longrightarrow> h \<in> F"
  shows "insert_inner fid sel no_id ord now st f \<noteq> None"
proof (cases "frame_header f")
  case (Some h)
  note hF = f [OF Some]
  let ?i = "fid h" and ?st1 = "detect_equivocation f h st"
  have same: "same_but_equivocators st ?st1" by (rule detect_same)
  have inv1: "reel_inv fid sel F ?st1" by (rule same_but_equivocators_inv [OF same inv])
  note I1 = inv1 [unfolded reel_inv_def indexed_def]
  show ?thesis
  proof (cases "node_at st ?i \<noteq> None")
    case False
    have fresh: "node_at ?st1 ?i = None" using False same by (simp add: same_but_equivocators_def)
    have gen: "insert_genesis fid sel no_id ord ?st1 f ?i \<noteq> None"
    proof (cases "root ?st1 = None")
      case True
      have "header_of (emit NewHead f None ((add_node ?i \<lparr>node_frame = f, parent = None, children = [], depth = 0\<rparr>
          (frame_number h) ?st1)\<lparr>root := Some ?i, head := Some ?i\<rparr>)) ?i \<noteq> None"
        using Some by (simp add: header_of_def emit_def)
      from run_pending_returns [OF ord ids grow genesis_state_inv [OF inv1 True Some refl hF] this] True Some
      show ?thesis by (simp add: insert_genesis_def Let_def)
    qed (simp add: insert_genesis_def)
    have orphan: "evaluate_fork_choice fid no_id ord (add_node ?i
        \<lparr>node_frame = f, parent = None, children = [], depth = 1\<rparr> (frame_number h)
        (push_pending (parent_selector h) \<lparr>pend_frame = f, pend_timestamp = timestamp h\<rparr> ?st1)) ?i \<noteq> None"
      if "nodes ?st1 \<noteq> []"
    proof (rule evaluate_returns [OF ord _ grow])
      have "reel_inv fid sel F (push_pending (parent_selector h) \<lparr>pend_frame = f, pend_timestamp = timestamp h\<rparr> ?st1)"
        by (rule push_pending_inv [OF inv1]) (use Some hF in auto)
      then show "reel_inv fid sel F (add_node ?i \<lparr>node_frame = f, parent = None, children = [], depth = 1\<rparr> (frame_number h)
          (push_pending (parent_selector h) \<lparr>pend_frame = f, pend_timestamp = timestamp h\<rparr> ?st1))"
        by (rule orphan_state_inv) (use fresh that Some hF in \<open>auto simp: push_pending_def\<close>)
    qed simp
    have attached: "Option.bind (run_pending fid sel no_id ord st2 ?i)
        (\<lambda>st3. evaluate_fork_choice fid no_id ord st3 ?i) \<noteq> None"
      if st2: "reel_inv fid sel F st2" "header_of st2 ?i = Some h" for st2
    proof -
      obtain st3 where st3: "run_pending fid sel no_id ord st2 ?i = Some st3"
        using run_pending_returns [OF ord ids grow st2(1), of ?i] st2(2) by auto
      with run_pending_inv [OF ord ids st2(1) _ st3] st2(2)
      have "reel_inv fid sel F st3" "node_at st3 ?i \<noteq> None" by (auto simp: extends_def header_of_node)
      from evaluate_returns [OF ord this(1) grow this(2)] st3 show ?thesis by simp
    qed
    show ?thesis
    proof (cases "find_node_by_selector sel ord ?st1 (parent_selector h)")
      case None
      have "nodes ?st1 \<noteq> []" if "head ?st1 \<noteq> None" using that I1 by (auto simp: anchored_def)
      with None gen orphan Some False show ?thesis by (auto simp: insert_inner_def Let_def)
    next
      case found: (Some pid)
      obtain ph where ph: "header_of ?st1 pid = Some ph" "sel (frame_output ph) = parent_selector h"
        using find_selector_stored [OF ord found] I1 by blast
      let ?n = "\<lparr>node_frame = f, parent = Some pid, children = [], depth = depth_of ?st1 pid + 1\<rparr>"
      have "reel_inv fid sel F (add_child pid ?i (add_node ?i ?n (frame_number h) ?st1))"
        using attach_new_inv [OF inv1 fresh ph(1), of ?n h] Some ph(2) hF by simp
      from attached [OF this] gen found ph Some False show ?thesis by (simp add: insert_inner_def Let_def)
    qed
  qed (use Some in \<open>simp add: insert_inner_def Let_def\<close>)
qed (simp add: insert_inner_def)


subsection \<open>Equivocation\<close>

lemma byte_or_zero_if: "byte_or_zero m i = (if i < length m then m ! i else 0)"
  by (simp add: byte_or_zero_def list_get_def)

lemma frames_overlap_masks: "frames_overlap a b = has_overlapping_bits (frame_mask a) (frame_mask b)"
  by (simp add: frames_overlap_def has_overlapping_bits_def Let_def byte_or_zero_if)

lemma set_fold_insert: "set (fold List.insert xs ys) = set xs \<union> set ys"
  by (induction xs arbitrary: ys) auto

lemma extract_overlapping_set:
  "set (extract_overlapping_bits a b eq) = set eq \<union> (signers (frame_mask a) \<inter> signers (frame_mask b))"
proof -
  let ?am = "frame_mask a" and ?bm = "frame_mask b"
  let ?byte = "\<lambda>i. byte_or_zero ?am i AND byte_or_zero ?bm i"
  let ?n = "max (length ?am) (length ?bm)"
  have "extract_overlapping_bits a b eq = fold List.insert
      (concat (map (\<lambda>i. map (\<lambda>bit. i * 8 + bit) (filter (\<lambda>bit. ?byte i AND push_bit bit 1 \<noteq> 0) [0..<8])) [0..<?n])) eq"
    by (simp only: extract_overlapping_bits_def Let_def byte_or_zero_if)
  moreover have "k \<in> set (concat (map (\<lambda>i. map (\<lambda>bit. i * 8 + bit)
        (filter (\<lambda>bit. ?byte i AND push_bit bit 1 \<noteq> 0) [0..<8])) [0..<?n])) \<longleftrightarrow>
      k \<in> signers ?am \<inter> signers ?bm" for k
  proof -
    have byte: "(?byte i AND push_bit n 1 \<noteq> 0) = (bit (byte_or_zero ?am i) n \<and> bit (byte_or_zero ?bm i) n)"
      if "n < 8" for i n
      using and_push_bit_iff [OF that, of "?byte i"] by (simp add: bit_and_iff)
    have "filter (\<lambda>n. ?byte i AND push_bit n 1 \<noteq> 0) [0..<8] =
        filter (\<lambda>n. bit (byte_or_zero ?am i) n \<and> bit (byte_or_zero ?bm i) n) [0..<8]" for i
      by (rule filter_cong [OF refl], rule byte) simp
    moreover have "k \<in> set (concat (map (\<lambda>i. map (\<lambda>bit. i * 8 + bit)
          (filter (\<lambda>n. bit (byte_or_zero ?am i) n \<and> bit (byte_or_zero ?bm i) n) [0..<8])) [0..<?n])) \<longleftrightarrow>
        (\<exists>i n. i < ?n \<and> n < 8 \<and> k = i * 8 + n \<and> bit (byte_or_zero ?am i) n \<and> bit (byte_or_zero ?bm i) n)"
      by auto
    moreover have "\<dots> \<longleftrightarrow> bit (byte_or_zero ?am (k div 8)) (k mod 8) \<and> bit (byte_or_zero ?bm (k div 8)) (k mod 8)"
    proof
      assume r: "bit (byte_or_zero ?am (k div 8)) (k mod 8) \<and> bit (byte_or_zero ?bm (k div 8)) (k mod 8)"
      then have "k div 8 < ?n" by (intro ccontr [of "k div 8 < ?n"]) (simp add: byte_or_zero_beyond)
      with r show "\<exists>i n. i < ?n \<and> n < 8 \<and> k = i * 8 + n \<and> bit (byte_or_zero ?am i) n \<and> bit (byte_or_zero ?bm i) n"
        by (intro exI [of _ "k div 8"] exI [of _ "k mod 8"]) simp
    qed auto
    ultimately show ?thesis by (simp only: signers_def bit_is_set_alt Int_iff mem_Collect_eq)
  qed
  ultimately show ?thesis by (auto simp: set_fold_insert)
qed

definition conflicts :: "'i reel \<Rightarrow> global_frame \<Rightarrow> header \<Rightarrow> 'i \<Rightarrow> bool" where
  "conflicts st f h j \<longleftrightarrow>
     (\<exists>n eh. node_at st j = Some n \<and> frame_header (node_frame n) = Some eh \<and> \<not> is_equal_frame eh h \<and>
        signers (frame_mask (node_frame n)) \<inter> signers (frame_mask f) \<noteq> {})"

definition common_signers :: "'i reel \<Rightarrow> global_frame \<Rightarrow> 'i \<Rightarrow> nat set" where
  "common_signers st f j =
     (case node_at st j of None \<Rightarrow> {} | Some n \<Rightarrow> signers (frame_mask (node_frame n)) \<inter> signers (frame_mask f))"

lemma note_equivocation_set:
  "set (equivocators_at (note_equivocation f h j st) k) = set (equivocators_at st k) \<union>
     (if k = frame_number h \<and> conflicts st f h j then common_signers st f j else {})"
  by (auto simp: note_equivocation_def equivocators_at_def conflicts_def common_signers_def emit_def
      frames_overlap_masks has_overlapping_bits_signers extract_overlapping_set split: option.splits)

lemma fold_note_set:
  "set (equivocators_at (fold (note_equivocation f h) js st) k) = set (equivocators_at st k) \<union>
     (if k = frame_number h then \<Union>j \<in> {j \<in> set js. conflicts st f h j}. common_signers st f j else {})"
proof (induction js arbitrary: st)
  case (Cons j js)
  have "nodes (note_equivocation f h j st) = nodes st"
    using note_equivocation_same [of st f h j] by (simp add: same_but_equivocators_def)
  then have "conflicts (note_equivocation f h j st) f h = conflicts st f h"
    "common_signers (note_equivocation f h j st) f = common_signers st f"
    by (auto simp: conflicts_def common_signers_def fun_eq_iff)
  with Cons [of "note_equivocation f h j st"] show ?case
    by (auto simp: note_equivocation_set)
qed simp


subsection \<open>Frame identifiers\<close>

definition dec_value :: "string \<Rightarrow> nat" where
  "dec_value s = foldl (\<lambda>a c. 10 * a + (of_char c - 48)) 0 s"

lemma of_char_digit [simp]: "n < 10 \<Longrightarrow> (of_char (char_of (48 + n) :: char) :: nat) = 48 + n"
  by (simp add: of_char_of)

lemma dec_value_digits: "dec_value (dec_digits n) = n"
proof (induction n rule: dec_digits.induct)
  case (1 n)
  show ?case
  proof (cases "n < 10")
    case True
    then show ?thesis by (simp add: dec_value_def)
  next
    case False
    then have "dec_value (dec_digits n) = 10 * dec_value (dec_digits (n div 10)) + n mod 10"
      by (subst dec_digits.simps) (simp add: dec_value_def del: dec_digits.simps)
    with 1 False show ?thesis by simp
  qed
qed

declare dec_digits.simps [simp del]

lemma dec_digits_chars: "c \<in> set (dec_digits n) \<Longrightarrow> (of_char c :: nat) \<in> {48..57}"
proof (induction n rule: dec_digits.induct)
  case (1 n)
  then show ?case by (subst (asm) (2) dec_digits.simps) (auto split: if_splits)
qed

lemma dec_digits_inj: "dec_digits m = dec_digits n \<Longrightarrow> m = n"
  by (metis dec_value_digits)

lemma dec_int_inj: "dec_int x = dec_int y \<Longrightarrow> x = y"
proof -
  have minus: "CHR ''-'' \<notin> set (dec_digits n)" for n
    using dec_digits_chars [of "CHR ''-''" n] by auto
  assume "dec_int x = dec_int y"
  with minus [of "nat x"] minus [of "nat y"] show "x = y"
    by (auto simp: dec_int_def split: if_splits dest!: dec_digits_inj)
       (metis list.set_intros(1))+
qed

lemma dec_int_no_colon: "CHR '':'' \<notin> set (dec_int x)"
  using dec_digits_chars [of "CHR '':''"] by (auto simp: dec_int_def)

lemma hex_digit_code: "n < 16 \<Longrightarrow> (of_char (hex_digit n) :: nat) = (if n < 10 then 48 + n else 87 + n)"
  by (simp add: hex_digit_def of_char_of)

lemma hex_digit_inj:
  assumes "m < 16" "n < 16" "hex_digit m = hex_digit n"
  shows "m = n"
proof -
  have "(if m < 10 then 48 + m else 87 + m) = (if n < 10 then 48 + n else 87 + n)"
    using hex_digit_code [OF assms(1)] hex_digit_code [OF assms(2)] assms(3) by simp
  with assms(1,2) show ?thesis by (simp split: if_splits)
qed

lemma byte_nibbles: "unat (b :: byte) div 16 < 16" "unat b mod 16 < 16"
proof -
  have "unat b < 2 ^ LENGTH(8)" by (rule unsigned_less)
  then show "unat b div 16 < 16" "unat b mod 16 < 16" by (simp_all add: less_mult_imp_div_less)
qed

lemma hex_encode_inj: "hex_encode a = hex_encode b \<Longrightarrow> a = b"
proof (induction a arbitrary: b)
  case Nil
  then show ?case by (cases b) (simp_all add: hex_encode_def)
next
  case (Cons x a)
  then obtain y b' where b: "b = y # b'" by (cases b) (auto simp: hex_encode_def)
  with Cons.prems have eqs: "hex_digit (unat x div 16) = hex_digit (unat y div 16)"
      "hex_digit (unat x mod 16) = hex_digit (unat y mod 16)" "hex_encode a = hex_encode b'"
    by (simp_all add: hex_encode_def)
  then have "unat x div 16 = unat y div 16" "unat x mod 16 = unat y mod 16"
    using hex_digit_inj byte_nibbles by blast+
  then have "unat x = unat y" by (metis div_mult_mod_eq)
  with b Cons.IH [OF eqs(3)] show ?case by (simp add: word_unat_eq_iff)
qed

lemma hex_encode_no_colon: "CHR '':'' \<notin> set (hex_encode a)"
proof
  assume "CHR '':'' \<in> set (hex_encode a)"
  then obtain x where "CHR '':'' = hex_digit (unat (x :: byte) div 16) \<or> CHR '':'' = hex_digit (unat x mod 16)"
    by (auto simp: hex_encode_def)
  then obtain n where n: "n < 16" "CHR '':'' = hex_digit n"
    using byte_nibbles [of x] by blast
  have "(of_char (CHR '':'') :: nat) = 58" by simp
  with n hex_digit_code [OF n(1)] show False by (auto split: if_splits)
qed

lemma split_at_colon:
  assumes "CHR '':'' \<notin> set a" "CHR '':'' \<notin> set b" "a @ CHR '':'' # r = b @ CHR '':'' # s"
  shows "a = b \<and> r = s"
  using assms
proof (induction a arbitrary: b)
  case Nil
  then show ?case by (cases b) auto
next
  case (Cons x a)
  then show ?case by (cases b) auto
qed

lemma dec_digits_no_colon: "CHR '':'' \<notin> set (dec_digits n)"
  using dec_digits_chars [of "CHR '':''" n] by auto

lemma id_preimage_eq_iff:
  "id_preimage a = id_preimage b \<longleftrightarrow> frame_number a = frame_number b \<and> timestamp a = timestamp b \<and>
     frame_output a = frame_output b \<and> parent_selector a = parent_selector b"
proof
  assume eq: "id_preimage a = id_preimage b"
  from eq have 1: "dec_digits (unat (frame_number a)) = dec_digits (unat (frame_number b)) \<and>
      dec_int (timestamp a) @ '':'' @ hex_encode (frame_output a) @ '':'' @ hex_encode (parent_selector a) =
      dec_int (timestamp b) @ '':'' @ hex_encode (frame_output b) @ '':'' @ hex_encode (parent_selector b)"
    unfolding id_preimage_def by (intro split_at_colon [OF dec_digits_no_colon dec_digits_no_colon]) simp
  then have 2: "dec_int (timestamp a) = dec_int (timestamp b) \<and>
      hex_encode (frame_output a) @ '':'' @ hex_encode (parent_selector a) =
      hex_encode (frame_output b) @ '':'' @ hex_encode (parent_selector b)"
    by (intro split_at_colon [OF dec_int_no_colon dec_int_no_colon]) simp
  then have 3: "hex_encode (frame_output a) = hex_encode (frame_output b) \<and>
      hex_encode (parent_selector a) = hex_encode (parent_selector b)"
    by (intro split_at_colon [OF hex_encode_no_colon hex_encode_no_colon]) simp
  from 1 2 3 show "frame_number a = frame_number b \<and> timestamp a = timestamp b \<and>
     frame_output a = frame_output b \<and> parent_selector a = parent_selector b"
    by (auto dest!: dec_digits_inj dec_int_inj hex_encode_inj simp: word_unat_eq_iff)
qed (simp add: id_preimage_def)


subsection \<open>Histories\<close>

text \<open>Every insertion of a history has its own order of iteration and its own clock.\<close>

definition run_reel ::
  "(header \<Rightarrow> 'i) \<Rightarrow> (bytes \<Rightarrow> bytes) \<Rightarrow> 'i \<Rightarrow> 'i reel \<Rightarrow> ('i order \<times> int \<times> global_frame) list \<Rightarrow> 'i reel option" where
  "run_reel fid sel no_id st steps =
     fold_opt (\<lambda>st (ord, now, f). map_option fst (insert_inner fid sel no_id ord now st f)) steps st"

lemma new_reel_inv: "reel_inv fid sel F (new_reel network)"
  by (simp add: reel_inv_def new_reel_def indexed_def anchored_def links_ok_def pending_ok_def within_def reel_defs)

lemma run_reel_inv:
  assumes "ids_faithful fid F" "numbers_grow sel F" "reel_inv fid sel F st"
    "\<forall>(ord, now, f) \<in> set steps. iteration_order ord \<and> (\<forall>h. frame_header f = Some h \<longrightarrow> h \<in> F)"
  shows "\<exists>st'. run_reel fid sel no_id st steps = Some st' \<and> reel_inv fid sel F st'"
  unfolding run_reel_def
proof (rule fold_opt_returns)
  show "reel_inv fid sel F st" by (rule assms(3))
next
  fix s x assume s: "reel_inv fid sel F s" and x: "x \<in> set steps"
  obtain ord now f where x': "x = (ord, now, f)" by (cases x)
  with x assms(4) have ok: "iteration_order ord" "\<And>h. frame_header f = Some h \<Longrightarrow> h \<in> F" by auto
  obtain s' r where step: "insert_inner fid sel no_id ord now s f = Some (s', r)"
    using insert_inner_returns [OF ok(1) assms(1,2) s ok(2)] by fastforce
  with insert_inner_inv [OF ok(1) assms(1) s ok(2) step] x'
  show "\<exists>s'. (case x of (ord, now, f) \<Rightarrow> map_option fst (insert_inner fid sel no_id ord now s f)) = Some s' \<and>
      reel_inv fid sel F s'" by simp
qed

lemma inv_head_stored:
  assumes "reel_inv fid sel F st" "nodes st \<noteq> []"
  shows "get_head st \<noteq> None \<and> root st \<noteq> None"
  using assms by (auto simp: reel_inv_def anchored_def get_head_def split: option.splits)

text \<open>Concrete frames for the examples: one-byte outputs, the selector of an output is the output.\<close>

definition demo_header :: "u64 \<Rightarrow> byte \<Rightarrow> byte \<Rightarrow> header" where
  "demo_header n out par = \<lparr>frame_number = n, timestamp = 0, difficulty = 1, frame_output = [out],
     parent_selector = [par], signature_bitmask = None\<rparr>"

definition demo_frame :: "u64 \<Rightarrow> byte \<Rightarrow> byte \<Rightarrow> global_frame" where
  "demo_frame n out par = \<lparr>frame_header = Some (demo_header n out par)\<rparr>"

definition demo_id :: "header \<Rightarrow> int" where
  "demo_id h = 256 * uint (frame_number h) + uint (hd (frame_output h))"

definition demo_run :: "global_frame list \<Rightarrow> int reel option" where
  "demo_run fs = run_reel demo_id id 0 (new_reel 1) (map (\<lambda>f. (id, 0, f)) fs)"

definition demo_signed :: "byte \<Rightarrow> bytes \<Rightarrow> header" where
  "demo_signed out m = (demo_header 20 out 1)\<lparr>signature_bitmask := Some m\<rparr>"

definition demo_reel :: "int reel" where
  "demo_reel = (new_reel 1)\<lparr>root := Some (demo_id (demo_header 9 1 0)), head := Some (demo_id (demo_signed 2 [3])),
     nodes := [(demo_id (demo_signed 2 [3]),
                \<lparr>node_frame = \<lparr>frame_header = Some (demo_signed 2 [3])\<rparr>, parent = None, children = [], depth = 12\<rparr>),
               (demo_id (demo_header 9 1 0),
                \<lparr>node_frame = demo_frame 9 1 0, parent = None, children = [], depth = 1\<rparr>)],
     frames_by_number := [(20, [demo_id (demo_signed 2 [3])]), (9, [demo_id (demo_header 9 1 0)])]\<rparr>"

lemma demo_reel_inv: "reel_inv demo_id id UNIV demo_reel"
  by (simp add: reel_inv_def demo_reel_def new_reel_def demo_id_def demo_signed_def demo_header_def demo_frame_def
      indexed_def anchored_def links_ok_def pending_ok_def within_def reel_defs)

lemma iteration_order_id: "iteration_order id"
  by (simp add: iteration_order_def)

subsection \<open>Properties\<close>

text \<open>C3. Along every history of insertions, whatever order the node map is iterated in, the reel
  returns and keeps its invariant, given that frame identifiers tell the frames at hand apart and that
  frame numbers grow from a frame to the frames that select it: a reel with
  any frame has a head and a root, the head is a stored frame, the index by frame number lists
  exactly the stored frames, and parent links lead to stored frames with the matching selector.\<close>

theorem reel_history_safe:
  assumes "ids_faithful fid F" "numbers_grow sel F"
    "\<forall>(ord, now, f) \<in> set steps. iteration_order ord \<and> (\<forall>h. frame_header f = Some h \<longrightarrow> h \<in> F)"
  shows "\<exists>st. run_reel fid sel no_id (new_reel network) steps = Some st \<and>
    (nodes st \<noteq> [] \<longrightarrow> get_head st \<noteq> None \<and> root st \<noteq> None) \<and>
    (\<forall>k i. i \<in> set (numbers_at st k) \<longleftrightarrow> node_at st i \<noteq> None \<and> number_of st i = k) \<and>
    (\<forall>i n p. node_at st i = Some n \<longrightarrow> parent n = Some p \<longrightarrow>
      (\<exists>h ph. header_of st i = Some h \<and> header_of st p = Some ph \<and> sel (frame_output ph) = parent_selector h))"
proof -
  obtain st where st: "run_reel fid sel no_id (new_reel network) steps = Some st" "reel_inv fid sel F st"
    using run_reel_inv [OF assms(1,2) new_reel_inv assms(3)] by blast
  have "\<exists>h ph. header_of st i = Some h \<and> header_of st p = Some ph \<and> sel (frame_output ph) = parent_selector h"
    if "node_at st i = Some n" "parent n = Some p" for i n p
    using st(2) that unfolding reel_inv_def links_ok_def header_of_node by blast
  moreover have "i \<in> set (numbers_at st k) \<longleftrightarrow> node_at st i \<noteq> None \<and> number_of st i = k" for i k
    using st(2) unfolding reel_inv_def indexed_def by blast
  ultimately show ?thesis using st(1) inv_head_stored [OF st(2)] by blast
qed

theorem reel_history_safe_witness:
  "\<exists>st. demo_run [demo_frame 0 1 0, demo_frame 1 2 1] = Some st"
proof -
  let ?F = "{demo_header 0 1 0, demo_header 1 2 1}"
  have "ids_faithful demo_id ?F" "numbers_grow id ?F"
    by (auto simp: ids_faithful_def numbers_grow_def demo_header_def demo_id_def)
  moreover have "\<forall>(ord, now, f) \<in> set (map (\<lambda>f. (id, 0, f)) [demo_frame 0 1 0, demo_frame 1 2 1]).
      iteration_order ord \<and> (\<forall>h. frame_header f = Some h \<longrightarrow> h \<in> ?F)"
    by (simp add: demo_frame_def iteration_order_id)
  ultimately show ?thesis unfolding demo_run_def using reel_history_safe [of demo_id ?F id] by blast
qed

text \<open>C19. Equivocation is recorded exactly: after the check that precedes an insertion, the
  equivocators of the frame's height are the ones known before together with the signers
  the frame shares with some stored, different frame of the same height, and the equivocators of
  other heights are unchanged.\<close>

theorem equivocators_exact:
  assumes "reel_inv fid sel F st"
  shows "set (equivocators_at (detect_equivocation f h st) k) =
    set (equivocators_at st k) \<union>
    {s. k = frame_number h \<and> (\<exists>j n eh. node_at st j = Some n \<and> frame_header (node_frame n) = Some eh \<and>
        frame_number eh = frame_number h \<and> \<not> is_equal_frame eh h \<and>
        s \<in> signers (frame_mask (node_frame n)) \<and> s \<in> signers (frame_mask f))}"
proof -
  have js: "j \<in> set (case map_of (frames_by_number st) (frame_number h) of None \<Rightarrow> [] | Some js \<Rightarrow> js) \<longleftrightarrow>
      node_at st j \<noteq> None \<and> number_of st j = frame_number h" for j
    using assms unfolding reel_inv_def indexed_def numbers_at_def by blast
  have "(\<exists>j. (node_at st j \<noteq> None \<and> number_of st j = frame_number h) \<and> conflicts st f h j \<and> s \<in> common_signers st f j) \<longleftrightarrow>
      (\<exists>j n eh. node_at st j = Some n \<and> frame_header (node_frame n) = Some eh \<and>
        frame_number eh = frame_number h \<and> \<not> is_equal_frame eh h \<and>
        s \<in> signers (frame_mask (node_frame n)) \<and> s \<in> signers (frame_mask f))" for s
    by (intro ex_cong1) (auto simp: conflicts_def common_signers_def number_of_def header_of_def)
  then have "(\<Union>j \<in> {j. (node_at st j \<noteq> None \<and> number_of st j = frame_number h) \<and> conflicts st f h j}. common_signers st f j) =
      {s. \<exists>j n eh. node_at st j = Some n \<and> frame_header (node_frame n) = Some eh \<and>
        frame_number eh = frame_number h \<and> \<not> is_equal_frame eh h \<and>
        s \<in> signers (frame_mask (node_frame n)) \<and> s \<in> signers (frame_mask f)}" by blast
  then show ?thesis
    unfolding detect_equivocation_def fold_note_set js by (cases "k = frame_number h") simp_all
qed

theorem equivocators_exact_witness:
  "set (equivocators_at (detect_equivocation \<lparr>frame_header = Some (demo_signed 5 [6])\<rparr> (demo_signed 5 [6]) demo_reel) 20) = {1}"
proof -
  have m: "signers [3] = {0, 1}" "signers [6] = {1, 2}"
    unfolding set_set_bit_indices [symmetric] by code_simp+
  show ?thesis
    unfolding equivocators_exact [OF demo_reel_inv]
    by (auto simp: demo_reel_def new_reel_def demo_signed_def demo_header_def demo_id_def frame_mask_def
        is_equal_frame_def equivocators_at_def m demo_frame_def intro: exI [of _ 5122])
qed

text \<open>Seniority counts honest signers: a frame with at most 64 signers that are not equivocators
  of its height gets \<open>2 ^ 58 - 1\<close> for each. With 65 the product no longer fits 64 bits: it wraps and
  the frame gets less than a frame with a single signer.\<close>

theorem seniority_counts_honest_signers:
  assumes "frame_header f = Some h" "signature_bitmask h = Some m"
    "honest = signers m - set (equivocators_at st (frame_number h))"
  shows "(card honest \<le> 64 \<longrightarrow> unat (compute_frame_seniority st f) = card honest * (2 ^ 58 - 1)) \<and>
    (card honest = 65 \<longrightarrow> unat (compute_frame_seniority st f) < 2 ^ 58 - 1)"
proof -
  let ?xs = "filter (\<lambda>p. p \<notin> set (equivocators_at st (frame_number h))) (set_bit_indices m)"
  have "distinct ?xs" using mask.indices_eq_sorted_list [of m] by simp
  then have "length ?xs = card (set ?xs)" by (rule distinct_card [symmetric])
  also have "set ?xs = honest" by (auto simp: assms(3) set_set_bit_indices)
  finally have len: "length ?xs = card honest" .
  have scale: "SCALE div 64 = 288230376151711743" by (simp add: SCALE_def u64_max_def)
  have val: "compute_frame_seniority st f =
      (if (of_nat (card honest) :: u64) = 0 then 0 else 288230376151711743 * of_nat (card honest))"
    using assms(1,2) by (simp add: compute_frame_seniority_def Let_def len scale)
  have small: "unat (of_nat (card honest) :: u64) = card honest" if "card honest \<le> 65"
    using that by (simp add: unat_of_nat)
  then have zero: "(of_nat (card honest) :: u64) = 0 \<longleftrightarrow> card honest = 0" if "card honest \<le> 65"
    using that by (metis unat_eq_zero unat_0)
  show ?thesis unfolding val by (auto simp: unat_word_ariths small zero)
qed

theorem seniority_counts_honest_signers_witness:
  "unat (compute_frame_seniority (new_reel 1 :: int reel)
      \<lparr>frame_header = Some ((demo_header 1 2 1)\<lparr>signature_bitmask := Some [3]\<rparr>)\<rparr>) = 2 * (2 ^ 58 - 1)"
proof -
  have s: "signers [3] - set (equivocators_at (new_reel 1 :: int reel) 1) = {0, 1}"
    unfolding set_set_bit_indices [symmetric] by (simp add: equivocators_at_def new_reel_def) code_simp
  from seniority_counts_honest_signers [of "\<lparr>frame_header = Some ((demo_header 1 2 1)\<lparr>signature_bitmask := Some [3]\<rparr>)\<rparr>"
      _ "[3]" _ "new_reel 1 :: int reel"] s
  show ?thesis by (simp add: demo_header_def)
qed

text \<open>Pruning keeps a window: the head stays, and with the head at depth 10 or more
  exactly the stored frames whose depth is at most nine less than the head's stay, with their headers
  and depths; the invariant is kept.\<close>

theorem prune_keeps_window:
  assumes "iteration_order ord" "reel_inv fid sel F st" "head st = Some i" "MAX_TREE_DEPTH \<le> depth_of st i"
  shows "head (prune_old_frames ord st) = Some i \<and> reel_inv fid sel F (prune_old_frames ord st) \<and>
    (\<forall>j. node_at (prune_old_frames ord st) j \<noteq> None \<longleftrightarrow>
       node_at st j \<noteq> None \<and> unat (depth_of st i) \<le> unat (depth_of st j) + 9) \<and>
    (\<forall>j. node_at (prune_old_frames ord st) j \<noteq> None \<longrightarrow>
       header_of (prune_old_frames ord st) j = header_of st j \<and> depth_of (prune_old_frames ord st) j = depth_of st j)"
proof -
  have ten: "10 \<le> unat (depth_of st i)" using assms(4) by (simp add: MAX_TREE_DEPTH_def word_le_nat_alt)
  have d: "oldest_kept st = depth_of st i - 10 + 1"
    using assms(3,4) by (cases "node_at st i") (auto simp: oldest_kept_def depth_of_def MAX_TREE_DEPTH_def not_less)
  have sub: "unat (depth_of st i - 10) = unat (depth_of st i) - 10" using ten by (simp add: unat_sub word_le_nat_alt)
  have "unat (oldest_kept st) = unat (depth_of st i) - 9"
    using ten unat_u64_bound [of "depth_of st i"] unfolding d by (subst unat_add_no_wrap) (simp_all add: sub)
  then have "oldest_kept st \<le> depth_of st j \<longleftrightarrow> unat (depth_of st i) \<le> unat (depth_of st j) + 9" for j
    using ten by (auto simp: word_le_nat_alt)
  with prune_old_frames_spec [OF assms(1,2)] assms(3) show ?thesis by auto
qed

theorem prune_keeps_window_witness:
  "node_at (prune_old_frames id demo_reel) (demo_id (demo_header 9 1 0)) = None \<and>
   head (prune_old_frames id demo_reel) = Some (demo_id (demo_signed 2 [3]))"
proof -
  have h: "head demo_reel = Some (demo_id (demo_signed 2 [3]))" by (simp add: demo_reel_def)
  have d: "depth_of demo_reel (demo_id (demo_signed 2 [3])) = 12" "depth_of demo_reel (demo_id (demo_header 9 1 0)) = 1"
    by (simp_all add: demo_reel_def depth_of_def demo_id_def demo_signed_def demo_header_def)
  then have "MAX_TREE_DEPTH \<le> depth_of demo_reel (demo_id (demo_signed 2 [3]))" by (simp add: MAX_TREE_DEPTH_def)
  note w = prune_keeps_window [OF iteration_order_id demo_reel_inv h this]
  from w [THEN conjunct2, THEN conjunct2, THEN conjunct1, THEN spec, of "demo_id (demo_header 9 1 0)"] w d
  show ?thesis by simp
qed

text \<open>The text that is hashed into a frame identifier determines frame number, timestamp, output
  and parent selector; difficulty and signature are not part of it.\<close>

theorem frame_id_preimage_injective:
  "id_preimage a = id_preimage b \<longleftrightarrow> frame_number a = frame_number b \<and> timestamp a = timestamp b \<and>
     frame_output a = frame_output b \<and> parent_selector a = parent_selector b"
  by (rule id_preimage_eq_iff)

text \<open>A chain of orphans that finds its parent holds the head back. Frames 0 to 3 arrive in order,
  then 5 and 6 (orphans, depths 1 and 2), then the missing 4, then 7 and 8. Frame 5 gets its new depth,
  its descendants keep the old ones, and the head stays at frame 5 although the tree holds
  the longer chain up to frame 8.\<close>

theorem reattached_orphans_hold_head_back:
  "map_option (\<lambda>st. (get_head_frame_number st,
       map (\<lambda>n. (map_option frame_number (frame_header (node_frame n)), unat (depth n)))
         (filter (\<lambda>n. parent n \<noteq> None) (map snd (nodes st)))))
     (demo_run [demo_frame 0 1 0, demo_frame 1 2 1, demo_frame 2 3 2, demo_frame 3 4 3, demo_frame 5 6 5,
        demo_frame 6 7 6, demo_frame 4 5 4, demo_frame 7 8 7, demo_frame 8 9 8]) =
   Some (5, [(Some 1, 1), (Some 2, 2), (Some 3, 3), (Some 5, 5), (Some 6, 2), (Some 4, 4), (Some 7, 3), (Some 8, 4)])"
  by code_simp

text \<open>Two frames that name each other as parent stop the reel: the first is stored as an
  orphan, the second is attached to it and adopts it in turn, and the walk along parent links that
  follows never ends.\<close>

theorem mutual_parents_never_return:
  "demo_run [demo_frame 0 1 0, demo_frame 1 2 1, demo_frame 5 4 7, demo_frame 6 7 4] = None"
  by code_simp

end
