(* ===== verification/Epochs.thy ===== *)
theory Epochs
  imports Prelude
begin

text \<open>
  The frame clock of \<^verbatim>\<open>quil-types/src/consensus.rs\<close>: the length of an epoch, the
  schedule of frame intervals, the committee handoff policy and the succession frame of
  the GLOBAL committee. These are process-wide cells in the code; here they are the fields of
  one record that the setters return updated. The environment is a function from variable
  names to their values.
\<close>

subsection \<open>The process-wide cells\<close>

datatype legacy_history = Migrate | Discard

record committee_handoff_policy =
  activation_frame :: u64
  chain_id :: bytes
  legacy_history_of :: legacy_history
  membership_boundary_frame :: u64
  first_session_boundary_frame :: u64

record clock =
  epoch_length_override :: u64
  frame_time_schedule :: "(u64 \<times> u64) list"
  frame_time_scheduled :: bool
  frame_time_head :: u64
  handoff_policy :: "committee_handoff_policy option"
  succession_frame :: u64

definition initial_clock :: clock where
  "initial_clock =
     \<lparr>epoch_length_override = 0, frame_time_schedule = [], frame_time_scheduled = False,
      frame_time_head = 0, handoff_policy = None, succession_frame = u64_max\<rparr>"

subsection \<open>Epochs\<close>

definition EPOCH_LENGTH_FRAMES :: u64 where "EPOCH_LENGTH_FRAMES = 720"

definition TESTNET_EPOCH_LENGTH_FRAMES :: u64 where "TESTNET_EPOCH_LENGTH_FRAMES = 60"

definition set_epoch_length_frames :: "u64 \<Rightarrow> clock \<Rightarrow> clock" where
  "set_epoch_length_frames frames c = c\<lparr>epoch_length_override := frames\<rparr>"

definition epoch_length_frames :: "clock \<Rightarrow> u64" where
  "epoch_length_frames c =
     (let ov = epoch_length_override c in if ov = 0 then EPOCH_LENGTH_FRAMES else ov)"

definition init_epoch_length_for_network :: "u8 \<Rightarrow> clock \<Rightarrow> clock" where
  "init_epoch_length_for_network network c =
     (if network = 0 then set_epoch_length_frames 0 c
      else set_epoch_length_frames TESTNET_EPOCH_LENGTH_FRAMES c)"

definition epoch_for_frame :: "clock \<Rightarrow> u64 \<Rightarrow> u64" where
  "epoch_for_frame c frame_number = frame_number div epoch_length_frames c"

definition epoch_start_frame :: "clock \<Rightarrow> u64 \<Rightarrow> u64" where
  "epoch_start_frame c epoch = saturating_mul epoch (epoch_length_frames c)"

subsection \<open>Frame intervals\<close>

definition IDEAL_FRAME_TIME_MS :: u64 where "IDEAL_FRAME_TIME_MS = 10000"

definition set_frame_time_schedule :: "(u64 \<times> u64) list \<Rightarrow> clock \<Rightarrow> clock" where
  "set_frame_time_schedule schedule c =
     c\<lparr>frame_time_schedule := schedule, frame_time_scheduled := schedule \<noteq> []\<rparr>"

definition ideal_frame_time_ms_at :: "clock \<Rightarrow> u64 \<Rightarrow> u64" where
  "ideal_frame_time_ms_at c frame =
     (if \<not> frame_time_scheduled c then IDEAL_FRAME_TIME_MS
      else let started = takeWhile (\<lambda>(from, _). from \<le> frame) (frame_time_schedule c)
           in if started = [] then IDEAL_FRAME_TIME_MS else snd (last started))"

definition note_frame_time_head :: "u64 \<Rightarrow> clock \<Rightarrow> clock" where
  "note_frame_time_head frame c = c\<lparr>frame_time_head := max (frame_time_head c) frame\<rparr>"

definition ideal_frame_time_ms :: "clock \<Rightarrow> u64" where
  "ideal_frame_time_ms c = ideal_frame_time_ms_at c (frame_time_head c)"

subsection \<open>Committee handoff\<close>

definition MAINNET_COMMITTEE_HANDOFF_FRAME :: u64 where
  "MAINNET_COMMITTEE_HANDOFF_FRAME = 861840"

definition MAINNET_MEMBERSHIP_BOUNDARY_FRAME :: u64 where
  "MAINNET_MEMBERSHIP_BOUNDARY_FRAME = 862560"

definition MAINNET_FIRST_SESSION_BOUNDARY_FRAME :: u64 where
  "MAINNET_FIRST_SESSION_BOUNDARY_FRAME = 864000"

definition set_committee_handoff_policy ::
  "committee_handoff_policy option \<Rightarrow> clock \<Rightarrow> clock" where
  "set_committee_handoff_policy policy c = c\<lparr>handoff_policy := policy\<rparr>"

definition committee_handoff_active :: "clock \<Rightarrow> u64 \<Rightarrow> bool" where
  "committee_handoff_active c frame =
     (case handoff_policy c of None \<Rightarrow> False
      | Some policy \<Rightarrow> activation_frame policy \<le> frame)"

definition committee_handoff_chain_id :: "u8 \<Rightarrow> bytes" where
  "committee_handoff_chain_id network =
     (let label = map of_char ''quil/app-handoff/chain/v1''
      in (label @ drop (length label) (replicate 32 0))[31 := network])"

definition committee_handoff_policy_for_network ::
  "u8 \<Rightarrow> (string \<Rightarrow> string option) \<Rightarrow> committee_handoff_policy option" where
  "committee_handoff_policy_for_network network env =
     (if network = 0 then
        Some \<lparr>activation_frame = MAINNET_COMMITTEE_HANDOFF_FRAME,
              chain_id = committee_handoff_chain_id network,
              legacy_history_of = Discard,
              membership_boundary_frame = MAINNET_MEMBERSHIP_BOUNDARY_FRAME,
              first_session_boundary_frame = MAINNET_FIRST_SESSION_BOUNDARY_FRAME\<rparr>
      else
        case Option.bind (env ''QUIL_COMMITTEE_HANDOFF_FRAME'') parse_u64 of
          None \<Rightarrow> None
        | Some activation \<Rightarrow>
            Some \<lparr>activation_frame = activation,
                  chain_id = committee_handoff_chain_id network,
                  legacy_history_of =
                    (if env ''QUIL_COMMITTEE_HANDOFF_DISCARD_LEGACY'' = Some ''1''
                     then Discard else Migrate),
                  membership_boundary_frame =
                    (case Option.bind (env ''QUIL_COMMITTEE_MEMBERSHIP_BOUNDARY_FRAME'') parse_u64
                     of None \<Rightarrow> activation | Some b \<Rightarrow> b),
                  first_session_boundary_frame =
                    (case Option.bind (env ''QUIL_COMMITTEE_FIRST_SESSION_BOUNDARY_FRAME'') parse_u64
                     of None \<Rightarrow> u64_max | Some b \<Rightarrow> b)\<rparr>)"

definition init_committee_handoff_for_network ::
  "u8 \<Rightarrow> (string \<Rightarrow> string option) \<Rightarrow> clock \<Rightarrow> clock" where
  "init_committee_handoff_for_network network env c =
     set_committee_handoff_policy (committee_handoff_policy_for_network network env) c"

subsection \<open>Succession of the GLOBAL committee\<close>

definition MAINNET_GLOBAL_COMMITTEE_SUCCESSION_FRAME :: u64 where
  "MAINNET_GLOBAL_COMMITTEE_SUCCESSION_FRAME = 907920"

definition set_global_committee_succession_frame :: "u64 \<Rightarrow> clock \<Rightarrow> clock" where
  "set_global_committee_succession_frame frame c = c\<lparr>succession_frame := frame\<rparr>"

definition init_global_committee_succession_for_network :: "u8 \<Rightarrow> clock \<Rightarrow> clock" where
  "init_global_committee_succession_for_network network c =
     set_global_committee_succession_frame
       (if network = 0 then MAINNET_GLOBAL_COMMITTEE_SUCCESSION_FRAME else u64_max) c"

definition global_committee_epoch :: "clock \<Rightarrow> u64 \<Rightarrow> u64" where
  "global_committee_epoch c frame = (if succession_frame c \<le> frame then 1 else 0)"

subsection \<open>Facts\<close>

lemma epoch_length_pos [simp]: "epoch_length_frames c \<noteq> 0"
  by (simp add: epoch_length_frames_def EPOCH_LENGTH_FRAMES_def Let_def)

lemma unat_epoch_length_pos [simp]: "0 < unat (epoch_length_frames c)"
  using epoch_length_pos [of c] by (metis neq0_conv unat_eq_zero)

lemma unat_epoch_for_frame:
  "unat (epoch_for_frame c f) = unat f div unat (epoch_length_frames c)"
  by (simp add: epoch_for_frame_def unat_div)

lemma epoch_for_frame_mono: "f \<le> g \<Longrightarrow> epoch_for_frame c f \<le> epoch_for_frame c g"
  by (simp add: word_le_nat_alt unat_epoch_for_frame div_le_mono)

text \<open>The frames of epoch \<open>e\<close> are the ones from its start up to the start of the next.\<close>

lemma epoch_le_iff:
  assumes "unat e * unat (epoch_length_frames c) < 2 ^ 64"
  shows "e \<le> epoch_for_frame c f \<longleftrightarrow> epoch_start_frame c e \<le> f"
proof -
  have "unat (epoch_start_frame c e) = unat e * unat (epoch_length_frames c)"
    using assms by (simp add: epoch_start_frame_def unat_saturating_mul)
  then show ?thesis
    by (simp add: word_le_nat_alt unat_epoch_for_frame less_eq_div_iff_mult_less_eq)
qed

lemma epoch_of_epoch_start:
  "unat e * unat (epoch_length_frames c) < 2 ^ 64 \<Longrightarrow>
   epoch_for_frame c (epoch_start_frame c e) = e"
  by (rule word_unat_eq_iff [THEN iffD2])
    (simp add: unat_epoch_for_frame epoch_start_frame_def unat_saturating_mul)

text \<open>
  With an epoch of at least two frames the epoch of a frame is far below the largest word, so
  counting one or two epochs on does not wrap.
\<close>

lemma unat_epoch_plus:
  assumes "2 \<le> epoch_length_frames c" "unat k \<le> 2"
  shows "unat (epoch_for_frame c f + k) = unat (epoch_for_frame c f) + unat k"
proof -
  have "2 \<le> unat (epoch_length_frames c)"
    using assms(1) by (simp add: word_le_nat_alt)
  then have "unat f div unat (epoch_length_frames c) \<le> unat f div 2"
    by (simp add: div_le_mono2)
  also have "\<dots> < 2 ^ 63"
    using unat_u64_bound [of f] by simp
  finally have "unat (epoch_for_frame c f) + unat k < 2 ^ 64"
    using assms(2) by (simp add: unat_epoch_for_frame)
  then show ?thesis by (rule unat_add_no_wrap)
qed

lemma ideal_frame_time_initial [simp]: "ideal_frame_time_ms initial_clock = IDEAL_FRAME_TIME_MS"
  by (simp add: ideal_frame_time_ms_def ideal_frame_time_ms_at_def initial_clock_def)

text \<open>
  In an ascending schedule the interval of a frame is the one of the last entry that starts at
  or before it.
\<close>

lemma takeWhile_le_sorted:
  "sorted (map fst xs) \<Longrightarrow>
   takeWhile (\<lambda>(from, _). from \<le> (f :: u64)) xs = filter (\<lambda>(from, _). from \<le> f) xs"
  by (induction xs) (fastforce intro: filter_False [symmetric])+

lemma ideal_frame_time_scheduled:
  assumes "sorted (map fst (pre @ (from, ms) # post))" "from \<le> f"
    and "\<forall>(next, _) \<in> set post. f < next"
  shows "ideal_frame_time_ms_at (set_frame_time_schedule (pre @ (from, ms) # post) c) f = ms"
proof -
  have "\<forall>x \<in> set pre. fst x \<le> f"
    using assms(1,2) by (auto simp: sorted_append)
  then have "filter (\<lambda>(from, _). from \<le> f) pre = pre"
    by (auto simp: filter_id_conv)
  moreover have "filter (\<lambda>(from, _). from \<le> f) post = []"
    using assms(3) by (auto simp: filter_empty_conv)
  ultimately have "takeWhile (\<lambda>(from, _). from \<le> f) (pre @ (from, ms) # post) = pre @ [(from, ms)]"
    using assms(2) by (subst takeWhile_le_sorted [OF assms(1)]) simp
  then show ?thesis
    by (simp add: ideal_frame_time_ms_at_def set_frame_time_schedule_def Let_def)
qed

end
