(* ===== verification/Gates.thy ===== *)
theory Gates
  imports Epochs
begin

text \<open>
  The activation gates of \<^verbatim>\<open>quil-types/src/consensus.rs\<close>. A protocol change is tied to an
  epoch or a frame that is compiled in for mainnet, read from an environment variable on
  every other network, kept in a once-only cell of the process, and overridable per thread. The
  code writes that pattern out once per change: a constant, a cell, an override, and the
  functions \<^verbatim>\<open>*_for\<close>, \<^verbatim>\<open>init_*\<close>, the getter, \<^verbatim>\<open>*_active\<close> or
  \<^verbatim>\<open>*_at\<close> and \<^verbatim>\<open>set_*_for_thread\<close>. Here the functions are written once,
  over a description of the gate that holds everything in which the copies differ, and each gate
  is its description. The state is one thread's view: the cells of the process and the overrides
  of that thread.
\<close>

subsection \<open>One gate\<close>

datatype gate_index = EpochOfFrame | Given

text \<open>
  \<open>mainnet\<close> is the \<^verbatim>\<open>MAINNET_*\<close> constant and \<open>variable\<close> the environment variable of the
  other networks. \<open>index\<close> says whether the test turns the frame it is given into an epoch
  first, \<open>read_fixes\<close> whether the getter calls \<^verbatim>\<open>get_or_init\<close> (and so fixes an empty cell)
  or \<^verbatim>\<open>get\<close>, and \<open>never_excluded\<close> whether the test rules out \<^verbatim>\<open>u64::MAX\<close>.
\<close>

record gate_spec =
  mainnet :: "u64 option"
  variable :: string
  index :: gate_index
  read_fixes :: bool
  never_excluded :: bool

record 'a gate =
  cell :: "'a option"
  thread_override :: "'a option"

record gates =
  switch :: "gate_spec \<Rightarrow> u64 gate"
  pause_gate :: "(u64 \<times> u64) gate"

definition fresh_gates :: gates where
  "fresh_gates = \<lparr>switch = (\<lambda>_. \<lparr>cell = None, thread_override = None\<rparr>),
                  pause_gate = \<lparr>cell = None, thread_override = None\<rparr>\<rparr>"

definition get_or_init :: "'a \<Rightarrow> 'a gate \<Rightarrow> 'a \<times> 'a gate" where
  "get_or_init v g = (case cell g of Some w \<Rightarrow> (w, g) | None \<Rightarrow> (v, g\<lparr>cell := Some v\<rparr>))"

definition gate_value_for :: "gate_spec \<Rightarrow> u8 \<Rightarrow> string option \<Rightarrow> u64" where
  "gate_value_for spec network setting =
     (if network = 0 then case mainnet spec of None \<Rightarrow> u64_max | Some e \<Rightarrow> e
      else case Option.bind setting parse_u64 of None \<Rightarrow> u64_max | Some e \<Rightarrow> e)"

definition update_switch ::
  "gate_spec \<Rightarrow> (u64 gate \<Rightarrow> 'r \<times> u64 gate) \<Rightarrow> gates \<Rightarrow> 'r \<times> gates" where
  "update_switch spec f gs =
     (let (r, g) = f (switch gs spec) in (r, gs\<lparr>switch := (switch gs)(spec := g)\<rparr>))"

definition gate_init ::
  "gate_spec \<Rightarrow> u8 \<Rightarrow> (string \<Rightarrow> string option) \<Rightarrow> gates \<Rightarrow> u64 \<times> gates" where
  "gate_init spec network env gs =
     update_switch spec (get_or_init (gate_value_for spec network (env (variable spec)))) gs"

definition gate_read :: "gate_spec \<Rightarrow> gates \<Rightarrow> u64 \<times> gates" where
  "gate_read spec gs =
     (case thread_override (switch gs spec) of
        Some e \<Rightarrow> (e, gs)
      | None \<Rightarrow>
          if read_fixes spec then update_switch spec (get_or_init (gate_value_for spec 0 None)) gs
          else (case cell (switch gs spec) of
                  Some e \<Rightarrow> (e, gs)
                | None \<Rightarrow> (gate_value_for spec 0 None, gs)))"

definition gate_holds :: "gate_spec \<Rightarrow> clock \<Rightarrow> u64 \<Rightarrow> gates \<Rightarrow> bool \<times> gates" where
  "gate_holds spec c x gs =
     (let (from, gs') = gate_read spec gs;
          i = (case index spec of EpochOfFrame \<Rightarrow> epoch_for_frame c x | Given \<Rightarrow> x)
      in ((never_excluded spec \<longrightarrow> from \<noteq> u64_max) \<and> from \<le> i, gs'))"

definition gate_set_for_thread :: "gate_spec \<Rightarrow> u64 option \<Rightarrow> gates \<Rightarrow> gates" where
  "gate_set_for_thread spec e gs =
     gs\<lparr>switch := (switch gs)(spec := (switch gs spec)\<lparr>thread_override := e\<rparr>)\<rparr>"

subsection \<open>The gates\<close>

definition prover_op_replay_guard :: gate_spec where
  "prover_op_replay_guard =
     \<lparr>mainnet = Some 1311, variable = ''QUIL_PROVER_OP_REPLAY_GUARD_EPOCH'',
      index = EpochOfFrame, read_fixes = True, never_excluded = False\<rparr>"

definition hash_storage_proof :: gate_spec where
  "hash_storage_proof =
     \<lparr>mainnet = Some 1314, variable = ''QUIL_HASH_STORAGE_PROOF_EPOCH'',
      index = Given, read_fixes = True, never_excluded = False\<rparr>"

definition seniority_succession :: gate_spec where
  "seniority_succession =
     \<lparr>mainnet = mainnet hash_storage_proof, variable = ''QUIL_SENIORITY_SUCCESSION_EPOCH'',
      index = EpochOfFrame, read_fixes = True, never_excluded = False\<rparr>"

definition kick_signed_slot :: gate_spec where
  "kick_signed_slot =
     \<lparr>mainnet = Some 1311, variable = ''QUIL_KICK_SIGNED_SLOT_EPOCH'',
      index = EpochOfFrame, read_fixes = True, never_excluded = False\<rparr>"

definition required_anchor :: gate_spec where
  "required_anchor =
     \<lparr>mainnet = Some 1311, variable = ''QUIL_REQUIRED_ANCHOR_EPOCH'',
      index = EpochOfFrame, read_fixes = True, never_excluded = False\<rparr>"

definition anchored_issuance :: gate_spec where
  "anchored_issuance =
     \<lparr>mainnet = Some 1311, variable = ''QUIL_ANCHORED_ISSUANCE_EPOCH'',
      index = EpochOfFrame, read_fixes = True, never_excluded = False\<rparr>"

definition strict_peer_info :: gate_spec where
  "strict_peer_info =
     \<lparr>mainnet = Some 1311, variable = ''QUIL_STRICT_PEER_INFO_EPOCH'',
      index = EpochOfFrame, read_fixes = True, never_excluded = False\<rparr>"

definition strict_shard_gossip :: gate_spec where
  "strict_shard_gossip =
     \<lparr>mainnet = Some 1483, variable = ''QUIL_STRICT_SHARD_GOSSIP_EPOCH'',
      index = EpochOfFrame, read_fixes = True, never_excluded = False\<rparr>"

definition unsealed_issuance :: gate_spec where
  "unsealed_issuance =
     \<lparr>mainnet = Some 1321, variable = ''QUIL_UNSEALED_ISSUANCE_EPOCH'',
      index = EpochOfFrame, read_fixes = True, never_excluded = False\<rparr>"

definition storage_kick_suspension :: gate_spec where
  "storage_kick_suspension =
     \<lparr>mainnet = Some 1342, variable = ''QUIL_STORAGE_KICK_SUSPENSION_EPOCH'',
      index = EpochOfFrame, read_fixes = True, never_excluded = False\<rparr>"

definition stable_replica_key :: gate_spec where
  "stable_replica_key =
     \<lparr>mainnet = Some 1429, variable = ''QUIL_STABLE_REPLICA_KEY_EPOCH'',
      index = Given, read_fixes = False, never_excluded = True\<rparr>"

definition vertex_value_binding :: gate_spec where
  "vertex_value_binding =
     \<lparr>mainnet = Some 0, variable = ''QUIL_VERTEX_VALUE_BINDING_EPOCH'',
      index = EpochOfFrame, read_fixes = True, never_excluded = False\<rparr>"

definition exact_state_size :: gate_spec where
  "exact_state_size =
     \<lparr>mainnet = Some 1311, variable = ''QUIL_EXACT_STATE_SIZE_EPOCH'',
      index = EpochOfFrame, read_fixes = True, never_excluded = False\<rparr>"

definition storage_padding_bound :: gate_spec where
  "storage_padding_bound =
     \<lparr>mainnet = None, variable = ''QUIL_STORAGE_PADDING_BOUND_EPOCH'',
      index = Given, read_fixes = True, never_excluded = False\<rparr>"

definition global_sync_authentication :: gate_spec where
  "global_sync_authentication =
     \<lparr>mainnet = Some 943920, variable = ''QUIL_GLOBAL_SYNC_AUTHENTICATION_FRAME'',
      index = Given, read_fixes = True, never_excluded = False\<rparr>"

definition signed_frame_activation :: gate_spec where
  "signed_frame_activation =
     \<lparr>mainnet = Some 1024560, variable = ''QUIL_SIGNED_FRAME_ACTIVATION_FRAME'',
      index = Given, read_fixes = False, never_excluded = False\<rparr>"

definition seniority_penalty :: gate_spec where
  "seniority_penalty =
     \<lparr>mainnet = None, variable = ''QUIL_SENIORITY_PENALTY_EPOCH'',
      index = Given, read_fixes = True, never_excluded = False\<rparr>"

subsection \<open>Operations that combine gates\<close>

definition seniority_succession_quiet_frames :: "clock \<Rightarrow> u64" where
  "seniority_succession_quiet_frames c = 2 * epoch_length_frames c"

definition seniority_penalties_at :: "u64 \<Rightarrow> gates \<Rightarrow> bool \<times> gates" where
  "seniority_penalties_at epoch gs =
     (let (penalty, gs1) = gate_read seniority_penalty gs;
          (succession, gs2) = gate_read seniority_succession gs1
      in (max penalty succession \<le> epoch, gs2))"

definition set_seniority_penalty_and_succession_epoch_for_thread ::
  "u64 option \<Rightarrow> gates \<Rightarrow> gates" where
  "set_seniority_penalty_and_succession_epoch_for_thread epoch gs =
     gate_set_for_thread seniority_succession epoch (gate_set_for_thread seniority_penalty epoch gs)"

definition vertex_value_binding_scheduled :: "gates \<Rightarrow> bool \<times> gates" where
  "vertex_value_binding_scheduled gs =
     (let (e, gs') = gate_read vertex_value_binding gs in (e \<noteq> u64_max, gs'))"

definition stable_replica_key_epoch_from :: "u8 \<Rightarrow> string option \<Rightarrow> u64 \<Rightarrow> u64" where
  "stable_replica_key_epoch_from network setting hash_epoch =
     (let epoch = gate_value_for stable_replica_key network setting
      in if epoch = u64_max then u64_max else max epoch hash_epoch)"

text \<open>
  The closure given to \<^verbatim>\<open>get_or_init\<close> reads the hash storage proof epoch, and so fixes that
  cell, only when the cell of the stable replica key is still empty.
\<close>

definition init_stable_replica_key_epoch ::
  "u8 \<Rightarrow> (string \<Rightarrow> string option) \<Rightarrow> gates \<Rightarrow> u64 \<times> gates" where
  "init_stable_replica_key_epoch network env gs =
     (case cell (switch gs stable_replica_key) of
        Some e \<Rightarrow> (e, gs)
      | None \<Rightarrow>
          let (hash_epoch, gs') = gate_read hash_storage_proof gs;
              v = stable_replica_key_epoch_from network (env (variable stable_replica_key)) hash_epoch
          in update_switch stable_replica_key (get_or_init v) gs')"

definition MAINNET_STORAGE_ATTESTATION_PAUSE :: "(u64 \<times> u64) option" where
  "MAINNET_STORAGE_ATTESTATION_PAUSE = Some (1311, 1314)"

definition storage_attestation_pause_for :: "u8 \<Rightarrow> string option \<Rightarrow> u64 \<times> u64" where
  "storage_attestation_pause_for network setting =
     (if network = 0
      then case MAINNET_STORAGE_ATTESTATION_PAUSE of None \<Rightarrow> (u64_max, u64_max) | Some p \<Rightarrow> p
      else case Option.bind setting parse_u64 of
             None \<Rightarrow> (u64_max, u64_max) | Some start \<Rightarrow> (start, u64_max))"

definition init_storage_attestation_pause ::
  "u8 \<Rightarrow> (string \<Rightarrow> string option) \<Rightarrow> gates \<Rightarrow> (u64 \<times> u64) \<times> gates" where
  "init_storage_attestation_pause network env gs =
     (let (p, g) = get_or_init (storage_attestation_pause_for network
                       (env ''QUIL_STORAGE_ATTESTATION_PAUSE_EPOCH'')) (pause_gate gs)
      in (p, gs\<lparr>pause_gate := g\<rparr>))"

definition storage_attestation_pause :: "gates \<Rightarrow> (u64 \<times> u64) \<times> gates" where
  "storage_attestation_pause gs =
     (case thread_override (pause_gate gs) of
        Some p \<Rightarrow> (p, gs)
      | None \<Rightarrow> let (p, g) = get_or_init (storage_attestation_pause_for 0 None) (pause_gate gs)
                in (p, gs\<lparr>pause_gate := g\<rparr>))"

text \<open>The test for a hash-proof epoch, which may fix a cell, runs only inside the window.\<close>

definition storage_attestation_paused :: "clock \<Rightarrow> u64 \<Rightarrow> gates \<Rightarrow> bool \<times> gates" where
  "storage_attestation_paused c epoch gs =
     (let ((start, end), gs1) = storage_attestation_pause gs in
      if start \<le> epoch \<and> epoch < end
      then let (hashed, gs2) = gate_holds hash_storage_proof c epoch gs1 in (\<not> hashed, gs2)
      else (False, gs1))"

definition set_storage_attestation_pause_for_thread ::
  "(u64 \<times> u64) option \<Rightarrow> gates \<Rightarrow> gates" where
  "set_storage_attestation_pause_for_thread p gs =
     gs\<lparr>pause_gate := (pause_gate gs)\<lparr>thread_override := p\<rparr>\<rparr>"

definition STORAGE_SNAPSHOT_OFFSET :: u64 where "STORAGE_SNAPSHOT_OFFSET = 16"

definition storage_snapshot_frame :: "clock \<Rightarrow> u64 \<Rightarrow> u64" where
  "storage_snapshot_frame c target_epoch =
     saturating_mul (saturating_sub target_epoch 1) (epoch_length_frames c) + STORAGE_SNAPSHOT_OFFSET"

definition storage_snapshot_crossed ::
  "clock \<Rightarrow> u64 \<Rightarrow> u64 \<Rightarrow> gates \<Rightarrow> u64 option \<times> gates" where
  "storage_snapshot_crossed c previous_anchor anchor gs =
     (let target = epoch_for_frame c anchor + 1;
          at = storage_snapshot_frame c target;
          (hashed, gs') = gate_holds hash_storage_proof c target gs
      in (if hashed \<and> previous_anchor < at \<and> at \<le> anchor then Some target else None, gs'))"

subsection \<open>The gates as a state machine\<close>

text \<open>Everything the process or the thread can do to the gates.\<close>

inductive gate_step :: "gates \<Rightarrow> gates \<Rightarrow> bool" where
  step_init: "gate_step gs (snd (gate_init spec network env gs))"
| step_init_stable: "gate_step gs (snd (init_stable_replica_key_epoch network env gs))"
| step_init_pause: "gate_step gs (snd (init_storage_attestation_pause network env gs))"
| step_read: "gate_step gs (snd (gate_read spec gs))"
| step_read_pause: "gate_step gs (snd (storage_attestation_pause gs))"
| step_set: "gate_step gs (gate_set_for_thread spec e gs)"
| step_set_pause: "gate_step gs (set_storage_attestation_pause_for_thread p gs)"

lemma snd_update_switch:
  "snd (update_switch spec f gs) = gs\<lparr>switch := (switch gs)(spec := snd (f (switch gs spec)))\<rparr>"
  by (simp add: update_switch_def split_beta)

lemma fst_update_switch: "fst (update_switch spec f gs) = fst (f (switch gs spec))"
  by (simp add: update_switch_def split_beta)

lemmas gate_defs =
  gate_init_def gate_read_def gate_set_for_thread_def get_or_init_def
  init_stable_replica_key_epoch_def init_storage_attestation_pause_def
  storage_attestation_pause_def set_storage_attestation_pause_for_thread_def

lemma gate_read_cell:
  "cell (switch gs spec) = Some v \<Longrightarrow> cell (switch (snd (gate_read other gs)) spec) = Some v"
  by (auto simp: gate_defs snd_update_switch split: option.splits)

lemma gate_step_cell:
  assumes "gate_step gs gs'" "cell (switch gs spec) = Some v"
  shows "cell (switch gs' spec) = Some v"
  using assms(1)
proof (cases rule: gate_step.cases)
  case (step_init_stable network env)
  then show ?thesis
    using assms(2) gate_read_cell [OF assms(2), of hash_storage_proof]
    by (auto simp: init_stable_replica_key_epoch_def get_or_init_def snd_update_switch Let_def
        split: option.splits prod.splits)
qed (use assms(2) in \<open>auto simp: gate_defs snd_update_switch split: option.splits prod.splits\<close>)

lemma gate_steps_cell:
  "gate_step\<^sup>*\<^sup>* gs gs' \<Longrightarrow> cell (switch gs spec) = Some v \<Longrightarrow> cell (switch gs' spec) = Some v"
  by (induction rule: rtranclp_induct) (auto dest: gate_step_cell)

lemma gate_read_fixed:
  "cell (switch gs spec) = Some v \<Longrightarrow> thread_override (switch gs spec) = None \<Longrightarrow>
   fst (gate_read spec gs) = v"
  by (simp add: gate_read_def get_or_init_def fst_update_switch)

lemma gate_init_cell:
  "cell (switch gs spec) = None \<Longrightarrow>
   cell (switch (snd (gate_init spec network env gs)) spec)
     = Some (gate_value_for spec network (env (variable spec)))"
  by (simp add: gate_init_def get_or_init_def snd_update_switch)

lemma gate_read_fixes_cell:
  "cell (switch gs spec) = None \<Longrightarrow> thread_override (switch gs spec) = None \<Longrightarrow> read_fixes spec \<Longrightarrow>
   cell (switch (snd (gate_read spec gs)) spec) = Some (gate_value_for spec 0 None)"
  by (simp add: gate_read_def get_or_init_def snd_update_switch)

text \<open>C18. The first initialisation of a gate decides. Whatever the process does afterwards
  (initialisations for another network or with another environment, reads, overrides set and
  lifted, the same on every other gate), a thread with no override reads the value of
  the first call. A getter that fixes the cell counts as a first call: read before its
  initialisation on a test network, the gate keeps the mainnet value for good.\<close>

theorem gate_first_call_decides:
  assumes "cell (switch gs spec) = None" "thread_override (switch gs spec) = None"
    and "thread_override (switch gs' spec) = None"
  shows "(gate_step\<^sup>*\<^sup>* (snd (gate_init spec network env gs)) gs' \<longrightarrow>
          fst (gate_read spec gs') = gate_value_for spec network (env (variable spec))) \<and>
         (read_fixes spec \<longrightarrow>
          gate_step\<^sup>*\<^sup>* (snd (gate_init spec network env (snd (gate_read spec gs)))) gs' \<longrightarrow>
          fst (gate_read spec gs') = gate_value_for spec 0 None)"
proof (intro conjI impI)
  assume "gate_step\<^sup>*\<^sup>* (snd (gate_init spec network env gs)) gs'"
  from gate_steps_cell [OF this gate_init_cell [OF assms(1)]]
  show "fst (gate_read spec gs') = gate_value_for spec network (env (variable spec))"
    by (rule gate_read_fixed) (rule assms(3))
next
  assume fixing: "read_fixes spec"
    and steps: "gate_step\<^sup>*\<^sup>* (snd (gate_init spec network env (snd (gate_read spec gs)))) gs'"
  have "gate_step\<^sup>*\<^sup>* (snd (gate_read spec gs)) gs'"
    using step_init steps by (rule converse_rtranclp_into_rtranclp)
  from gate_steps_cell [OF this gate_read_fixes_cell [OF assms(1,2) fixing]]
  show "fst (gate_read spec gs') = gate_value_for spec 0 None"
    by (rule gate_read_fixed) (rule assms(3))
qed

lemma gate_first_call_decides_witness:
  "fst (gate_read required_anchor
          (snd (gate_init required_anchor 1 (\<lambda>_. Some ''7'') fresh_gates))) = 7 \<and>
   fst (gate_read required_anchor
          (snd (gate_init required_anchor 1 (\<lambda>_. Some ''7'')
                  (snd (gate_read required_anchor fresh_gates))))) = 1311"
proof -
  let ?env = "\<lambda>_. Some ''7''"
  have fresh: "cell (switch fresh_gates required_anchor) = None"
    "thread_override (switch fresh_gates required_anchor) = None"
    by (simp_all add: fresh_gates_def)
  have overrides:
    "thread_override (switch (snd (gate_init required_anchor 1 ?env fresh_gates)) required_anchor)
       = None"
    "thread_override (switch (snd (gate_init required_anchor 1 ?env
       (snd (gate_read required_anchor fresh_gates)))) required_anchor) = None"
    by (simp_all add: fresh_gates_def gate_defs snd_update_switch required_anchor_def)
  have "gate_value_for required_anchor 1 (?env (variable required_anchor)) = 7"
    by (simp add: gate_value_for_def parse_u64_def)
  moreover have "gate_value_for required_anchor 0 None = 1311" "read_fixes required_anchor"
    by (simp_all add: gate_value_for_def required_anchor_def)
  ultimately show ?thesis
    using gate_first_call_decides [OF fresh overrides(1), of 1 ?env]
      gate_first_call_decides [OF fresh overrides(2), of 1 ?env] by simp
qed

subsection \<open>The schedule of mainnet\<close>

lemma gate_holds_iff:
  "fst (gate_holds spec c x gs) \<longleftrightarrow>
     (never_excluded spec \<longrightarrow> fst (gate_read spec gs) \<noteq> u64_max) \<and>
     fst (gate_read spec gs) \<le> (case index spec of EpochOfFrame \<Rightarrow> epoch_for_frame c x | Given \<Rightarrow> x)"
  by (simp add: gate_holds_def split_beta Let_def)

lemma snd_gate_holds [simp]: "snd (gate_holds spec c x gs) = snd (gate_read spec gs)"
  by (simp add: gate_holds_def split_beta Let_def)

lemma gate_read_after_init:
  "cell (switch gs spec) = None \<Longrightarrow> thread_override (switch gs spec) = None \<Longrightarrow>
   fst (gate_read spec (snd (gate_init spec network env gs)))
     = gate_value_for spec network (env (variable spec))"
  by (rule gate_read_fixed [OF gate_init_cell]) (simp_all add: gate_defs snd_update_switch)

lemma mainnet_value: "gate_value_for spec 0 setting = (case mainnet spec of None \<Rightarrow> u64_max | Some e \<Rightarrow> e)"
  by (simp add: gate_value_for_def)

definition mainnet_clock :: clock where
  "mainnet_clock = init_epoch_length_for_network 0 initial_clock"

lemma mainnet_epoch_length [simp]: "epoch_length_frames mainnet_clock = 720"
  by (simp add: mainnet_clock_def init_epoch_length_for_network_def set_epoch_length_frames_def
      epoch_length_frames_def EPOCH_LENGTH_FRAMES_def Let_def initial_clock_def)

lemma mainnet_epoch_from:
  assumes "unat e * 720 < 2 ^ 64"
  shows "e \<le> epoch_for_frame mainnet_clock f \<longleftrightarrow> e * 720 \<le> f"
proof -
  have "epoch_start_frame mainnet_clock e = e * 720"
    using assms by (simp add: epoch_start_frame_def saturating_mul_def)
  with epoch_le_iff [of e mainnet_clock f] assms show ?thesis by simp
qed

lemma mainnet_epoch_never: "\<not> u64_max \<le> epoch_for_frame mainnet_clock f"
  using unat_u64_bound [of f] by (simp add: word_le_nat_alt unat_epoch_for_frame)

definition on_mainnet :: "gate_spec \<Rightarrow> (string \<Rightarrow> string option) \<Rightarrow> u64 \<Rightarrow> bool" where
  "on_mainnet spec env x =
     fst (gate_holds spec mainnet_clock x (snd (gate_init spec 0 env fresh_gates)))"

lemma on_mainnet_iff:
  "on_mainnet spec env x \<longleftrightarrow>
     (never_excluded spec \<longrightarrow> mainnet spec \<noteq> None \<and> mainnet spec \<noteq> Some u64_max) \<and>
     (case mainnet spec of None \<Rightarrow> u64_max | Some e \<Rightarrow> e)
       \<le> (case index spec of EpochOfFrame \<Rightarrow> epoch_for_frame mainnet_clock x | Given \<Rightarrow> x)"
  by (auto simp: on_mainnet_def gate_holds_iff gate_read_after_init fresh_gates_def mainnet_value
      split: option.splits)

lemma never_value: "u64_max \<noteq> 1429"
  by (simp add: u64_max_def)

lemma no_penalty_when_never:
  assumes "fst (gate_read seniority_penalty gs) = u64_max"
  shows "\<not> fst (seniority_penalties_at (epoch_for_frame mainnet_clock f) gs)"
  using assms mainnet_epoch_never [of f]
  by (simp add: seniority_penalties_at_def split_beta Let_def)

subsection \<open>Storage snapshots\<close>

lemma gate_read_again: "fst (gate_read spec (snd (gate_read spec gs))) = fst (gate_read spec gs)"
  by (auto simp: gate_read_def get_or_init_def snd_update_switch fst_update_switch
      split: option.splits)

text \<open>The frame, as a number, at which the data of the epoch after that of \<open>a\<close> is taken.\<close>

definition snapshot_point :: "clock \<Rightarrow> u64 \<Rightarrow> nat" where
  "snapshot_point c a = unat (epoch_for_frame c a) * unat (epoch_length_frames c) + 16"

lemma unat_storage_snapshot_frame:
  assumes "2 \<le> epoch_length_frames c" "unat a + 16 < 2 ^ 64"
  shows "unat (storage_snapshot_frame c (epoch_for_frame c a + 1)) = snapshot_point c a"
proof -
  have start: "unat (epoch_for_frame c a) * unat (epoch_length_frames c) \<le> unat a"
    by (simp add: unat_epoch_for_frame)
  have "unat (epoch_for_frame c a + 1) = unat (epoch_for_frame c a) + 1"
    using unat_epoch_plus [OF assms(1), of 1 a] by simp
  then have "saturating_sub (epoch_for_frame c a + 1) 1 = epoch_for_frame c a"
    by (simp add: word_unat_eq_iff unat_saturating_sub)
  then have "storage_snapshot_frame c (epoch_for_frame c a + 1)
      = saturating_mul (epoch_for_frame c a) (epoch_length_frames c) + 16"
    by (simp add: storage_snapshot_frame_def STORAGE_SNAPSHOT_OFFSET_def)
  moreover have "unat (saturating_mul (epoch_for_frame c a) (epoch_length_frames c))
      = unat (epoch_for_frame c a) * unat (epoch_length_frames c)"
    using start unat_u64_bound [of a] by (simp add: unat_saturating_mul)
  ultimately show ?thesis
    using start assms(2) by (simp add: snapshot_point_def unat_add_no_wrap)
qed

lemma storage_snapshot_crossed_iff:
  assumes "2 \<le> epoch_length_frames c" "unat a + 16 < 2 ^ 64"
  shows "fst (storage_snapshot_crossed c p a gs) =
    (if fst (gate_read hash_storage_proof gs) \<le> epoch_for_frame c a + 1 \<and>
        unat p < snapshot_point c a \<and> snapshot_point c a \<le> unat a
     then Some (epoch_for_frame c a + 1) else None)"
  by (simp add: storage_snapshot_crossed_def split_beta Let_def gate_holds_iff
      word_less_nat_alt [of p] word_le_nat_alt [of _ a] unat_storage_snapshot_frame [OF assms])
    (simp add: hash_storage_proof_def)

lemma snd_storage_snapshot_crossed [simp]:
  "snd (storage_snapshot_crossed c p a gs) = snd (gate_read hash_storage_proof gs)"
  by (simp add: storage_snapshot_crossed_def split_beta Let_def)

text \<open>The snapshots a shard takes along its chain, whose frames are anchored at \<open>anchors\<close>.\<close>

fun snapshots_taken :: "clock \<Rightarrow> u64 \<Rightarrow> u64 list \<Rightarrow> gates \<Rightarrow> u64 list" where
  "snapshots_taken c previous [] gs = []"
| "snapshots_taken c previous (anchor # anchors) gs =
     (let (crossed, gs') = storage_snapshot_crossed c previous anchor gs
      in (case crossed of None \<Rightarrow> [] | Some target \<Rightarrow> [target])
         @ snapshots_taken c anchor anchors gs')"

lemma snapshot_point_between:
  assumes "a \<le> b" "snapshot_point c b \<le> unat a"
  shows "epoch_for_frame c a = epoch_for_frame c b"
proof (rule antisym)
  show "epoch_for_frame c a \<le> epoch_for_frame c b"
    using assms(1) by (rule epoch_for_frame_mono)
  have "unat (epoch_for_frame c b) * unat (epoch_length_frames c) \<le> unat a"
    using assms(2) by (simp add: snapshot_point_def)
  then show "epoch_for_frame c b \<le> epoch_for_frame c a"
    by (simp add: word_le_nat_alt [of "epoch_for_frame c b"] unat_epoch_for_frame [of c a]
        less_eq_div_iff_mult_less_eq)
qed

lemma snapshot_point_cong:
  "epoch_for_frame c a = epoch_for_frame c b \<Longrightarrow> snapshot_point c a = snapshot_point c b"
  by (simp add: snapshot_point_def)

lemma snapshots_taken_mem:
  assumes "2 \<le> epoch_length_frames c" "sorted (p # anchors)"
    and "\<forall>a \<in> set anchors. unat a + 16 < 2 ^ 64"
  shows "t \<in> set (snapshots_taken c p anchors gs) \<longleftrightarrow>
    fst (gate_read hash_storage_proof gs) \<le> t \<and>
    (\<exists>a \<in> set anchors. epoch_for_frame c a + 1 = t \<and> unat p < snapshot_point c a
        \<and> snapshot_point c a \<le> unat a)"
  using assms(2,3)
proof (induction anchors arbitrary: p gs)
  case Nil
  then show ?case by simp
next
  case (Cons a anchors)
  let ?hit = "\<lambda>p a. epoch_for_frame c a + 1 = t \<and> unat p < snapshot_point c a
        \<and> snapshot_point c a \<le> unat a"
  have bound: "unat a + 16 < 2 ^ 64" and pa: "unat p \<le> unat a"
    using Cons.prems by (simp_all add: word_le_nat_alt)
  have IH: "t \<in> set (snapshots_taken c a anchors (snd (gate_read hash_storage_proof gs))) \<longleftrightarrow>
      fst (gate_read hash_storage_proof gs) \<le> t \<and> (\<exists>b \<in> set anchors. ?hit a b)"
    using Cons.IH [of a "snd (gate_read hash_storage_proof gs)"] Cons.prems
    by (simp add: gate_read_again)
  have later: "?hit p a" if "b \<in> set anchors" "?hit p b" "\<not> ?hit a b" for b
  proof -
    have "snapshot_point c b \<le> unat a" using that by simp
    moreover have "a \<le> b" using that(1) Cons.prems(1) by simp
    ultimately have "epoch_for_frame c a = epoch_for_frame c b"
      by (rule snapshot_point_between [rotated])
    with that(2) \<open>snapshot_point c b \<le> unat a\<close> show ?thesis
      using snapshot_point_cong [of c a b] by simp
  qed
  have "(\<exists>b \<in> set (a # anchors). ?hit p b) \<longleftrightarrow> ?hit p a \<or> (\<exists>b \<in> set anchors. ?hit a b)"
    using later pa by (auto intro: le_less_trans)
  then show ?case
    using IH by (simp add: split_beta storage_snapshot_crossed_iff [OF assms(1) bound]) blast
qed

lemma snapshots_taken_distinct:
  assumes "2 \<le> epoch_length_frames c" "sorted (p # anchors)"
    and "\<forall>a \<in> set anchors. unat a + 16 < 2 ^ 64"
  shows "distinct (snapshots_taken c p anchors gs)"
  using assms(2,3)
proof (induction anchors arbitrary: p gs)
  case Nil
  then show ?case by simp
next
  case (Cons a anchors)
  let ?gs = "snd (gate_read hash_storage_proof gs)"
  have "epoch_for_frame c a + 1 \<notin> set (snapshots_taken c a anchors ?gs)"
    if point: "snapshot_point c a \<le> unat a"
  proof
    assume "epoch_for_frame c a + 1 \<in> set (snapshots_taken c a anchors ?gs)"
    then obtain b where "epoch_for_frame c b + 1 = epoch_for_frame c a + 1"
      and later: "unat a < snapshot_point c b"
      using Cons.prems by (subst (asm) snapshots_taken_mem [OF assms(1)]) auto
    then have "snapshot_point c b = snapshot_point c a"
      by (intro snapshot_point_cong) simp
    with point later show False by simp
  qed
  moreover have "distinct (snapshots_taken c a anchors ?gs)"
    using Cons.IH [of a ?gs] Cons.prems by simp
  ultimately show ?case
    using Cons.prems by (simp add: split_beta storage_snapshot_crossed_iff [OF assms(1)])
qed

text \<open>Along a certified chain every storage snapshot is taken exactly once. For a chain whose
  anchors never go back, the epochs snapshotted are distinct, and they are exactly the hash-proof
  epochs whose snapshot frame (16 frames into the epoch before) lies after the first anchor and is
  reached by some frame still anchored in the epoch before; an epoch the shard slept
  through has no snapshot.\<close>

theorem storage_snapshots_exactly_once:
  assumes "2 \<le> epoch_length_frames c" "sorted (previous # anchors)"
    and "\<forall>a \<in> set anchors. unat a + 16 < 2 ^ 64"
  shows "distinct (snapshots_taken c previous anchors gs) \<and>
    (\<forall>target. target \<in> set (snapshots_taken c previous anchors gs) \<longleftrightarrow>
       fst (gate_read hash_storage_proof gs) \<le> target \<and>
       (\<exists>a \<in> set anchors. epoch_for_frame c a + 1 = target \<and>
          unat previous < unat (storage_snapshot_frame c target) \<and>
          unat (storage_snapshot_frame c target) \<le> unat a))"
proof (intro conjI allI)
  show "distinct (snapshots_taken c previous anchors gs)"
    using assms by (rule snapshots_taken_distinct)
  fix target
  have "snapshot_point c a = unat (storage_snapshot_frame c target)"
    if "a \<in> set anchors" "epoch_for_frame c a + 1 = target" for a
    using unat_storage_snapshot_frame [OF assms(1), of a] that assms(3) by simp
  then show "target \<in> set (snapshots_taken c previous anchors gs) \<longleftrightarrow>
       fst (gate_read hash_storage_proof gs) \<le> target \<and>
       (\<exists>a \<in> set anchors. epoch_for_frame c a + 1 = target \<and>
          unat previous < unat (storage_snapshot_frame c target) \<and>
          unat (storage_snapshot_frame c target) \<le> unat a)"
    unfolding snapshots_taken_mem [OF assms] by metis
qed

lemma storage_snapshots_exactly_once_witness:
  "distinct (snapshots_taken mainnet_clock 945000 [945360, 945380, 945400, 946200]
      (gate_set_for_thread hash_storage_proof (Some 1300) fresh_gates)) \<and>
   1314 \<in> set (snapshots_taken mainnet_clock 945000 [945360, 945380, 945400, 946200]
      (gate_set_for_thread hash_storage_proof (Some 1300) fresh_gates))"
proof -
  let ?gs = "gate_set_for_thread hash_storage_proof (Some 1300) fresh_gates"
  have "fst (gate_read hash_storage_proof ?gs) = 1300"
    by (simp add: gate_read_def gate_set_for_thread_def)
  moreover have "storage_snapshot_frame mainnet_clock 1314 = 945376"
    by (simp add: storage_snapshot_frame_def saturating_sub_def saturating_mul_def
        STORAGE_SNAPSHOT_OFFSET_def)
  moreover have "epoch_for_frame mainnet_clock 945380 + 1 = 1314"
    by (simp add: epoch_for_frame_def)
  ultimately show ?thesis
    using storage_snapshots_exactly_once
      [of mainnet_clock 945000 "[945360, 945380, 945400, 946200]" ?gs] by simp
qed

subsection \<open>Rules that exclude or imply each other\<close>

text \<open>The window without attestations never covers a hash-proof epoch.\<close>

lemma paused_excludes_hash_proofs:
  "fst (storage_attestation_paused c e gs) \<Longrightarrow> \<not> fst (gate_holds hash_storage_proof c e gs)"
  by (auto simp: storage_attestation_paused_def storage_attestation_pause_def split_beta Let_def
      gate_holds_iff gate_read_def get_or_init_def fst_update_switch split: option.splits if_splits)

text \<open>A replica key is stable only in hash-proof epochs.\<close>

lemma stable_replica_key_after_hash_proofs:
  "cell (switch gs stable_replica_key) = None \<Longrightarrow>
   fst (gate_read hash_storage_proof gs) \<le> fst (init_stable_replica_key_epoch network env gs)"
proof -
  assume empty: "cell (switch gs stable_replica_key) = None"
  have "stable_replica_key \<noteq> hash_storage_proof"
    by (simp add: stable_replica_key_def hash_storage_proof_def)
  then have "cell (switch (snd (gate_read hash_storage_proof gs)) stable_replica_key) = None"
    using empty by (simp add: gate_read_def get_or_init_def snd_update_switch split: option.splits)
  then show ?thesis
    using empty by (simp add: init_stable_replica_key_epoch_def stable_replica_key_epoch_from_def
        split_beta Let_def fst_update_switch get_or_init_def)
qed

text \<open>Where penalties apply, the seniority succession is in force.\<close>

lemma penalties_after_succession:
  "fst (seniority_penalties_at (epoch_for_frame c f) gs) \<Longrightarrow> fst (gate_holds seniority_succession c f gs)"
proof -
  have "seniority_succession \<noteq> seniority_penalty"
    by (simp add: seniority_succession_def seniority_penalty_def)
  then have "fst (gate_read seniority_succession (snd (gate_read seniority_penalty gs)))
      = fst (gate_read seniority_succession gs)"
    by (simp add: gate_read_def get_or_init_def snd_update_switch fst_update_switch split: option.splits)
  then show "fst (seniority_penalties_at (epoch_for_frame c f) gs) \<Longrightarrow> ?thesis"
    by (simp add: seniority_penalties_at_def split_beta Let_def gate_holds_iff)
      (simp add: seniority_succession_def)
qed

end
