(* ===== verification/Allocation.thy ===== *)
theory Allocation
  imports Epochs "HOL-Library.List_Lexorder"
begin

text \<open>
  The life of a prover's seat on a shard, from \<^verbatim>\<open>quil-types/src/consensus.rs\<close>: the record
  the registry keeps, the status it has at a frame, what its join waits for, when its leave
  departs, and the lists of members the lifecycle counts. The frame clock is the
  record of \<open>Epochs\<close>.
\<close>

subsection \<open>Data\<close>

datatype prover_status = Unknown | Joining | Active | Paused | Leaving | Rejected | Kicked | Historic

datatype seat_status =
  EJoining | EActive | EPaused | ELeaving | ExpiredJoining | ExpiredLeaving | ExpiredEpoch
| ERejected | EKicked | EHistoric | EUnknown

datatype allocation_phase = PJoining | PActivating | PActive | PPaused | PLeaving | PDeparting

record prover_allocation_info =
  pa_status :: prover_status
  confirmation_filter :: bytes
  rejection_filter :: bytes
  join_frame_number :: u64
  leave_frame_number :: u64
  pause_frame_number :: u64
  resume_frame_number :: u64
  kick_frame_number :: u64
  join_confirm_frame_number :: u64
  join_reject_frame_number :: u64
  leave_confirm_frame_number :: u64
  leave_reject_frame_number :: u64
  last_active_frame_number :: u64
  last_signed_frame_number :: u64
  pa_epoch :: u64
  pa_ring :: u8
  vertex_address :: bytes

datatype join_waiting = Confirmation u64 | Activation u64

subsection \<open>Status at a frame\<close>

fun is_live :: "seat_status \<Rightarrow> bool" where
  "is_live EJoining = True" | "is_live EActive = True" | "is_live EPaused = True"
| "is_live ELeaving = True" | "is_live _ = False"

fun is_allocated :: "seat_status \<Rightarrow> bool" where
  "is_allocated EJoining = True" | "is_allocated EActive = True" | "is_allocated _ = False"

fun is_expired :: "seat_status \<Rightarrow> bool" where
  "is_expired ExpiredJoining = True" | "is_expired ExpiredLeaving = True"
| "is_expired ExpiredEpoch = True" | "is_expired _ = False"

fun is_terminal :: "seat_status \<Rightarrow> bool" where
  "is_terminal ERejected = True" | "is_terminal EKicked = True"
| "is_terminal ExpiredJoining = True" | "is_terminal ExpiredLeaving = True"
| "is_terminal _ = False"

definition effective_status :: "clock \<Rightarrow> prover_allocation_info \<Rightarrow> u64 \<Rightarrow> seat_status" where
  "effective_status c a current_frame =
     (let current_epoch = epoch_for_frame c current_frame in
      case pa_status a of
        Joining \<Rightarrow>
          if 0 < join_frame_number a \<and> epoch_for_frame c (join_frame_number a) + 1 < current_epoch
          then ExpiredJoining else EJoining
      | Active \<Rightarrow>
          if confirmation_filter a = [] then EActive
          else if 0 < join_confirm_frame_number a \<and>
                  current_epoch < epoch_for_frame c (join_confirm_frame_number a) + 1
          then EJoining
          else if current_epoch \<le> pa_epoch a then EActive else ExpiredEpoch
      | Paused \<Rightarrow> EPaused
      | Leaving \<Rightarrow>
          if 0 < leave_confirm_frame_number a then
            if current_epoch < epoch_for_frame c (leave_confirm_frame_number a) + 1
            then ELeaving else ExpiredLeaving
          else if 0 < leave_frame_number a \<and>
                  epoch_for_frame c (leave_frame_number a) + 1 < current_epoch
          then ExpiredLeaving else ELeaving
      | Rejected \<Rightarrow> ERejected
      | Kicked \<Rightarrow> EKicked
      | Historic \<Rightarrow> EHistoric
      | Unknown \<Rightarrow> EUnknown)"

definition allocation_is_live :: "clock \<Rightarrow> prover_allocation_info \<Rightarrow> u64 \<Rightarrow> bool" where
  "allocation_is_live c a frame = is_live (effective_status c a frame)"

definition allocation_is_allocated :: "clock \<Rightarrow> prover_allocation_info \<Rightarrow> u64 \<Rightarrow> bool" where
  "allocation_is_allocated c a frame = is_allocated (effective_status c a frame)"

definition phase :: "clock \<Rightarrow> prover_allocation_info \<Rightarrow> u64 \<Rightarrow> allocation_phase option" where
  "phase c a frame =
     (case effective_status c a frame of
        EJoining \<Rightarrow> Some (if 0 < join_confirm_frame_number a then PActivating else PJoining)
      | EActive \<Rightarrow> Some PActive
      | EPaused \<Rightarrow> Some PPaused
      | ELeaving \<Rightarrow> Some (if 0 < leave_confirm_frame_number a then PDeparting else PLeaving)
      | _ \<Rightarrow> None)"

definition activation_frame_of :: "clock \<Rightarrow> join_waiting \<Rightarrow> u64" where
  "activation_frame_of c w =
     (case w of Confirmation epoch \<Rightarrow> epoch_start_frame c (epoch + 1) | Activation frame \<Rightarrow> frame)"

definition join_wait :: "clock \<Rightarrow> prover_allocation_info \<Rightarrow> u64 \<Rightarrow> join_waiting option" where
  "join_wait c a frame =
     (case phase c a frame of
        None \<Rightarrow> None
      | Some PJoining \<Rightarrow>
          if 0 < join_frame_number a
          then Some (Confirmation (epoch_for_frame c (join_frame_number a) + 1)) else None
      | Some PActivating \<Rightarrow>
          Some (Activation (epoch_start_frame c (epoch_for_frame c (join_confirm_frame_number a) + 1)))
      | Some _ \<Rightarrow> None)"

subsection \<open>Leaving\<close>

definition departure_epoch :: "clock \<Rightarrow> prover_allocation_info \<Rightarrow> u64 option" where
  "departure_epoch c a =
     (if pa_status a \<noteq> Leaving then None
      else if 0 < leave_confirm_frame_number a
      then Some (epoch_for_frame c (leave_confirm_frame_number a) + 1)
      else if 0 < leave_frame_number a
      then Some (epoch_for_frame c (leave_frame_number a) + 2) else None)"

definition counted_when_leaving :: "clock \<Rightarrow> prover_allocation_info \<Rightarrow> bool" where
  "counted_when_leaving c a =
     (if leave_frame_number a = 0 \<or> resume_frame_number a < pause_frame_number a then False
      else effective_status c (a\<lparr>pa_status := Active\<rparr>) (leave_frame_number a) = EActive)"

definition SENIORITY_PENALTY_HALT_RISK_PROVERS :: u64 where
  "SENIORITY_PENALTY_HALT_RISK_PROVERS = 3"

definition halt_risk_departure :: "u64 \<Rightarrow> bool" where
  "halt_risk_departure remaining_active = (remaining_active \<le> SENIORITY_PENALTY_HALT_RISK_PROVERS)"

subsection \<open>Counting a shard's members\<close>

record phase_counts =
  joining :: u32
  activating :: u32
  active :: u32
  paused :: u32
  leaving :: u32
  departing :: u32

definition no_phases :: phase_counts where
  "no_phases = \<lparr>joining = 0, activating = 0, active = 0, paused = 0, leaving = 0, departing = 0\<rparr>"

fun phase_counts_add :: "phase_counts \<Rightarrow> allocation_phase \<Rightarrow> phase_counts" where
  "phase_counts_add p PJoining = p\<lparr>joining := joining p + 1\<rparr>"
| "phase_counts_add p PActivating = p\<lparr>activating := activating p + 1\<rparr>"
| "phase_counts_add p PActive = p\<lparr>active := active p + 1\<rparr>"
| "phase_counts_add p PPaused = p\<lparr>paused := paused p + 1\<rparr>"
| "phase_counts_add p PLeaving = p\<lparr>leaving := leaving p + 1\<rparr>"
| "phase_counts_add p PDeparting = p\<lparr>departing := departing p + 1\<rparr>"

record lifecycle_members =
  members_active :: "bytes list"
  members_activating :: "bytes list"
  members_leaving :: "bytes list"

definition no_members :: lifecycle_members where
  "no_members = \<lparr>members_active = [], members_activating = [], members_leaving = []\<rparr>"

definition members_add ::
  "clock \<Rightarrow> u64 \<Rightarrow> lifecycle_members \<Rightarrow> bytes \<times> prover_allocation_info \<Rightarrow> lifecycle_members" where
  "members_add c frame m = (\<lambda>(address, alloc).
     case effective_status c alloc frame of
       EActive \<Rightarrow> m\<lparr>members_active := members_active m @ [address]\<rparr>
     | EJoining \<Rightarrow>
         if 0 < join_confirm_frame_number alloc
         then m\<lparr>members_activating := members_activating m @ [address]\<rparr> else m
     | ELeaving \<Rightarrow>
         if leave_confirm_frame_number alloc = 0
         then m\<lparr>members_leaving := members_leaving m @ [address]\<rparr> else m
     | _ \<Rightarrow> m)"

definition staying :: "lifecycle_members \<Rightarrow> nat" where
  "staying m = length (members_active m) + length (members_activating m)"

definition members_sort :: "lifecycle_members \<Rightarrow> lifecycle_members" where
  "members_sort m =
     \<lparr>members_active = sort (members_active m), members_activating = sort (members_activating m),
      members_leaving = sort (members_leaving m)\<rparr>"

subsection \<open>The timeline of a seat\<close>

lemma epoch_succ_less:
  "2 \<le> epoch_length_frames c \<Longrightarrow>
   epoch_for_frame c f + 1 < epoch_for_frame c g \<longleftrightarrow>
   epoch_for_frame c f + 2 \<le> epoch_for_frame c g"
  using unat_epoch_plus [of c 1 f] unat_epoch_plus [of c 2 f]
  by (simp add: word_less_nat_alt word_le_nat_alt Suc_le_eq)

lemma leaving_status:
  assumes "2 \<le> epoch_length_frames c" "pa_status a = Leaving"
  shows "effective_status c a f =
    (case departure_epoch c a of None \<Rightarrow> ELeaving
     | Some d \<Rightarrow> if epoch_for_frame c f < d then ELeaving else ExpiredLeaving)"
  using assms
  by (auto simp: effective_status_def departure_epoch_def Let_def epoch_succ_less not_less
      dest: leD)


text \<open>A seat that proposes to join at frame 100 and one that leaves at frame 100, unconfirmed.\<close>

definition joiner :: prover_allocation_info where
  "joiner = \<lparr>pa_status = Joining, confirmation_filter = [7], rejection_filter = [],
     join_frame_number = 100, leave_frame_number = 100, pause_frame_number = 0,
     resume_frame_number = 0, kick_frame_number = 0, join_confirm_frame_number = 0,
     join_reject_frame_number = 0, leave_confirm_frame_number = 0, leave_reject_frame_number = 0,
     last_active_frame_number = 0, last_signed_frame_number = 0, pa_epoch = 2, pa_ring = 0,
     vertex_address = []\<rparr>"

lemma initial_epoch [simp]: "epoch_length_frames initial_clock = 720"
  by (simp add: initial_clock_def epoch_length_frames_def EPOCH_LENGTH_FRAMES_def)

lemma two_not_le_one: "\<not> (2 :: u64) \<le> 1"
  by (simp add: word_le_nat_alt)


subsection \<open>What a join waits for\<close>

lemma unat_next_epoch_start:
  assumes "2 \<le> epoch_length_frames c" "unat k \<le> 2"
    and "(unat (epoch_for_frame c f) + unat k) * unat (epoch_length_frames c) < 2 ^ 64"
  shows "epoch_for_frame c f + k \<le> epoch_for_frame c g \<longleftrightarrow>
         epoch_start_frame c (epoch_for_frame c f + k) \<le> g"
  using epoch_le_iff [of "epoch_for_frame c f + k" c g] unat_epoch_plus [OF assms(1,2), of f] assms(3)
  by simp

text \<open>
  The seat after its join is confirmed at frame \<open>k\<close> for the epoch after, as the confirm
  records it: status byte, confirm frame and registered epoch.
\<close>

definition confirmed_at :: "clock \<Rightarrow> u64 \<Rightarrow> prover_allocation_info \<Rightarrow> prover_allocation_info" where
  "confirmed_at c k a =
     a\<lparr>pa_status := Active, join_confirm_frame_number := k, pa_epoch := epoch_for_frame c k + 1\<rparr>"

lemma activation_exact:
  assumes "2 \<le> epoch_length_frames c"
    and "(unat (epoch_for_frame c k) + 1) * unat (epoch_length_frames c) < 2 ^ 64"
    and "pa_status a = Active" "confirmation_filter a \<noteq> []" "join_confirm_frame_number a = k" "0 < k"
  shows "effective_status c a g = EJoining \<longleftrightarrow> g < epoch_start_frame c (epoch_for_frame c k + 1)"
proof -
  have "effective_status c a g = EJoining \<longleftrightarrow> \<not> epoch_for_frame c k + 1 \<le> epoch_for_frame c g"
    using assms(3-6) by (simp add: effective_status_def Let_def not_le)
  then show ?thesis
    using unat_next_epoch_start [OF assms(1), of 1 k g] assms(2)
    by (metis not_le unat_1 one_le_numeral)
qed

lemma activation_starts:
  assumes "2 \<le> epoch_length_frames c"
    and "(unat (epoch_for_frame c k) + 1) * unat (epoch_length_frames c) < 2 ^ 64"
    and "confirmation_filter a \<noteq> []" "0 < k"
  shows "effective_status c (confirmed_at c k a) (epoch_start_frame c (epoch_for_frame c k + 1)) = EActive"
proof -
  have "unat (epoch_for_frame c k + 1) = unat (epoch_for_frame c k) + 1"
    using unat_epoch_plus [OF assms(1), of 1 k] by simp
  then have "epoch_for_frame c (epoch_start_frame c (epoch_for_frame c k + 1))
      = epoch_for_frame c k + 1"
    using assms(2) by (intro epoch_of_epoch_start) simp
  then show ?thesis
    using assms(3,4) by (simp add: effective_status_def confirmed_at_def Let_def)
qed

text \<open>The wait a join reports is exact. A confirmed seat is pending at precisely the frames
  before the activation frame it reports. An unconfirmed one reports an epoch to confirm in
  such that the confirm materialised at any frame of that epoch makes the seat active at the
  reported activation frame and at no earlier one.\<close>

theorem join_wait_exact:
  assumes "2 \<le> epoch_length_frames c" "confirmation_filter a \<noteq> []"
    and "(unat (epoch_for_frame c (join_frame_number a)) + 2) * unat (epoch_length_frames c) < 2 ^ 64"
    and "(unat (epoch_for_frame c (join_confirm_frame_number a)) + 1) * unat (epoch_length_frames c)
           < 2 ^ 64"
  shows
    "(pa_status a = Active \<and> join_wait c a f = Some w \<longrightarrow>
        (\<forall>g. effective_status c a g = EJoining \<longleftrightarrow> g < activation_frame_of c w)) \<and>
     (pa_status a = Joining \<and> join_wait c a f = Some (Confirmation e) \<longrightarrow>
        (\<forall>k g. 0 < k \<and> epoch_for_frame c k = e \<longrightarrow>
           effective_status c (confirmed_at c k a) (activation_frame_of c (Confirmation e)) = EActive \<and>
           (effective_status c (confirmed_at c k a) g = EActive \<longrightarrow>
              activation_frame_of c (Confirmation e) \<le> g)))"
proof (intro conjI impI allI)
  fix g
  assume asm: "pa_status a = Active \<and> join_wait c a f = Some w"
  then have w: "w = Activation (epoch_start_frame c (epoch_for_frame c (join_confirm_frame_number a) + 1))"
    and "0 < join_confirm_frame_number a"
    using assms(2)
    by (auto simp: join_wait_def phase_def effective_status_def Let_def
        split: option.splits if_splits)
  then show "effective_status c a g = EJoining \<longleftrightarrow> g < activation_frame_of c w"
    using activation_exact [OF assms(1,4) _ assms(2), of g] asm by (simp add: activation_frame_of_def)
next
  fix k g
  assume joining: "pa_status a = Joining \<and> join_wait c a f = Some (Confirmation e)"
    and k: "0 < k \<and> epoch_for_frame c k = e"
  have "e = epoch_for_frame c (join_frame_number a) + 1"
    using joining by (auto simp: join_wait_def split: option.splits allocation_phase.splits if_splits)
  then have "unat e = unat (epoch_for_frame c (join_frame_number a)) + 1"
    using unat_epoch_plus [OF assms(1), of 1 "join_frame_number a"] by simp
  then have fits: "(unat (epoch_for_frame c k) + 1) * unat (epoch_length_frames c) < 2 ^ 64"
    using assms(3) k by simp
  have frame: "activation_frame_of c (Confirmation e) = epoch_start_frame c (epoch_for_frame c k + 1)"
    using k by (simp add: activation_frame_of_def)
  show "effective_status c (confirmed_at c k a) (activation_frame_of c (Confirmation e)) = EActive"
    using activation_starts [OF assms(1) fits assms(2)] k frame by simp
  assume "effective_status c (confirmed_at c k a) g = EActive"
  then show "activation_frame_of c (Confirmation e) \<le> g"
    using activation_exact [OF assms(1) fits, of "confirmed_at c k a" g] assms(2) k frame
    by (simp add: confirmed_at_def not_less [symmetric])
qed

lemma join_wait_exact_witness:
  "join_wait initial_clock joiner 200 = Some (Confirmation 1) \<and>
   effective_status initial_clock (confirmed_at initial_clock 800 joiner)
     (activation_frame_of initial_clock (Confirmation 1)) = EActive \<and>
   effective_status initial_clock (confirmed_at initial_clock 800 joiner) 1439 \<noteq> EActive \<and>
   effective_status initial_clock (confirmed_at initial_clock 800 joiner) 1439 = EJoining"
proof -
  let ?c = initial_clock
  have wait: "join_wait ?c joiner 200 = Some (Confirmation 1)"
    by (simp add: join_wait_def phase_def effective_status_def joiner_def epoch_for_frame_def)
  have frame: "activation_frame_of ?c (Confirmation 1) = 1440"
    by (simp add: activation_frame_of_def epoch_start_frame_def saturating_mul_def)
  let ?a = "confirmed_at ?c 800 joiner"
  have fields: "pa_status ?a = Active" "confirmation_filter ?a \<noteq> []" "join_frame_number ?a = 100"
    "join_confirm_frame_number ?a = 800"
    by (simp_all add: confirmed_at_def joiner_def)
  have "join_wait ?c ?a 900 = Some (Activation 1440)"
    by (simp add: join_wait_def phase_def effective_status_def joiner_def epoch_for_frame_def
        confirmed_at_def epoch_start_frame_def saturating_mul_def)
  then have "effective_status ?c ?a 1439 = EJoining \<longleftrightarrow> (1439 :: u64) < 1440"
    using join_wait_exact [of ?c ?a 900 "Activation 1440"] fields
    by (simp add: epoch_for_frame_def activation_frame_of_def)
  moreover have "(1439 :: u64) < 1440" by (simp add: word_less_nat_alt)
  ultimately show ?thesis
    using join_wait_exact [of ?c joiner 200 "Confirmation 1" 1] wait frame
    by (simp add: joiner_def epoch_for_frame_def activation_frame_of_def)
qed

end
