(* ===== verification/Dynamic_Fees.thy ===== *)
theory Dynamic_Fees
  imports Gates
begin

text \<open>
  The dynamic fee manager of \<^verbatim>\<open>quil-engine/src/fees.rs\<close>: per shard filter a sliding window of the
  multipliers that frames voted for, with its running sum; the adjustment of the mean for
  traffic; and the bounds a frame's vote is held to. Instants are milliseconds of a clock
  read that the caller passes in, and \<open>now - max_age\<close> is undefined, as in the code, when it would lie
  before the origin of the clock.
\<close>

subsection \<open>The sliding window\<close>

definition MAX_WINDOW_SIZE :: nat where "MAX_WINDOW_SIZE = 360"

definition DEFAULT_FEE_MULTIPLIER :: u64 where "DEFAULT_FEE_MULTIPLIER = 100"

record fee_vote =
  vote_frame :: u64
  fee_multiplier_vote :: u64

record filter_fee_data =
  votes :: "fee_vote list"
  sum_votes :: u64
  last_updated :: nat

record fee_manager =
  filter_data :: "bytes \<rightharpoonup> filter_fee_data"
  window_size :: nat

definition new_filter_fee_data :: "nat \<Rightarrow> filter_fee_data" where
  "new_filter_fee_data now = \<lparr>votes = [], sum_votes = 0, last_updated = now\<rparr>"

definition new_fee_manager :: "nat \<Rightarrow> fee_manager" where
  "new_fee_manager size_limit = \<lparr>filter_data = Map.empty, window_size = min size_limit MAX_WINDOW_SIZE\<rparr>"

text \<open>
  The entry of the filter is created before the vote is judged, so a filter's first call always
  leaves an entry. A window of size zero pushes the vote and takes it out again.
\<close>

definition push_vote :: "nat \<Rightarrow> nat \<Rightarrow> fee_vote \<Rightarrow> filter_fee_data \<Rightarrow> filter_fee_data" where
  "push_vote limit now v data =
     (let data1 = data\<lparr>votes := votes data @ [v],
                       sum_votes := sum_votes data + fee_multiplier_vote v,
                       last_updated := now\<rparr>
      in if limit < length (votes data1)
         then data1\<lparr>votes := tl (votes data1),
                    sum_votes := sum_votes data1 - fee_multiplier_vote (hd (votes data1))\<rparr>
         else data1)"

definition add_frame_fee_vote ::
  "fee_manager \<Rightarrow> nat \<Rightarrow> bytes \<Rightarrow> u64 \<Rightarrow> u64 \<Rightarrow> fee_manager \<times> unit result" where
  "add_frame_fee_vote m now f frame_number multiplier =
     (let data = (case filter_data m f of None \<Rightarrow> new_filter_fee_data now | Some d \<Rightarrow> d) in
      if votes data \<noteq> [] \<and> frame_number \<le> vote_frame (last (votes data))
      then (m\<lparr>filter_data := (filter_data m)(f \<mapsto> data)\<rparr>, Err InvalidArgument)
      else
        (m\<lparr>filter_data := (filter_data m)(f \<mapsto> push_vote (window_size m) now
             \<lparr>vote_frame = frame_number, fee_multiplier_vote = multiplier\<rparr> data)\<rparr>, Ok ()))"

definition get_next_fee_multiplier :: "fee_manager \<Rightarrow> bytes \<Rightarrow> u64 result" where
  "get_next_fee_multiplier m f =
     (case filter_data m f of
        Some data \<Rightarrow> if votes data \<noteq> [] then Ok (sum_votes data div of_nat (length (votes data)))
                     else Ok DEFAULT_FEE_MULTIPLIER
      | None \<Rightarrow> Ok DEFAULT_FEE_MULTIPLIER)"

definition get_vote_history :: "fee_manager \<Rightarrow> bytes \<Rightarrow> u64 list result" where
  "get_vote_history m f =
     Ok (case filter_data m f of None \<Rightarrow> [] | Some d \<Rightarrow> map fee_multiplier_vote (votes d))"

definition get_average_window_size :: "fee_manager \<Rightarrow> bytes \<Rightarrow> nat result" where
  "get_average_window_size m f =
     Ok (case filter_data m f of None \<Rightarrow> 0 | Some d \<Rightarrow> length (votes d))"

definition prune_old_data :: "fee_manager \<Rightarrow> nat \<Rightarrow> u64 \<Rightarrow> fee_manager \<times> unit result" where
  "prune_old_data m now max_age =
     (if now < unat max_age then (m, Ok ())
      else (m\<lparr>filter_data := (\<lambda>f. case filter_data m f of
                None \<Rightarrow> None
              | Some d \<Rightarrow> if now - unat max_age \<le> last_updated d then Some d else None)\<rparr>, Ok ()))"

definition rewind_to_frame :: "fee_manager \<Rightarrow> bytes \<Rightarrow> u64 \<Rightarrow> fee_manager \<times> nat result" where
  "rewind_to_frame m f frame_number =
     (case filter_data m f of
        None \<Rightarrow> (m, Ok 0)
      | Some data \<Rightarrow>
          if votes data = [] then (m, Ok 0)
          else
            let keep_index = (case position (\<lambda>v. frame_number < vote_frame v) (votes data) of
                                None \<Rightarrow> length (votes data) | Some i \<Rightarrow> i);
                removed_count = length (votes data) - keep_index
            in if removed_count = 0 then (m, Ok 0)
               else (m\<lparr>filter_data := (filter_data m)(f \<mapsto>
                        data\<lparr>sum_votes := foldl (\<lambda>s v. s - fee_multiplier_vote v) (sum_votes data)
                               (drop keep_index (votes data)),
                             votes := take keep_index (votes data)\<rparr>)\<rparr>, Ok removed_count))"

subsection \<open>Adjustment for traffic\<close>

definition MAX_ADJUSTMENT_PERCENT :: int where "MAX_ADJUSTMENT_PERCENT = 10"

text \<open>
  Timestamps are \<^verbatim>\<open>i64\<close>; \<open>target\<close> is the frame interval of the clock, which the code converts
  with \<^verbatim>\<open>try_from\<close>. An interval of zero makes the division panic unless
  the difference is exactly zero.
\<close>

definition traffic_percent :: "int \<Rightarrow> int \<Rightarrow> int" where
  "traffic_percent distance target =
     min (bigint_quot (wrap_i64 (wrap_i64 distance * 100)) target) MAX_ADJUSTMENT_PERCENT"

definition target_frame_time_ms :: "clock \<Rightarrow> int" where
  "target_frame_time_ms c =
     (if uint (ideal_frame_time_ms c) \<le> i64_max then uint (ideal_frame_time_ms c) else i64_max)"

definition adjust_fee_for_traffic :: "clock \<Rightarrow> u64 \<Rightarrow> int \<Rightarrow> int \<Rightarrow> bool \<Rightarrow> u64 result" where
  "adjust_fee_for_traffic c base_fee current_timestamp_ms previous_timestamp_ms reward_greedy =
     (if \<not> reward_greedy then Ok base_fee
      else if base_fee = 0 then Ok 1
      else
        let time_diff = wrap_i64 (current_timestamp_ms - previous_timestamp_ms);
            target = target_frame_time_ms c
        in if time_diff < target then
             if target = 0 then Err Panic
             else let adjustment =
                    base_fee * word_of_int (traffic_percent (target - time_diff) target) div 100
                  in Ok (max (saturating_sub base_fee adjustment) 1)
           else if target < time_diff then
             if target = 0 then Err Panic
             else let adjustment =
                    base_fee * word_of_int (traffic_percent (time_diff - target) target) div 100
                  in Ok (saturating_add base_fee adjustment)
           else Ok base_fee)"

definition compute_fee_multiplier_vote ::
  "clock \<Rightarrow> fee_manager \<Rightarrow> bytes \<Rightarrow> int \<Rightarrow> int \<Rightarrow> bool \<Rightarrow> u64 result" where
  "compute_fee_multiplier_vote c m f current_timestamp_ms previous_timestamp_ms reward_greedy =
     (let base = (case get_next_fee_multiplier m f of Ok b \<Rightarrow> b | Err _ \<Rightarrow> DEFAULT_FEE_MULTIPLIER)
      in adjust_fee_for_traffic c base current_timestamp_ms previous_timestamp_ms reward_greedy)"

subsection \<open>Bounds of a vote\<close>

definition MIN_FEE_MULTIPLIER_VOTE :: u64 where
  "MIN_FEE_MULTIPLIER_VOTE = DEFAULT_FEE_MULTIPLIER * (100 - word_of_int MAX_ADJUSTMENT_PERCENT) div 100"

definition MAX_FEE_MULTIPLIER_VOTE :: u64 where
  "MAX_FEE_MULTIPLIER_VOTE = DEFAULT_FEE_MULTIPLIER * (100 + word_of_int MAX_ADJUSTMENT_PERCENT) div 100"

definition fee_vote_bound :: gate_spec where
  "fee_vote_bound =
     \<lparr>mainnet = None, variable = ''QUIL_FEE_VOTE_BOUND_FRAME'',
      index = Given, read_fixes = False, never_excluded = True\<rparr>"

definition fee_vote_bounded_at :: "clock \<Rightarrow> gates \<Rightarrow> u64 \<Rightarrow> bool" where
  "fee_vote_bounded_at c gs global_frame = fst (gate_holds fee_vote_bound c global_frame gs)"

definition fee_vote_in_bounds :: "u64 \<Rightarrow> bool" where
  "fee_vote_in_bounds vote \<longleftrightarrow> MIN_FEE_MULTIPLIER_VOTE \<le> vote \<and> vote \<le> MAX_FEE_MULTIPLIER_VOTE"

definition check_fee_vote :: "clock \<Rightarrow> gates \<Rightarrow> u64 \<Rightarrow> u64 \<Rightarrow> u64 \<Rightarrow> unit result" where
  "check_fee_vote c gs frame_number global_frame vote =
     (if fee_vote_bounded_at c gs global_frame \<and> \<not> fee_vote_in_bounds vote
      then Err InvalidArgument else Ok ())"

definition proposer_fee_vote :: "clock \<Rightarrow> gates \<Rightarrow> u64 \<Rightarrow> u64 \<Rightarrow> u64" where
  "proposer_fee_vote c gs global_frame vote =
     (if fee_vote_bounded_at c gs global_frame
      then if vote < MIN_FEE_MULTIPLIER_VOTE then MIN_FEE_MULTIPLIER_VOTE
           else if MAX_FEE_MULTIPLIER_VOTE < vote then MAX_FEE_MULTIPLIER_VOTE else vote
      else vote)"
subsection \<open>The window as a list of votes\<close>

text \<open>
  What the manager promises about a filter, without its running sum: the list of the accepted
  votes, newest last. \<open>spec_vote\<close> keeps the last \<open>limit\<close> of them, \<open>spec_rewind\<close> keeps the ones up to
  a frame.
\<close>

definition history :: "fee_manager \<Rightarrow> bytes \<Rightarrow> fee_vote list" where
  "history m f = (case filter_data m f of None \<Rightarrow> [] | Some d \<Rightarrow> votes d)"

definition newer :: "fee_vote list \<Rightarrow> u64 \<Rightarrow> bool" where
  "newer h frame_number \<longleftrightarrow> (h \<noteq> [] \<longrightarrow> vote_frame (last h) < frame_number)"

definition spec_vote :: "nat \<Rightarrow> fee_vote list \<Rightarrow> fee_vote \<Rightarrow> fee_vote list" where
  "spec_vote limit h v =
     (if newer h (vote_frame v) then drop (Suc (length h) - limit) (h @ [v]) else h)"

definition spec_rewind :: "fee_vote list \<Rightarrow> u64 \<Rightarrow> fee_vote list" where
  "spec_rewind h n = filter (\<lambda>v. vote_frame v \<le> n) h"

definition spec_mean :: "fee_vote list \<Rightarrow> u64" where
  "spec_mean h = (if h = [] then DEFAULT_FEE_MULTIPLIER
     else (\<Sum>v \<leftarrow> h. fee_multiplier_vote v) div of_nat (length h))"

definition window_ok :: "nat \<Rightarrow> filter_fee_data \<Rightarrow> bool" where
  "window_ok limit d \<longleftrightarrow>
     sum_votes d = (\<Sum>v \<leftarrow> votes d. fee_multiplier_vote v) \<and>
     sorted_wrt (\<lambda>v w. vote_frame v < vote_frame w) (votes d) \<and> length (votes d) \<le> limit"

definition fees_inv :: "fee_manager \<Rightarrow> bool" where
  "fees_inv m \<longleftrightarrow> window_size m \<le> MAX_WINDOW_SIZE \<and>
     (\<forall>f d. filter_data m f = Some d \<longrightarrow> window_ok (window_size m) d)"

lemma window_ok_new: "window_ok limit (new_filter_fee_data now)"
  by (simp add: window_ok_def new_filter_fee_data_def)

lemma fees_inv_lookup: "fees_inv m \<Longrightarrow> filter_data m f = Some d \<Longrightarrow> window_ok (window_size m) d"
  by (simp add: fees_inv_def)

lemma fees_inv_update:
  "fees_inv m \<Longrightarrow> window_ok (window_size m) d \<Longrightarrow> fees_inv (m\<lparr>filter_data := (filter_data m)(f \<mapsto> d)\<rparr>)"
  by (auto simp: fees_inv_def)

lemma sorted_wrt_snoc_newer:
  assumes "sorted_wrt (\<lambda>v w. vote_frame v < vote_frame w) h" "newer h (vote_frame v)"
  shows "sorted_wrt (\<lambda>v w. vote_frame v < vote_frame w) (h @ [v])"
proof (cases h rule: rev_cases)
  case (snoc ys y)
  with assms show ?thesis
    by (auto simp: newer_def sorted_wrt_append intro: less_trans)
qed simp

lemma push_vote_spec:
  assumes "window_ok limit d" "newer (votes d) (vote_frame v)"
  shows "window_ok limit (push_vote limit now v d)"
    and "votes (push_vote limit now v d) = spec_vote limit (votes d) v"
    and "last_updated (push_vote limit now v d) = now"
proof -
  let ?h = "votes d @ [v]"
  have sorted: "sorted_wrt (\<lambda>v w. vote_frame v < vote_frame w) ?h"
    using assms by (intro sorted_wrt_snoc_newer) (simp_all add: window_ok_def)
  have len: "length (votes d) \<le> limit" using assms(1) by (simp add: window_ok_def)
  show votes: "votes (push_vote limit now v d) = spec_vote limit (votes d) v"
    using assms(2) len
    by (auto simp: push_vote_def spec_vote_def Let_def drop_Suc less_Suc_eq_le simp del: drop_append)
  have "sum_votes (push_vote limit now v d) = (\<Sum>v \<leftarrow> votes (push_vote limit now v d). fee_multiplier_vote v)"
    using assms(1) by (cases "votes d") (auto simp: push_vote_def Let_def window_ok_def)
  moreover have "sorted_wrt (\<lambda>v w. vote_frame v < vote_frame w) (votes (push_vote limit now v d))"
    unfolding votes using sorted assms(2) by (simp add: spec_vote_def sorted_wrt_drop del: drop_append)
  ultimately show "window_ok limit (push_vote limit now v d)"
    using len by (auto simp: window_ok_def votes spec_vote_def)
  show "last_updated (push_vote limit now v d) = now"
    by (simp add: push_vote_def Let_def)
qed

lemma history_entry:
  "votes (case filter_data m f of None \<Rightarrow> new_filter_fee_data now | Some d \<Rightarrow> d) = history m f"
  by (simp add: history_def new_filter_fee_data_def split: option.splits)

lemma entry_ok:
  "fees_inv m \<Longrightarrow> window_ok (window_size m) (case filter_data m f of None \<Rightarrow> new_filter_fee_data now | Some d \<Rightarrow> d)"
  by (auto simp: fees_inv_def window_ok_new split: option.splits)

lemma add_vote_refines:
  assumes "fees_inv m"
  shows "fees_inv (fst (add_frame_fee_vote m now f n x)) \<and>
    history (fst (add_frame_fee_vote m now f n x)) =
      (history m)(f := spec_vote (window_size m) (history m f) \<lparr>vote_frame = n, fee_multiplier_vote = x\<rparr>) \<and>
    snd (add_frame_fee_vote m now f n x) = (if newer (history m f) n then Ok () else Err InvalidArgument)"
proof -
  let ?d = "case filter_data m f of None \<Rightarrow> new_filter_fee_data now | Some d \<Rightarrow> d"
  let ?v = "\<lparr>vote_frame = n, fee_multiplier_vote = x\<rparr>"
  have old: "votes ?d \<noteq> [] \<and> n \<le> vote_frame (last (votes ?d)) \<longleftrightarrow> \<not> newer (history m f) n"
    by (auto simp: history_entry newer_def)
  show ?thesis
  proof (cases "newer (history m f) n")
    case True
    then have add: "add_frame_fee_vote m now f n x =
        (m\<lparr>filter_data := (filter_data m)(f \<mapsto> push_vote (window_size m) now ?v ?d)\<rparr>, Ok ())"
      using old by (simp add: add_frame_fee_vote_def Let_def)
    have "window_ok (window_size m) (push_vote (window_size m) now ?v ?d)"
      "votes (push_vote (window_size m) now ?v ?d) = spec_vote (window_size m) (history m f) ?v"
      using push_vote_spec(1,2) [OF entry_ok [OF assms, where f = f and now = now], of ?v now] True
      by (simp_all add: history_entry)
    then show ?thesis
      using assms True unfolding add by (auto simp: fees_inv_update history_def fun_eq_iff)
  next
    case False
    then have add: "add_frame_fee_vote m now f n x =
        (m\<lparr>filter_data := (filter_data m)(f \<mapsto> ?d)\<rparr>, Err InvalidArgument)"
      using old by (simp add: add_frame_fee_vote_def Let_def)
    show ?thesis
      using fees_inv_update [OF assms entry_ok [OF assms]] False unfolding add
      by (auto simp: spec_vote_def fun_eq_iff history_def new_filter_fee_data_def split: option.splits)
  qed
qed

lemma take_position_filter:
  assumes "sorted_wrt (\<lambda>v w. vote_frame v < vote_frame w) h"
  shows "take (case position (\<lambda>v. n < vote_frame v) h of None \<Rightarrow> length h | Some i \<Rightarrow> i) h = spec_rewind h n"
  using assms
proof (induction h)
  case (Cons v h)
  show ?case
  proof (cases "n < vote_frame v")
    case True
    then have "filter (\<lambda>v. vote_frame v \<le> n) h = []"
      using Cons.prems by (fastforce simp: filter_empty_conv)
    with True show ?thesis by (simp add: spec_rewind_def)
  next
    case False
    with Cons show ?thesis by (auto simp: spec_rewind_def split: option.splits)
  qed
qed (simp add: spec_rewind_def)

lemma foldl_minus_votes:
  "foldl (\<lambda>s v. s - fee_multiplier_vote v) s vs = s - (\<Sum>v \<leftarrow> vs. fee_multiplier_vote v)"
  by (induction vs arbitrary: s) (simp_all add: algebra_simps)

lemma rewind_refines:
  assumes "fees_inv m"
  shows "fees_inv (fst (rewind_to_frame m f n)) \<and>
    history (fst (rewind_to_frame m f n)) = (history m)(f := spec_rewind (history m f) n) \<and>
    snd (rewind_to_frame m f n) = Ok (length (history m f) - length (spec_rewind (history m f) n))"
proof (cases "filter_data m f")
  case None
  then show ?thesis
    using assms by (auto simp: rewind_to_frame_def history_def spec_rewind_def fun_eq_iff)
next
  case (Some d)
  define k where "k = (case position (\<lambda>v. n < vote_frame v) (votes d) of None \<Rightarrow> length (votes d) | Some i \<Rightarrow> i)"
  have ok: "window_ok (window_size m) d" using assms Some by (rule fees_inv_lookup)
  then have kept: "take k (votes d) = spec_rewind (votes d) n"
    unfolding k_def by (intro take_position_filter) (simp add: window_ok_def)
  have k: "k \<le> length (votes d)"
    by (auto simp: k_def split: option.splits dest: position_Some)
  then have count: "length (spec_rewind (votes d) n) = k"
    unfolding kept [symmetric] by simp
  let ?d = "d\<lparr>sum_votes := foldl (\<lambda>s v. s - fee_multiplier_vote v) (sum_votes d) (drop k (votes d)),
               votes := take k (votes d)\<rparr>"
  have total: "(\<Sum>v \<leftarrow> votes d. fee_multiplier_vote v) =
      (\<Sum>v \<leftarrow> take k (votes d). fee_multiplier_vote v) + (\<Sum>v \<leftarrow> drop k (votes d). fee_multiplier_vote v)"
    by (simp flip: sum_list_append map_append)
  have "window_ok (window_size m) ?d"
    using ok total by (auto simp: window_ok_def foldl_minus_votes sorted_wrt_take)
  moreover have "rewind_to_frame m f n =
      (if length (votes d) - k = 0 then (m, Ok 0)
       else (m\<lparr>filter_data := (filter_data m)(f \<mapsto> ?d)\<rparr>, Ok (length (votes d) - k)))"
    using Some by (auto simp: rewind_to_frame_def k_def Let_def)
  moreover have "history m f = votes d" using Some by (simp add: history_def)
  moreover have "length (votes d) \<le> k \<Longrightarrow> spec_rewind (votes d) n = votes d"
    using kept by simp
  ultimately show ?thesis
    using assms count kept by (auto simp: fees_inv_update history_def fun_eq_iff Some)
qed

lemma prune_refines:
  assumes "fees_inv m"
  shows "fees_inv (fst (prune_old_data m now age)) \<and>
    history (fst (prune_old_data m now age)) = (\<lambda>f.
      case filter_data m f of None \<Rightarrow> []
      | Some d \<Rightarrow> if unat age \<le> now \<and> last_updated d < now - unat age then [] else history m f)"
  using assms
  by (auto simp: prune_old_data_def fees_inv_def history_def fun_eq_iff split: option.splits if_splits)

lemma mean_refines:
  "fees_inv m \<Longrightarrow> get_next_fee_multiplier m f = Ok (spec_mean (history m f))"
  by (auto simp: get_next_fee_multiplier_def spec_mean_def history_def fees_inv_def window_ok_def
      split: option.splits)

lemma fees_inv_init: "fees_inv (new_fee_manager n)"
  by (simp add: fees_inv_def new_fee_manager_def)

lemma add_vote_limit [simp]: "window_size (fst (add_frame_fee_vote m now f n x)) = window_size m"
  by (simp add: add_frame_fee_vote_def Let_def)

lemma rewind_limit [simp]: "window_size (fst (rewind_to_frame m f n)) = window_size m"
  by (simp add: rewind_to_frame_def Let_def split: option.splits)

lemma history_sorted:
  "fees_inv m \<Longrightarrow> sorted_wrt (\<lambda>v w. vote_frame v < vote_frame w) (history m f)"
  by (auto simp: history_def fees_inv_def window_ok_def split: option.splits)

subsection \<open>The contract of a fee manager\<close>

text \<open>
  The trait \<^verbatim>\<open>DynamicFeeManager\<close> of \<^verbatim>\<open>quil-types\<close> with the laws its callers
  rely on. A reorganisation rewinds the frames it drops and votes for the new ones: rewinding below a
  vote that did not push an older one out undoes it.
\<close>

locale dynamic_fee_manager =
  fixes inv :: "'s \<Rightarrow> bool"
    and window :: "'s \<Rightarrow> bytes \<Rightarrow> fee_vote list"
    and limit :: "'s \<Rightarrow> nat"
    and add_vote :: "'s \<Rightarrow> nat \<Rightarrow> bytes \<Rightarrow> u64 \<Rightarrow> u64 \<Rightarrow> 's \<times> unit result"
    and rewind :: "'s \<Rightarrow> bytes \<Rightarrow> u64 \<Rightarrow> 's \<times> nat result"
    and next_multiplier :: "'s \<Rightarrow> bytes \<Rightarrow> u64 result"
  assumes add_inv: "inv s \<Longrightarrow> inv (fst (add_vote s now f n x))"
    and add_window: "inv s \<Longrightarrow> window (fst (add_vote s now f n x)) =
      (window s)(f := spec_vote (limit s) (window s f) \<lparr>vote_frame = n, fee_multiplier_vote = x\<rparr>)"
    and rewind_inv: "inv s \<Longrightarrow> inv (fst (rewind s f n))"
    and rewind_window: "inv s \<Longrightarrow> window (fst (rewind s f n)) = (window s)(f := spec_rewind (window s f) n)"
    and next_mean: "inv s \<Longrightarrow> next_multiplier s f = Ok (spec_mean (window s f))"
    and window_sorted: "inv s \<Longrightarrow> sorted_wrt (\<lambda>v w. vote_frame v < vote_frame w) (window s f)"
begin

lemma rewind_undoes_vote:
  assumes "inv s" "newer (window s f) n" "length (window s f) < limit s"
    and "k < n" "window s f \<noteq> [] \<longrightarrow> vote_frame (last (window s f)) \<le> k"
  shows "window (fst (rewind (fst (add_vote s now f n x)) f k)) = window s"
proof -
  have "vote_frame v \<le> k" if "v \<in> set (window s f)" for v
  proof (cases "window s f" rule: rev_cases)
    case (snoc vs w)
    then show ?thesis
      using that window_sorted [OF assms(1), of f] assms(5)
      by (auto simp: sorted_wrt_append dest: less_imp_le intro: order_trans)
  qed (use that in simp)
  then have "filter (\<lambda>v. vote_frame v \<le> k) (window s f) = window s f"
    by (simp add: filter_id_conv)
  then show ?thesis
    using assms
    by (auto simp: rewind_window add_inv add_window spec_vote_def spec_rewind_def fun_eq_iff)
qed

lemma next_after_undo:
  assumes "inv s" "newer (window s f) n" "length (window s f) < limit s"
    and "k < n" "window s f \<noteq> [] \<longrightarrow> vote_frame (last (window s f)) \<le> k"
  shows "next_multiplier (fst (rewind (fst (add_vote s now f n x)) f k)) g = next_multiplier s g"
  using rewind_undoes_vote [OF assms] assms(1) by (simp add: next_mean rewind_inv add_inv)

end

interpretation fees: dynamic_fee_manager fees_inv history window_size add_frame_fee_vote
  rewind_to_frame get_next_fee_multiplier
  by unfold_locales (simp_all add: add_vote_refines rewind_refines mean_refines history_sorted)

text \<open>C16. The fee manager implements the window of votes. From a new manager on, every vote,
  rewind and prune keeps the running sum equal to the sum of the votes (modulo the word
  size), the frames strictly ascending and the window within its size, at most 360; a vote
  is accepted exactly when its frame is newer than the last and then keeps the newest votes, a
  rewind keeps exactly the votes up to the frame and reports how many it dropped, and
  the next multiplier is the mean of the votes kept, or 100 when there are none.\<close>

theorem fee_window_refines:
  assumes "fees_inv m"
  shows
    "fees_inv (new_fee_manager w) \<and> history (new_fee_manager w) f = [] \<and>
     fees_inv (fst (add_frame_fee_vote m now f n x)) \<and>
     history (fst (add_frame_fee_vote m now f n x)) f =
       spec_vote (window_size m) (history m f) \<lparr>vote_frame = n, fee_multiplier_vote = x\<rparr> \<and>
     (snd (add_frame_fee_vote m now f n x) = Ok () \<longleftrightarrow> newer (history m f) n) \<and>
     fees_inv (fst (rewind_to_frame m f n)) \<and>
     history (fst (rewind_to_frame m f n)) f = spec_rewind (history m f) n \<and>
     snd (rewind_to_frame m f n)
       = Ok (length (history m f) - length (spec_rewind (history m f) n)) \<and>
     fees_inv (fst (prune_old_data m now age)) \<and>
     history (fst (prune_old_data m now age)) f \<in> {[], history m f} \<and>
     get_next_fee_multiplier m f = Ok (spec_mean (history m f)) \<and>
     length (history m f) \<le> 360"
proof -
  have "length (history m f) \<le> 360"
    using assms
    by (fastforce simp: history_def fees_inv_def window_ok_def MAX_WINDOW_SIZE_def split: option.splits)
  moreover have "history (fst (prune_old_data m now age)) f \<in> {[], history m f}"
    using prune_refines [OF assms] by (auto simp: history_def split: option.splits)
  moreover have "history (new_fee_manager w) f = []"
    by (simp add: history_def new_fee_manager_def)
  ultimately show ?thesis
    using add_vote_refines [OF assms] rewind_refines [OF assms] prune_refines [OF assms]
    by (simp add: fees_inv_init mean_refines [OF assms])
qed

definition demo_fees :: fee_manager where
  "demo_fees = fst (add_frame_fee_vote (fst (add_frame_fee_vote (new_fee_manager 2) 0 [1] 5 90)) 0 [1] 7 110)"

lemma demo_fees_inv: "fees_inv demo_fees"
  unfolding demo_fees_def by (intro fees.add_inv fees_inv_init)

lemma demo_fees_history:
  "history demo_fees [1] = [\<lparr>vote_frame = 5, fee_multiplier_vote = 90\<rparr>,
                            \<lparr>vote_frame = 7, fee_multiplier_vote = 110\<rparr>]"
  by (simp add: demo_fees_def history_def add_frame_fee_vote_def new_fee_manager_def push_vote_def
      new_filter_fee_data_def MAX_WINDOW_SIZE_def)

lemma fee_window_refines_witness:
  "history (fst (add_frame_fee_vote demo_fees 0 [1] 9 100)) [1] =
     [\<lparr>vote_frame = 7, fee_multiplier_vote = 110\<rparr>, \<lparr>vote_frame = 9, fee_multiplier_vote = 100\<rparr>] \<and>
   get_next_fee_multiplier demo_fees [1] = Ok 100 \<and>
   snd (rewind_to_frame demo_fees [1] 5) = Ok 1"
proof -
  have "window_size demo_fees = 2"
    by (simp add: demo_fees_def new_fee_manager_def MAX_WINDOW_SIZE_def)
  then show ?thesis
    using fee_window_refines [OF demo_fees_inv, of 0 "[1]" 0 9 100 0]
      fee_window_refines [OF demo_fees_inv, of 0 "[1]" 0 5 100 0]
    by (simp add: demo_fees_history spec_vote_def newer_def spec_mean_def spec_rewind_def)
qed
subsection \<open>The adjustment stays within ten percent\<close>

lemma traffic_percent_range:
  assumes "0 < target" "0 \<le> distance" "distance \<le> 2 ^ 56"
  shows "0 \<le> traffic_percent distance target \<and> traffic_percent distance target \<le> 10"
proof -
  have "wrap_i64 (wrap_i64 distance * 100) = distance * 100"
    using assms(2,3) by (simp add: wrap_i64_id)
  then show ?thesis
    using assms by (simp add: traffic_percent_def MAX_ADJUSTMENT_PERCENT_def pos_imp_zdiv_nonneg_iff)
qed

lemma adjustment_bound:
  assumes "0 \<le> p" "p \<le> 10" "unat base * 10 < 2 ^ 64"
  shows "unat (base * word_of_int p div 100 :: u64) \<le> unat base div 10"
proof -
  have "unat (word_of_int p :: u64) = nat p"
    using assms(1,2) by (simp add: unat_eq_nat_uint uint_word_of_int_eq take_bit_int_eq_self)
  moreover have "unat base * nat p \<le> unat base * 10"
    using assms(1,2) by (intro mult_le_mono2) simp
  ultimately have "unat (base * word_of_int p :: u64) = unat base * nat p"
    using le_less_trans [OF _ assms(3)] by (simp add: unat_word_ariths del: mult_le_cancel1)
  then have "unat (base * word_of_int p div 100 :: u64) = unat base * nat p div 100"
    by (simp add: unat_div)
  also have "\<dots> \<le> unat base * 10 div 100"
    using \<open>unat base * nat p \<le> unat base * 10\<close> by (rule div_le_mono)
  finally show ?thesis by simp
qed

lemma adjust_fee_within_tenth:
  assumes "0 < ideal_frame_time_ms c" "uint (ideal_frame_time_ms c) \<le> 2 ^ 55"
    and "\<bar>current - previous\<bar> \<le> 2 ^ 55" "unat base * 10 < 2 ^ 64"
  shows "\<exists>r. adjust_fee_for_traffic c base current previous greedy = Ok r \<and>
    (\<not> greedy \<longrightarrow> r = base) \<and>
    (greedy \<longrightarrow> 1 \<le> unat r \<and> unat base - unat base div 10 \<le> unat r \<and>
       unat r \<le> max 1 (unat base + unat base div 10) \<and>
       (current - previous \<le> uint (ideal_frame_time_ms c) \<longrightarrow> unat r \<le> max 1 (unat base)) \<and>
       (uint (ideal_frame_time_ms c) \<le> current - previous \<longrightarrow> unat base \<le> unat r))"
proof -
  let ?T = "uint (ideal_frame_time_ms c)" and ?d = "current - previous"
  have T: "target_frame_time_ms c = ?T" "0 < ?T"
    using assms(1,2) by (simp_all add: target_frame_time_ms_def i64_max_def word_less_def)
  have d: "wrap_i64 ?d = ?d"
    using assms(3) by (intro wrap_i64_id) simp_all
  show ?thesis
  proof (cases "\<not> greedy \<or> base = 0")
    case True
    then show ?thesis by (auto simp: adjust_fee_for_traffic_def)
  next
    case False
    then have base: "greedy" "0 < unat base" by (simp_all add: unat_gt_0)
    consider (faster) "?d < ?T" | (slower) "?T < ?d" | (equal) "?d = ?T" by linarith
    then show ?thesis
    proof cases
      case faster
      define a where "a = base * word_of_int (traffic_percent (?T - ?d) ?T) div 100"
      have a: "unat a \<le> unat base div 10"
        unfolding a_def using traffic_percent_range [OF T(2), of "?T - ?d"] faster assms(2-4)
        by (intro adjustment_bound) auto
      have "adjust_fee_for_traffic c base current previous greedy = Ok (max (saturating_sub base a) 1)"
        using faster False T by (simp add: adjust_fee_for_traffic_def d Let_def a_def)
      moreover have "unat (max (saturating_sub base a) 1) = max (unat base - unat a) 1"
        by (simp add: max_def word_le_nat_alt unat_saturating_sub)
      ultimately show ?thesis using faster base a by auto
    next
      case slower
      define a where "a = base * word_of_int (traffic_percent (?d - ?T) ?T) div 100"
      have a: "unat a \<le> unat base div 10"
        unfolding a_def using traffic_percent_range [OF T(2), of "?d - ?T"] slower assms(2-4) T(2)
        by (intro adjustment_bound) auto
      have "adjust_fee_for_traffic c base current previous greedy = Ok (saturating_add base a)"
        using slower False T by (simp add: adjust_fee_for_traffic_def d Let_def a_def)
      moreover have "unat (saturating_add base a) = unat base + unat a"
        using a assms(4) by (simp add: unat_saturating_add)
      ultimately show ?thesis using slower base a by auto
    next
      case equal
      then have "wrap_i64 ?T = ?T" using d by simp
      with equal False T(1) have "adjust_fee_for_traffic c base current previous greedy = Ok base"
        by (simp add: adjust_fee_for_traffic_def Let_def)
      with base show ?thesis by auto
    qed
  qed
qed

lemma traffic_adjustment_bounded_100:
  assumes "0 < ideal_frame_time_ms c" "uint (ideal_frame_time_ms c) \<le> 2 ^ 55"
    and "\<bar>current - previous\<bar> \<le> 2 ^ 55"
  shows "\<exists>r. adjust_fee_for_traffic c 100 current previous greedy = Ok r \<and> 90 \<le> unat r \<and> unat r \<le> 110"
  using adjust_fee_within_tenth [OF assms, of 100 greedy] by (cases greedy) auto

text \<open>The traffic adjustment always returns and is mild: with a positive frame interval and no
  overflow of the arithmetic, a vote differs from the mean of the window by at most a tenth of
  it and is at least 1; frames faster than the interval never raise it, slower ones never lower
  it, and a node that is not reward-greedy votes the mean itself.\<close>

theorem traffic_adjustment_bounded:
  assumes "0 < ideal_frame_time_ms c" "uint (ideal_frame_time_ms c) \<le> 2 ^ 55"
    and "\<bar>current - previous\<bar> \<le> 2 ^ 55" "unat base * 10 < 2 ^ 64"
  shows "\<exists>r. adjust_fee_for_traffic c base current previous greedy = Ok r \<and>
    (\<not> greedy \<longrightarrow> r = base) \<and>
    (greedy \<longrightarrow> 1 \<le> unat r \<and> unat base - unat base div 10 \<le> unat r \<and>
       unat r \<le> max 1 (unat base + unat base div 10) \<and>
       (current - previous \<le> uint (ideal_frame_time_ms c) \<longrightarrow> unat r \<le> max 1 (unat base)) \<and>
       (uint (ideal_frame_time_ms c) \<le> current - previous \<longrightarrow> unat base \<le> unat r))"
  using assms by (rule adjust_fee_within_tenth)

lemma traffic_adjustment_bounded_witness:
  "\<exists>r. adjust_fee_for_traffic initial_clock 100 9000 0 True = Ok r \<and> 90 \<le> unat r \<and> unat r \<le> 100"
  using traffic_adjustment_bounded [of initial_clock 9000 0 100 True]
  by (auto simp: IDEAL_FRAME_TIME_MS_def word_less_nat_alt)

subsection \<open>Honest votes are valid\<close>

lemma vote_bounds [simp]: "MIN_FEE_MULTIPLIER_VOTE = 90" "MAX_FEE_MULTIPLIER_VOTE = 110"
  by (simp_all add: MIN_FEE_MULTIPLIER_VOTE_def MAX_FEE_MULTIPLIER_VOTE_def
      DEFAULT_FEE_MULTIPLIER_def MAX_ADJUSTMENT_PERCENT_def)

lemma in_bounds_iff: "fee_vote_in_bounds v \<longleftrightarrow> 90 \<le> unat v \<and> unat v \<le> 110"
  by (simp add: fee_vote_in_bounds_def word_le_nat_alt)

text \<open>What a leader proposes passes what members check. The vote computed from an empty window
  lies in 90..110, so clamping leaves it alone; and whatever the vote, the clamped one is accepted
  by every member that judges the frame by the same GLOBAL frame, while a vote outside the
  bounds is refused exactly where the bounds are in force.\<close>

theorem proposed_votes_accepted:
  assumes "0 < ideal_frame_time_ms c" "uint (ideal_frame_time_ms c) \<le> 2 ^ 55"
    and "\<bar>current - previous\<bar> \<le> 2 ^ 55" "history m f = []" "fees_inv m"
  shows "(\<exists>r. compute_fee_multiplier_vote c m f current previous greedy = Ok r \<and>
             proposer_fee_vote c gs anchor r = r) \<and>
    check_fee_vote c gs frame_number anchor (proposer_fee_vote c gs anchor vote) = Ok () \<and>
    (check_fee_vote c gs frame_number anchor vote = Err InvalidArgument \<longleftrightarrow>
       fee_vote_bounded_at c gs anchor \<and> (unat vote < 90 \<or> 110 < unat vote))"
proof (intro conjI)
  have "get_next_fee_multiplier m f = Ok 100"
    using mean_refines [OF assms(5), of f] assms(4) by (simp add: spec_mean_def DEFAULT_FEE_MULTIPLIER_def)
  then have vote: "compute_fee_multiplier_vote c m f current previous greedy
      = adjust_fee_for_traffic c 100 current previous greedy"
    by (simp add: compute_fee_multiplier_vote_def)
  obtain r where r: "adjust_fee_for_traffic c 100 current previous greedy = Ok r"
    "90 \<le> unat r" "unat r \<le> 110"
    using traffic_adjustment_bounded_100 [OF assms(1-3), of greedy] by blast
  then have "proposer_fee_vote c gs anchor r = r"
    by (simp add: proposer_fee_vote_def word_less_nat_alt)
  with vote r(1) show "\<exists>r. compute_fee_multiplier_vote c m f current previous greedy = Ok r \<and>
      proposer_fee_vote c gs anchor r = r" by simp
qed (auto simp: check_fee_vote_def proposer_fee_vote_def in_bounds_iff word_less_nat_alt)

lemma proposed_votes_accepted_witness:
  "(\<exists>r. compute_fee_multiplier_vote initial_clock (new_fee_manager 10) [1] 9000 0 True = Ok r \<and>
        proposer_fee_vote initial_clock (gate_set_for_thread fee_vote_bound (Some 3) fresh_gates) 5 r = r) \<and>
   check_fee_vote initial_clock (gate_set_for_thread fee_vote_bound (Some 3) fresh_gates) 1 5 0
     = Err InvalidArgument"
proof -
  let ?gs = "gate_set_for_thread fee_vote_bound (Some 3) fresh_gates"
  have "fee_vote_bounded_at initial_clock ?gs 5"
    by (simp add: fee_vote_bounded_at_def gate_holds_iff gate_read_def gate_set_for_thread_def
        fee_vote_bound_def u64_max_def word_le_nat_alt)
  moreover have "history (new_fee_manager 10) [1] = []"
    by (simp add: history_def new_fee_manager_def)
  ultimately show ?thesis
    using proposed_votes_accepted [of initial_clock 9000 0 "new_fee_manager 10" "[1]" True ?gs 5 1 0]
      fees_inv_init [of 10]
    by (simp add: IDEAL_FRAME_TIME_MS_def word_less_nat_alt)
qed

end
