(* ===== verification/Difficulty.thy ===== *)
theory Difficulty
  imports Prelude
begin

text \<open>
  The ASERT difficulty adjuster of \<^verbatim>\<open>quil-engine/src/difficulty.rs\<close>: an exponential of the
  distance between the time that passed since an anchor frame and the time the frames should
  have taken, in sixteen-bit fixed point. Signed values are integers reduced by \<open>wrap_i64\<close> where the
  code's operators wrap; unsigned ones are words.
\<close>

definition IDEAL_FRAME_TIME :: int where "IDEAL_FRAME_TIME = 10000"
definition HALF_LIFE :: int where "HALF_LIFE = 7200000"
definition MIN_DIFFICULTY :: u64 where "MIN_DIFFICULTY = 50000"
definition BOOTSTRAP_DIFFICULTY :: u64 where "BOOTSTRAP_DIFFICULTY = 50000"
definition RADIX :: int where "RADIX = 65536"

record asert_adjuster =
  anchor_frame_number :: u64
  anchor_parent_time :: int
  anchor_difficulty :: u32

definition asert_exponent :: "asert_adjuster \<Rightarrow> u64 \<Rightarrow> int \<Rightarrow> int" where
  "asert_exponent a current_frame_number current_time =
     (let frame_number_delta =
            wrap_i64 (sint current_frame_number - sint (anchor_frame_number a));
          time_delta = wrap_i64 (current_time - anchor_parent_time a);
          ideal_x_delta = wrap_i64 (IDEAL_FRAME_TIME * wrap_i64 (frame_number_delta + 1));
          inner = wrap_i64 (time_delta - ideal_x_delta);
          numerator = wrap_i64 (- wrap_i64 (inner * RADIX))
      in bigint_quot numerator HALF_LIFE)"

definition asert_factor :: "u64 \<Rightarrow> u64" where
  "asert_factor frac =
     (let poly = 195766423245049 * frac + 971821376 * frac * frac + 5127 * frac * frac * frac
                 + push_bit 47 1
      in 65536 + drop_bit 48 poly)"

text \<open>
  The integer part of the exponent is the arithmetic shift right by sixteen, the fraction its low
  sixteen bits. A left shift drops the bits that leave the word.
\<close>

definition apply_shifts :: "int \<Rightarrow> u64 \<Rightarrow> u64 option" where
  "apply_shifts shifts scaled =
     (if shifts < 0 then
        let k = nat (- shifts mod 4294967296) in if 64 \<le> k then Some 0 else Some (drop_bit k scaled)
      else if 48 < shifts then None
      else Some (push_bit (nat shifts) scaled))"

definition get_next_difficulty :: "asert_adjuster \<Rightarrow> u64 \<Rightarrow> int \<Rightarrow> u64" where
  "get_next_difficulty a current_frame_number current_time =
     (if anchor_difficulty a = 0 then BOOTSTRAP_DIFFICULTY
      else
        let exponent = asert_exponent a current_frame_number current_time;
            shifts = exponent div 65536;
            frac = word_of_int (exponent mod 65536);
            scaled = ucast (anchor_difficulty a) * asert_factor frac
        in case apply_shifts shifts scaled of
             None \<Rightarrow> u64_max
           | Some s \<Rightarrow> let s' = drop_bit 16 s in if s' < MIN_DIFFICULTY then MIN_DIFFICULTY else s')"
subsection \<open>The fixed-point exponential\<close>

definition asert_poly :: "nat \<Rightarrow> nat" where
  "asert_poly f = 195766423245049 * f + 971821376 * f * f + 5127 * f * f * f + 140737488355328"

lemma asert_poly_mono: "f \<le> g \<Longrightarrow> asert_poly f \<le> asert_poly g"
  by (simp add: asert_poly_def add_mono mult_le_mono)

lemma asert_poly_bound: "f < 65536 \<Longrightarrow> asert_poly f < 18446744073709551616"
proof -
  assume "f < 65536"
  then have "asert_poly f \<le> asert_poly 65535" by (intro asert_poly_mono) simp
  also have "\<dots> < 18446744073709551616" by (simp add: asert_poly_def)
  finally show ?thesis .
qed

lemma unat_asert_factor:
  assumes "f < 65536"
  shows "unat (asert_factor (of_nat f)) = 65536 + asert_poly f div 281474976710656"
proof -
  have "195766423245049 * of_nat f + 971821376 * of_nat f * of_nat f
      + 5127 * of_nat f * of_nat f * of_nat f + push_bit 47 1 = (of_nat (asert_poly f) :: u64)"
    by (simp add: asert_poly_def push_bit_eq_mult)
  moreover have "unat (of_nat (asert_poly f) :: u64) = asert_poly f"
    using asert_poly_bound [OF assms] by (simp add: unat_of_nat take_bit_nat_eq_self)
  moreover have "asert_poly f div 281474976710656 < 65536"
    using asert_poly_bound [OF assms] by (simp add: div_less_iff_less_mult)
  ultimately show ?thesis
    by (simp add: asert_factor_def Let_def unat_word_ariths unat_drop_bit_eq drop_bit_eq_div)
qed

lemma asert_factor_range:
  assumes "f < 65536"
  shows "65536 \<le> unat (asert_factor (of_nat f))" "unat (asert_factor (of_nat f)) < 131072"
  using asert_poly_bound [OF assms] by (simp_all add: unat_asert_factor [OF assms] div_less_iff_less_mult)

lemma asert_factor_mono:
  "f \<le> g \<Longrightarrow> g < 65536 \<Longrightarrow> unat (asert_factor (of_nat f)) \<le> unat (asert_factor (of_nat g))"
  by (simp add: unat_asert_factor div_le_mono asert_poly_mono)

lemma asert_factor_0 [simp]: "asert_factor 0 = 65536"
  by (simp add: asert_factor_def)
subsection \<open>The difficulty without the word size\<close>

text \<open>What the formula computes on unbounded numbers, for an anchor difficulty and an exponent.\<close>

definition asert_reference :: "nat \<Rightarrow> int \<Rightarrow> nat" where
  "asert_reference d e =
     (let s = e div 65536; F = 65536 + asert_poly (nat (e mod 65536)) div 281474976710656 in
      if 0 \<le> s then d * F * 2 ^ nat s div 65536 else d * F div 2 ^ (16 + nat (- s)))"

lemma floor_parts: "e = 65536 * (e div 65536) + e mod 65536" "0 \<le> e mod 65536" "e mod 65536 < (65536 :: int)"
  by simp_all

lemma div_less_of_less_mult: "e < 65536 * m \<Longrightarrow> e div 65536 < (m :: int)"
  using floor_parts [of e] by linarith

lemma fraction_cases:
  obtains n where "e mod 65536 = int n" "n < 65536"
proof
  show "e mod 65536 = int (nat (e mod 65536))" by simp
  show "nat (e mod 65536) < 65536" using pos_mod_bound [of 65536 e] by simp
qed

lemma unat_asert_factor_fraction:
  "unat (asert_factor (word_of_int (e mod 65536)))
     = 65536 + asert_poly (nat (e mod 65536)) div 281474976710656"
proof -
  obtain n where n: "e mod 65536 = int n" "n < 65536" by (rule fraction_cases)
  show ?thesis unfolding n(1) using unat_asert_factor [OF n(2)] by simp
qed

lemma asert_F_range: "65536 + asert_poly (nat (e mod 65536)) div 281474976710656 < 131072"
proof -
  obtain n where n: "e mod 65536 = int n" "n < 65536" by (rule fraction_cases)
  show ?thesis unfolding n(1) using asert_poly_bound [OF n(2)] by (simp add: div_less_iff_less_mult)
qed

lemma unat_ucast_u32 [simp]: "unat (ucast (d :: u32) :: u64) = unat d"
  by (simp add: unsigned_ucast_eq take_bit_nat_eq_self less_trans [OF unat_u32_bound])

lemma unat_scaled:
  "unat (ucast (d :: u32) * asert_factor (word_of_int (e mod 65536)))
     = unat d * (65536 + asert_poly (nat (e mod 65536)) div 281474976710656)"
proof -
  define F where "F = 65536 + asert_poly (nat (e mod 65536)) div 281474976710656"
  define w where "w = asert_factor (word_of_int (e mod 65536))"
  have w: "unat w = F" unfolding w_def F_def by (rule unat_asert_factor_fraction)
  have "F < 131072" unfolding F_def by (rule asert_F_range)
  then have "unat d * F < 4294967296 * 131072"
    using unat_u32_bound [of d] by (intro mult_strict_mono) simp_all
  then have "unat (ucast d * w) = unat d * F"
    by (simp add: unat_word_ariths w)
  then show ?thesis by (simp only: w_def F_def)
qed

lemma get_next_difficulty_exact:
  assumes "anchor_difficulty a \<noteq> 0" "asert_exponent a n t = e"
    and "- 140737488355328 < e" "e < 65536 * int k" "unat (anchor_difficulty a) * 2 ^ (16 + k) < 2 ^ 64"
  shows "unat (get_next_difficulty a n t) = max 50000 (asert_reference (unat (anchor_difficulty a)) e)"
proof -
  let ?d = "anchor_difficulty a"
  define s where "s = e div 65536"
  define F where "F = 65536 + asert_poly (nat (e mod 65536)) div 281474976710656"
  define w where "w = (ucast ?d :: u64) * asert_factor (word_of_int (e mod 65536))"
  have w: "unat w = unat ?d * F" and F: "F < 131072"
    unfolding w_def F_def by (rule unat_scaled, rule asert_F_range)
  have d: "0 < unat ?d" using assms(1) by (simp add: unat_gt_0)
  have "\<exists>r. apply_shifts s w = Some r \<and> unat (drop_bit 16 r) = asert_reference (unat ?d) e"
  proof (cases "0 \<le> s")
    case True
    have "s < int k" using assms(4) unfolding s_def by (rule div_less_of_less_mult)
    then have pow: "2 ^ Suc (nat s) \<le> (2 ^ k :: nat)"
      using True by (intro power_increasing) auto
    have "F * 2 ^ nat s < 131072 * 2 ^ nat s" using F by simp
    also have "\<dots> = 65536 * 2 ^ Suc (nat s)" by simp
    also have "\<dots> \<le> 65536 * 2 ^ k" using pow by (rule mult_le_mono2)
    also have "\<dots> = 2 ^ (16 + k)" by (simp add: power_add)
    finally have sk: "F * 2 ^ nat s < 2 ^ (16 + k)" .
    have "2 ^ (16 + k) \<le> unat ?d * 2 ^ (16 + k)" using d by simp
    then have "2 ^ (16 + k) < (2 ^ 64 :: nat)" using assms(5) by (rule le_less_trans)
    then have "16 + k < 64" by (rule power_less_imp_less_exp [rotated]) simp
    then have "s \<le> 48" using \<open>s < int k\<close> by simp
    moreover have "unat (push_bit (nat s) w) = unat ?d * F * 2 ^ nat s"
    proof -
      have "unat ?d * (F * 2 ^ nat s) < unat ?d * 2 ^ (16 + k)"
        using sk d by (rule mult_strict_left_mono)
      also note assms(5)
      finally have "unat ?d * F * 2 ^ nat s < 2 ^ 64" by (simp only: mult.assoc)
      then show ?thesis
        unfolding unsigned_push_bit_eq w by (simp add: push_bit_eq_mult take_bit_nat_eq_self)
    qed
    ultimately show ?thesis
      using True by (simp add: apply_shifts_def asert_reference_def drop_bit_eq_div unat_div
          Let_def flip: s_def F_def)
  next
    case False
    have "- s < 4294967296" using assms(3) floor_parts [of e] unfolding s_def by linarith
    then have j: "nat (- s mod 4294967296) = nat (- s)" using False by simp
    have ref: "asert_reference (unat ?d) e = unat ?d * F div 2 ^ (16 + nat (- s))"
      using False by (simp add: asert_reference_def Let_def flip: s_def F_def)
    show ?thesis
    proof (cases "64 \<le> nat (- s)")
      case True
      have "unat ?d * F < 4294967296 * 131072"
        using F unat_u32_bound [of ?d] by (intro mult_strict_mono) simp_all
      also have "4294967296 * 131072 \<le> (2 ^ 80 :: nat)" by simp
      also have "\<dots> \<le> 2 ^ (16 + nat (- s))" using True by (intro power_increasing) simp_all
      finally show ?thesis
        using True False by (simp add: apply_shifts_def Let_def j ref)
    next
      case small: False
      have "unat (drop_bit 16 (drop_bit (nat (- s)) w)) = asert_reference (unat ?d) e"
        unfolding unat_drop_bit_eq drop_bit_drop_bit w ref by (simp add: drop_bit_eq_div)
      with small False show ?thesis by (simp add: apply_shifts_def Let_def j)
    qed
  qed
  then obtain r where r: "apply_shifts s w = Some r"
    "unat (drop_bit 16 r) = asert_reference (unat ?d) e" by blast
  have "get_next_difficulty a n t = (let s' = drop_bit 16 r in if s' < 50000 then 50000 else s')"
    using assms(1) r(1)
    by (simp add: get_next_difficulty_def assms(2) Let_def MIN_DIFFICULTY_def flip: s_def w_def)
  then show ?thesis
    using r(2) by (simp add: Let_def word_less_nat_alt)
qed

subsection \<open>Difficulty against time\<close>

lemma asert_reference_pad:
  assumes "- int m \<le> e div 65536"
  shows "asert_reference d e =
    d * (65536 + asert_poly (nat (e mod 65536)) div 281474976710656) * 2 ^ nat (e div 65536 + int m)
      div 2 ^ (16 + m)"
proof -
  define s where "s = e div 65536"
  define F where "F = 65536 + asert_poly (nat (e mod 65536)) div 281474976710656"
  have "d * F * 2 ^ nat (s + int m) div 2 ^ (16 + m) =
      (if 0 \<le> s then d * F * 2 ^ nat s div 65536 else d * F div 2 ^ (16 + nat (- s)))"
  proof (cases "0 \<le> s")
    case True
    then have "nat (s + int m) = nat s + m" by simp
    then have "d * F * 2 ^ nat (s + int m) div 2 ^ (16 + m) = d * F * 2 ^ nat s * 2 ^ m div (65536 * 2 ^ m)"
      by (simp add: power_add mult.assoc)
    also have "\<dots> = d * F * 2 ^ nat s div 65536" by (rule div_mult_mult2) simp
    finally show ?thesis using True by simp
  next
    case False
    define j where "j = nat (s + int m)"
    have "16 + m = (16 + nat (- s)) + j" using False assms by (simp add: j_def s_def)
    then have "d * F * 2 ^ j div 2 ^ (16 + m) = d * F * 2 ^ j div (2 ^ (16 + nat (- s)) * 2 ^ j)"
      by (simp add: power_add)
    also have "\<dots> = d * F div 2 ^ (16 + nat (- s))" by (rule div_mult_mult2) simp
    finally show ?thesis using False by (simp add: j_def)
  qed
  then show ?thesis
    by (simp add: asert_reference_def Let_def flip: s_def F_def)
qed

lemma asert_reference_mono:
  assumes "e \<le> e'"
  shows "asert_reference d e \<le> asert_reference d e'"
proof -
  define m where "m = nat (- (e div 65536))"
  define F where "F e = 65536 + asert_poly (nat (e mod 65536)) div 281474976710656" for e
  have low: "- int m \<le> e div 65536" by (simp add: m_def)
  have div: "e div 65536 \<le> e' div 65536" using assms by (rule zdiv_mono1) simp
  have "F e * 2 ^ nat (e div 65536 + int m) \<le> F e' * 2 ^ nat (e' div 65536 + int m)"
  proof (cases "e div 65536 = e' div 65536")
    case True
    then have "e mod 65536 \<le> e' mod 65536"
      using assms floor_parts(1) [of e] floor_parts(1) [of e'] by linarith
    then have "F e \<le> F e'" by (simp add: F_def asert_poly_mono div_le_mono nat_mono)
    then show ?thesis by (simp add: True)
  next
    case False
    then have less: "nat (e div 65536 + int m) < nat (e' div 65536 + int m)"
      using div low by simp
    have "F e * 2 ^ nat (e div 65536 + int m) \<le> 131072 * 2 ^ nat (e div 65536 + int m)"
      using asert_F_range [of e] by (simp add: F_def)
    also have "\<dots> = 65536 * 2 ^ Suc (nat (e div 65536 + int m))" by simp
    also have "\<dots> \<le> 65536 * 2 ^ nat (e' div 65536 + int m)"
      using Suc_leI [OF less] by (intro mult_le_mono2 power_increasing) simp_all
    also have "\<dots> \<le> F e' * 2 ^ nat (e' div 65536 + int m)" by (simp add: F_def)
    finally show ?thesis .
  qed
  then have "d * (F e * 2 ^ nat (e div 65536 + int m)) div 2 ^ (16 + m)
      \<le> d * (F e' * 2 ^ nat (e' div 65536 + int m)) div 2 ^ (16 + m)"
    by (intro div_le_mono mult_le_mono2)
  then show ?thesis
    using div low by (simp add: asert_reference_pad [of m] F_def mult.assoc)
qed

lemma asert_reference_half_lives:
  "asert_reference d (65536 * int k) = d * 2 ^ k" "asert_reference d (- (65536 * int k)) = d div 2 ^ k"
proof -
  show "asert_reference d (65536 * int k) = d * 2 ^ k"
    by (simp add: asert_reference_def asert_poly_def)
  have "- (65536 * int k) div 65536 = - int k"
    by (metis minus_mult_right nonzero_mult_div_cancel_left zero_neq_numeral)
  moreover have "- (65536 * int k) mod 65536 = 0" by (simp add: mod_minus_eq)
  ultimately show "asert_reference d (- (65536 * int k)) = d div 2 ^ k"
    by (cases "k = 0")
      (simp_all add: asert_reference_def asert_poly_def power_add Let_def div_mult2_eq)
qed

subsection \<open>The exponent as a function of time\<close>

text \<open>The milliseconds by which a frame is late, as an exact integer.\<close>

definition lateness :: "asert_adjuster \<Rightarrow> u64 \<Rightarrow> int \<Rightarrow> int" where
  "lateness a n t =
     (t - anchor_parent_time a) - IDEAL_FRAME_TIME * (sint n - sint (anchor_frame_number a) + 1)"

definition in_range :: "asert_adjuster \<Rightarrow> u64 \<Rightarrow> int \<Rightarrow> bool" where
  "in_range a n t \<longleftrightarrow> \<bar>t - anchor_parent_time a\<bar> \<le> 2 ^ 45 \<and>
     \<bar>sint n - sint (anchor_frame_number a)\<bar> \<le> 2 ^ 30"

lemma asert_exponent_exact:
  assumes "in_range a n t"
  shows "asert_exponent a n t = bigint_quot (- (lateness a n t * 65536)) 7200000"
proof -
  define x where "x = sint n - sint (anchor_frame_number a)"
  define y where "y = t - anchor_parent_time a"
  have bounds: "- (2 ^ 30) \<le> x" "x \<le> 2 ^ 30" "- (2 ^ 45) \<le> y" "y \<le> 2 ^ 45"
    using assms by (auto simp: in_range_def x_def y_def)
  have "wrap_i64 x = x" "wrap_i64 y = y" "wrap_i64 (x + 1) = x + 1"
    "wrap_i64 (10000 * (x + 1)) = 10000 * (x + 1)"
    "wrap_i64 (y - 10000 * (x + 1)) = y - 10000 * (x + 1)"
    "wrap_i64 ((y - 10000 * (x + 1)) * 65536) = (y - 10000 * (x + 1)) * 65536"
    "wrap_i64 (- ((y - 10000 * (x + 1)) * 65536)) = - ((y - 10000 * (x + 1)) * 65536)"
    using bounds by (auto intro!: wrap_i64_id)
  then show ?thesis
    by (simp add: asert_exponent_def lateness_def IDEAL_FRAME_TIME_def HALF_LIFE_def RADIX_def Let_def
        flip: x_def y_def)
qed

lemma bigint_quot_mono:
  assumes "x \<le> y" "0 < d"
  shows "bigint_quot x d \<le> bigint_quot y d"
proof -
  consider "0 \<le> x" | "x < 0" "0 \<le> y" | "y < 0" using assms(1) by linarith
  then show ?thesis
  proof cases
    case 1
    then show ?thesis using assms by (simp add: zdiv_mono1)
  next
    case 2
    then have "bigint_quot x d \<le> 0" "0 \<le> bigint_quot y d"
      using assms(2) by (simp_all add: bigint_quot_def Let_def pos_imp_zdiv_nonneg_iff)
    then show ?thesis by (rule order_trans)
  next
    case 3
    then have "- y div d \<le> - x div d" using assms by (intro zdiv_mono1) simp_all
    with 3 assms show ?thesis by (simp add: bigint_quot_def Let_def)
  qed
qed

lemma asert_exponent_lower:
  assumes "in_range a n t"
  shows "- 140737488355328 < asert_exponent a n t"
proof -
  have "lateness a n t \<le> 2 ^ 46"
    using assms by (auto simp: in_range_def lateness_def IDEAL_FRAME_TIME_def)
  then have "bigint_quot (- (2 ^ 46 * 65536)) 7200000 \<le> asert_exponent a n t"
    unfolding asert_exponent_exact [OF assms] by (intro bigint_quot_mono) simp_all
  then show ?thesis by (simp add: bigint_quot_def)
qed

lemma next_difficulty_exact:
  assumes "anchor_difficulty a \<noteq> 0" "in_range a n t"
    and "asert_exponent a n t < 65536 * int k" "unat (anchor_difficulty a) * 2 ^ (16 + k) < 2 ^ 64"
  shows "unat (get_next_difficulty a n t)
    = max 50000 (asert_reference (unat (anchor_difficulty a)) (asert_exponent a n t))"
  using assms asert_exponent_lower [OF assms(2)] by (intro get_next_difficulty_exact) simp_all

text \<open>The adjuster follows the clock. Within a generous range of times and frames, and as long as
  the scaled difficulty fits the word, the result is exactly the exponential of the formula
  with the floor of 50,000: a frame on schedule gets the anchor's difficulty, one that is \<open>k\<close>
  half-lives late that difficulty halved \<open>k\<close> times, one that is \<open>k\<close> half-lives early the
  difficulty doubled \<open>k\<close> times; and a later frame never gets a higher difficulty.\<close>

theorem difficulty_follows_clock:
  assumes "anchor_difficulty a \<noteq> 0" "in_range a n t" "in_range a n t'"
    and "unat (anchor_difficulty a) * 2 ^ (17 + k) < 2 ^ 64" "lateness a n t = - (int k * 7200000)"
  shows "unat (get_next_difficulty a n t) = max 50000 (unat (anchor_difficulty a) * 2 ^ k) \<and>
    (\<forall>j. lateness a n t' = int j * 7200000 \<longrightarrow>
       unat (get_next_difficulty a n t') = max 50000 (unat (anchor_difficulty a) div 2 ^ j)) \<and>
    (t \<le> t' \<longrightarrow> get_next_difficulty a n t' \<le> get_next_difficulty a n t)"
proof -
  let ?d = "unat (anchor_difficulty a)"
  have e: "asert_exponent a n t = 65536 * int k"
    unfolding asert_exponent_exact [OF assms(2)] assms(5) by simp
  have fits: "?d * 2 ^ (16 + Suc k) < 2 ^ 64" using assms(4) by simp
  have now: "unat (get_next_difficulty a n t) = max 50000 (?d * 2 ^ k)"
    using next_difficulty_exact [OF assms(1,2) _ fits] by (simp add: e asert_reference_half_lives)
  have late: "unat (get_next_difficulty a n t') = max 50000 (?d div 2 ^ j)"
    if "lateness a n t' = int j * 7200000" for j
  proof -
    have e': "asert_exponent a n t' = - (65536 * int j)"
      unfolding asert_exponent_exact [OF assms(3)] that by (simp add: bigint_quot_def Let_def)
    then show ?thesis
      using next_difficulty_exact [OF assms(1,3) _ fits] by (simp add: asert_reference_half_lives)
  qed
  have "get_next_difficulty a n t' \<le> get_next_difficulty a n t" if "t \<le> t'"
  proof -
    have "asert_exponent a n t' \<le> asert_exponent a n t"
      unfolding asert_exponent_exact [OF assms(2)] asert_exponent_exact [OF assms(3)]
      using that by (intro bigint_quot_mono) (simp_all add: lateness_def)
    then have "asert_reference ?d (asert_exponent a n t') \<le> asert_reference ?d (asert_exponent a n t)"
      and below: "asert_exponent a n t' < 65536 * int (Suc k)"
      by (simp_all add: asert_reference_mono e)
    then have "max 50000 (asert_reference ?d (asert_exponent a n t'))
        \<le> max 50000 (asert_reference ?d (asert_exponent a n t))" by simp
    then show ?thesis
      using next_difficulty_exact [OF assms(1,2) _ fits] next_difficulty_exact [OF assms(1,3) below fits]
      by (simp add: e word_le_nat_alt)
  qed
  with now late show ?thesis by blast
qed

definition demo_adjuster :: asert_adjuster where
  "demo_adjuster = \<lparr>anchor_frame_number = 0, anchor_parent_time = 0, anchor_difficulty = 1048576\<rparr>"

lemma sint_small [simp]: "sint (0 :: u64) = 0" "sint (1439 :: u64) = 1439" "sint (21599 :: u64) = 21599"
  by simp_all

lemma difficulty_follows_clock_witness:
  "unat (get_next_difficulty demo_adjuster 1439 0) = 4194304 \<and>
   unat (get_next_difficulty demo_adjuster 1439 21600000) = 524288"
proof -
  have range: "in_range demo_adjuster 1439 0" "in_range demo_adjuster 1439 21600000"
    and late: "lateness demo_adjuster 1439 0 = - (int 2 * 7200000)"
      "lateness demo_adjuster 1439 21600000 = int 1 * 7200000"
    by (simp_all add: in_range_def lateness_def demo_adjuster_def IDEAL_FRAME_TIME_def)
  have anchor: "anchor_difficulty demo_adjuster \<noteq> 0" "unat (anchor_difficulty demo_adjuster) = 1048576"
    by (simp_all add: demo_adjuster_def)
  then show ?thesis
    using difficulty_follows_clock [OF anchor(1) range _ late(1)] late(2)
    by (auto simp: max_def dest!: spec [of _ 1])
qed

text \<open>The guard against overflow does not guard: below 48 shifts the code shifts the scaled
  difficulty left without checking that it fits, so an anchor difficulty of \<open>2^20\<close>
  and frames that are thirty half-lives (sixty hours) ahead of schedule give, instead of
  \<open>2^50\<close> or the maximum, the floor.\<close>

theorem early_frames_collapse_difficulty:
  "asert_reference 1048576 (asert_exponent demo_adjuster 21599 0) = 2 ^ 50 \<and>
   get_next_difficulty demo_adjuster 21599 0 = MIN_DIFFICULTY"
proof -
  have "in_range demo_adjuster 21599 0"
    by (simp add: in_range_def demo_adjuster_def)
  then have e: "asert_exponent demo_adjuster 21599 0 = 65536 * int 30"
    by (subst asert_exponent_exact) (simp_all add: lateness_def demo_adjuster_def IDEAL_FRAME_TIME_def)
  have "push_bit 30 (68719476736 :: u64) = 0"
    by (simp add: push_bit_eq_mult)
  then have "get_next_difficulty demo_adjuster 21599 0 = MIN_DIFFICULTY"
    unfolding get_next_difficulty_def e
    by (simp add: apply_shifts_def demo_adjuster_def Let_def MIN_DIFFICULTY_def word_less_nat_alt)
  moreover have "asert_reference 1048576 (asert_exponent demo_adjuster 21599 0) = 2 ^ 50"
    unfolding e asert_reference_half_lives by simp
  ultimately show ?thesis by blast
qed

end
