(* ===== verification/Vertex_Schema.thy ===== *)
theory Vertex_Schema
  imports Keyed_Store
begin

text \<open>
  The schema of the GLOBAL domain (\<^verbatim>\<open>quil-execution/src/global_schema.rs\<close>): the classes of
  vertices with the order of each field, the key a field has in the vector commitment tree
  of its vertex, and reading and writing a field. The keys of fields are one byte, the key of the
  type hash is 32 bytes: the set is prefix-free on nibble paths, so a vertex tree is a keyed
  store in the sense of \<open>Keyed_Store\<close>.
\<close>

subsection \<open>Classes and fields\<close>

datatype rdf_type = Uint | IntType | ByteArray | BoolType | StringType | OtherType

record field_tag =
  tag_name :: string
  tag_order :: nat
  tag_size :: nat
  tag_type :: rdf_type

record class_def =
  class_name :: string
  class_fields :: "field_tag list"

definition tag :: "string \<Rightarrow> nat \<Rightarrow> nat \<Rightarrow> rdf_type \<Rightarrow> field_tag" where
  "tag n ord s t = \<lparr>tag_name = n, tag_order = ord, tag_size = s, tag_type = t\<rparr>"

definition prover_class :: class_def where
  "prover_class =
     \<lparr>class_name = ''prover:Prover'', class_fields =
     [tag ''PublicKey'' 0 585 ByteArray,
      tag ''Status'' 1 1 Uint,
      tag ''AvailableStorage'' 2 8 Uint,
      tag ''Seniority'' 3 8 Uint,
      tag ''KickFrameNumber'' 4 8 Uint,
      tag ''LastSeniorityFrameNumber'' 5 8 Uint,
      tag ''RetroCredited'' 32 40 ByteArray,
      tag ''RetroMoved'' 33 40 ByteArray,
      tag ''SeniorityPenalty'' 37 8 Uint,
      tag ''SeniorityRestorationFrame'' 38 8 Uint]\<rparr>"

definition allocation_class :: class_def where
  "allocation_class =
     \<lparr>class_name = ''allocation:ProverAllocation'', class_fields =
     [tag ''Prover'' 0 32 OtherType,
      tag ''Status'' 1 1 Uint,
      tag ''ConfirmationFilter'' 2 64 ByteArray,
      tag ''RejectionFilter'' 3 64 ByteArray,
      tag ''JoinFrameNumber'' 4 8 Uint,
      tag ''LeaveFrameNumber'' 5 8 Uint,
      tag ''PauseFrameNumber'' 6 8 Uint,
      tag ''ResumeFrameNumber'' 7 8 Uint,
      tag ''KickFrameNumber'' 8 8 Uint,
      tag ''JoinConfirmFrameNumber'' 9 8 Uint,
      tag ''JoinRejectFrameNumber'' 10 8 Uint,
      tag ''LeaveConfirmFrameNumber'' 11 8 Uint,
      tag ''LeaveRejectFrameNumber'' 12 8 Uint,
      tag ''LastActiveFrameNumber'' 13 8 Uint,
      tag ''Epoch'' 14 8 Uint,
      tag ''Ring'' 15 1 Uint,
      tag ''RingEpoch'' 16 8 Uint,
      tag ''RingSeniority'' 17 8 Uint,
      tag ''LastSignedFrameNumber'' 18 8 Uint,
      tag ''Release'' 19 6 ByteArray,
      tag ''LeavePenaltyFrameNumber'' 34 8 Uint,
      tag ''AbsentFrameCount'' 35 8 Uint,
      tag ''LastAbsentFrameNumber'' 36 8 Uint]\<rparr>"

definition reward_class :: class_def where
  "reward_class =
     \<lparr>class_name = ''reward:ProverReward'', class_fields =
     [tag ''DelegateAddress'' 0 32 ByteArray,
      tag ''Balance'' 1 32 ByteArray,
      tag ''LastRewardFrameNumber'' 2 8 Uint,
      tag ''RewardedShardsBlob'' 3 512 ByteArray]\<rparr>"

definition spent_merge_class :: class_def where
  "spent_merge_class =
     \<lparr>class_name = ''merge:SpentMerge'', class_fields =
     [tag ''ProverAddress'' 0 32 ByteArray]\<rparr>"

definition leaf_root_class :: class_def where
  "leaf_root_class =
     \<lparr>class_name = ''leafroot:LeafRootRegistration'', class_fields =
     [tag ''Member'' 0 32 OtherType,
      tag ''ShardFilter'' 1 64 ByteArray,
      tag ''Prefix'' 2 1024 ByteArray,
      tag ''Epoch'' 3 8 Uint,
      tag ''LeafRoot'' 4 128 ByteArray,
      tag ''NumBlocks'' 5 8 Uint,
      tag ''RegistrationFrameNumber'' 6 8 Uint,
      tag ''NextEpoch'' 7 8 Uint,
      tag ''NextLeafRoot'' 8 128 ByteArray,
      tag ''NextNumBlocks'' 9 8 Uint,
      tag ''PrevEpoch'' 10 8 Uint,
      tag ''PrevLeafRoot'' 11 128 ByteArray,
      tag ''PrevNumBlocks'' 12 8 Uint,
      tag ''RegisteredAt'' 20 8 Uint,
      tag ''SealedAt'' 21 8 Uint,
      tag ''NextRegisteredAt'' 22 8 Uint,
      tag ''NextSealedAt'' 23 8 Uint,
      tag ''PrevRegisteredAt'' 24 8 Uint,
      tag ''PrevSealedAt'' 25 8 Uint]\<rparr>"

definition storage_seat_class :: class_def where
  "storage_seat_class =
     \<lparr>class_name = ''storage:StorageSeat'', class_fields =
     [tag ''Member'' 26 32 ByteArray,
      tag ''ShardFilter'' 27 64 ByteArray,
      tag ''Slots'' 28 4096 ByteArray]\<rparr>"

definition storage_expiry_class :: class_def where
  "storage_expiry_class =
     \<lparr>class_name = ''storage:StorageExpiry'', class_fields =
     [tag ''Seats'' 29 1048576 ByteArray]\<rparr>"

definition storage_snapshot_class :: class_def where
  "storage_snapshot_class =
     \<lparr>class_name = ''storage:StorageSnapshot'', class_fields =
     [tag ''ShardFilter'' 30 64 ByteArray,
      tag ''Snapshot'' 31 152 ByteArray]\<rparr>"

definition GLOBAL_CLASSES :: "class_def list" where
  "GLOBAL_CLASSES = [prover_class, allocation_class, reward_class, spent_merge_class, leaf_root_class,
     storage_seat_class, storage_expiry_class, storage_snapshot_class]"

definition GLOBAL_MAX_ORDER :: nat where "GLOBAL_MAX_ORDER = 38"
definition MAX_ORDER_SINGLE_BYTE :: nat where "MAX_ORDER_SINGLE_BYTE = 63"
definition MAX_ORDER_TWO_BYTE :: nat where "MAX_ORDER_TWO_BYTE = 4093"

definition order_to_key :: "nat \<Rightarrow> nat \<Rightarrow> bytes" where
  "order_to_key ord max_order =
     (if max_order \<le> MAX_ORDER_SINGLE_BYTE then [of_nat (ord * 4)]
      else if max_order \<le> MAX_ORDER_TWO_BYTE
      then [of_nat (ord * 16 div 256), of_nat (ord * 16)]
      else [of_nat (ord * 64 div 65536), of_nat (ord * 64 div 256), of_nat (ord * 64)])"

definition class_def_of :: "string \<Rightarrow> class_def option" where
  "class_def_of n = List.find (\<lambda>c. class_name c = n) GLOBAL_CLASSES"

definition field_tag_of :: "string \<Rightarrow> string \<Rightarrow> field_tag option" where
  "field_tag_of cls fld =
     Option.bind (class_def_of cls) (\<lambda>c. List.find (\<lambda>f. tag_name f = fld) (class_fields c))"

definition field_key :: "string \<Rightarrow> string \<Rightarrow> bytes option" where
  "field_key cls fld = map_option (\<lambda>t. order_to_key (tag_order t) GLOBAL_MAX_ORDER) (field_tag_of cls fld)"

subsection \<open>Reading and writing fields\<close>

text \<open>
  \<open>sha\<close> is the leaf hash of the tree and \<open>poseidon\<close> the hash that names a class. An
  insertion that fails is reported as an internal error.
\<close>

definition read_vertex_field :: "vc_tree \<Rightarrow> string \<Rightarrow> string \<Rightarrow> bytes option" where
  "read_vertex_field t cls fld = Option.bind (field_key cls fld) (tree_get t)"

definition internal :: "vc_tree \<times> unit result \<Rightarrow> vc_tree \<times> unit result" where
  "internal r = (case snd r of Ok u \<Rightarrow> (fst r, Ok u) | Err e \<Rightarrow> (fst r, Err Internal))"

definition write_vertex_field ::
  "(bytes \<Rightarrow> bytes) \<Rightarrow> vc_tree \<Rightarrow> string \<Rightarrow> string \<Rightarrow> bytes \<Rightarrow> vc_tree \<times> unit result" where
  "write_vertex_field sha t cls fld v =
     (case field_key cls fld of
        None \<Rightarrow> (t, Err InvalidArgument)
      | Some k \<Rightarrow> internal (tree_insert sha t k v [] (int (length v))))"

definition TYPE_KEY :: bytes where "TYPE_KEY = replicate 32 255"

definition GLOBAL_INTRINSIC_ADDRESS :: bytes where "GLOBAL_INTRINSIC_ADDRESS = replicate 32 255"

definition compute_type_hash :: "(bytes \<Rightarrow> bytes) \<Rightarrow> string \<Rightarrow> bytes" where
  "compute_type_hash poseidon n = poseidon (GLOBAL_INTRINSIC_ADDRESS @ map of_char n)"

definition write_type ::
  "(bytes \<Rightarrow> bytes) \<Rightarrow> (bytes \<Rightarrow> bytes) \<Rightarrow> vc_tree \<Rightarrow> string \<Rightarrow> vc_tree \<times> unit result" where
  "write_type sha poseidon t cls =
     internal (tree_insert sha t TYPE_KEY (compute_type_hash poseidon cls) [] 32)"

subsection \<open>Vertex trees\<close>

definition schema_keys :: "bytes set" where
  "schema_keys = insert TYPE_KEY ((\<lambda>ord. [of_nat (ord * 4)]) ` {..38})"

lemma first_nibble_apart:
  assumes "k \<noteq> []" "k' \<noteq> []" "get_next_nibble k 0 \<noteq> get_next_nibble k' 0"
  shows "parallel (path k) (path k')"
proof -
  have "0 < length (path k)" "0 < length (path k')"
    using assms(1,2) by (simp_all add: in_path_iff [of 0, simplified])
  moreover have "path k ! 0 \<noteq> path k' ! 0"
    using assms calculation by (simp add: nth_full_path)
  ultimately show ?thesis
    by (auto simp: parallel_def prefix_def nth_append)
qed

lemma first_nibble_field: "ord \<le> 38 \<Longrightarrow> get_next_nibble [of_nat (ord * 4)] 0 = int ord"
proof -
  assume "ord \<le> 38"
  then have "unat (of_nat (ord * 4) :: byte) = ord * 4"
    by (simp add: unat_of_nat take_bit_nat_eq_self del: of_nat_mult)
  then have "get_next_nibble [of_nat (ord * 4)] 0 = int (drop_bit 2 (take_bit 8 (ord * 4)) AND 63)"
    by (simp add: get_next_nibble_def take_bit_eq_mask mask_eq_exp_minus_1 del: of_nat_mult)
  also have "drop_bit 2 (take_bit 8 (ord * 4)) = ord"
    using \<open>ord \<le> 38\<close> by (simp add: take_bit_nat_eq_self drop_bit_eq_div)
  also have "ord AND 63 = take_bit 6 ord"
    by (simp add: take_bit_eq_mask mask_eq_exp_minus_1)
  also have "\<dots> = ord" using \<open>ord \<le> 38\<close> by (simp add: take_bit_nat_eq_self)
  finally show ?thesis .
qed

lemma first_nibble_type: "get_next_nibble TYPE_KEY 0 = 63"
  by (simp add: get_next_nibble_def TYPE_KEY_def)

lemma schema_key_cases:
  assumes "k \<in> schema_keys"
  obtains "k = TYPE_KEY" "get_next_nibble k 0 = 63"
  | ord where "ord \<le> 38" "k = [of_nat (ord * 4)]" "get_next_nibble k 0 = int ord"
proof -
  from assms consider "k = TYPE_KEY" | ord where "ord \<le> 38" "k = [of_nat (ord * 4)]"
    unfolding schema_keys_def by auto
  then show thesis using that first_nibble_type first_nibble_field by metis
qed

lemma schema_keys_apart: "apart_keys schema_keys"
proof -
  have "parallel (path k) (path k')" if "k \<in> schema_keys" "k' \<in> schema_keys" "k' \<noteq> k" for k k'
  proof (rule first_nibble_apart)
    show "k \<noteq> []" "k' \<noteq> []" using that by (auto simp: schema_keys_def TYPE_KEY_def)
    show "get_next_nibble k 0 \<noteq> get_next_nibble k' 0"
      by (rule schema_key_cases [OF that(1)]; rule schema_key_cases [OF that(2)]) (use that(3) in auto)
  qed
  then show ?thesis by (auto simp: apart_keys_def schema_keys_def TYPE_KEY_def)
qed

interpretation vertex: keyed_store "wf_over schema_keys" "\<lambda>k. k \<in> schema_keys" new_tree get_leaf
    "tree_put sha" tree_delete "tree_entry sha" "root_digest sha cr"
  for sha cr
  by (rule tree_keyed_store [OF schema_keys_apart])

abbreviation wf_vertex :: "vc_tree \<Rightarrow> bool" where
  "wf_vertex \<equiv> wf_over schema_keys"

lemmas class_defs = prover_class_def allocation_class_def reward_class_def spent_merge_class_def
  leaf_root_class_def storage_seat_class_def storage_expiry_class_def storage_snapshot_class_def

lemma orders_in_range: "\<forall>c \<in> set GLOBAL_CLASSES. \<forall>f \<in> set (class_fields c). tag_order f \<le> 38"
  by (simp add: GLOBAL_CLASSES_def class_defs tag_def)

lemma field_key_in:
  assumes "field_key cls fld = Some k"
  shows "k \<in> schema_keys"
proof -
  obtain t where t: "field_tag_of cls fld = Some t" "k = order_to_key (tag_order t) GLOBAL_MAX_ORDER"
    using assms by (auto simp: field_key_def)
  then obtain c where "class_def_of cls = Some c" "List.find (\<lambda>f. tag_name f = fld) (class_fields c) = Some t"
    by (auto simp: field_tag_of_def bind_eq_Some_conv)
  then have "c \<in> set GLOBAL_CLASSES" "t \<in> set (class_fields c)"
    by (auto simp: class_def_of_def find_Some_iff)
  then have "tag_order t \<le> 38" using orders_in_range by blast
  then show ?thesis
    unfolding t(2) order_to_key_def schema_keys_def
    by (simp add: GLOBAL_MAX_ORDER_def MAX_ORDER_SINGLE_BYTE_def del: of_nat_mult)
qed

lemma tree_get_insert:
  assumes "wf_vertex t" "k \<in> schema_keys"
  shows "snd (tree_insert sha t k v h s) = Ok ()" "wf_vertex (fst (tree_insert sha t k v h s))"
    "tree_get (fst (tree_insert sha t k v h s)) = (tree_get t)(k \<mapsto> v)"
  using vertex.put_ok [OF assms, of sha "(v, h, s)"] vertex.put_inv [OF assms, of sha "(v, h, s)"]
    vertex.put_find [OF assms, of sha "(v, h, s)"]
  by (simp_all add: tree_get_def fun_eq_iff new_leaf_def compute_commitment_def)

lemma write_vertex_field_spec:
  assumes "wf_vertex t" "field_key cls fld = Some k"
  obtains t' where "write_vertex_field sha t cls fld v = (t', Ok ())" "wf_vertex t'"
    "tree_get t' = (tree_get t)(k \<mapsto> v)"
proof -
  note tree_get_insert [OF assms(1) field_key_in [OF assms(2)]]
  then have "write_vertex_field sha t cls fld v = (fst (tree_insert sha t k v [] (int (length v))), Ok ())"
    using assms(2) by (simp add: write_vertex_field_def internal_def)
  with that tree_get_insert [OF assms(1) field_key_in [OF assms(2)]] show thesis by blast
qed

lemma write_type_spec:
  assumes "wf_vertex t"
  obtains t' where "write_type sha poseidon t cls = (t', Ok ())" "wf_vertex t'"
    "tree_get t' = (tree_get t)(TYPE_KEY \<mapsto> compute_type_hash poseidon cls)"
proof -
  have "TYPE_KEY \<in> schema_keys" by (simp add: schema_keys_def)
  note spec = tree_get_insert [OF assms this]
  then have "write_type sha poseidon t cls =
      (fst (tree_insert sha t TYPE_KEY (compute_type_hash poseidon cls) [] 32), Ok ())"
    by (simp add: write_type_def internal_def)
  with that spec show thesis by blast
qed

text \<open>Reading a field goes by its key alone.\<close>

lemma read_vertex_field_key: "field_key cls fld = Some k \<Longrightarrow> read_vertex_field t cls fld = tree_get t k"
  by (simp add: read_vertex_field_def)

lemma field_key_allocation [simp]:
  "field_key ''allocation:ProverAllocation'' ''Prover'' = Some [0]"
  "field_key ''allocation:ProverAllocation'' ''Status'' = Some [4]"
  "field_key ''allocation:ProverAllocation'' ''ConfirmationFilter'' = Some [8]"
  "field_key ''allocation:ProverAllocation'' ''RejectionFilter'' = Some [12]"
  "field_key ''allocation:ProverAllocation'' ''JoinFrameNumber'' = Some [16]"
  "field_key ''allocation:ProverAllocation'' ''LeaveFrameNumber'' = Some [20]"
  "field_key ''allocation:ProverAllocation'' ''PauseFrameNumber'' = Some [24]"
  "field_key ''allocation:ProverAllocation'' ''ResumeFrameNumber'' = Some [28]"
  "field_key ''allocation:ProverAllocation'' ''KickFrameNumber'' = Some [32]"
  "field_key ''allocation:ProverAllocation'' ''JoinConfirmFrameNumber'' = Some [36]"
  "field_key ''allocation:ProverAllocation'' ''JoinRejectFrameNumber'' = Some [40]"
  "field_key ''allocation:ProverAllocation'' ''LeaveConfirmFrameNumber'' = Some [44]"
  "field_key ''allocation:ProverAllocation'' ''LeaveRejectFrameNumber'' = Some [48]"
  "field_key ''allocation:ProverAllocation'' ''LastActiveFrameNumber'' = Some [52]"
  "field_key ''allocation:ProverAllocation'' ''Epoch'' = Some [56]"
  "field_key ''allocation:ProverAllocation'' ''Ring'' = Some [60]"
  "field_key ''allocation:ProverAllocation'' ''LastSignedFrameNumber'' = Some [72]"
  "field_key ''allocation:ProverAllocation'' ''Release'' = Some [76]"
  by (simp_all add: field_key_def field_tag_of_def class_def_of_def GLOBAL_CLASSES_def prover_class_def
      allocation_class_def tag_def order_to_key_def GLOBAL_MAX_ORDER_def MAX_ORDER_SINGLE_BYTE_def)

lemma field_key_prover [simp]:
  "field_key ''prover:Prover'' ''PublicKey'' = Some [0]"
  "field_key ''prover:Prover'' ''Status'' = Some [4]"
  "field_key ''prover:Prover'' ''AvailableStorage'' = Some [8]"
  "field_key ''prover:Prover'' ''Seniority'' = Some [12]"
  "field_key ''prover:Prover'' ''KickFrameNumber'' = Some [16]"
  by (simp_all add: field_key_def field_tag_of_def class_def_of_def GLOBAL_CLASSES_def prover_class_def
      tag_def order_to_key_def GLOBAL_MAX_ORDER_def MAX_ORDER_SINGLE_BYTE_def)

lemma field_key_reward [simp]:
  "field_key ''reward:ProverReward'' ''DelegateAddress'' = Some [0]"
  "field_key ''reward:ProverReward'' ''Balance'' = Some [4]"
  by (simp_all add: field_key_def field_tag_of_def class_def_of_def GLOBAL_CLASSES_def class_defs
      tag_def order_to_key_def GLOBAL_MAX_ORDER_def MAX_ORDER_SINGLE_BYTE_def)

end
