(* ===== verification/Prover_Ops.thy ===== *)
theory Prover_Ops
  imports Vertex_Schema Allocation Byte_Codec Gates
begin

text \<open>
  The operations on a prover's allocation as they run: on the vertex tree of the allocation
  (\<^verbatim>\<open>quil-execution/src/global_intrinsic/materialize.rs\<close>), with the timing rules
  of \<^verbatim>\<open>verify.rs\<close> and the registry's decoder of \<^verbatim>\<open>prover_registry.rs\<close>. Every operation
  is shown to implement its update of the registry's record.

  \<open>sha\<close> and \<open>poseidon\<close> are the hashes of \<open>Vertex_Schema\<close>, \<open>c\<close> is the frame
  clock of \<open>Epochs\<close>. The code's \<^verbatim>\<open>&mut tree\<close> with the question mark is
  \<open>and_then\<close>: the writes before a failure stay.
\<close>

subsection \<open>Sequencing writes\<close>

definition and_then ::
  "vc_tree \<times> unit result \<Rightarrow> (vc_tree \<Rightarrow> vc_tree \<times> 'a result) \<Rightarrow> vc_tree \<times> 'a result" where
  "and_then r f = (case snd r of Ok _ \<Rightarrow> f (fst r) | Err e \<Rightarrow> (fst r, Err e))"

text \<open>A run of \<^verbatim>\<open>write_field(..)?\<close> statements on one tree.\<close>

fun write_all ::
  "(bytes \<Rightarrow> bytes) \<Rightarrow> string \<Rightarrow> (string \<times> bytes) list \<Rightarrow> vc_tree \<Rightarrow> vc_tree \<times> unit result" where
  "write_all sha cls [] t = (t, Ok ())"
| "write_all sha cls ((f, v) # ws) t =
     and_then (write_vertex_field sha t cls f v) (write_all sha cls ws)"

abbreviation ALLOCATION :: string where
  "ALLOCATION \<equiv> ''allocation:ProverAllocation''"

abbreviation PROVER :: string where
  "PROVER \<equiv> ''prover:Prover''"

abbreviation REWARD :: string where
  "REWARD \<equiv> ''reward:ProverReward''"

definition STATUS_JOINING :: u8 where "STATUS_JOINING = 0"
definition STATUS_ACTIVE :: u8 where "STATUS_ACTIVE = 1"
definition STATUS_PAUSED :: u8 where "STATUS_PAUSED = 2"
definition STATUS_LEAVING :: u8 where "STATUS_LEAVING = 3"
definition STATUS_KICKED :: u8 where "STATUS_KICKED = 4"
definition STATUS_HISTORIC :: u8 where "STATUS_HISTORIC = 6"

lemmas status_bytes = STATUS_JOINING_def STATUS_ACTIVE_def STATUS_PAUSED_def STATUS_LEAVING_def
  STATUS_KICKED_def STATUS_HISTORIC_def

definition status_byte :: "u8 \<Rightarrow> vc_tree \<Rightarrow> u8" where
  "status_byte absent t =
     (case Option.bind (read_vertex_field t ALLOCATION ''Status'') (\<lambda>b. list_get b 0) of
        None \<Rightarrow> absent | Some s \<Rightarrow> s)"

subsection \<open>Releases\<close>

record release =
  version :: "u8 \<times> u8 \<times> u8"
  patch :: u8
  subpatch :: "16 word"

definition release_to_bytes :: "release \<Rightarrow> bytes" where
  "release_to_bytes r =
     (case version r of (x, y, z) \<Rightarrow> [x, y, z, patch r] @ be_bytes 2 (unat (subpatch r)))"

definition release_from_bytes :: "bytes \<Rightarrow> release option" where
  "release_from_bytes bs =
     (case bs of
        [x, y, z, p, s0, s1] \<Rightarrow>
          Some \<lparr>version = (x, y, z), patch = p, subpatch = of_nat (from_be [s0, s1])\<rparr>
      | _ \<Rightarrow> None)"

definition read_release :: "vc_tree \<Rightarrow> release option" where
  "read_release t = Option.bind (read_vertex_field t ALLOCATION ''Release'') release_from_bytes"

definition write_release :: "(bytes \<Rightarrow> bytes) \<Rightarrow> vc_tree \<Rightarrow> release \<Rightarrow> vc_tree \<times> unit result" where
  "write_release sha t r = write_vertex_field sha t ALLOCATION ''Release'' (release_to_bytes r)"

subsection \<open>Operations on an allocation\<close>

definition materialize_prover_pause :: "(bytes \<Rightarrow> bytes) \<Rightarrow> vc_tree \<Rightarrow> u64 \<Rightarrow> vc_tree \<times> unit result" where
  "materialize_prover_pause sha t frame =
     (if status_byte 0 t \<noteq> STATUS_ACTIVE then (t, Err InvalidArgument)
      else and_then (write_vertex_field sha t ALLOCATION ''Status'' [STATUS_PAUSED]) (\<lambda>t.
           and_then (write_vertex_field sha t ALLOCATION ''PauseFrameNumber'' (write_u64 frame)) (\<lambda>t.
           (t, Ok ()))))"

definition materialize_prover_resume :: "(bytes \<Rightarrow> bytes) \<Rightarrow> vc_tree \<Rightarrow> u64 \<Rightarrow> vc_tree \<times> unit result" where
  "materialize_prover_resume sha t frame =
     (if status_byte 0 t \<noteq> STATUS_PAUSED then (t, Err InvalidArgument)
      else and_then (write_vertex_field sha t ALLOCATION ''Status'' [STATUS_ACTIVE]) (\<lambda>t.
           and_then (write_vertex_field sha t ALLOCATION ''ResumeFrameNumber'' (write_u64 frame)) (\<lambda>t.
           (t, Ok ()))))"

definition materialize_prover_leave :: "(bytes \<Rightarrow> bytes) \<Rightarrow> vc_tree \<Rightarrow> u64 \<Rightarrow> vc_tree \<times> unit result" where
  "materialize_prover_leave sha t frame =
     (let status = status_byte 0 t in
      if status \<noteq> STATUS_ACTIVE \<and> status \<noteq> STATUS_PAUSED then (t, Err InvalidArgument)
      else and_then (write_vertex_field sha t ALLOCATION ''Status'' [STATUS_LEAVING]) (\<lambda>t.
           and_then (write_vertex_field sha t ALLOCATION ''LeaveFrameNumber'' (write_u64 frame)) (\<lambda>t.
           (t, Ok ()))))"

definition write_release_if ::
  "(bytes \<Rightarrow> bytes) \<Rightarrow> release option \<Rightarrow> vc_tree \<Rightarrow> vc_tree \<times> unit result" where
  "write_release_if sha release t =
     (case release of
        None \<Rightarrow> (t, Ok ())
      | Some r \<Rightarrow> and_then (write_release sha t r) (\<lambda>t. (t, Ok ())))"

definition materialize_prover_confirm ::
  "(bytes \<Rightarrow> bytes) \<Rightarrow> clock \<Rightarrow> vc_tree \<Rightarrow> u64 \<Rightarrow> release option \<Rightarrow> vc_tree \<times> unit result" where
  "materialize_prover_confirm sha c t frame release =
     (let status = status_byte 255 t;
          frame_bytes = write_u64 frame;
          next_epoch = write_u64 (epoch_for_frame c frame + 1) in
      if status = STATUS_JOINING then
        and_then (write_vertex_field sha t ALLOCATION ''Status'' [STATUS_ACTIVE]) (\<lambda>t.
        and_then (write_vertex_field sha t ALLOCATION ''JoinConfirmFrameNumber'' frame_bytes) (\<lambda>t.
        and_then (write_vertex_field sha t ALLOCATION ''LastActiveFrameNumber'' frame_bytes) (\<lambda>t.
        and_then (write_vertex_field sha t ALLOCATION ''Epoch'' next_epoch)
          (write_release_if sha release))))
      else if status = STATUS_ACTIVE then
        and_then (write_vertex_field sha t ALLOCATION ''LastActiveFrameNumber'' frame_bytes) (\<lambda>t.
        and_then (write_vertex_field sha t ALLOCATION ''Epoch'' next_epoch)
          (write_release_if sha release))
      else if status = STATUS_LEAVING then
        and_then (write_vertex_field sha t ALLOCATION ''LeaveConfirmFrameNumber'' frame_bytes) (\<lambda>t.
        (t, Ok ()))
      else (t, Err InvalidArgument))"

definition materialize_prover_reject :: "(bytes \<Rightarrow> bytes) \<Rightarrow> vc_tree \<Rightarrow> u64 \<Rightarrow> vc_tree \<times> unit result" where
  "materialize_prover_reject sha t frame =
     (let status = status_byte 255 t; frame_bytes = write_u64 frame in
      if status = STATUS_JOINING then
        and_then (write_vertex_field sha t ALLOCATION ''Status'' [STATUS_KICKED]) (\<lambda>t.
        and_then (write_vertex_field sha t ALLOCATION ''JoinRejectFrameNumber'' frame_bytes) (\<lambda>t.
        (t, Ok ())))
      else if status = STATUS_LEAVING then
        and_then (write_vertex_field sha t ALLOCATION ''Status'' [STATUS_ACTIVE]) (\<lambda>t.
        and_then (write_vertex_field sha t ALLOCATION ''LeaveRejectFrameNumber'' frame_bytes) (\<lambda>t.
        and_then (write_vertex_field sha t ALLOCATION ''LastActiveFrameNumber'' frame_bytes) (\<lambda>t.
        (t, Ok ()))))
      else (t, Err InvalidArgument))"

definition materialize_prover_kick_allocation ::
  "(bytes \<Rightarrow> bytes) \<Rightarrow> vc_tree \<Rightarrow> u64 \<Rightarrow> vc_tree \<times> unit result" where
  "materialize_prover_kick_allocation sha t frame =
     and_then (write_vertex_field sha t ALLOCATION ''Status'' [STATUS_KICKED]) (\<lambda>t.
     and_then (write_vertex_field sha t ALLOCATION ''KickFrameNumber'' (write_u64 frame)) (\<lambda>t.
     (t, Ok ())))"

definition built :: "vc_tree \<times> unit result \<Rightarrow> vc_tree result" where
  "built r = try_then (snd r) (\<lambda>_. Ok (fst r))"

definition create_allocation_vertex_tree ::
  "(bytes \<Rightarrow> bytes) \<Rightarrow> (bytes \<Rightarrow> bytes) \<Rightarrow> bytes \<Rightarrow> bytes \<Rightarrow> u64 \<Rightarrow> vc_tree result" where
  "create_allocation_vertex_tree sha poseidon prover_address shard_filter frame = built (
     and_then (write_type sha poseidon new_tree ALLOCATION) (\<lambda>t.
     and_then (write_vertex_field sha t ALLOCATION ''Prover'' prover_address) (\<lambda>t.
     and_then (write_vertex_field sha t ALLOCATION ''Status'' [STATUS_JOINING]) (\<lambda>t.
     and_then (write_vertex_field sha t ALLOCATION ''ConfirmationFilter'' shard_filter) (\<lambda>t.
     and_then (write_vertex_field sha t ALLOCATION ''JoinFrameNumber'' (write_u64 frame)) (\<lambda>t.
     (t, Ok ())))))))"

subsection \<open>Operations on a prover\<close>

definition compute_aggregate_prover_status :: "u8 list \<Rightarrow> u8" where
  "compute_aggregate_prover_status statuses =
     (if statuses = [] then STATUS_KICKED
      else if STATUS_ACTIVE \<in> set statuses then STATUS_ACTIVE
      else if STATUS_JOINING \<in> set statuses then STATUS_JOINING
      else if STATUS_LEAVING \<in> set statuses then STATUS_LEAVING
      else if STATUS_PAUSED \<in> set statuses then STATUS_PAUSED
      else STATUS_KICKED)"

definition update_prover_status_from_allocations ::
  "(bytes \<Rightarrow> bytes) \<Rightarrow> vc_tree \<Rightarrow> u8 list \<Rightarrow> vc_tree \<times> u8 result" where
  "update_prover_status_from_allocations sha t statuses =
     (let new_status = compute_aggregate_prover_status statuses in
      and_then (write_vertex_field sha t PROVER ''Status'' [new_status]) (\<lambda>t. (t, Ok new_status)))"

definition materialize_prover_kick :: "(bytes \<Rightarrow> bytes) \<Rightarrow> vc_tree \<Rightarrow> u64 \<Rightarrow> vc_tree \<times> unit result" where
  "materialize_prover_kick sha t frame =
     and_then (write_vertex_field sha t PROVER ''Status'' [STATUS_KICKED]) (\<lambda>t.
     and_then (write_vertex_field sha t PROVER ''KickFrameNumber'' (write_u64 frame)) (\<lambda>t.
     and_then (write_vertex_field sha t PROVER ''Seniority'' (write_u64 0)) (\<lambda>t.
     (t, Ok ()))))"

definition create_prover_vertex_tree ::
  "(bytes \<Rightarrow> bytes) \<Rightarrow> (bytes \<Rightarrow> bytes) \<Rightarrow> bytes \<Rightarrow> u64 \<Rightarrow> vc_tree result" where
  "create_prover_vertex_tree sha poseidon public_key seniority = built (
     and_then (write_type sha poseidon new_tree PROVER) (\<lambda>t.
     and_then (write_vertex_field sha t PROVER ''PublicKey'' public_key) (\<lambda>t.
     and_then (write_vertex_field sha t PROVER ''Status'' [STATUS_JOINING]) (\<lambda>t.
     and_then (write_vertex_field sha t PROVER ''AvailableStorage'' (write_u64 0)) (\<lambda>t.
     and_then (write_vertex_field sha t PROVER ''Seniority'' (write_u64 seniority)) (\<lambda>t.
     (t, Ok ())))))))"

text \<open>
  \<open>hash\<close> is the same sponge with its error value; the cache in front of it changes nothing but
  time. The loop over the statuses sets one flag per status, so only membership matters.
\<close>

definition prover_address_from_pubkey :: "(bytes \<Rightarrow> bytes result) \<Rightarrow> bytes \<Rightarrow> bytes result" where
  "prover_address_from_pubkey hash public_key = hash public_key"

definition allocation_address :: "(bytes \<Rightarrow> bytes result) \<Rightarrow> bytes \<Rightarrow> bytes \<Rightarrow> bytes result" where
  "allocation_address hash public_key shard_filter =
     hash (map of_char ''PROVER_ALLOCATION'' @ public_key @ shard_filter)"

record prover_join_output =
  out_prover_tree :: vc_tree
  out_prover_address :: bytes
  out_allocations :: "(bytes \<times> vc_tree) list"

fun join_allocations ::
  "(bytes \<Rightarrow> bytes) \<Rightarrow> (bytes \<Rightarrow> bytes) \<Rightarrow> (bytes \<Rightarrow> bytes result) \<Rightarrow> bytes \<Rightarrow> bytes \<Rightarrow> u64 \<Rightarrow> bytes list \<Rightarrow>
   (bytes \<times> vc_tree) list result" where
  "join_allocations sha poseidon hash public_key address frame [] = Ok []"
| "join_allocations sha poseidon hash public_key address frame (f # fs) =
     try_then (allocation_address hash public_key f) (\<lambda>alloc_addr.
     try_then (create_allocation_vertex_tree sha poseidon address f frame) (\<lambda>alloc_tree.
     try_then (join_allocations sha poseidon hash public_key address frame fs) (\<lambda>rest.
     Ok ((alloc_addr, alloc_tree) # rest))))"

definition materialize_prover_join ::
  "(bytes \<Rightarrow> bytes) \<Rightarrow> (bytes \<Rightarrow> bytes) \<Rightarrow> (bytes \<Rightarrow> bytes result) \<Rightarrow> bytes \<Rightarrow> bytes list \<Rightarrow> u64 \<Rightarrow> u64 \<Rightarrow>
   prover_join_output result" where
  "materialize_prover_join sha poseidon hash public_key filters frame seniority =
     try_then (prover_address_from_pubkey hash public_key) (\<lambda>address.
     try_then (create_prover_vertex_tree sha poseidon public_key seniority) (\<lambda>tree.
     try_then (join_allocations sha poseidon hash public_key address frame filters) (\<lambda>allocs.
     Ok \<lparr>out_prover_tree = tree, out_prover_address = address, out_allocations = allocs\<rparr>)))"

subsection \<open>Rewards\<close>

definition read_reward_balance :: "vc_tree \<Rightarrow> bytes" where
  "read_reward_balance t =
     (case read_vertex_field t REWARD ''Balance'' of None \<Rightarrow> [] | Some b \<Rightarrow> b)"

definition set_reward_balance ::
  "(bytes \<Rightarrow> bytes) \<Rightarrow> (bytes \<Rightarrow> bytes) \<Rightarrow> vc_tree \<Rightarrow> bytes \<Rightarrow> vc_tree \<times> unit result" where
  "set_reward_balance sha poseidon t new_balance =
     and_then (write_type sha poseidon t REWARD) (\<lambda>t.
     write_vertex_field sha t REWARD ''Balance'' new_balance)"

text \<open>
  The sum is a \<^verbatim>\<open>BigInt\<close>, of which only the magnitude is written; it is refused when
  that takes more than 32 bytes.
\<close>

definition add_to_reward_balance ::
  "(bytes \<Rightarrow> bytes) \<Rightarrow> (bytes \<Rightarrow> bytes) \<Rightarrow> vc_tree \<Rightarrow> int \<Rightarrow> vc_tree \<times> unit result" where
  "add_to_reward_balance sha poseidon t amount =
     (let current = int (from_be (read_reward_balance t));
          magnitude = nat (abs (current + amount)) in
      if magnitude < 256 ^ 32 then set_reward_balance sha poseidon t (be_bytes 32 magnitude)
      else (t, Err InvalidArgument))"

definition set_reward_delegate_address ::
  "(bytes \<Rightarrow> bytes) \<Rightarrow> (bytes \<Rightarrow> bytes) \<Rightarrow> vc_tree \<Rightarrow> bytes \<Rightarrow> vc_tree \<times> unit result" where
  "set_reward_delegate_address sha poseidon t delegate_address =
     and_then (write_type sha poseidon t REWARD) (\<lambda>t.
     and_then (write_vertex_field sha t REWARD ''DelegateAddress'' delegate_address) (\<lambda>t. (t, Ok ())))"

subsection \<open>Timing rules\<close>

definition field_bytes :: "vc_tree \<Rightarrow> string \<Rightarrow> bytes" where
  "field_bytes t fld = (case read_vertex_field t ALLOCATION fld of None \<Rightarrow> [] | Some b \<Rightarrow> b)"

definition u64_of :: "bytes \<Rightarrow> u64" where
  "u64_of b = of_nat (from_be b)"

definition validate_confirm_epoch :: "clock \<Rightarrow> u64 \<Rightarrow> u64 \<Rightarrow> unit result" where
  "validate_confirm_epoch c signed_frame inclusion_frame =
     (if inclusion_frame < signed_frame \<or>
         epoch_for_frame c signed_frame \<noteq> epoch_for_frame c inclusion_frame
      then Err InvalidArgument else Ok ())"

definition validate_confirm_timing :: "clock \<Rightarrow> u64 \<Rightarrow> vc_tree \<Rightarrow> unit result" where
  "validate_confirm_timing c frame t =
     (let status = status_byte 255 t; confirm_epoch = epoch_for_frame c frame in
      if status = 0 then
        let join_frame_bytes = field_bytes t ''JoinFrameNumber'' in
        if length join_frame_bytes \<noteq> 8 then Err InvalidArgument
        else if confirm_epoch \<noteq> epoch_for_frame c (u64_of join_frame_bytes) + 1
        then Err InvalidArgument else Ok ()
      else if status = 3 then
        let confirmed = field_bytes t ''LeaveConfirmFrameNumber'' in
        if confirmed \<noteq> [] \<and> confirmed \<noteq> replicate 8 0 then Err InvalidArgument
        else let leave_frame_bytes = field_bytes t ''LeaveFrameNumber'' in
        if length leave_frame_bytes \<noteq> 8 then Err InvalidArgument
        else if confirm_epoch \<noteq> epoch_for_frame c (u64_of leave_frame_bytes) + 1
        then Err InvalidArgument else Ok ()
      else if status = 1 then
        let epoch_bytes = field_bytes t ''Epoch'';
            epoch = (if length epoch_bytes = 8 then u64_of epoch_bytes else 0) in
        if field_bytes t ''ConfirmationFilter'' = [] \<or> confirm_epoch < epoch
        then Err InvalidArgument else Ok ()
      else Err InvalidArgument)"

definition PROVER_OP_FRESHNESS_WINDOW :: u64 where "PROVER_OP_FRESHNESS_WINDOW = 10"

definition validate_prover_op_frame :: "clock \<Rightarrow> u64 \<Rightarrow> u64 \<Rightarrow> gates \<Rightarrow> unit result \<times> gates" where
  "validate_prover_op_frame c signed_frame inclusion_frame gs =
     (let (guarded, gs') = gate_holds prover_op_replay_guard c inclusion_frame gs in
      (if guarded \<and>
          (inclusion_frame < signed_frame \<or>
           PROVER_OP_FRESHNESS_WINDOW < inclusion_frame - signed_frame \<or>
           epoch_for_frame c signed_frame \<noteq> epoch_for_frame c inclusion_frame)
       then Err InvalidArgument else Ok (), gs'))"

definition validate_signed_after ::
  "clock \<Rightarrow> u64 \<Rightarrow> u64 \<Rightarrow> vc_tree option \<Rightarrow> string \<Rightarrow> gates \<Rightarrow> unit result \<times> gates" where
  "validate_signed_after c signed_frame inclusion_frame allocation_tree fld gs =
     (let (guarded, gs') = gate_holds prover_op_replay_guard c inclusion_frame gs;
          last = (case Option.bind allocation_tree (\<lambda>t. read_vertex_field t ALLOCATION fld) of
                    Some b \<Rightarrow> if length b = 8 then u64_of b else 0
                  | None \<Rightarrow> 0) in
      (if guarded \<and> signed_frame < last then Err InvalidArgument else Ok (), gs'))"

subsection \<open>Kicks and rejoining\<close>

text \<open>Frames a network other than mainnet may lower by an environment variable.\<close>

definition env_frame :: "(string \<Rightarrow> string option) \<Rightarrow> string \<Rightarrow> u64 \<Rightarrow> u64" where
  "env_frame env name fixed = (case Option.bind (env name) parse_u64 of None \<Rightarrow> fixed | Some f \<Rightarrow> f)"

definition KICK_AMNESTY_FRAME :: u64 where "KICK_AMNESTY_FRAME = 695000"
definition UNIFIED_RESET_AMNESTY_FRAME :: u64 where "UNIFIED_RESET_AMNESTY_FRAME = 699500"

definition unified_tree_cutover_frame :: "(string \<Rightarrow> string option) \<Rightarrow> u64" where
  "unified_tree_cutover_frame env = env_frame env ''QUIL_UNIFIED_TREE_CUTOVER_FRAME'' 699500"

definition quil_grid_reset_v2_frame :: "(string \<Rightarrow> string option) \<Rightarrow> u64" where
  "quil_grid_reset_v2_frame env = env_frame env ''QUIL_GRID_RESET_V2_FRAME'' 740000"

definition quil_prover_reset_v3_frame :: "(string \<Rightarrow> string option) \<Rightarrow> u64" where
  "quil_prover_reset_v3_frame env = env_frame env ''QUIL_PROVER_RESET_V3_FRAME'' 747000"

definition quil_prover_reset_v4_frame :: "(string \<Rightarrow> string option) \<Rightarrow> u64" where
  "quil_prover_reset_v4_frame env = env_frame env ''QUIL_PROVER_RESET_V4_FRAME'' 754000"

definition quil_prover_reset_v5_frame :: "(string \<Rightarrow> string option) \<Rightarrow> u64" where
  "quil_prover_reset_v5_frame env = env_frame env ''QUIL_PROVER_RESET_V5_FRAME'' 759000"

definition amnesty_frames :: "(string \<Rightarrow> string option) \<Rightarrow> u64 list" where
  "amnesty_frames env = [KICK_AMNESTY_FRAME, UNIFIED_RESET_AMNESTY_FRAME, quil_grid_reset_v2_frame env,
     quil_prover_reset_v3_frame env, quil_prover_reset_v4_frame env, quil_prover_reset_v5_frame env]"

definition forgiven :: "u64 \<Rightarrow> u64 \<Rightarrow> u64 \<Rightarrow> bool" where
  "forgiven kick_frame window current_frame \<longleftrightarrow> kick_frame < window \<and> window \<le> current_frame"

definition kick_bars_rejoin :: "(string \<Rightarrow> string option) \<Rightarrow> u64 \<Rightarrow> u64 \<Rightarrow> bool" where
  "kick_bars_rejoin env kick_frame current_frame =
     (if kick_frame = 0 then False
      else \<not> list_ex (\<lambda>w. forgiven kick_frame w current_frame) (amnesty_frames env))"

definition HALT_RISK_PROVER_COUNT :: nat where "HALT_RISK_PROVER_COUNT = 3"

text \<open>\<open>active_provers\<close> is the registry's answer, absent without a registry; an error there counts as none.\<close>

definition check_leave_confirm_halt_risk :: "u8 \<Rightarrow> bytes list result option \<Rightarrow> bool \<Rightarrow> unit result" where
  "check_leave_confirm_halt_risk current_alloc_status active_provers shard_removed =
     (if current_alloc_status \<noteq> STATUS_LEAVING then Ok ()
      else if shard_removed then Ok ()
      else case active_provers of
        None \<Rightarrow> Ok ()
      | Some r \<Rightarrow>
          let active_count = (case r of Ok ps \<Rightarrow> length ps | Err _ \<Rightarrow> 0) in
          if active_count \<le> HALT_RISK_PROVER_COUNT + 1 then Err InvalidArgument else Ok ())"

subsection \<open>The bytes of a release\<close>

lemma release_length: "length (release_to_bytes r) = 6"
  by (simp add: release_to_bytes_def split: prod.split)

lemma release_round_trip [simp]: "release_from_bytes (release_to_bytes r) = Some r"
proof -
  obtain x y z where v: "version r = (x, y, z)" by (cases "version r") auto
  have split: "be_bytes 2 (unat (subpatch r)) = [of_nat (unat (subpatch r) div 256), of_nat (unat (subpatch r))]"
    by (simp add: numeral_2_eq_2)
  have "unat (subpatch r) < 65536" using unsigned_less [of "subpatch r"] by simp
  then have "from_be (be_bytes 2 (unat (subpatch r))) = unat (subpatch r)"
    by (simp add: from_be_bytes)
  then show ?thesis
    using v unfolding release_to_bytes_def release_from_bytes_def split by simp
qed

end
