(* ===== verification/Registry_View.thy ===== *)
theory Registry_View
  imports Prover_Ops
begin

text \<open>
  The prover registry's reading of the GLOBAL vertices
  (\<^verbatim>\<open>quil-execution/src/prover_registry.rs\<close>): the decoders of provers and allocations, and the
  rule for who sits in a committee. \<open>leaver_currency\<close> is the frame from which a leaver
  has to have been current.
\<close>

subsection \<open>Decoding\<close>

definition leaf_field :: "vc_node \<Rightarrow> string \<Rightarrow> string \<Rightarrow> bytes option" where
  "leaf_field r cls fld = Option.bind (field_key cls fld) (\<lambda>k. find_leaf_value k r)"

definition read_u64_be :: "vc_node \<Rightarrow> string \<Rightarrow> string \<Rightarrow> u64" where
  "read_u64_be r cls fld =
     (case leaf_field r cls fld of
        None \<Rightarrow> 0
      | Some b \<Rightarrow> if length b < 8 then 0 else u64_of (take 8 b))"

definition read_bytes :: "vc_node \<Rightarrow> string \<Rightarrow> string \<Rightarrow> bytes" where
  "read_bytes r cls fld = (case leaf_field r cls fld of None \<Rightarrow> [] | Some b \<Rightarrow> b)"

definition map_prover_status :: "u8 \<Rightarrow> prover_status option" where
  "map_prover_status b =
     (if b = 0 then Some Joining else if b = 1 then Some Active else if b = 2 then Some Paused
      else if b = 3 then Some Leaving else None)"

definition map_allocation_status :: "u8 \<Rightarrow> prover_status" where
  "map_allocation_status b =
     (if b = 0 then Joining else if b = 1 then Active else if b = 2 then Paused
      else if b = 3 then Leaving else if b = 4 then Rejected else if b = 5 then Kicked
      else if b = 6 then Historic else Unknown)"

record prover_info =
  pi_public_key :: bytes
  pi_address :: bytes
  pi_status :: prover_status
  pi_kick_frame_number :: u64
  pi_allocations :: "prover_allocation_info list"
  pi_available_storage :: u64
  pi_seniority :: u64
  pi_delegate_address :: bytes

definition decode_prover :: "bytes \<Rightarrow> vc_node \<Rightarrow> prover_info option" where
  "decode_prover vertex_key r =
     (let public_key = read_bytes r PROVER ''PublicKey'' in
      if public_key = [] then None
      else case leaf_field r PROVER ''Status'' of
        None \<Rightarrow> None
      | Some status_bytes \<Rightarrow>
          if length status_bytes \<noteq> 1 then None
          else map_option (\<lambda>status.
            \<lparr>pi_public_key = public_key, pi_address = take 32 (drop 32 vertex_key), pi_status = status,
             pi_kick_frame_number = read_u64_be r PROVER ''KickFrameNumber'', pi_allocations = [],
             pi_available_storage = read_u64_be r PROVER ''AvailableStorage'',
             pi_seniority = read_u64_be r PROVER ''Seniority'', pi_delegate_address = []\<rparr>)
            (map_prover_status (status_bytes ! 0)))"

definition decode_allocation :: "bytes \<Rightarrow> vc_node \<Rightarrow> (bytes \<times> prover_allocation_info) option" where
  "decode_allocation vertex_key r =
     (let prover_ref = read_bytes r ALLOCATION ''Prover'' in
      if prover_ref = [] then None
      else case leaf_field r ALLOCATION ''Status'' of
        None \<Rightarrow> None
      | Some status_bytes \<Rightarrow>
          if length status_bytes \<noteq> 1 then None
          else Some (prover_ref,
            \<lparr>pa_status = map_allocation_status (status_bytes ! 0),
             confirmation_filter = read_bytes r ALLOCATION ''ConfirmationFilter'',
             rejection_filter = read_bytes r ALLOCATION ''RejectionFilter'',
             join_frame_number = read_u64_be r ALLOCATION ''JoinFrameNumber'',
             leave_frame_number = read_u64_be r ALLOCATION ''LeaveFrameNumber'',
             pause_frame_number = read_u64_be r ALLOCATION ''PauseFrameNumber'',
             resume_frame_number = read_u64_be r ALLOCATION ''ResumeFrameNumber'',
             kick_frame_number = read_u64_be r ALLOCATION ''KickFrameNumber'',
             join_confirm_frame_number = read_u64_be r ALLOCATION ''JoinConfirmFrameNumber'',
             join_reject_frame_number = read_u64_be r ALLOCATION ''JoinRejectFrameNumber'',
             leave_confirm_frame_number = read_u64_be r ALLOCATION ''LeaveConfirmFrameNumber'',
             leave_reject_frame_number = read_u64_be r ALLOCATION ''LeaveRejectFrameNumber'',
             last_active_frame_number = read_u64_be r ALLOCATION ''LastActiveFrameNumber'',
             last_signed_frame_number = read_u64_be r ALLOCATION ''LastSignedFrameNumber'',
             pa_epoch = read_u64_be r ALLOCATION ''Epoch'',
             pa_ring = (case read_bytes r ALLOCATION ''Ring'' of [] \<Rightarrow> 0 | b # _ \<Rightarrow> b),
             vertex_address = take 32 (drop 32 vertex_key)\<rparr>))"

definition decode_allocation_tree :: "bytes \<Rightarrow> vc_tree \<Rightarrow> (bytes \<times> prover_allocation_info) option" where
  "decode_allocation_tree address t =
     Option.bind (root t) (decode_allocation (GLOBAL_INTRINSIC_ADDRESS @ address))"

subsection \<open>Committees\<close>

definition left_current :: "clock \<Rightarrow> prover_allocation_info \<Rightarrow> bool" where
  "left_current c alloc \<longleftrightarrow>
     confirmation_filter alloc = [] \<or> leave_frame_number alloc = 0 \<or>
     epoch_for_frame c (leave_frame_number alloc) \<le> pa_epoch alloc"

definition leaver_seated :: "clock \<Rightarrow> u64 \<Rightarrow> prover_allocation_info \<Rightarrow> u64 \<Rightarrow> bool" where
  "leaver_seated c leaver_currency alloc frame \<longleftrightarrow> frame < leaver_currency \<or> left_current c alloc"

definition committee_eligible :: "clock \<Rightarrow> u64 \<Rightarrow> prover_allocation_info \<Rightarrow> u64 \<Rightarrow> bool \<Rightarrow> bool" where
  "committee_eligible c leaver_currency alloc frame lenient =
     (case effective_status c alloc frame of
        EActive \<Rightarrow> True
      | ELeaving \<Rightarrow> leaver_seated c leaver_currency alloc frame
      | EJoining \<Rightarrow> lenient \<and> pa_status alloc = Active
      | ExpiredEpoch \<Rightarrow> lenient \<and> pa_status alloc = Active
      | _ \<Rightarrow> False)"

subsection \<open>A vertex tree as the row it holds\<close>

text \<open>
  On a well-formed vertex tree the decoder depends on the stored fields only: \<open>allocation_row\<close>
  reads the same record off the tree's map.
\<close>

definition u64_at :: "(bytes \<Rightarrow> bytes option) \<Rightarrow> bytes \<Rightarrow> u64" where
  "u64_at m k = (case m k of None \<Rightarrow> 0 | Some b \<Rightarrow> if length b < 8 then 0 else u64_of (take 8 b))"

definition bytes_at :: "(bytes \<Rightarrow> bytes option) \<Rightarrow> bytes \<Rightarrow> bytes" where
  "bytes_at m k = (case m k of None \<Rightarrow> [] | Some b \<Rightarrow> b)"

definition allocation_row ::
  "bytes \<Rightarrow> (bytes \<Rightarrow> bytes option) \<Rightarrow> (bytes \<times> prover_allocation_info) option" where
  "allocation_row address m =
     (if bytes_at m [0] = [] then None
      else case m [4] of
        None \<Rightarrow> None
      | Some b \<Rightarrow>
          if length b \<noteq> 1 then None
          else Some (bytes_at m [0],
            \<lparr>pa_status = map_allocation_status (b ! 0),
             confirmation_filter = bytes_at m [8], rejection_filter = bytes_at m [12],
             join_frame_number = u64_at m [16], leave_frame_number = u64_at m [20],
             pause_frame_number = u64_at m [24], resume_frame_number = u64_at m [28],
             kick_frame_number = u64_at m [32], join_confirm_frame_number = u64_at m [36],
             join_reject_frame_number = u64_at m [40], leave_confirm_frame_number = u64_at m [44],
             leave_reject_frame_number = u64_at m [48], last_active_frame_number = u64_at m [52],
             last_signed_frame_number = u64_at m [72], pa_epoch = u64_at m [56],
             pa_ring = (case bytes_at m [60] of [] \<Rightarrow> 0 | b # _ \<Rightarrow> b),
             vertex_address = take 32 address\<rparr>))"

lemma find_leaf_value_get:
  assumes "wf_over K t" "root t = Some r"
  shows "find_leaf_value k r = tree_get t k"
proof (cases "find_leaf_value k r")
  case None
  then have "get_leaf t k = None"
    using get_leaf_None [OF assms(1), of k] assms(2) by (simp add: find_leaf_value_None)
  with None show ?thesis by (simp add: tree_get_def)
next
  case (Some v)
  then obtain l where l: "l \<in> leaf_set r" "key l = k" "leaf_value l = v"
    using find_leaf_value_in by blast
  then have "get_leaf t k = Some l" using get_leaf_iff [OF assms(1), of k l] assms(2) by simp
  with Some l show ?thesis by (simp add: tree_get_def)
qed

lemma decode_allocation_row:
  assumes "wf_over K t"
  shows "decode_allocation_tree address t = allocation_row address (tree_get t)"
proof (cases "root t")
  case None
  then have "tree_get t = (\<lambda>_. None)"
    using get_leaf_None [OF assms] by (simp add: tree_get_def fun_eq_iff)
  with None show ?thesis
    by (simp add: decode_allocation_tree_def allocation_row_def bytes_at_def)
next
  case (Some r)
  have fields: "leaf_field r ALLOCATION f = tree_get t k" if "field_key ALLOCATION f = Some k" for f k
    using that find_leaf_value_get [OF assms Some] by (simp add: leaf_field_def)
  have address: "take 32 (drop 32 (GLOBAL_INTRINSIC_ADDRESS @ address)) = take 32 address"
    by (simp add: GLOBAL_INTRINSIC_ADDRESS_def)
  show ?thesis
    unfolding decode_allocation_tree_def Some Option.bind.simps decode_allocation_def allocation_row_def
      read_bytes_def read_u64_be_def fields [OF field_key_allocation(1)] fields [OF field_key_allocation(2)]
      fields [OF field_key_allocation(3)] fields [OF field_key_allocation(4)]
      fields [OF field_key_allocation(5)] fields [OF field_key_allocation(6)]
      fields [OF field_key_allocation(7)] fields [OF field_key_allocation(8)]
      fields [OF field_key_allocation(9)] fields [OF field_key_allocation(10)]
      fields [OF field_key_allocation(11)] fields [OF field_key_allocation(12)]
      fields [OF field_key_allocation(13)] fields [OF field_key_allocation(14)]
      fields [OF field_key_allocation(15)] fields [OF field_key_allocation(16)]
      fields [OF field_key_allocation(17)] address Let_def
    by (simp add: bytes_at_def u64_at_def split: option.split)
qed

end
