(* ===== verification/Prover_Lifecycle.thy ===== *)
theory Prover_Lifecycle
  imports Registry_View
begin

text \<open>
  What the prover operations promise. \<open>seat_step\<close> is the specification: one update of the
  registry's record per operation, or a refusal. The materializers implement it on
  vertex trees, for single operations and for whole histories (the locale
  \<open>refined_machine\<close>), and confirms that pass the timing rule keep the
  committee of the running epoch.
\<close>

subsection \<open>Refinement, once\<close>

locale refined_machine =
  fixes inv :: "'t \<Rightarrow> bool"
    and view :: "'t \<Rightarrow> 'a option"
    and exec :: "'o \<Rightarrow> 't \<Rightarrow> 't \<times> unit result"
    and spec :: "'o \<Rightarrow> 'a \<Rightarrow> 'a option"
  assumes accepted:
    "\<lbrakk>inv t; view t = Some a; spec op a = Some a'\<rbrakk> \<Longrightarrow>
     snd (exec op t) = Ok () \<and> inv (fst (exec op t)) \<and> view (fst (exec op t)) = Some a'"
    and refused: "\<lbrakk>inv t; view t = Some a; spec op a = None\<rbrakk> \<Longrightarrow> exec op t = (t, Err InvalidArgument)"
begin

definition attempt :: "'o \<Rightarrow> 'a \<Rightarrow> 'a" where
  "attempt op a = (case spec op a of None \<Rightarrow> a | Some a' \<Rightarrow> a')"

lemma exec_step:
  assumes "inv t" "view t = Some a"
  shows "inv (fst (exec op t)) \<and> view (fst (exec op t)) = Some (attempt op a) \<and>
    (snd (exec op t) = Ok () \<longleftrightarrow> spec op a \<noteq> None)"
proof (cases "spec op a")
  case None
  with assms refused [OF assms None] show ?thesis by (simp add: attempt_def)
next
  case (Some a')
  with accepted [OF assms Some] show ?thesis by (simp add: attempt_def)
qed

lemma exec_run:
  "inv t \<Longrightarrow> view t = Some a \<Longrightarrow>
   inv (fold (\<lambda>op t. fst (exec op t)) ops t) \<and>
   view (fold (\<lambda>op t. fst (exec op t)) ops t) = Some (fold attempt ops a)"
proof (induction ops arbitrary: t a)
  case (Cons op ops)
  with exec_step [OF Cons.prems, of op] show ?case by simp
qed simp

end

subsection \<open>The specification of an allocation\<close>

datatype seat_op =
  Pause u64 | Resume u64 | Leave u64 | Confirm u64 "release option" | Reject u64 | Kick u64

fun seat_step :: "clock \<Rightarrow> seat_op \<Rightarrow> prover_allocation_info \<Rightarrow> prover_allocation_info option" where
  "seat_step c (Pause n) a =
     (if pa_status a = Active then Some (a\<lparr>pa_status := Paused, pause_frame_number := n\<rparr>) else None)"
| "seat_step c (Resume n) a =
     (if pa_status a = Paused then Some (a\<lparr>pa_status := Active, resume_frame_number := n\<rparr>) else None)"
| "seat_step c (Leave n) a =
     (if pa_status a = Active \<or> pa_status a = Paused
      then Some (a\<lparr>pa_status := Leaving, leave_frame_number := n\<rparr>) else None)"
| "seat_step c (Confirm n r) a =
     (case pa_status a of
        Joining \<Rightarrow> Some (a\<lparr>pa_status := Active, join_confirm_frame_number := n,
          last_active_frame_number := n, pa_epoch := epoch_for_frame c n + 1\<rparr>)
      | Active \<Rightarrow> Some (a\<lparr>last_active_frame_number := n, pa_epoch := epoch_for_frame c n + 1\<rparr>)
      | Leaving \<Rightarrow> Some (a\<lparr>leave_confirm_frame_number := n\<rparr>)
      | _ \<Rightarrow> None)"
| "seat_step c (Reject n) a =
     (case pa_status a of
        Joining \<Rightarrow> Some (a\<lparr>pa_status := Rejected, join_reject_frame_number := n\<rparr>)
      | Leaving \<Rightarrow> Some (a\<lparr>pa_status := Active, leave_reject_frame_number := n,
          last_active_frame_number := n\<rparr>)
      | _ \<Rightarrow> None)"
| "seat_step c (Kick n) a = Some (a\<lparr>pa_status := Rejected, kick_frame_number := n\<rparr>)"

definition seat_attempt :: "clock \<Rightarrow> seat_op \<Rightarrow> prover_allocation_info \<Rightarrow> prover_allocation_info" where
  "seat_attempt c op a = (case seat_step c op a of None \<Rightarrow> a | Some a' \<Rightarrow> a')"

fun materialize_seat_op ::
  "(bytes \<Rightarrow> bytes) \<Rightarrow> clock \<Rightarrow> seat_op \<Rightarrow> vc_tree \<Rightarrow> vc_tree \<times> unit result" where
  "materialize_seat_op sha c (Pause n) t = materialize_prover_pause sha t n"
| "materialize_seat_op sha c (Resume n) t = materialize_prover_resume sha t n"
| "materialize_seat_op sha c (Leave n) t = materialize_prover_leave sha t n"
| "materialize_seat_op sha c (Confirm n r) t = materialize_prover_confirm sha c t n r"
| "materialize_seat_op sha c (Reject n) t = materialize_prover_reject sha t n"
| "materialize_seat_op sha c (Kick n) t = materialize_prover_kick_allocation sha t n"

subsection \<open>Chains of writes\<close>

fun row_writes :: "string \<Rightarrow> (string \<times> bytes) list \<Rightarrow> (bytes \<Rightarrow> bytes option) \<Rightarrow> bytes \<Rightarrow> bytes option" where
  "row_writes cls [] m = m"
| "row_writes cls ((f, v) # ws) m = row_writes cls ws (m(the (field_key cls f) \<mapsto> v))"

lemma row_writes_append: "row_writes cls (xs @ ys) m = row_writes cls ys (row_writes cls xs m)"
  by (induction cls xs m rule: row_writes.induct) (simp_all del: fun_upd_apply)

lemma write_all_spec:
  "wf_vertex t \<Longrightarrow> list_all (\<lambda>(f, v). field_key cls f \<noteq> None) ws \<Longrightarrow>
   snd (write_all sha cls ws t) = Ok () \<and> wf_vertex (fst (write_all sha cls ws t)) \<and>
   tree_get (fst (write_all sha cls ws t)) = row_writes cls ws (tree_get t)"
proof (induction ws arbitrary: t)
  case (Cons w ws)
  obtain f v where w: "w = (f, v)" by (cases w)
  with Cons.prems obtain k where k: "field_key cls f = Some k" by auto
  obtain t1 where t1: "write_vertex_field sha t cls f v = (t1, Ok ())" "wf_vertex t1"
    "tree_get t1 = (tree_get t)(k \<mapsto> v)"
    by (rule write_vertex_field_spec [OF Cons.prems(1) k]) blast
  with Cons.IH [OF t1(2)] Cons.prems(2) w k show ?case
    by (simp add: and_then_def del: fun_upd_apply)
qed simp

lemma write_all_fun:
  "write_all sha cls [] = (\<lambda>t. (t, Ok ()))"
  "write_all sha cls ((f, v) # ws) =
     (\<lambda>t. and_then (write_vertex_field sha t cls f v) (write_all sha cls ws))"
  by (simp_all add: fun_eq_iff)

lemma write_release_if_all:
  "write_release_if sha r =
     write_all sha ALLOCATION (case r of None \<Rightarrow> [] | Some x \<Rightarrow> [(''Release'', release_to_bytes x)])"
  by (cases r) (simp_all add: write_release_if_def write_release_def fun_eq_iff write_all_fun)

fun seat_writes :: "clock \<Rightarrow> seat_op \<Rightarrow> prover_status \<Rightarrow> (string \<times> bytes) list option" where
  "seat_writes c (Pause n) s =
     (if s = Active then Some [(''Status'', [2]), (''PauseFrameNumber'', write_u64 n)] else None)"
| "seat_writes c (Resume n) s =
     (if s = Paused then Some [(''Status'', [1]), (''ResumeFrameNumber'', write_u64 n)] else None)"
| "seat_writes c (Leave n) s =
     (if s = Active \<or> s = Paused
      then Some [(''Status'', [3]), (''LeaveFrameNumber'', write_u64 n)] else None)"
| "seat_writes c (Confirm n r) s =
     (let stamp = [(''LastActiveFrameNumber'', write_u64 n), (''Epoch'', write_u64 (epoch_for_frame c n + 1))]
        @ (case r of None \<Rightarrow> [] | Some x \<Rightarrow> [(''Release'', release_to_bytes x)]) in
      case s of
        Joining \<Rightarrow> Some ([(''Status'', [1]), (''JoinConfirmFrameNumber'', write_u64 n)] @ stamp)
      | Active \<Rightarrow> Some stamp
      | Leaving \<Rightarrow> Some [(''LeaveConfirmFrameNumber'', write_u64 n)]
      | _ \<Rightarrow> None)"
| "seat_writes c (Reject n) s =
     (case s of
        Joining \<Rightarrow> Some [(''Status'', [4]), (''JoinRejectFrameNumber'', write_u64 n)]
      | Leaving \<Rightarrow> Some [(''Status'', [1]), (''LeaveRejectFrameNumber'', write_u64 n),
          (''LastActiveFrameNumber'', write_u64 n)]
      | _ \<Rightarrow> None)"
| "seat_writes c (Kick n) s = Some [(''Status'', [4]), (''KickFrameNumber'', write_u64 n)]"

lemma map_allocation_status_simps:
  "map_allocation_status b = Joining \<longleftrightarrow> b = 0" "map_allocation_status b = Active \<longleftrightarrow> b = 1"
  "map_allocation_status b = Paused \<longleftrightarrow> b = 2" "map_allocation_status b = Leaving \<longleftrightarrow> b = 3"
  by (auto simp: map_allocation_status_def)

lemma status_of_row:
  assumes "allocation_row address (tree_get t) = Some (p, a)"
  shows "pa_status a = map_allocation_status (status_byte d t)"
    "tree_get t [4] = Some [status_byte d t]"
proof -
  from assms obtain b where "tree_get t [4] = Some [b]" "pa_status a = map_allocation_status b"
    by (auto simp: allocation_row_def length_Suc_conv split: if_splits option.splits)
  moreover from this have "status_byte d t = b"
    by (simp add: status_byte_def read_vertex_field_def)
  ultimately show "pa_status a = map_allocation_status (status_byte d t)"
    "tree_get t [4] = Some [status_byte d t]" by simp_all
qed

lemma materialize_is_writes:
  assumes "allocation_row address (tree_get t) = Some (p, a)"
  shows "materialize_seat_op sha c op t =
    (case seat_writes c op (pa_status a) of
       None \<Rightarrow> (t, Err InvalidArgument) | Some ws \<Rightarrow> write_all sha ALLOCATION ws t)"
proof -
  define b where "b = status_byte 0 t"
  have b: "status_byte d t = b" for d
    using status_of_row(2) [OF assms, of d] status_of_row(2) [OF assms, of 0] by (simp add: b_def)
  have s: "pa_status a = map_allocation_status b"
    using status_of_row(1) [OF assms, of 0] by (simp add: b_def)
  show ?thesis
    by (cases op)
      (auto simp: materialize_prover_pause_def materialize_prover_resume_def materialize_prover_leave_def
        materialize_prover_confirm_def materialize_prover_reject_def materialize_prover_kick_allocation_def
        b s map_allocation_status_def status_bytes Let_def write_release_if_all write_all_fun)
qed

lemma u64_at_upd:
  "u64_at (m(k \<mapsto> write_u64 n)) k' = (if k' = k then n else u64_at m k')"
  using unat_u64_bound [of n]
  by (simp add: u64_at_def u64_of_def write_u64_def from_be_bytes)

lemma u64_at_other: "k' \<noteq> k \<Longrightarrow> u64_at (m(k \<mapsto> v)) k' = u64_at m k'"
  by (simp add: u64_at_def)

lemma bytes_at_other: "k' \<noteq> k \<Longrightarrow> bytes_at (m(k \<mapsto> v)) k' = bytes_at m k'"
  by (simp add: bytes_at_def)

lemma allocation_row_Some:
  "allocation_row address m = Some (p, a) \<longleftrightarrow>
     bytes_at m [0] \<noteq> [] \<and> p = bytes_at m [0] \<and>
     (\<exists>b. m [4] = Some [b] \<and> a =
       \<lparr>pa_status = map_allocation_status b,
        confirmation_filter = bytes_at m [8], rejection_filter = bytes_at m [12],
        join_frame_number = u64_at m [16], leave_frame_number = u64_at m [20],
        pause_frame_number = u64_at m [24], resume_frame_number = u64_at m [28],
        kick_frame_number = u64_at m [32], join_confirm_frame_number = u64_at m [36],
        join_reject_frame_number = u64_at m [40], leave_confirm_frame_number = u64_at m [44],
        leave_reject_frame_number = u64_at m [48], last_active_frame_number = u64_at m [52],
        last_signed_frame_number = u64_at m [72], pa_epoch = u64_at m [56],
        pa_ring = (case bytes_at m [60] of [] \<Rightarrow> 0 | b # _ \<Rightarrow> b),
        vertex_address = take 32 address\<rparr>)"
  by (auto simp: allocation_row_def length_Suc_conv split: option.splits)

lemma row_updates:
  assumes "allocation_row address m = Some (p, a)"
  shows "allocation_row address (m([4] \<mapsto> [b])) = Some (p, a\<lparr>pa_status := map_allocation_status b\<rparr>)"
    "allocation_row address (m([20] \<mapsto> write_u64 n)) = Some (p, a\<lparr>leave_frame_number := n\<rparr>)"
    "allocation_row address (m([24] \<mapsto> write_u64 n)) = Some (p, a\<lparr>pause_frame_number := n\<rparr>)"
    "allocation_row address (m([28] \<mapsto> write_u64 n)) = Some (p, a\<lparr>resume_frame_number := n\<rparr>)"
    "allocation_row address (m([32] \<mapsto> write_u64 n)) = Some (p, a\<lparr>kick_frame_number := n\<rparr>)"
    "allocation_row address (m([36] \<mapsto> write_u64 n)) = Some (p, a\<lparr>join_confirm_frame_number := n\<rparr>)"
    "allocation_row address (m([40] \<mapsto> write_u64 n)) = Some (p, a\<lparr>join_reject_frame_number := n\<rparr>)"
    "allocation_row address (m([44] \<mapsto> write_u64 n)) = Some (p, a\<lparr>leave_confirm_frame_number := n\<rparr>)"
    "allocation_row address (m([48] \<mapsto> write_u64 n)) = Some (p, a\<lparr>leave_reject_frame_number := n\<rparr>)"
    "allocation_row address (m([52] \<mapsto> write_u64 n)) = Some (p, a\<lparr>last_active_frame_number := n\<rparr>)"
    "allocation_row address (m([56] \<mapsto> write_u64 n)) = Some (p, a\<lparr>pa_epoch := n\<rparr>)"
    "allocation_row address (m([76] \<mapsto> v)) = Some (p, a)"
  using assms unfolding allocation_row_Some
  by (elim conjE exE; simp add: u64_at_upd u64_at_other bytes_at_other del: fun_upd_apply;
      simp)+

lemma row_of_writes:
  assumes row: "allocation_row address m = Some (p, a)"
    and ws: "seat_writes c op (pa_status a) = Some ws" and step: "seat_step c op a = Some a'"
  shows "allocation_row address (row_writes ALLOCATION ws m) = Some (p, a')"
proof (cases op)
  case (Pause n)
  then show ?thesis
    using ws step row_updates(3) [OF row_updates(1) [OF row, of 2], of n]
    by (auto simp: map_allocation_status_def split: if_splits)
next
  case (Resume n)
  then show ?thesis
    using ws step row_updates(4) [OF row_updates(1) [OF row, of 1], of n]
    by (auto simp: map_allocation_status_def split: if_splits)
next
  case (Leave n)
  then show ?thesis
    using ws step row_updates(2) [OF row_updates(1) [OF row, of 3], of n]
    by (auto simp: map_allocation_status_def split: if_splits)
next
  case (Confirm n r)
  note stamp = row_updates(11) [OF row_updates(10), of address _ p _ n "epoch_for_frame c n + 1"]
  show ?thesis
  proof (cases "pa_status a")
    case Joining
    then show ?thesis
      using Confirm ws step stamp [OF row_updates(6) [OF row_updates(1) [OF row, of 1], of n]]
      by (cases r) (auto simp: map_allocation_status_def row_updates(12) simp del: fun_upd_apply)
  next
    case Active
    then show ?thesis
      using Confirm ws step stamp [OF row]
      by (cases r) (auto simp: row_updates(12) simp del: fun_upd_apply)
  next
    case Leaving
    then show ?thesis using Confirm ws step row_updates(8) [OF row, of n] by auto
  qed (use Confirm ws in auto)
next
  case (Reject n)
  then show ?thesis
    using ws step row_updates(7) [OF row_updates(1) [OF row, of 4], of n]
      row_updates(10) [OF row_updates(9) [OF row_updates(1) [OF row, of 1], of n], of n]
    by (auto simp: map_allocation_status_def split: prover_status.splits)
next
  case (Kick n)
  then show ?thesis
    using ws step row_updates(5) [OF row_updates(1) [OF row, of 4], of n]
    by (auto simp: map_allocation_status_def)
qed

lemma seat_writes_None: "seat_writes c op (pa_status a) = None \<longleftrightarrow> seat_step c op a = None"
  by (cases op) (auto simp: Let_def split: prover_status.splits)

lemma seat_writes_known:
  "seat_writes c op s = Some ws \<Longrightarrow> list_all (\<lambda>(f, v). field_key ALLOCATION f \<noteq> None) ws"
  by (cases op) (auto simp: Let_def split: prover_status.splits option.splits if_splits)

interpretation seats: refined_machine wf_vertex "\<lambda>t. allocation_row address (tree_get t)"
    "materialize_seat_op sha c" "\<lambda>op pa. map_option (Pair (fst pa)) (seat_step c op (snd pa))"
  for address sha c
proof
  fix t op and pa pa' :: "bytes \<times> prover_allocation_info"
  assume wf: "wf_vertex t" and row: "allocation_row address (tree_get t) = Some pa"
    and spec: "map_option (Pair (fst pa)) (seat_step c op (snd pa)) = Some pa'"
  obtain p a where pa: "pa = (p, a)" by (cases pa)
  from spec pa obtain a' where step: "seat_step c op a = Some a'" "pa' = (p, a')" by auto
  then obtain ws where ws: "seat_writes c op (pa_status a) = Some ws"
    using seat_writes_None [of c op a] by auto
  have "materialize_seat_op sha c op t = write_all sha ALLOCATION ws t"
    using materialize_is_writes row pa ws by simp
  then show "snd (materialize_seat_op sha c op t) = Ok () \<and>
      wf_vertex (fst (materialize_seat_op sha c op t)) \<and>
      allocation_row address (tree_get (fst (materialize_seat_op sha c op t))) = Some pa'"
    using write_all_spec [OF wf seat_writes_known [OF ws]] row_of_writes [OF _ ws step(1)] row pa step(2)
    by simp
next
  fix t op and pa :: "bytes \<times> prover_allocation_info"
  assume "wf_vertex t" and row: "allocation_row address (tree_get t) = Some pa"
    and spec: "map_option (Pair (fst pa)) (seat_step c op (snd pa)) = None"
  obtain p a where pa: "pa = (p, a)" by (cases pa)
  then have "seat_writes c op (pa_status a) = None"
    using spec seat_writes_None [of c op a] by simp
  then show "materialize_seat_op sha c op t = (t, Err InvalidArgument)"
    using materialize_is_writes row pa by simp
qed

lemma seats_attempt:
  "refined_machine.attempt (\<lambda>op pa. map_option (Pair (fst pa)) (seat_step c op (snd pa))) op (p :: bytes, a)
     = (p, seat_attempt c op a)"
  by (simp add: seats.attempt_def seat_attempt_def split: option.split)

lemma seats_attempts:
  "fold (refined_machine.attempt (\<lambda>op pa. map_option (Pair (fst pa)) (seat_step c op (snd pa)))) ops (p :: bytes, a)
     = (p, fold (seat_attempt c) ops a)"
  by (induction ops arbitrary: a) (simp_all add: seats_attempt)

text \<open>C2. Every operation on an allocation implements its specification, in any order and number.
  From a vertex tree that decodes to a record, running any sequence of pauses, resumes,
  leaves, confirms, rejects and kicks leaves a well-formed tree that decodes to the same
  prover and to the record the specification computes, refused operations changing nothing; and
  the next operation returns success exactly when the specification allows it in that state.\<close>

theorem prover_ops_refine:
  assumes "wf_vertex t" and "decode_allocation_tree address t = Some (p, a)"
    and "t' = fold (\<lambda>op t. fst (materialize_seat_op sha c op t)) ops t"
    and "a' = fold (seat_attempt c) ops a"
  shows "wf_vertex t' \<and> decode_allocation_tree address t' = Some (p, a') \<and>
    (case seat_step c op a' of
       None \<Rightarrow> materialize_seat_op sha c op t' = (t', Err InvalidArgument)
     | Some a'' \<Rightarrow> snd (materialize_seat_op sha c op t') = Ok () \<and>
         decode_allocation_tree address (fst (materialize_seat_op sha c op t')) = Some (p, a''))"
proof -
  have row: "allocation_row address (tree_get t) = Some (p, a)"
    using assms(1,2) by (simp add: decode_allocation_row)
  have t': "wf_vertex t'" "allocation_row address (tree_get t') = Some (p, a')"
    using seats.exec_run [OF assms(1) row, of sha c ops] assms(3,4) by (simp_all add: seats_attempts)
  show ?thesis
  proof (cases "seat_step c op a'")
    case None
    then show ?thesis
      using t' seats.refused [OF t', of c op sha] by (simp add: decode_allocation_row)
  next
    case (Some a'')
    then have "map_option (Pair (fst (p, a'))) (seat_step c op (snd (p, a'))) = Some (p, a'')" by simp
    from seats.accepted [OF t' this, of sha] t' Some show ?thesis
      using decode_allocation_row [of schema_keys] by simp
  qed
qed

subsection \<open>A new allocation\<close>

definition fresh_seat :: "bytes \<Rightarrow> bytes \<Rightarrow> u64 \<Rightarrow> prover_allocation_info" where
  "fresh_seat address shard_filter n =
     \<lparr>pa_status = Joining, confirmation_filter = shard_filter, rejection_filter = [],
      join_frame_number = n, leave_frame_number = 0, pause_frame_number = 0, resume_frame_number = 0,
      kick_frame_number = 0, join_confirm_frame_number = 0, join_reject_frame_number = 0,
      leave_confirm_frame_number = 0, leave_reject_frame_number = 0, last_active_frame_number = 0,
      last_signed_frame_number = 0, pa_epoch = 0, pa_ring = 0, vertex_address = take 32 address\<rparr>"

lemma new_tree_empty [simp]: "wf_vertex new_tree" "tree_get new_tree = (\<lambda>_. None)"
  by (simp_all add: wf_over_def new_tree_def tree_get_def get_leaf_def fun_eq_iff)

lemma built_writes:
  assumes "list_all (\<lambda>(f, v). field_key cls f \<noteq> None) ws"
  obtains t where "built (and_then (write_type sha poseidon new_tree cls) (write_all sha cls ws)) = Ok t"
    "wf_vertex t" "tree_get t = row_writes cls ws [TYPE_KEY \<mapsto> compute_type_hash poseidon cls]"
proof -
  obtain t0 where t0: "write_type sha poseidon new_tree cls = (t0, Ok ())" "wf_vertex t0"
    "tree_get t0 = [TYPE_KEY \<mapsto> compute_type_hash poseidon cls]"
    by (rule write_type_spec [OF new_tree_empty(1), of sha poseidon cls]) (simp del: fun_upd_apply)
  from write_all_spec [OF t0(2) assms, of sha] t0 that show thesis
    by (simp add: built_def and_then_def)
qed

lemma single_not_type_key: "[x] \<noteq> TYPE_KEY"
  by (metis TYPE_KEY_def length_Cons length_replicate list.size(3) One_nat_def numeral_eq_one_iff
      semiring_norm(85))

lemma create_allocation_spec:
  assumes "prover_address \<noteq> []"
  obtains t where "create_allocation_vertex_tree sha poseidon prover_address flt n = Ok t"
    "wf_vertex t" "\<And>address. decode_allocation_tree address t = Some (prover_address, fresh_seat address flt n)"
    "tree_get t [4] = Some [0]" "tree_get t [16] = Some (write_u64 n)"
proof -
  let ?ws = "[(''Prover'', prover_address), (''Status'', [0]), (''ConfirmationFilter'', flt),
    (''JoinFrameNumber'', write_u64 n)]"
  obtain t where t: "built (and_then (write_type sha poseidon new_tree ALLOCATION)
      (write_all sha ALLOCATION ?ws)) = Ok t" "wf_vertex t"
    "tree_get t = row_writes ALLOCATION ?ws [TYPE_KEY \<mapsto> compute_type_hash poseidon ALLOCATION]"
    by (rule built_writes [of ALLOCATION ?ws sha poseidon]) auto
  have "allocation_row address (tree_get t) = Some (prover_address, fresh_seat address flt n)" for address
    using assms single_not_type_key unat_u64_bound [of n] unfolding t(3) allocation_row_Some
    by (simp add: bytes_at_def u64_at_def fresh_seat_def map_allocation_status_def u64_of_def
        write_u64_def from_be_bytes)
  moreover have "create_allocation_vertex_tree sha poseidon prover_address flt n = Ok t"
    using t(1) by (simp add: create_allocation_vertex_tree_def write_all_fun STATUS_JOINING_def)
  ultimately show thesis using t(2,3) that single_not_type_key by (simp add: decode_allocation_row)
qed

lemma prover_ops_refine_witness:
  "\<exists>t. create_allocation_vertex_tree demo_sha demo_sha [1] [7] 100 = Ok t \<and>
     decode_allocation_tree [] (fold (\<lambda>op t. fst (materialize_seat_op demo_sha initial_clock op t))
       [Pause 200, Confirm 800 None, Leave 1500] t) =
     Some ([1], (fresh_seat [] [7] 100)\<lparr>pa_status := Leaving, join_confirm_frame_number := 800,
       last_active_frame_number := 800, pa_epoch := 2, leave_frame_number := 1500\<rparr>) \<and>
     snd (materialize_seat_op demo_sha initial_clock (Resume 1600)
       (fold (\<lambda>op t. fst (materialize_seat_op demo_sha initial_clock op t))
         [Pause 200, Confirm 800 None, Leave 1500] t)) = Err InvalidArgument"
proof -
  obtain t where t: "create_allocation_vertex_tree demo_sha demo_sha [1] [7] 100 = Ok t" "wf_vertex t"
    "\<And>address. decode_allocation_tree address t = Some ([1], fresh_seat address [7] 100)"
    by (rule create_allocation_spec [of "[1]" demo_sha demo_sha "[7]" 100]) simp_all
  let ?a = "fold (seat_attempt initial_clock) [Pause 200, Confirm 800 None, Leave 1500] (fresh_seat [] [7] 100)"
  have a: "?a = (fresh_seat [] [7] 100)\<lparr>pa_status := Leaving, join_confirm_frame_number := 800,
      last_active_frame_number := 800, pa_epoch := 2, leave_frame_number := 1500\<rparr>"
    by (simp add: seat_attempt_def fresh_seat_def epoch_for_frame_def)
  show ?thesis
    using t(1) prover_ops_refine [OF t(2) t(3) refl refl, where sha = demo_sha and c = initial_clock and address = "[]" and
      ops = "[Pause 200, Confirm 800 None, Leave 1500]" and op = "Resume 1600"]
    unfolding a by (auto simp del: fold_simps)
qed

subsection \<open>Confirms\<close>

lemma field_bytes_row: "field_key ALLOCATION f = Some k \<Longrightarrow> field_bytes t f = bytes_at (tree_get t) k"
  by (simp add: field_bytes_def bytes_at_def read_vertex_field_def)

lemma u64_at_exact: "length (bytes_at m k) = 8 \<Longrightarrow> u64_of (bytes_at m k) = u64_at m k"
  by (cases "m k") (simp_all add: bytes_at_def u64_at_def)

lemma u64_at_cleared: "bytes_at m k = [] \<or> bytes_at m k = replicate 8 0 \<Longrightarrow> u64_at m k = 0"
  by (cases "m k") (auto simp: bytes_at_def u64_at_def u64_of_def from_be_def numeral_eq_Suc)

text \<open>What the timing rule lets through, in terms of the record.\<close>

lemma confirm_timely:
  assumes "validate_confirm_timing c n t = Ok ()" "allocation_row address (tree_get t) = Some (p, a)"
  obtains (join) "pa_status a = Joining" "epoch_for_frame c n = epoch_for_frame c (join_frame_number a) + 1"
  | (leave) "pa_status a = Leaving" "leave_confirm_frame_number a = 0"
      "epoch_for_frame c n = epoch_for_frame c (leave_frame_number a) + 1"
  | (renew) "pa_status a = Active" "confirmation_filter a \<noteq> []"
proof -
  define b where "b = status_byte 255 t"
  have s: "pa_status a = map_allocation_status b"
    using status_of_row(1) [OF assms(2), of 255] by (simp add: b_def)
  have fields: "join_frame_number a = u64_at (tree_get t) [16]"
    "leave_frame_number a = u64_at (tree_get t) [20]"
    "leave_confirm_frame_number a = u64_at (tree_get t) [44]"
    "confirmation_filter a = bytes_at (tree_get t) [8]"
    using assms(2) by (auto simp: allocation_row_Some)
  from assms(1) consider "b = 0" | "b = 3" | "b = 1"
    by (auto simp: validate_confirm_timing_def b_def Let_def split: if_splits)
  then show thesis
  proof cases
    case 1
    then show thesis
      using assms(1) s fields join u64_at_exact [of "tree_get t" "[16]"]
      by (simp add: validate_confirm_timing_def b_def [symmetric] Let_def field_bytes_row
          map_allocation_status_def split: if_splits)
  next
    case 2
    then show thesis
      using assms(1) s fields leave u64_at_exact [of "tree_get t" "[20]"]
        u64_at_cleared [of "tree_get t" "[44]"]
      by (auto simp: validate_confirm_timing_def b_def [symmetric] Let_def field_bytes_row
          map_allocation_status_def split: if_splits)
  next
    case 3
    then show thesis
      using assms(1) s fields renew
      by (simp add: validate_confirm_timing_def b_def [symmetric] Let_def field_bytes_row
          map_allocation_status_def split: if_splits)
  qed
qed

lemma confirm_status:
  assumes "2 \<le> epoch_length_frames c" "0 < n" "confirmation_filter a \<noteq> []"
    and "seat_step c (Confirm n r) a = Some a'"
  shows
    "pa_status a = Joining \<Longrightarrow> epoch_for_frame c g = epoch_for_frame c n \<Longrightarrow>
       effective_status c a' g = EJoining"
    "pa_status a = Joining \<Longrightarrow> epoch_for_frame c g = epoch_for_frame c n + 1 \<Longrightarrow>
       effective_status c a' g = EActive"
    "pa_status a = Leaving \<Longrightarrow> epoch_for_frame c g = epoch_for_frame c n \<Longrightarrow>
       effective_status c a' g = ELeaving"
    "pa_status a = Leaving \<Longrightarrow> epoch_for_frame c g = epoch_for_frame c n + 1 \<Longrightarrow>
       effective_status c a' g = ExpiredLeaving"
    "pa_status a = Active \<Longrightarrow> epoch_for_frame c g = epoch_for_frame c n \<Longrightarrow>
       effective_status c a' g = (if effective_status c a g = EJoining then EJoining else EActive)"
proof -
  have later: "epoch_for_frame c n < epoch_for_frame c n + 1"
    using unat_epoch_plus [OF assms(1), of 1 n] by (simp add: word_less_nat_alt)
  note status = effective_status_def Let_def
  have joined: "a' = a\<lparr>pa_status := Active, join_confirm_frame_number := n,
      last_active_frame_number := n, pa_epoch := epoch_for_frame c n + 1\<rparr>" if "pa_status a = Joining"
    using assms(4) that by simp
  have left: "a' = a\<lparr>leave_confirm_frame_number := n\<rparr>" if "pa_status a = Leaving"
    using assms(4) that by simp
  have renewed: "a' = a\<lparr>last_active_frame_number := n, pa_epoch := epoch_for_frame c n + 1\<rparr>"
    if "pa_status a = Active"
    using assms(4) that by simp
  show "effective_status c a' g = EJoining"
    if "pa_status a = Joining" "epoch_for_frame c g = epoch_for_frame c n"
    using that(2) assms(2,3) later by (simp add: status joined [OF that(1)])
  show "effective_status c a' g = EActive"
    if "pa_status a = Joining" "epoch_for_frame c g = epoch_for_frame c n + 1"
    using that(2) assms(2,3) by (simp add: status joined [OF that(1)])
  show "effective_status c a' g = ELeaving"
    if "pa_status a = Leaving" "epoch_for_frame c g = epoch_for_frame c n"
    using that assms(2) later by (simp add: status left [OF that(1)])
  show "effective_status c a' g = ExpiredLeaving"
    if "pa_status a = Leaving" "epoch_for_frame c g = epoch_for_frame c n + 1"
    using that assms(2) by (simp add: status left [OF that(1)])
  show "effective_status c a' g = (if effective_status c a g = EJoining then EJoining else EActive)"
    if active: "pa_status a = Active" and g: "epoch_for_frame c g = epoch_for_frame c n"
    using active g assms(3) less_imp_le [OF later] by (simp add: status renewed [OF active])
qed



text \<open>Rejecting a leave that was confirmed leaves the confirmation behind. The operation accepts a
  leaving seat whether or not its leave was confirmed and even after it departed, makes it
  active again, and keeps the recorded confirm frame. When the prover leaves again in a
  later epoch than that confirm, the seat reads as departed from the very frame of the
  new leave, without serving its notice, and no frame can confirm the leave.\<close>

theorem rejected_leave_keeps_confirm:
  assumes "wf_vertex t" "decode_allocation_tree address t = Some (p, a)"
    and "pa_status a = Leaving" "0 < leave_confirm_frame_number a"
    and "2 \<le> epoch_length_frames c"
    and "epoch_for_frame c (leave_confirm_frame_number a) < epoch_for_frame c m"
    and "materialize_prover_reject sha t n = (t1, r1)" "materialize_prover_leave sha t1 m = (t2, r2)"
  shows "r1 = Ok () \<and> r2 = Ok () \<and>
    decode_allocation_tree address t1 = Some (p, a\<lparr>pa_status := Active, leave_reject_frame_number := n,
      last_active_frame_number := n\<rparr>) \<and>
    (\<exists>a2. decode_allocation_tree address t2 = Some (p, a2) \<and> leave_frame_number a2 = m \<and>
      effective_status c a2 m = ExpiredLeaving) \<and>
    (\<forall>k. validate_confirm_timing c k t2 = Err InvalidArgument)"
proof -
  have row: "allocation_row address (tree_get t) = Some (p, a)"
    using assms(1,2) by (simp add: decode_allocation_row)
  let ?a1 = "a\<lparr>pa_status := Active, leave_reject_frame_number := n, last_active_frame_number := n\<rparr>"
  let ?a2 = "?a1\<lparr>pa_status := Leaving, leave_frame_number := m\<rparr>"
  have s1: "map_option (Pair (fst (p, a))) (seat_step c (Reject n) (snd (p, a))) = Some (p, ?a1)"
    and s2: "map_option (Pair (fst (p, ?a1))) (seat_step c (Leave m) (snd (p, ?a1))) = Some (p, ?a2)"
    using assms(3) by simp_all
  have t1: "r1 = Ok ()" "wf_vertex t1" "allocation_row address (tree_get t1) = Some (p, ?a1)"
    using seats.accepted [OF assms(1) row s1, of sha] assms(7) by simp_all
  have t2: "r2 = Ok ()" "wf_vertex t2" "allocation_row address (tree_get t2) = Some (p, ?a2)"
    using seats.accepted [OF t1(2,3) s2, of sha] assms(8) by simp_all
  have departed: "effective_status c ?a2 m = ExpiredLeaving"
    using assms(4-6) unat_epoch_plus [OF assms(5), of 1 "leave_confirm_frame_number a"]
    by (simp add: effective_status_def Let_def word_less_nat_alt)
  have stuck: "validate_confirm_timing c k t2 = Err InvalidArgument" for k
  proof (cases "validate_confirm_timing c k t2")
    case (Inl e)
    then show ?thesis by (auto simp: validate_confirm_timing_def Let_def split: if_splits)
  next
    case (Inr u)
    then have "validate_confirm_timing c k t2 = Ok ()" by simp
    then show ?thesis by (rule confirm_timely [OF _ t2(3)]) (use assms(4) in simp_all)
  qed
  show ?thesis
    using t1 t2 departed stuck by (simp add: decode_allocation_row)
qed

lemma rejected_leave_keeps_confirm_witness:
  "\<exists>t t2 a2. create_allocation_vertex_tree demo_sha demo_sha [1] [7] 100 = Ok t \<and>
     fold (\<lambda>op t. fst (materialize_seat_op demo_sha initial_clock op t))
       [Confirm 800 None, Leave 1500, Confirm 2200 None, Reject 2200, Leave 3000] t = t2 \<and>
     decode_allocation_tree [] t2 = Some ([1], a2) \<and>
     effective_status initial_clock a2 3000 = ExpiredLeaving \<and>
     validate_confirm_timing initial_clock 3700 t2 = Err InvalidArgument"
proof -
  let ?c = initial_clock and ?run = "\<lambda>ops t. fold (\<lambda>op t. fst (materialize_seat_op demo_sha initial_clock op t)) ops t"
  let ?ops = "[Confirm 800 None, Leave 1500, Confirm 2200 None]"
  obtain t where t: "create_allocation_vertex_tree demo_sha demo_sha [1] [7] 100 = Ok t" "wf_vertex t"
    "\<And>address. decode_allocation_tree address t = Some ([1], fresh_seat address [7] 100)"
    by (rule create_allocation_spec [of "[1]" demo_sha demo_sha "[7]" 100]) simp_all
  let ?a = "fold (seat_attempt ?c) ?ops (fresh_seat [] [7] 100)"
  have a: "pa_status ?a = Leaving" "leave_confirm_frame_number ?a = 2200"
    by (simp_all add: seat_attempt_def fresh_seat_def)
  have row: "allocation_row [] (tree_get t) = Some ([1], fresh_seat [] [7] 100)"
    using t(2,3) decode_allocation_row [of schema_keys] by metis
  have t0: "wf_vertex (?run ?ops t)" "decode_allocation_tree [] (?run ?ops t) = Some ([1], ?a)"
    using seats.exec_run [OF t(2) row, of demo_sha ?c ?ops] decode_allocation_row [of schema_keys]
    unfolding seats_attempts by metis+
  obtain t1 r1 t2 r2 where steps: "materialize_prover_reject demo_sha (?run ?ops t) 2200 = (t1, r1)"
    "materialize_prover_leave demo_sha t1 3000 = (t2, r2)" by (metis surj_pair)
  have frames: "2 \<le> epoch_length_frames ?c" "(0 :: u64) < leave_confirm_frame_number ?a"
    "epoch_for_frame ?c (leave_confirm_frame_number ?a) < epoch_for_frame ?c 3000"
    unfolding a by (simp_all add: epoch_for_frame_def word_le_nat_alt word_less_nat_alt)
  have "?run [Confirm 800 None, Leave 1500, Confirm 2200 None, Reject 2200, Leave 3000] t = t2"
    using steps by simp
  with rejected_leave_keeps_confirm [OF t0 a(1) frames(2,1,3) steps] t(1) show ?thesis by blast
qed

subsection \<open>Kicks, aggregates, rewards and releases\<close>

text \<open>An amnesty, once granted, is never withdrawn, and a kick after every amnesty frame bars for good.\<close>

lemma amnesty_final:
  assumes "\<not> kick_bars_rejoin env k f" "f \<le> g"
  shows "\<not> kick_bars_rejoin env k g"
proof -
  have "forgiven k w f \<Longrightarrow> forgiven k w g" for w
    using assms(2) by (auto simp: forgiven_def)
  with assms(1) show ?thesis unfolding kick_bars_rejoin_def list_ex_iff by (metis (no_types, lifting))
qed

lemma late_kicks_bar:
  assumes "0 < k" "\<forall>w \<in> set (amnesty_frames env). w \<le> k"
  shows "kick_bars_rejoin env k f"
  using assms by (auto simp: kick_bars_rejoin_def forgiven_def list_ex_iff)

lemma aggregate_status:
  "compute_aggregate_prover_status ss = STATUS_ACTIVE \<longleftrightarrow> STATUS_ACTIVE \<in> set ss"
  "compute_aggregate_prover_status ss = STATUS_KICKED \<longleftrightarrow>
     set ss \<inter> {STATUS_ACTIVE, STATUS_JOINING, STATUS_LEAVING, STATUS_PAUSED} = {}"
  by (auto simp: compute_aggregate_prover_status_def status_bytes)

lemma reward_accumulates:
  assumes "wf_vertex t" "0 \<le> amount" "int (from_be (read_reward_balance t)) + amount < 256 ^ 32"
  obtains t' where "add_to_reward_balance sha poseidon t amount = (t', Ok ())" "wf_vertex t'"
    "int (from_be (read_reward_balance t')) = int (from_be (read_reward_balance t)) + amount"
    "length (read_reward_balance t') = 32"
proof -
  define m where "m = nat (int (from_be (read_reward_balance t)) + amount)"
  have m: "int m = int (from_be (read_reward_balance t)) + amount" "m < 256 ^ 32"
    using assms(2,3) by (simp_all add: m_def nat_less_iff)
  obtain t0 where t0: "write_type sha poseidon t REWARD = (t0, Ok ())" "wf_vertex t0"
    by (rule write_type_spec [OF assms(1)])
  obtain t' where t': "write_vertex_field sha t0 REWARD ''Balance'' (be_bytes 32 m) = (t', Ok ())"
    "wf_vertex t'" "tree_get t' = (tree_get t0)([4] \<mapsto> be_bytes 32 m)"
    by (rule write_vertex_field_spec [OF t0(2) field_key_reward(2), of sha "be_bytes 32 m"])
  have "add_to_reward_balance sha poseidon t amount = (t', Ok ())"
    using m assms(2) t0(1) t'(1)
    by (simp add: add_to_reward_balance_def m_def [symmetric] set_reward_balance_def and_then_def)
  moreover have "read_reward_balance t' = be_bytes 32 m"
    using t'(3) by (simp add: read_reward_balance_def read_vertex_field_def)
  ultimately show thesis using that t'(2) m by (simp add: from_be_bytes)
qed

end
