(* ===== verification/Leaf_Roots.thy ===== *)
theory Leaf_Roots
  imports Prover_Lifecycle "HOL-Library.Multiset"
begin

text \<open>
  Leaf-root registrations (\<^verbatim>\<open>quil-execution/src/global_intrinsic/materialize.rs\<close>): the vertex in which a
  member registers, per leaf of a shard, the root it proves storage against. A vertex keeps the three
  highest epochs registered, in fixed fields; a hash-proof epoch counts once it is
  sealed.
\<close>

subsection \<open>Data\<close>

record registration_slot =
  rs_epoch :: u64
  rs_leaf_root :: "bytes option"
  rs_num_blocks :: u64
  rs_registered_at :: "u64 option"
  rs_sealed_at :: "u64 option"

abbreviation REGISTRATION_CLASS :: string where
  "REGISTRATION_CLASS \<equiv> ''leafroot:LeafRootRegistration''"

type_synonym slot_names = "string \<times> string \<times> string \<times> string \<times> string"

definition PREV_FIELDS :: slot_names where
  "PREV_FIELDS = (''PrevEpoch'', ''PrevLeafRoot'', ''PrevNumBlocks'', ''PrevRegisteredAt'', ''PrevSealedAt'')"

definition CURRENT_FIELDS :: slot_names where
  "CURRENT_FIELDS = (''Epoch'', ''LeafRoot'', ''NumBlocks'', ''RegisteredAt'', ''SealedAt'')"

definition NEXT_FIELDS :: slot_names where
  "NEXT_FIELDS = (''NextEpoch'', ''NextLeafRoot'', ''NextNumBlocks'', ''NextRegisteredAt'', ''NextSealedAt'')"

definition SLOT_FIELDS :: "slot_names list" where
  "SLOT_FIELDS = [PREV_FIELDS, CURRENT_FIELDS, NEXT_FIELDS]"

definition pack_prefix :: "u32 list \<Rightarrow> bytes" where
  "pack_prefix nibbles = concat (map write_u32 nibbles)"

fun unpack_prefix :: "bytes \<Rightarrow> u32 list" where
  "unpack_prefix (a # b # c # d # r) = of_nat (from_be [a, b, c, d]) # unpack_prefix r"
| "unpack_prefix _ = []"

definition leaf_root_address :: "(bytes \<Rightarrow> bytes result) \<Rightarrow> bytes \<Rightarrow> bytes \<Rightarrow> bytes result" where
  "leaf_root_address hash member_address leaf_id =
     hash (map of_char ''LEAF_ROOT_REGISTRATION'' @ member_address @ leaf_id)"

subsection \<open>Reading and writing\<close>

definition read_u64_field :: "vc_tree \<Rightarrow> string \<Rightarrow> string \<Rightarrow> u64 option" where
  "read_u64_field t cls fld =
     Option.bind (read_vertex_field t cls fld) (\<lambda>b. if length b < 8 then None else Some (u64_of (take 8 b)))"

definition read_slot :: "vc_tree \<Rightarrow> slot_names \<Rightarrow> registration_slot option" where
  "read_slot t names =
     (case names of (e, lr, nb, rg, sl) \<Rightarrow>
        map_option (\<lambda>epoch.
          \<lparr>rs_epoch = epoch, rs_leaf_root = read_vertex_field t REGISTRATION_CLASS lr,
           rs_num_blocks = (case read_u64_field t REGISTRATION_CLASS nb of None \<Rightarrow> 0 | Some n \<Rightarrow> n),
           rs_registered_at = read_u64_field t REGISTRATION_CLASS rg,
           rs_sealed_at = read_u64_field t REGISTRATION_CLASS sl\<rparr>)
        (read_u64_field t REGISTRATION_CLASS e))"

definition registration_slots :: "vc_tree \<Rightarrow> registration_slot list" where
  "registration_slots t = List.map_filter (read_slot t) SLOT_FIELDS"

definition opt_field :: "string \<Rightarrow> u64 option \<Rightarrow> (string \<times> bytes) list" where
  "opt_field name v = (case v of None \<Rightarrow> [] | Some frame \<Rightarrow> [(name, write_u64 frame)])"

definition slot_writes :: "slot_names \<Rightarrow> registration_slot option \<Rightarrow> (string \<times> bytes) list" where
  "slot_writes names placed =
     (case placed of
        None \<Rightarrow> []
      | Some s \<Rightarrow> (case names of (e, lr, nb, rg, sl) \<Rightarrow>
          [(e, write_u64 (rs_epoch s)), (lr, case rs_leaf_root s of None \<Rightarrow> [] | Some r \<Rightarrow> r),
           (nb, write_u64 (rs_num_blocks s))] @ opt_field rg (rs_registered_at s) @ opt_field sl (rs_sealed_at s)))"

definition write_registration ::
  "(bytes \<Rightarrow> bytes) \<Rightarrow> (bytes \<Rightarrow> bytes) \<Rightarrow> bytes \<Rightarrow> bytes \<Rightarrow> bytes \<Rightarrow> u64 \<Rightarrow> registration_slot list \<Rightarrow> vc_tree result" where
  "write_registration sha poseidon member_address shard_filter prefix_bytes frame ss =
     (let cur = length ss - 2;
          prev = (if cur = 0 then None else list_get ss (cur - 1)) in
      built (and_then (write_type sha poseidon new_tree REGISTRATION_CLASS)
        (write_all sha REGISTRATION_CLASS
          ([(''Member'', member_address), (''ShardFilter'', shard_filter), (''Prefix'', prefix_bytes),
            (''RegistrationFrameNumber'', write_u64 frame)] @
           slot_writes CURRENT_FIELDS (list_get ss cur) @ slot_writes NEXT_FIELDS (list_get ss (cur + 1)) @
           slot_writes PREV_FIELDS prev))))"

definition upsert_leaf_root_registration ::
  "(bytes \<Rightarrow> bytes) \<Rightarrow> (bytes \<Rightarrow> bytes) \<Rightarrow> clock \<Rightarrow> vc_tree option \<Rightarrow> bytes \<Rightarrow> bytes \<Rightarrow> u32 list \<Rightarrow> u64 \<Rightarrow>
   bytes \<Rightarrow> u64 \<Rightarrow> u64 \<Rightarrow> gates \<Rightarrow> vc_tree result \<times> gates" where
  "upsert_leaf_root_registration sha poseidon c existing member_address shard_filter nibbles new_epoch
     new_leaf_root new_num_blocks frame gs =
     (let old = (case existing of None \<Rightarrow> [] | Some t \<Rightarrow> registration_slots t);
          (hashed, gs') = gate_holds hash_storage_proof c new_epoch gs;
          fresh = \<lparr>rs_epoch = new_epoch, rs_leaf_root = Some new_leaf_root, rs_num_blocks = new_num_blocks,
                   rs_registered_at = (if hashed then Some frame else None), rs_sealed_at = None\<rparr>;
          ss = sort_key rs_epoch (filter (\<lambda>s. rs_epoch s \<noteq> new_epoch) old @ [fresh]) in
      (write_registration sha poseidon member_address shard_filter (pack_prefix nibbles) frame
         (drop (length ss - 3) ss), gs'))"

fun seal_first :: "u64 \<Rightarrow> u64 \<Rightarrow> registration_slot list \<Rightarrow> registration_slot list option" where
  "seal_first epoch frame [] = None"
| "seal_first epoch frame (s # ss) =
     (if rs_epoch s = epoch then Some (s\<lparr>rs_sealed_at := Some frame\<rparr> # ss)
      else map_option ((#) s) (seal_first epoch frame ss))"

definition registration_field :: "vc_tree \<Rightarrow> string \<Rightarrow> bytes result" where
  "registration_field t fld =
     (case read_vertex_field t REGISTRATION_CLASS fld of None \<Rightarrow> Err InvalidArgument | Some b \<Rightarrow> Ok b)"

definition mark_registration_sealed ::
  "(bytes \<Rightarrow> bytes) \<Rightarrow> (bytes \<Rightarrow> bytes) \<Rightarrow> vc_tree \<Rightarrow> u64 \<Rightarrow> u64 \<Rightarrow> vc_tree option result" where
  "mark_registration_sealed sha poseidon t epoch frame =
     (case seal_first epoch frame (registration_slots t) of
        None \<Rightarrow> Ok None
      | Some ss \<Rightarrow>
          let registered = (case read_u64_field t REGISTRATION_CLASS ''RegistrationFrameNumber'' of
                              None \<Rightarrow> 0 | Some n \<Rightarrow> n) in
          try_then (registration_field t ''Member'') (\<lambda>m.
          try_then (registration_field t ''ShardFilter'') (\<lambda>f.
          try_then (registration_field t ''Prefix'') (\<lambda>p.
          try_then (write_registration sha poseidon m f p registered ss) (\<lambda>t'. Ok (Some t'))))))"

definition leaf_root_registration_for_epoch ::
  "clock \<Rightarrow> vc_tree \<Rightarrow> u64 \<Rightarrow> gates \<Rightarrow> (bytes \<times> u64) option \<times> gates" where
  "leaf_root_registration_for_epoch c t active_epoch gs =
     (case List.find (\<lambda>s. rs_epoch s = active_epoch) (registration_slots t) of
        None \<Rightarrow> (None, gs)
      | Some s \<Rightarrow>
          let (hashed, gs') = gate_holds hash_storage_proof c active_epoch gs in
          (if hashed \<and> rs_sealed_at s = None then None
           else map_option (\<lambda>r. (r, rs_num_blocks s)) (rs_leaf_root s), gs'))"

definition create_leaf_root_vertex_tree ::
  "(bytes \<Rightarrow> bytes) \<Rightarrow> (bytes \<Rightarrow> bytes) \<Rightarrow> bytes \<Rightarrow> bytes \<Rightarrow> u32 list \<Rightarrow> u64 \<Rightarrow> bytes \<Rightarrow> u64 \<Rightarrow> u64 \<Rightarrow> vc_tree result" where
  "create_leaf_root_vertex_tree sha poseidon member_address shard_filter nibbles epoch leaf_root num_blocks frame =
     built (and_then (write_type sha poseidon new_tree REGISTRATION_CLASS)
       (write_all sha REGISTRATION_CLASS
         [(''Member'', member_address), (''ShardFilter'', shard_filter), (''Prefix'', pack_prefix nibbles),
          (''Epoch'', write_u64 epoch), (''LeafRoot'', leaf_root), (''NumBlocks'', write_u64 num_blocks),
          (''RegistrationFrameNumber'', write_u64 frame)]))"

subsection \<open>What a written vertex reads back\<close>

lemma pack_prefix_round_trip: "unpack_prefix (pack_prefix ns) = ns"
proof (induction ns)
  case (Cons n ns)
  obtain a b c d where q: "write_u32 n = [a, b, c, d]"
  proof -
    have "length (write_u32 n) = Suc (Suc (Suc (Suc 0)))" by simp
    then show thesis using that unfolding length_Suc_conv length_0_conv by blast
  qed
  have "of_nat (from_be (write_u32 n)) = n"
    using unat_u32_bound [of n] by (simp add: write_u32_def from_be_bytes)
  then show ?case using Cons q by (simp add: pack_prefix_def)
qed (simp add: pack_prefix_def)

lemma field_key_registration [simp]:
  "field_key REGISTRATION_CLASS ''Member'' = Some [0]"
  "field_key REGISTRATION_CLASS ''ShardFilter'' = Some [4]"
  "field_key REGISTRATION_CLASS ''Prefix'' = Some [8]"
  "field_key REGISTRATION_CLASS ''Epoch'' = Some [12]"
  "field_key REGISTRATION_CLASS ''LeafRoot'' = Some [16]"
  "field_key REGISTRATION_CLASS ''NumBlocks'' = Some [20]"
  "field_key REGISTRATION_CLASS ''RegistrationFrameNumber'' = Some [24]"
  "field_key REGISTRATION_CLASS ''NextEpoch'' = Some [28]"
  "field_key REGISTRATION_CLASS ''NextLeafRoot'' = Some [32]"
  "field_key REGISTRATION_CLASS ''NextNumBlocks'' = Some [36]"
  "field_key REGISTRATION_CLASS ''PrevEpoch'' = Some [40]"
  "field_key REGISTRATION_CLASS ''PrevLeafRoot'' = Some [44]"
  "field_key REGISTRATION_CLASS ''PrevNumBlocks'' = Some [48]"
  "field_key REGISTRATION_CLASS ''RegisteredAt'' = Some [80]"
  "field_key REGISTRATION_CLASS ''SealedAt'' = Some [84]"
  "field_key REGISTRATION_CLASS ''NextRegisteredAt'' = Some [88]"
  "field_key REGISTRATION_CLASS ''NextSealedAt'' = Some [92]"
  "field_key REGISTRATION_CLASS ''PrevRegisteredAt'' = Some [96]"
  "field_key REGISTRATION_CLASS ''PrevSealedAt'' = Some [100]"
  by (simp_all add: field_key_def field_tag_of_def class_def_of_def GLOBAL_CLASSES_def class_defs
      tag_def order_to_key_def GLOBAL_MAX_ORDER_def MAX_ORDER_SINGLE_BYTE_def)

lemma row_writes_opt:
  "field_key cls name = Some k \<Longrightarrow> m k = None \<Longrightarrow>
   row_writes cls (opt_field name v) m = m(k := map_option write_u64 v)"
  by (cases v) (auto simp: opt_field_def)

lemma row_writes_slot:
  assumes "field_key cls e = Some k1" "field_key cls lr = Some k2" "field_key cls nb = Some k3"
    "field_key cls rg = Some k4" "field_key cls sl = Some k5" "distinct [k1, k2, k3, k4, k5]"
    "m k4 = None" "m k5 = None"
  shows "row_writes cls (slot_writes (e, lr, nb, rg, sl) (Some s)) m =
    m(k1 \<mapsto> write_u64 (rs_epoch s), k2 \<mapsto> (case rs_leaf_root s of None \<Rightarrow> [] | Some r \<Rightarrow> r),
      k3 \<mapsto> write_u64 (rs_num_blocks s), k4 := map_option write_u64 (rs_registered_at s),
      k5 := map_option write_u64 (rs_sealed_at s))"
proof -
  let ?m = "m(k1 \<mapsto> write_u64 (rs_epoch s), k2 \<mapsto> (case rs_leaf_root s of None \<Rightarrow> [] | Some r \<Rightarrow> r),
    k3 \<mapsto> write_u64 (rs_num_blocks s))"
  have "?m k4 = None" "(?m(k4 := map_option write_u64 (rs_registered_at s))) k5 = None"
    using assms(6-8) by auto
  from row_writes_opt [of cls rg k4 ?m, OF assms(4) this(1)]
    row_writes_opt [of cls sl k5 "?m(k4 := map_option write_u64 (rs_registered_at s))", OF assms(5) this(2)]
    assms(1-3)
  show ?thesis by (simp add: slot_writes_def row_writes_append del: fun_upd_apply)
qed

lemma known_slot_writes:
  assumes "list_all (\<lambda>f. field_key cls f \<noteq> None) [e, lr, nb, rg, sl]"
  shows "list_all (\<lambda>(f, v). field_key cls f \<noteq> None) (slot_writes (e, lr, nb, rg, sl) placed)"
  using assms by (auto simp: slot_writes_def opt_field_def split: option.split)

definition opt_u64 :: "bytes option \<Rightarrow> u64 option" where
  "opt_u64 b = Option.bind b (\<lambda>b. if length b < 8 then None else Some (u64_of (take 8 b)))"

lemma opt_u64_simps [simp]: "opt_u64 None = None" "opt_u64 (Some (write_u64 n)) = Some n"
    "opt_u64 (map_option write_u64 v) = v"
proof -
  show "opt_u64 None = None" by (simp add: opt_u64_def)
  show some: "opt_u64 (Some (write_u64 n)) = Some n" for n
    using unat_u64_bound [of n] by (simp add: opt_u64_def u64_of_def write_u64_def from_be_bytes)
  show "opt_u64 (map_option write_u64 v) = v" by (cases v) (simp_all add: some, simp add: opt_u64_def)
qed

lemma read_u64_field_key: "field_key cls f = Some k \<Longrightarrow> read_u64_field t cls f = opt_u64 (tree_get t k)"
  by (simp add: read_u64_field_def read_vertex_field_def opt_u64_def)

definition rooted :: "registration_slot list \<Rightarrow> bool" where
  "rooted ss \<longleftrightarrow> (\<forall>s \<in> set ss. rs_leaf_root s \<noteq> None)"

lemma rooted_Nil [simp]: "rooted []"
  by (simp add: rooted_def)

lemma short_list_cases:
  assumes "ss \<noteq> []" "length ss \<le> 3"
  obtains a where "ss = [a]" | a b where "ss = [a, b]" | a b c where "ss = [a, b, c]"
proof -
  consider "length ss = 1" | "length ss = 2" | "length ss = 3"
    using assms by (cases ss) (auto simp: le_Suc_eq numeral_eq_Suc)
  then show thesis
    by cases (use that in \<open>auto simp: length_Suc_conv numeral_eq_Suc\<close>)
qed

lemma read_slot_row:
  assumes "field_key REGISTRATION_CLASS e = Some k1" "field_key REGISTRATION_CLASS lr = Some k2"
    "field_key REGISTRATION_CLASS nb = Some k3" "field_key REGISTRATION_CLASS rg = Some k4"
    "field_key REGISTRATION_CLASS sl = Some k5"
  shows "tree_get t k1 = None \<Longrightarrow> read_slot t (e, lr, nb, rg, sl) = None"
    "\<lbrakk>tree_get t k1 = Some (write_u64 (rs_epoch s)); tree_get t k2 = rs_leaf_root s;
      tree_get t k3 = Some (write_u64 (rs_num_blocks s));
      tree_get t k4 = map_option write_u64 (rs_registered_at s);
      tree_get t k5 = map_option write_u64 (rs_sealed_at s)\<rbrakk> \<Longrightarrow> read_slot t (e, lr, nb, rg, sl) = Some s"
  using assms by (simp_all add: read_slot_def read_u64_field_key read_vertex_field_def)

lemmas slot_fields = CURRENT_FIELDS_def NEXT_FIELDS_def PREV_FIELDS_def

lemma slot_writes_None [simp]: "slot_writes names None = []"
  by (simp add: slot_writes_def)

lemma row_writes_slots:
  "m [80] = None \<Longrightarrow> m [84] = None \<Longrightarrow>
   row_writes REGISTRATION_CLASS (slot_writes CURRENT_FIELDS (Some s)) m =
    m([12] \<mapsto> write_u64 (rs_epoch s), [16] \<mapsto> (case rs_leaf_root s of None \<Rightarrow> [] | Some r \<Rightarrow> r),
      [20] \<mapsto> write_u64 (rs_num_blocks s), [80] := map_option write_u64 (rs_registered_at s),
      [84] := map_option write_u64 (rs_sealed_at s))"
  "m [88] = None \<Longrightarrow> m [92] = None \<Longrightarrow>
   row_writes REGISTRATION_CLASS (slot_writes NEXT_FIELDS (Some s)) m =
    m([28] \<mapsto> write_u64 (rs_epoch s), [32] \<mapsto> (case rs_leaf_root s of None \<Rightarrow> [] | Some r \<Rightarrow> r),
      [36] \<mapsto> write_u64 (rs_num_blocks s), [88] := map_option write_u64 (rs_registered_at s),
      [92] := map_option write_u64 (rs_sealed_at s))"
  "m [96] = None \<Longrightarrow> m [100] = None \<Longrightarrow>
   row_writes REGISTRATION_CLASS (slot_writes PREV_FIELDS (Some s)) m =
    m([40] \<mapsto> write_u64 (rs_epoch s), [44] \<mapsto> (case rs_leaf_root s of None \<Rightarrow> [] | Some r \<Rightarrow> r),
      [48] \<mapsto> write_u64 (rs_num_blocks s), [96] := map_option write_u64 (rs_registered_at s),
      [100] := map_option write_u64 (rs_sealed_at s))"
  unfolding slot_fields by (rule row_writes_slot; simp)+

lemma read_slots:
  "tree_get t [12] = None \<Longrightarrow> read_slot t CURRENT_FIELDS = None"
  "tree_get t [28] = None \<Longrightarrow> read_slot t NEXT_FIELDS = None"
  "tree_get t [40] = None \<Longrightarrow> read_slot t PREV_FIELDS = None"
  "\<lbrakk>tree_get t [12] = Some (write_u64 (rs_epoch s)); tree_get t [16] = rs_leaf_root s;
    tree_get t [20] = Some (write_u64 (rs_num_blocks s)); tree_get t [80] = map_option write_u64 (rs_registered_at s);
    tree_get t [84] = map_option write_u64 (rs_sealed_at s)\<rbrakk> \<Longrightarrow> read_slot t CURRENT_FIELDS = Some s"
  "\<lbrakk>tree_get t [28] = Some (write_u64 (rs_epoch s)); tree_get t [32] = rs_leaf_root s;
    tree_get t [36] = Some (write_u64 (rs_num_blocks s)); tree_get t [88] = map_option write_u64 (rs_registered_at s);
    tree_get t [92] = map_option write_u64 (rs_sealed_at s)\<rbrakk> \<Longrightarrow> read_slot t NEXT_FIELDS = Some s"
  "\<lbrakk>tree_get t [40] = Some (write_u64 (rs_epoch s)); tree_get t [44] = rs_leaf_root s;
    tree_get t [48] = Some (write_u64 (rs_num_blocks s)); tree_get t [96] = map_option write_u64 (rs_registered_at s);
    tree_get t [100] = map_option write_u64 (rs_sealed_at s)\<rbrakk> \<Longrightarrow> read_slot t PREV_FIELDS = Some s"
  unfolding slot_fields by (rule read_slot_row; simp)+

lemma root_written: "rs_leaf_root s \<noteq> None \<Longrightarrow> Some (case rs_leaf_root s of None \<Rightarrow> [] | Some r \<Rightarrow> r) = rs_leaf_root s"
  by (cases "rs_leaf_root s") simp_all

lemma known_slots:
  "list_all (\<lambda>(f, v). field_key REGISTRATION_CLASS f \<noteq> None) (slot_writes CURRENT_FIELDS p)"
  "list_all (\<lambda>(f, v). field_key REGISTRATION_CLASS f \<noteq> None) (slot_writes NEXT_FIELDS p)"
  "list_all (\<lambda>(f, v). field_key REGISTRATION_CLASS f \<noteq> None) (slot_writes PREV_FIELDS p)"
  unfolding slot_fields by (rule known_slot_writes; simp)+

lemma write_registration_spec:
  assumes "ss \<noteq> []" "length ss \<le> 3" "rooted ss"
  obtains t where "write_registration sha poseidon mb flt pre frame ss = Ok t" "wf_vertex t"
    "registration_slots t = ss" "registration_field t ''Member'' = Ok mb"
    "registration_field t ''ShardFilter'' = Ok flt" "registration_field t ''Prefix'' = Ok pre"
    "read_u64_field t REGISTRATION_CLASS ''RegistrationFrameNumber'' = Some frame"
proof -
  let ?head = "[(''Member'', mb), (''ShardFilter'', flt), (''Prefix'', pre),
      (''RegistrationFrameNumber'', write_u64 frame)]"
  let ?ws = "?head @
    slot_writes CURRENT_FIELDS (list_get ss (length ss - 2)) @
    slot_writes NEXT_FIELDS (list_get ss (length ss - 2 + 1)) @
    slot_writes PREV_FIELDS (if length ss - 2 = 0 then None else list_get ss (length ss - 2 - 1))"
  have known: "list_all (\<lambda>(f, v). field_key REGISTRATION_CLASS f \<noteq> None) ?ws"
    using known_slots by simp
  obtain t where t: "built (and_then (write_type sha poseidon new_tree REGISTRATION_CLASS)
      (write_all sha REGISTRATION_CLASS ?ws)) = Ok t" "wf_vertex t"
    "tree_get t = row_writes REGISTRATION_CLASS ?ws [TYPE_KEY \<mapsto> compute_type_hash poseidon REGISTRATION_CLASS]"
    by (rule built_writes [OF known])
  have written: "write_registration sha poseidon mb flt pre frame ss = Ok t"
    using t(1) by (simp only: write_registration_def Let_def)
  let ?m = "[TYPE_KEY \<mapsto> compute_type_hash poseidon REGISTRATION_CLASS, [0] \<mapsto> mb, [4] \<mapsto> flt, [8] \<mapsto> pre,
    [24] \<mapsto> write_u64 frame]"
  have "row_writes REGISTRATION_CLASS ?head [TYPE_KEY \<mapsto> compute_type_hash poseidon REGISTRATION_CLASS] = ?m"
    by (simp del: fun_upd_apply)
  then have row: "tree_get t = row_writes REGISTRATION_CLASS
      (slot_writes PREV_FIELDS (if length ss - 2 = 0 then None else list_get ss (length ss - 2 - 1)))
      (row_writes REGISTRATION_CLASS (slot_writes NEXT_FIELDS (list_get ss (length ss - 2 + 1)))
      (row_writes REGISTRATION_CLASS (slot_writes CURRENT_FIELDS (list_get ss (length ss - 2))) ?m))"
    unfolding t(3) row_writes_append by simp
  note lookup = row list_get_def row_writes_slots single_not_type_key
  have "registration_slots t = ss \<and> registration_field t ''Member'' = Ok mb \<and>
    registration_field t ''ShardFilter'' = Ok flt \<and> registration_field t ''Prefix'' = Ok pre \<and>
    read_u64_field t REGISTRATION_CLASS ''RegistrationFrameNumber'' = Some frame"
    using assms(1,2)
  proof (cases rule: short_list_cases)
    case (1 a)
    have "read_slot t CURRENT_FIELDS = Some a"
      by (rule read_slots(4)) (use assms(3) root_written [of a] in \<open>simp_all add: lookup rooted_def 1\<close>)
    moreover have "read_slot t NEXT_FIELDS = None" "read_slot t PREV_FIELDS = None"
      by (rule read_slots; simp add: lookup 1)+
    ultimately show ?thesis
      by (simp add: registration_slots_def List.map_filter_simps SLOT_FIELDS_def registration_field_def
          read_vertex_field_def read_u64_field_key lookup 1)
  next
    case (2 a b)
    have "read_slot t CURRENT_FIELDS = Some a"
      by (rule read_slots(4)) (use assms(3) root_written [of a] in \<open>simp_all add: lookup rooted_def 2\<close>)
    moreover have "read_slot t NEXT_FIELDS = Some b"
      by (rule read_slots(5)) (use assms(3) root_written [of b] in \<open>simp_all add: lookup rooted_def 2\<close>)
    moreover have "read_slot t PREV_FIELDS = None"
      by (rule read_slots; simp add: lookup 2)
    ultimately show ?thesis
      by (simp add: registration_slots_def List.map_filter_simps SLOT_FIELDS_def registration_field_def
          read_vertex_field_def read_u64_field_key lookup 2)
  next
    case (3 a b c)
    have "read_slot t CURRENT_FIELDS = Some b"
      by (rule read_slots(4)) (use assms(3) root_written [of b] in \<open>simp_all add: lookup rooted_def 3\<close>)
    moreover have "read_slot t NEXT_FIELDS = Some c"
      by (rule read_slots(5)) (use assms(3) root_written [of c] in \<open>simp_all add: lookup rooted_def 3\<close>)
    moreover have "read_slot t PREV_FIELDS = Some a"
      by (rule read_slots(6)) (use assms(3) root_written [of a] in \<open>simp_all add: lookup rooted_def 3\<close>)
    ultimately show ?thesis
      by (simp add: registration_slots_def List.map_filter_simps SLOT_FIELDS_def registration_field_def
          read_vertex_field_def read_u64_field_key lookup 3)
  qed
  then show thesis using that t(2) written by blast
qed

subsection \<open>The three highest epochs\<close>

text \<open>
  The specification keeps every epoch ever registered, in ascending order; the vertex keeps its
  last three.
\<close>

fun ins :: "registration_slot \<Rightarrow> registration_slot list \<Rightarrow> registration_slot list" where
  "ins s [] = [s]"
| "ins s (x # xs) =
     (if rs_epoch x < rs_epoch s then x # ins s xs
      else if rs_epoch x = rs_epoch s then s # xs else s # x # xs)"

definition top3 :: "'a list \<Rightarrow> 'a list" where
  "top3 xs = drop (length xs - 3) xs"

abbreviation by_epoch :: "registration_slot list \<Rightarrow> bool" where
  "by_epoch ss \<equiv> sorted_wrt (<) (map rs_epoch ss)"

lemma set_ins: "by_epoch ss \<Longrightarrow> set (ins s ss) = insert s {x \<in> set ss. rs_epoch x \<noteq> rs_epoch s}"
  by (induction ss) auto

lemma ins_sorted: "by_epoch ss \<Longrightarrow> by_epoch (ins s ss)"
proof (induction ss)
  case (Cons x xs)
  then show ?case by (auto simp: set_ins)
qed simp

lemma distinct_by_epoch: "by_epoch ss \<Longrightarrow> distinct ss \<and> inj_on rs_epoch (set ss)"
  by (metis distinct_map strict_sorted_iff)

lemma merge_is_ins:
  assumes "by_epoch ss"
  shows "sort_key rs_epoch (filter (\<lambda>x. rs_epoch x \<noteq> rs_epoch s) ss @ [s]) = ins s ss"
proof (rule sort_key_inj_key_eq)
  let ?xs = "filter (\<lambda>x. rs_epoch x \<noteq> rs_epoch s) ss @ [s]"
  have set: "set ?xs = set (ins s ss)" using set_ins [OF assms] by auto
  have "distinct ?xs" using distinct_by_epoch [OF assms] by auto
  moreover have "distinct (ins s ss)" using distinct_by_epoch [OF ins_sorted [OF assms]] by simp
  ultimately show "mset ?xs = mset (ins s ss)" using set set_eq_iff_mset_eq_distinct by blast
  show "inj_on rs_epoch (set ?xs)"
    unfolding set using distinct_by_epoch [OF ins_sorted [OF assms]] by simp
  show "sorted (map rs_epoch (ins s ss))"
    using ins_sorted [OF assms] by (simp add: strict_sorted_iff)
qed

lemma top3_append: "3 \<le> length ys \<Longrightarrow> top3 (xs @ ys) = top3 ys"
  by (simp add: top3_def)

lemma top3_split:
  obtains pre where "xs = pre @ top3 xs" "pre = [] \<or> length (top3 xs) = 3"
proof -
  have "xs = take (length xs - 3) xs @ top3 xs" by (simp add: top3_def)
  moreover have "take (length xs - 3) xs = [] \<or> length (top3 xs) = 3" by (auto simp: top3_def)
  ultimately show thesis using that by blast
qed

lemma ins_above:
  "(\<And>x. x \<in> set pre \<Longrightarrow> rs_epoch x < rs_epoch s) \<Longrightarrow> ins s (pre @ ss) = pre @ ins s ss"
  by (induction pre) simp_all

lemma length_ins: "length ss \<le> length (ins s ss)"
  by (induction ss) auto

lemma ins_below:
  assumes "by_epoch (pre @ c # cs)" "rs_epoch s < rs_epoch c"
  shows "\<exists>pre'. ins s (pre @ c # cs) = pre' @ c # cs"
  using assms
proof (induction pre)
  case Nil
  then show ?case by (intro exI [of _ "[s]"]) auto
next
  case (Cons x xs)
  show ?case
  proof (cases "rs_epoch x < rs_epoch s")
    case True
    with Cons obtain p where "ins s (xs @ c # cs) = p @ c # cs" by auto
    with True show ?thesis by (intro exI [of _ "x # p"]) simp
  next
    case False
    then show ?thesis
      by (cases "rs_epoch x = rs_epoch s") (auto intro: exI [of _ "s # xs"] exI [of _ "s # x # xs"])
  qed
qed

lemma top3_ins:
  assumes "by_epoch ss"
  shows "top3 (ins s (top3 ss)) = top3 (ins s ss)"
proof -
  obtain pre where pre: "ss = pre @ top3 ss" "pre = [] \<or> length (top3 ss) = 3" by (rule top3_split)
  show ?thesis
  proof (cases "pre = []")
    case True
    with pre show ?thesis by simp
  next
    case False
    with pre have len: "length (top3 ss) = 3" by simp
    then obtain c cs where c: "top3 ss = c # cs" by (cases "top3 ss") auto
    have ss: "ss = pre @ c # cs" using pre(1) c by metis
    show ?thesis
    proof (cases "rs_epoch s < rs_epoch c")
      case True
      with ins_below [of pre c cs s] assms pre(1) c obtain p where p: "ins s ss = p @ c # cs" by metis
      have "top3 (ins s (top3 ss)) = top3 ([s] @ c # cs)" using True c by auto
      also have "\<dots> = top3 (c # cs)" by (rule top3_append) (use len c in simp)
      also have "\<dots> = top3 (ins s ss)" unfolding p by (rule top3_append [symmetric]) (use len c in simp)
      finally show ?thesis .
    next
      case False
      have "rs_epoch x < rs_epoch c" if "x \<in> set pre" for x
        using assms that unfolding ss by (auto simp: sorted_wrt_append)
      then have "ins s (pre @ c # cs) = pre @ ins s (c # cs)"
        using False by (intro ins_above) (force simp: not_less)
      then have "ins s ss = pre @ ins s (top3 ss)" using pre(1) c by simp
      then show ?thesis using top3_append [of "ins s (top3 ss)" pre] length_ins [of "top3 ss" s] len by simp
    qed
  qed
qed

subsection \<open>Histories of registrations\<close>

datatype registration_event = RegisterRoot u64 bytes u64 u64 | SealRoot u64 u64

fun apply_registration ::
  "(bytes \<Rightarrow> bytes) \<Rightarrow> (bytes \<Rightarrow> bytes) \<Rightarrow> clock \<Rightarrow> bytes \<Rightarrow> bytes \<Rightarrow> u32 list \<Rightarrow> registration_event \<Rightarrow>
   vc_tree option \<times> gates \<Rightarrow> vc_tree option \<times> gates" where
  "apply_registration sha poseidon c mb flt nibbles (RegisterRoot e r n f) (existing, gs) =
     (case upsert_leaf_root_registration sha poseidon c existing mb flt nibbles e r n f gs of
        (Ok t, gs') \<Rightarrow> (Some t, gs') | (Err _, gs') \<Rightarrow> (existing, gs'))"
| "apply_registration sha poseidon c mb flt nibbles (SealRoot e f) (existing, gs) =
     (case existing of
        None \<Rightarrow> (None, gs)
      | Some t \<Rightarrow> (case mark_registration_sealed sha poseidon t e f of
          Ok (Some t') \<Rightarrow> (Some t', gs) | _ \<Rightarrow> (existing, gs)))"

definition seal_if :: "u64 \<Rightarrow> u64 \<Rightarrow> registration_slot \<Rightarrow> registration_slot" where
  "seal_if e f s = (if rs_epoch s = e then s\<lparr>rs_sealed_at := Some f\<rparr> else s)"

definition fresh_slot :: "u64 \<Rightarrow> bytes \<Rightarrow> u64 \<Rightarrow> u64 \<Rightarrow> bool \<Rightarrow> registration_slot" where
  "fresh_slot e r n f hashed =
     \<lparr>rs_epoch = e, rs_leaf_root = Some r, rs_num_blocks = n,
      rs_registered_at = (if hashed then Some f else None), rs_sealed_at = None\<rparr>"

fun spec_registration ::
  "clock \<Rightarrow> registration_event \<Rightarrow> registration_slot list \<times> gates \<Rightarrow> registration_slot list \<times> gates" where
  "spec_registration c (RegisterRoot e r n f) (ss, gs) =
     (case gate_holds hash_storage_proof c e gs of (hashed, gs') \<Rightarrow> (ins (fresh_slot e r n f hashed) ss, gs'))"
| "spec_registration c (SealRoot e f) (ss, gs) = (map (seal_if e f) ss, gs)"

lemma epoch_seal_if [simp]: "rs_epoch (seal_if e f s) = rs_epoch s"
  by (simp add: seal_if_def)

lemma seal_first_spec:
  "by_epoch ss \<Longrightarrow>
   seal_first e f ss = (if e \<in> rs_epoch ` set ss then Some (map (seal_if e f) ss) else None)"
proof (induction ss)
  case (Cons s ss)
  have "map (seal_if e f) ss = ss" if "rs_epoch s = e"
    using Cons.prems that by (intro map_idI) (auto simp: seal_if_def)
  with Cons show ?case by (auto simp: seal_if_def [of e f s])
qed simp

definition registration_inv :: "bytes \<Rightarrow> bytes \<Rightarrow> u32 list \<Rightarrow> registration_slot list \<Rightarrow> vc_tree option \<Rightarrow> bool" where
  "registration_inv mb flt nibbles ss existing \<longleftrightarrow>
     by_epoch ss \<and> rooted ss \<and>
     (case existing of
        None \<Rightarrow> ss = []
      | Some t \<Rightarrow> ss \<noteq> [] \<and> wf_vertex t \<and> registration_slots t = top3 ss \<and>
          registration_field t ''Member'' = Ok mb \<and> registration_field t ''ShardFilter'' = Ok flt \<and>
          registration_field t ''Prefix'' = Ok (pack_prefix nibbles))"

lemma top3_simps [simp]: "length (top3 xs) \<le> 3" "top3 xs = [] \<longleftrightarrow> xs = []" "top3 (map g xs) = map g (top3 xs)"
  by (auto simp: top3_def drop_map) (cases xs, auto)

lemma set_top3: "set (top3 xs) \<subseteq> set xs"
  by (simp add: top3_def set_drop_subset)

lemma top3_sorted: "by_epoch ss \<Longrightarrow> by_epoch (top3 ss)"
  by (simp add: top3_def drop_map [symmetric] sorted_wrt_drop)

lemma rooted_top3: "rooted ss \<Longrightarrow> rooted (top3 ss)"
  using set_top3 by (fastforce simp: rooted_def)

lemma register_root_inv:
  assumes "registration_inv mb flt nibbles ss existing"
    and "spec_registration c (RegisterRoot e r n f) (ss, gs) = (ss', gs')"
  obtains t where "apply_registration sha poseidon c mb flt nibbles (RegisterRoot e r n f) (existing, gs)
      = (Some t, gs')" "registration_inv mb flt nibbles ss' (Some t)"
proof -
  obtain hashed where g: "gate_holds hash_storage_proof c e gs = (hashed, gs')"
    "ss' = ins (fresh_slot e r n f hashed) ss"
    using assms(2) by (auto split: prod.splits)
  define s where "s = fresh_slot e r n f hashed"
  have inv: "by_epoch ss" "rooted ss" using assms(1) by (auto simp: registration_inv_def)
  have old: "(case existing of None \<Rightarrow> [] | Some t \<Rightarrow> registration_slots t) = top3 ss"
    using assms(1) by (auto simp: registration_inv_def top3_def split: option.splits)
  have s: "rs_epoch s = e" "rs_leaf_root s \<noteq> None" by (simp_all add: s_def fresh_slot_def)
  have "sort_key rs_epoch (filter (\<lambda>x. rs_epoch x \<noteq> e) (top3 ss) @ [s]) = ins s (top3 ss)"
    using merge_is_ins [OF top3_sorted [OF inv(1)], of s] s by simp
  then have step: "upsert_leaf_root_registration sha poseidon c existing mb flt nibbles e r n f gs =
      (write_registration sha poseidon mb flt (pack_prefix nibbles) f (top3 (ins s ss)), gs')"
    unfolding upsert_leaf_root_registration_def old Let_def g(1) prod.case
      fresh_slot_def [symmetric] s_def [symmetric]
    using top3_ins [OF inv(1), of s] by (simp add: top3_def [symmetric])
  have set: "set (ins s ss) \<subseteq> insert s (set ss)" using set_ins [OF inv(1), of s] by auto
  then have root: "rooted (ins s ss)" using inv(2) s(2) by (auto simp: rooted_def)
  have "ins s ss \<noteq> []" by (cases ss) auto
  then obtain t where "write_registration sha poseidon mb flt (pack_prefix nibbles) f (top3 (ins s ss)) = Ok t"
    "wf_vertex t" "registration_slots t = top3 (ins s ss)" "registration_field t ''Member'' = Ok mb"
    "registration_field t ''ShardFilter'' = Ok flt" "registration_field t ''Prefix'' = Ok (pack_prefix nibbles)"
    using write_registration_spec [of "top3 (ins s ss)" sha poseidon mb flt "pack_prefix nibbles" f]
      rooted_top3 [OF root] by auto
  then show thesis
    using that [of t] step g(2) root ins_sorted [OF inv(1), of s] \<open>ins s ss \<noteq> []\<close>
    by (simp add: registration_inv_def s_def [symmetric])
qed

lemma seal_root_inv:
  assumes "registration_inv mb flt nibbles ss existing"
  shows "registration_inv mb flt nibbles (map (seal_if e f) ss)
      (fst (apply_registration sha poseidon c mb flt nibbles (SealRoot e f) (existing, gs)))"
    "snd (apply_registration sha poseidon c mb flt nibbles (SealRoot e f) (existing, gs)) = gs"
proof -
  have inv: "by_epoch ss" "rooted ss" using assms by (auto simp: registration_inv_def)
  have inv': "by_epoch (map (seal_if e f) ss)" "rooted (map (seal_if e f) ss)"
    using inv by (simp_all add: comp_def) (auto simp: rooted_def seal_if_def)
  show "snd (apply_registration sha poseidon c mb flt nibbles (SealRoot e f) (existing, gs)) = gs"
    by (simp split: option.split sum.split)
  show "registration_inv mb flt nibbles (map (seal_if e f) ss)
      (fst (apply_registration sha poseidon c mb flt nibbles (SealRoot e f) (existing, gs)))"
  proof (cases existing)
    case None
    with assms show ?thesis by (simp add: registration_inv_def)
  next
    case (Some t)
    note t = assms [unfolded registration_inv_def Some option.case]
    note sealed = seal_first_spec [OF top3_sorted [OF inv(1)], of e f]
    show ?thesis
    proof (cases "e \<in> rs_epoch ` set (top3 ss)")
      case False
      then have "map (seal_if e f) (top3 ss) = top3 ss" by (intro map_idI) (auto simp: seal_if_def)
      with False t inv' sealed Some show ?thesis
        by (simp add: mark_registration_sealed_def registration_inv_def)
    next
      case True
      obtain k where k: "(case read_u64_field t REGISTRATION_CLASS ''RegistrationFrameNumber'' of
          None \<Rightarrow> 0 | Some n \<Rightarrow> n) = k" by blast
      obtain t' where "write_registration sha poseidon mb flt (pack_prefix nibbles) k
          (map (seal_if e f) (top3 ss)) = Ok t'" "wf_vertex t'"
        "registration_slots t' = map (seal_if e f) (top3 ss)" "registration_field t' ''Member'' = Ok mb"
        "registration_field t' ''ShardFilter'' = Ok flt" "registration_field t' ''Prefix'' = Ok (pack_prefix nibbles)"
        using write_registration_spec [of "map (seal_if e f) (top3 ss)" sha poseidon mb flt "pack_prefix nibbles" k]
          rooted_top3 [OF inv'(2)] t by auto
      with True t inv' sealed Some k show ?thesis
        by (simp add: mark_registration_sealed_def registration_inv_def Let_def)
    qed
  qed
qed

lemma registration_run:
  assumes "registration_inv mb flt nibbles ss existing"
    and "fold (spec_registration c) evs (ss, gs) = (ss', gs')"
    and "fold (apply_registration sha poseidon c mb flt nibbles) evs (existing, gs) = (existing', gs'')"
  shows "registration_inv mb flt nibbles ss' existing' \<and> gs'' = gs'"
  using assms
proof (induction evs arbitrary: ss existing gs)
  case (Cons ev evs)
  obtain ss1 gs1 where spec: "spec_registration c ev (ss, gs) = (ss1, gs1)" by (metis surj_pair)
  have "\<exists>ex1. apply_registration sha poseidon c mb flt nibbles ev (existing, gs) = (ex1, gs1) \<and>
      registration_inv mb flt nibbles ss1 ex1"
  proof (cases ev)
    case (RegisterRoot e r n f)
    show ?thesis
      by (rule register_root_inv [OF Cons.prems(1) spec [unfolded RegisterRoot], of sha poseidon])
        (auto simp: RegisterRoot)
  next
    case (SealRoot e f)
    with spec seal_root_inv [OF Cons.prems(1), where e = e and f = f and sha = sha and poseidon = poseidon
        and c = c and gs = gs] show ?thesis
      by (metis prod.collapse spec_registration.simps(2) prod.inject)
  qed
  then obtain ex1 where "apply_registration sha poseidon c mb flt nibbles ev (existing, gs) = (ex1, gs1)"
    "registration_inv mb flt nibbles ss1 ex1" by blast
  with Cons.IH [of ss1 ex1 gs1] Cons.prems spec show ?case by simp
qed simp


lemma top3_iff:
  assumes "by_epoch ss" "s \<in> set ss"
  shows "s \<in> set (top3 ss) \<longleftrightarrow> length (filter (\<lambda>x. rs_epoch s < rs_epoch x) ss) < 3"
proof -
  obtain pre post where ss: "ss = pre @ s # post" using assms(2) by (auto simp: in_set_conv_decomp)
  have around: "\<forall>x \<in> set pre. rs_epoch x < rs_epoch s" "\<forall>x \<in> set post. rs_epoch s < rs_epoch x"
    using assms(1) by (auto simp: ss sorted_wrt_append)
  then have "filter (\<lambda>x. rs_epoch s < rs_epoch x) ss = post"
    by (auto simp: ss filter_empty_conv)
  moreover have "s \<in> set (top3 ss) \<longleftrightarrow> length post < 3"
  proof
    assume "s \<in> set (top3 ss)"
    show "length post < 3"
    proof (rule ccontr)
      assume "\<not> length post < 3"
      then have "top3 ss = top3 post" using top3_append [of post "pre @ [s]"] by (simp add: ss)
      with \<open>s \<in> set (top3 ss)\<close> around(2) set_top3 [of post] show False by auto
    qed
  qed (simp add: top3_def ss)
  ultimately show ?thesis by simp
qed

lemma find_by_epoch:
  assumes "by_epoch ss"
  shows "s \<in> set ss \<Longrightarrow> List.find (\<lambda>x. rs_epoch x = rs_epoch s) ss = Some s"
    "e \<notin> rs_epoch ` set ss \<Longrightarrow> List.find (\<lambda>x. rs_epoch x = e) ss = None"
proof -
  show "s \<in> set ss \<Longrightarrow> List.find (\<lambda>x. rs_epoch x = rs_epoch s) ss = Some s"
    using assms by (induction ss) auto
  show "e \<notin> rs_epoch ` set ss \<Longrightarrow> List.find (\<lambda>x. rs_epoch x = e) ss = None"
    by (auto simp: find_None_iff)
qed

lemma registration_lookup:
  assumes "by_epoch ss" "rooted ss" "registration_slots t = top3 ss"
  shows "s \<in> set ss \<Longrightarrow> fst (leaf_root_registration_for_epoch c t (rs_epoch s) gs) =
      (if 3 \<le> length (filter (\<lambda>x. rs_epoch s < rs_epoch x) ss) \<or>
          fst (gate_holds hash_storage_proof c (rs_epoch s) gs) \<and> rs_sealed_at s = None then None
       else Some (the (rs_leaf_root s), rs_num_blocks s))"
    "e \<notin> rs_epoch ` set ss \<Longrightarrow> fst (leaf_root_registration_for_epoch c t e gs) = None"
proof -
  note sorted = top3_sorted [OF assms(1)]
  show "e \<notin> rs_epoch ` set ss \<Longrightarrow> fst (leaf_root_registration_for_epoch c t e gs) = None"
    using find_by_epoch(2) [OF sorted, of e] set_top3 [of ss]
    by (auto simp: leaf_root_registration_for_epoch_def assms(3) image_iff subset_iff)
  assume s: "s \<in> set ss"
  show "fst (leaf_root_registration_for_epoch c t (rs_epoch s) gs) =
      (if 3 \<le> length (filter (\<lambda>x. rs_epoch s < rs_epoch x) ss) \<or>
          fst (gate_holds hash_storage_proof c (rs_epoch s) gs) \<and> rs_sealed_at s = None then None
       else Some (the (rs_leaf_root s), rs_num_blocks s))"
  proof (cases "s \<in> set (top3 ss)")
    case True
    moreover obtain r where "rs_leaf_root s = Some r" using assms(2) s by (auto simp: rooted_def)
    ultimately show ?thesis
      using top3_iff [OF assms(1) s] find_by_epoch(1) [OF sorted True]
      by (simp add: leaf_root_registration_for_epoch_def assms(3) split_beta not_le [symmetric])
  next
    case False
    have "rs_epoch s \<notin> rs_epoch ` set (top3 ss)"
      using False s set_top3 [of ss] distinct_by_epoch [OF assms(1)] by (auto dest: inj_onD)
    with False show ?thesis
      using top3_iff [OF assms(1) s] find_by_epoch(2) [OF sorted, of "rs_epoch s"]
      by (simp add: leaf_root_registration_for_epoch_def assms(3))
  qed
qed

text \<open>C6. Whatever registrations and seals a member's leaf goes through, starting with no vertex, no
  write fails and the vertex answers as the full history does, restricted to its three highest epochs: for
  an epoch ever registered, the lookup gives the root and block count of its latest registration, unless
  three higher epochs have been registered, or the epoch takes hash proofs and its latest
  registration has not been sealed; for an epoch never registered it gives none. The slots are in
  ascending order of epoch and at most three.\<close>

theorem registrations_keep_three_highest:
  assumes "fold (apply_registration sha poseidon c mb flt nibbles) evs (None, gs) = (existing, gs')"
    and "fold (spec_registration c) evs ([], gs) = (ss, gs'')"
  shows "gs' = gs'' \<and> (existing = None \<longleftrightarrow> ss = []) \<and>
    (\<forall>t. existing = Some t \<longrightarrow>
      registration_slots t = top3 ss \<and> by_epoch (registration_slots t) \<and> length (registration_slots t) \<le> 3 \<and>
      (\<forall>s \<in> set ss. fst (leaf_root_registration_for_epoch c t (rs_epoch s) gs') =
        (if 3 \<le> length (filter (\<lambda>x. rs_epoch s < rs_epoch x) ss) \<or>
            fst (gate_holds hash_storage_proof c (rs_epoch s) gs') \<and> rs_sealed_at s = None then None
         else Some (the (rs_leaf_root s), rs_num_blocks s))) \<and>
      (\<forall>e. e \<notin> rs_epoch ` set ss \<longrightarrow> fst (leaf_root_registration_for_epoch c t e gs') = None))"
proof -
  have "registration_inv mb flt nibbles [] None" by (simp add: registration_inv_def)
  then have inv: "registration_inv mb flt nibbles ss existing" "gs' = gs''"
    using registration_run assms by blast+
  show ?thesis
  proof (cases existing)
    case None
    with inv show ?thesis by (simp add: registration_inv_def)
  next
    case (Some t)
    then have t: "by_epoch ss" "rooted ss" "registration_slots t = top3 ss" "ss \<noteq> []"
      using inv(1) by (auto simp: registration_inv_def)
    show ?thesis
      using registration_lookup [OF t(1-3)] t Some inv(2) top3_sorted [OF t(1)] by simp
  qed
qed

lemma registrations_keep_three_highest_witness:
  "\<exists>t gs'. fold (apply_registration demo_sha demo_sha initial_clock [1] [7] [2])
      [RegisterRoot 5 [50] 1 10, RegisterRoot 6 [60] 2 20, RegisterRoot 8 [80] 3 30, RegisterRoot 7 [70] 4 40]
      (None, fresh_gates) = (Some t, gs') \<and>
     map rs_epoch (registration_slots t) = [6, 7, 8] \<and>
     fst (leaf_root_registration_for_epoch initial_clock t 5 gs') = None \<and>
     fst (leaf_root_registration_for_epoch initial_clock t 9 gs') = None"
proof -
  let ?evs = "[RegisterRoot 5 [50] 1 10, RegisterRoot 6 [60] 2 20, RegisterRoot 8 [80] 3 30, RegisterRoot 7 [70] 4 40]"
  obtain existing gs1 where a: "fold (apply_registration demo_sha demo_sha initial_clock [1] [7] [2]) ?evs
      (None, fresh_gates) = (existing, gs1)" by (metis surj_pair)
  obtain ss gs2 where b: "fold (spec_registration initial_clock) ?evs ([], fresh_gates) = (ss, gs2)"
    by (metis surj_pair)
  have ss: "map rs_epoch ss = [5, 6, 7, 8]"
    using b by (auto simp: fresh_slot_def split: prod.splits)
  note claim = registrations_keep_three_highest [OF a b]
  obtain t where t: "existing = Some t" using claim ss by (cases existing) auto
  obtain s s6 s7 s8 where four: "ss = [s, s6, s7, s8]" "map rs_epoch [s, s6, s7, s8] = [5, 6, 7, 8]"
    using ss by (auto simp: map_eq_Cons_conv)
  then have s: "s \<in> set ss" "rs_epoch s = 5" "3 \<le> length (filter (\<lambda>x. rs_epoch s < rs_epoch x) ss)"
    by simp_all
  have "fst (leaf_root_registration_for_epoch initial_clock t 5 gs1) = None"
    using claim [THEN conjunct2, THEN conjunct2, rule_format, OF t] s(1,3) unfolding s(2) [symmetric]
    by (simp del: filter.simps)
  moreover have "9 \<notin> rs_epoch ` set ss" unfolding list.set_map [symmetric] ss by simp
  then have "fst (leaf_root_registration_for_epoch initial_clock t 9 gs1) = None"
    using claim [THEN conjunct2, THEN conjunct2, rule_format, OF t] by simp
  moreover have "map rs_epoch (top3 ss) = [6, 7, 8]"
    using ss by (auto simp: top3_def map_eq_Cons_conv)
  moreover have "registration_slots t = top3 ss"
    using claim [THEN conjunct2, THEN conjunct2, rule_format, OF t] by simp
  ultimately show ?thesis using a unfolding t by (intro exI [of _ t] exI [of _ gs1]) simp
qed

end
