(* ===== verification/Canonical_Cursor.thy ===== *)
theory Canonical_Cursor
  imports Byte_Codec
begin

text \<open>
  The big-endian cursor of the canonical formats
  (\<^verbatim>\<open>quil-execution/src/canonical_cursor.rs\<close>) and the variable-length integers of
  \<^verbatim>\<open>storage_seat.rs\<close>. A buffer with a cursor is the list of bytes that are left, as in
  \<open>Byte_Codec\<close>; the writers append, so each is the bytes it appends. The end of
  the buffer is an invalid argument here.
\<close>

subsection \<open>Fixed-width values\<close>

definition cursor_bytes :: "nat \<Rightarrow> bytes \<Rightarrow> (bytes \<times> bytes) result" where
  "cursor_bytes n bs = (if length bs < n then Err InvalidArgument else Ok (take n bs, drop n bs))"

definition cursor_u32 :: "bytes \<Rightarrow> (u32 \<times> bytes) result" where
  "cursor_u32 bs = try_then (cursor_bytes 4 bs) (\<lambda>(b, r). Ok (of_nat (from_be b), r))"

definition cursor_u64 :: "bytes \<Rightarrow> (u64 \<times> bytes) result" where
  "cursor_u64 bs = try_then (cursor_bytes 8 bs) (\<lambda>(b, r). Ok (of_nat (from_be b), r))"

definition cursor_i64 :: "bytes \<Rightarrow> (int \<times> bytes) result" where
  "cursor_i64 bs = try_then (cursor_u64 bs) (\<lambda>(w, r). Ok (sint w, r))"

definition put_u32 :: "u32 \<Rightarrow> bytes" where "put_u32 v = write_u32 v"
definition put_u64 :: "u64 \<Rightarrow> bytes" where "put_u64 v = write_u64 v"
definition put_i64 :: "int \<Rightarrow> bytes" where "put_i64 v = write_u64 (word_of_int v)"

definition put_lp :: "bytes \<Rightarrow> bytes" where
  "put_lp d = put_u32 (of_nat (length d)) @ d"

definition cursor_lp :: "bytes \<Rightarrow> (bytes \<times> bytes) result" where
  "cursor_lp bs = try_then (cursor_u32 bs) (\<lambda>(n, r). cursor_bytes (unat n) r)"

definition write_array :: "bytes list \<Rightarrow> bytes" where
  "write_array items = put_u32 (of_nat (length items)) @ concat (map put_lp items)"

definition cursor_array :: "bytes \<Rightarrow> (bytes list \<times> bytes) result" where
  "cursor_array bs = try_then (cursor_u32 bs) (\<lambda>(n, r). read_n cursor_lp (unat n) r)"

definition expect_tp :: "u32 \<Rightarrow> u32 \<Rightarrow> unit result" where
  "expect_tp actual wanted = (if actual \<noteq> wanted then Err InvalidArgument else Ok ())"

lemma cursor_bytes_append [simp]: "length b = n \<Longrightarrow> cursor_bytes n (b @ r) = Ok (b, r)"
  by (simp add: cursor_bytes_def)

lemma cursor_u32_put [simp, codec_simps]: "cursor_u32 (put_u32 w @ r) = Ok (w, r)"
  using unat_u32_bound [of w]
  by (simp add: cursor_u32_def put_u32_def write_u32_def from_be_bytes)

lemma cursor_u64_put [simp, codec_simps]: "cursor_u64 (put_u64 w @ r) = Ok (w, r)"
  using unat_u64_bound [of w]
  by (simp add: cursor_u64_def put_u64_def write_u64_def from_be_bytes)

lemma cursor_i64_put [simp, codec_simps]:
  "- (2 ^ 63) \<le> v \<Longrightarrow> v < 2 ^ 63 \<Longrightarrow> cursor_i64 (put_i64 v @ r) = Ok (v, r)"
  using cursor_u64_put [of "word_of_int v" r]
  by (simp add: cursor_i64_def put_i64_def put_u64_def signed_of_int signed_take_bit_int_eq_self)

lemma cursor_lp_put [simp, codec_simps]:
  assumes "length d < 2 ^ 32"
  shows "cursor_lp (put_lp d @ r) = Ok (d, r)"
  using assms by (simp add: cursor_lp_def put_lp_def unat_of_nat)

interpretation cursor_u32: codec put_u32 cursor_u32 "\<lambda>_. True" id
  by unfold_locales simp

interpretation cursor_u64: codec put_u64 cursor_u64 "\<lambda>_. True" id
  by unfold_locales simp

interpretation cursor_lp: codec put_lp cursor_lp "\<lambda>d. length d < 2 ^ 32" id
  by unfold_locales simp

lemma cursor_array_write [simp, codec_simps]:
  assumes "length items < 2 ^ 32" "list_all (\<lambda>d. length d < 2 ^ 32) items"
  shows "cursor_array (write_array items @ r) = Ok (items, r)"
  using assms cursor_lp.read_n_write [OF assms(2), of r]
  by (simp add: cursor_array_def write_array_def unat_of_nat)

lemma cursor_bytes_consumes: "cursor_bytes n bs = Ok (b, r) \<Longrightarrow> bs = b @ r \<and> length b = n"
  by (auto simp: cursor_bytes_def split: if_splits)

subsection \<open>Variable-length values\<close>

function put_varint :: "u64 \<Rightarrow> bytes" where
  "put_varint v = (if 0x80 \<le> v then (ucast v OR 0x80) # put_varint (drop_bit 7 v) else [ucast v])"
  by pat_completeness auto
termination
proof (relation "measure unat")
  fix v :: u64 assume "0x80 \<le> v"
  then have "128 \<le> unat v" by (simp add: word_le_nat_alt)
  then have "unat v div 128 < unat v" by simp
  moreover have "unat (drop_bit 7 v) = unat v div 128"
    unfolding unat_drop_bit_eq by (simp add: drop_bit_eq_div)
  ultimately show "(drop_bit 7 v, v) \<in> measure unat" by simp
qed simp

declare put_varint.simps [simp del]

fun varint_loop :: "nat \<Rightarrow> nat \<Rightarrow> u64 \<Rightarrow> bytes \<Rightarrow> (u64 \<times> bytes) option" where
  "varint_loop 0 i v bs = None"
| "varint_loop (Suc n) i v [] = None"
| "varint_loop (Suc n) i v (b # bs) =
     (if i = 9 \<and> 1 < b then None
      else let v' = v OR push_bit (7 * i) (ucast (b AND 0x7F)) in
        if b AND 0x80 = 0 then (if b \<noteq> 0 \<or> i = 0 then Some (v', bs) else None)
        else varint_loop n (Suc i) v' bs)"

definition read_varint :: "bytes \<Rightarrow> (u64 \<times> bytes) option" where
  "read_varint bs = varint_loop 10 0 0 bs"

text \<open>An \<^verbatim>\<open>i64\<close> here is its bit pattern: the casts between it and \<^verbatim>\<open>u64\<close> change nothing.\<close>

definition zigzag :: "u64 \<Rightarrow> u64" where
  "zigzag v = push_bit 1 v XOR signed_drop_bit 63 v"

definition unzigzag :: "u64 \<Rightarrow> u64" where
  "unzigzag v = drop_bit 1 v XOR - (v AND 1)"

lemma bit_zigzag:
  assumes "n < 64"
  shows "bit (zigzag v) n \<longleftrightarrow> (0 < n \<and> bit v (n - 1)) \<noteq> bit v 63"
proof -
  have "min (63 + n) 63 = 63" for n :: nat by simp
  then show ?thesis
    using assms unfolding zigzag_def bit_xor_iff bit_push_bit_iff bit_signed_drop_bit_iff
    by (cases n) (auto simp: not_le)
qed

lemma unzigzag_zigzag [simp]: "unzigzag (zigzag v) = v"
proof (rule bit_word_eqI)
  fix n assume "n < LENGTH(64)"
  then have n: "n < 64" by simp
  have low: "zigzag v AND 1 = (if bit v 63 then 1 else 0)"
    by (rule bit_eqI) (auto simp: bit_and_iff bit_1_iff bit_zigzag)
  have "bit (unzigzag (zigzag v)) n \<longleftrightarrow> bit (zigzag v) (n + 1) \<noteq> bit v 63"
    using n unfolding unzigzag_def low bit_xor_iff bit_drop_bit_eq by (simp add: add.commute)
  then show "bit (unzigzag (zigzag v)) n = bit v n"
    using n bit_zigzag [of "n + 1" v] bit_imp_le_length [of "zigzag v" 64] by (cases "n = 63") auto
qed

lemma varint_step: "push_bit k (take_bit 7 w) OR push_bit (k + 7) (drop_bit 7 w) = push_bit k (w :: u64)"
proof (rule bit_eqI)
  fix n
  have "k + 7 \<le> n \<Longrightarrow> 7 + (n - (k + 7)) = n - k" by simp
  then show "bit (push_bit k (take_bit 7 w) OR push_bit (k + 7) (drop_bit 7 w)) n = bit (push_bit k w) n"
    by (cases "k + 7 \<le> n") (auto simp: bit_simps)
qed

lemma bit_byte_masks: "bit (0x80 :: byte) n \<longleftrightarrow> n = 7" "bit (0x7F :: byte) n \<longleftrightarrow> n < 7"
  using bit_exp_iff [of 7 n, where 'a = "8 word"] bit_mask_iff [of 7 n, where 'a = "8 word"]
  by (auto simp: mask_eq_exp_minus_1)

lemma high_bit_clear: "(b :: byte) AND 0x80 = 0 \<longleftrightarrow> \<not> bit b 7"
proof
  assume "b AND 0x80 = 0"
  then have "\<not> bit (b AND 0x80) 7" by simp
  then show "\<not> bit b 7" unfolding bit_and_iff bit_byte_masks by simp
next
  assume "\<not> bit b 7"
  then have "\<not> bit (b AND 0x80) n" for n unfolding bit_and_iff bit_byte_masks by auto
  then show "b AND 0x80 = 0" by (intro bit_word_eqI) simp
qed

lemma low_seven: "(b :: byte) AND 0x7F = take_bit 7 b"
  by (rule bit_word_eqI) (auto simp only: bit_and_iff bit_byte_masks bit_take_bit_iff)

lemma last_varint_byte:
  assumes "\<not> 0x80 \<le> (w :: u64)"
  shows "(ucast w :: byte) AND 0x80 = 0" "ucast ((ucast w :: byte) AND 0x7F) = w"
    "unat (ucast w :: byte) = unat w"
proof -
  have less: "unat w < 128" using assms by (simp add: word_le_nat_alt)
  then have w: "take_bit 7 w = w" by (simp add: word_unat_eq_iff unsigned_take_bit_eq take_bit_nat_eq_self)
  show "unat (ucast w :: byte) = unat w"
    using less by (simp add: unsigned_ucast_eq take_bit_nat_eq_self)
  have "\<not> bit w 7" by (metis w bit_take_bit_iff less_irrefl)
  then have "\<not> bit (ucast w :: byte) 7" unfolding bit_ucast_iff by simp
  then show "(ucast w :: byte) AND 0x80 = 0" by (simp only: high_bit_clear not_False_eq_True)
  have "ucast (take_bit 7 (ucast w :: byte)) = take_bit 7 w"
    by (rule bit_word_eqI) (auto simp only: bit_ucast_iff bit_take_bit_iff, simp)
  then show "ucast ((ucast w :: byte) AND 0x7F) = w" unfolding low_seven w .
qed

lemma more_varint_byte:
  "((ucast (w :: u64) :: byte) OR 0x80) AND 0x80 \<noteq> 0"
  "ucast (((ucast w :: byte) OR 0x80) AND 0x7F) = take_bit 7 w"
proof -
  show "((ucast w :: byte) OR 0x80) AND 0x80 \<noteq> 0"
    unfolding high_bit_clear bit_or_iff bit_byte_masks by simp
  show "ucast (((ucast w :: byte) OR 0x80) AND 0x7F) = take_bit 7 w"
    unfolding low_seven
    by (rule bit_word_eqI) (auto simp only: bit_ucast_iff bit_take_bit_iff bit_or_iff bit_byte_masks, simp)
qed

lemma unat_shifted: "unat (drop_bit 7 (w :: u64)) = unat w div 128"
  unfolding unat_drop_bit_eq by (simp add: drop_bit_eq_div)

lemma varint_loop_put:
  assumes "unat w < 2 ^ (64 - 7 * i)" "i + n = 10" "0 < n" "i = 0 \<or> w \<noteq> 0"
  shows "varint_loop n i v (put_varint w @ r) = Some (v OR push_bit (7 * i) w, r)"
  using assms
proof (induction w arbitrary: i n v rule: put_varint.induct)
  case (1 w)
  then obtain k where n: "n = Suc k" by (cases n) auto
  show ?case
  proof (cases "0x80 \<le> w")
    case True
    then have big: "128 \<le> unat w" by (simp add: word_le_nat_alt)
    have "i < 9"
    proof (rule ccontr)
      assume "\<not> i < 9"
      then have "i = 9" using "1.prems"(2,3) by simp
      with "1.prems"(1) big show False by simp
    qed
    then have "(2 :: nat) ^ (64 - 7 * i) = 128 * 2 ^ (64 - 7 * Suc i)"
      using power_add [of "2 :: nat" 7 "64 - 7 * Suc i"] by simp
    then have "unat (drop_bit 7 w) < 2 ^ (64 - 7 * Suc i)"
      using "1.prems"(1) unfolding unat_shifted by (metis less_mult_imp_div_less mult.commute)
    moreover have "drop_bit 7 w \<noteq> 0" using big unat_shifted [of w] by (auto simp: word_unat_eq_iff)
    ultimately have "varint_loop k (Suc i) (v OR push_bit (7 * i) (take_bit 7 w)) (put_varint (drop_bit 7 w) @ r)
        = Some ((v OR push_bit (7 * i) (take_bit 7 w)) OR push_bit (7 * Suc i) (drop_bit 7 w), r)"
      using "1.prems"(2) \<open>i < 9\<close> n by (intro "1.IH" True) simp_all
    then show ?thesis
      using True more_varint_byte [of w] \<open>i < 9\<close> varint_step [of "7 * i" w]
      by (simp add: put_varint.simps [of w] n Let_def or.assoc add.commute)
  next
    case False
    note byte = last_varint_byte [OF False]
    have "\<not> (i = 9 \<and> 1 < (ucast w :: byte))"
    proof
      assume "i = 9 \<and> 1 < (ucast w :: byte)"
      with "1.prems"(1) byte(3) show False by (simp add: word_less_nat_alt)
    qed
    moreover have "(ucast w :: byte) \<noteq> 0 \<or> i = 0"
      using "1.prems"(4) byte(3) by (metis unat_eq_zero unsigned_0)
    ultimately show ?thesis
      using False byte(1,2) by (simp add: put_varint.simps [of w] n Let_def)
  qed
qed

lemma read_varint_put [simp, codec_simps]: "read_varint (put_varint w @ r) = Some (w, r)"
  using varint_loop_put [of w 0 10 0 r] unat_u64_bound [of w] by (simp add: read_varint_def)

end
