(* ===== verification/Storage_Seat.thy ===== *)
theory Storage_Seat
  imports Canonical_Cursor Gates "HOL-Library.List_Lexorder"
begin

text \<open>
  A member's storage seat on one shard
  (\<^verbatim>\<open>quil-execution/src/global_intrinsic/storage_seat.rs\<close>): the record GLOBAL keeps per epoch of the
  leaves a member registered, the chain of roots it committed, and the rewards held for it
  until its epoch proof settles them. \<open>sha3\<close> is the hash of the chain, \<open>c\<close> the frame
  clock, and the suspension of kicks is a gate of \<open>Gates\<close>. Held amounts
  are \<^verbatim>\<open>BigInt\<close>s, kept as the shortest big-endian bytes.
\<close>

subsection \<open>Data\<close>

datatype outcome = Open | Settled u64 | Expired u64

record chained =
  ch_frame :: u64
  ch_beacon :: u64
  ch_executed :: u64

record seat_slot =
  slot_epoch :: u64
  seat_leaves :: "u32 list list"
  registered_at :: u64
  sealed_at :: "u64 option"
  frames :: u64
  accumulator :: bytes
  chain_of :: "chained list"
  expected :: u64
  counted_through :: u64
  held_through :: u64
  pending :: bytes
  slot_outcome :: outcome

record seat =
  seat_member :: bytes
  seat_filter :: bytes
  slots :: "seat_slot list"

definition EXPIRY_BUCKETS :: u64 where "EXPIRY_BUCKETS = 16"
definition PROPOSAL :: u64 where "PROPOSAL = 65536"
definition RESPONSE_WINDOW_MS :: int where "RESPONSE_WINDOW_MS = 60000"
definition STORAGE_ANCHOR_LOCKSTEP_WINDOW :: u64 where "STORAGE_ANCHOR_LOCKSTEP_WINDOW = 12"
definition SLOTS_VERSION :: u8 where "SLOTS_VERSION = 1"
definition MAX_SLOTS :: nat where "MAX_SLOTS = 8"
definition MAX_LEAVES :: nat where "MAX_LEAVES = 4096"
definition MAX_PREFIX :: nat where "MAX_PREFIX = 256"
definition MAX_CHAINED :: nat where "MAX_CHAINED = 65536"

subsection \<open>Commitments\<close>

text \<open>\<open>canonical\<close> is the field-element test of the hash crate on 32 bytes.\<close>

definition encode_commitment :: "bytes \<Rightarrow> u64 \<Rightarrow> bytes" where
  "encode_commitment root beacon_frame = root @ write_u64 beacon_frame"

definition decode_commitment :: "(bytes \<Rightarrow> bool) \<Rightarrow> bytes \<Rightarrow> (bytes \<times> u64) option" where
  "decode_commitment canonical bs =
     (if length bs < 32 then None
      else if \<not> canonical (take 32 bs) then None
      else if length (drop 32 bs) \<noteq> 8 then None
      else Some (take 32 bs, of_nat (from_be (drop 32 bs))))"

definition commitment_acceptable :: "(bytes \<Rightarrow> bool) \<Rightarrow> bytes \<Rightarrow> u64 \<Rightarrow> bool" where
  "commitment_acceptable canonical bs anchor \<longleftrightarrow>
     bs = [] \<or> (case decode_commitment canonical bs of None \<Rightarrow> False | Some (_, beacon) \<Rightarrow> anchor \<le> beacon)"

definition accumulate :: "(bytes \<Rightarrow> bytes) \<Rightarrow> bytes \<Rightarrow> u64 \<Rightarrow> bytes \<Rightarrow> bytes \<Rightarrow> bytes" where
  "accumulate sha3 acc frame_number rho root =
     sha3 (map of_char ''quil/storage-seat/frames/v1'' @ acc @ write_u64 frame_number @
       write_u32 (of_nat (length rho)) @ rho @ root)"

definition chain :: "(bytes \<Rightarrow> bytes) \<Rightarrow> (u64 \<times> bytes \<times> bytes) list \<Rightarrow> bytes" where
  "chain sha3 fs = foldl (\<lambda>acc (frame, rho, root). accumulate sha3 acc frame rho root) (replicate 32 0) fs"

definition settlement_window :: "clock \<Rightarrow> u64 \<Rightarrow> u64 \<times> u64" where
  "settlement_window c epoch =
     (let len = epoch_length_frames c; start = saturating_mul (saturating_add epoch 1) len in
      (saturating_add (saturating_add start STORAGE_ANCHOR_LOCKSTEP_WINDOW) 1, saturating_add start len))"

subsection \<open>One slot\<close>

fun minimal_be :: "nat \<Rightarrow> bytes" where
  "minimal_be n = (if n < 256 then [of_nat n] else minimal_be (n div 256) @ [of_nat n])"

declare minimal_be.simps [simp del]

definition is_sealed :: "seat_slot \<Rightarrow> bool" where
  "is_sealed s \<longleftrightarrow> sealed_at s \<noteq> None \<and> seat_leaves s \<noteq> []"

definition pending_amount :: "seat_slot \<Rightarrow> int" where
  "pending_amount s = int (from_be (pending s))"

definition i64_saturating_sub :: "int \<Rightarrow> int \<Rightarrow> int" where
  "i64_saturating_sub a b = max (- i64_max - 1) (min i64_max (a - b))"

fun response_times :: "(u64 \<Rightarrow> int result) \<Rightarrow> chained list \<Rightarrow> int list result" where
  "response_times timestamp [] = Ok []"
| "response_times timestamp (ch # chs) =
     try_then (timestamp (ch_executed ch)) (\<lambda>at_executed.
     try_then (timestamp (ch_beacon ch)) (\<lambda>at_beacon.
     try_then (response_times timestamp chs) (\<lambda>rest.
     Ok (i64_saturating_sub at_executed at_beacon # rest))))"

definition release_of :: "seat_slot \<Rightarrow> u64 \<Rightarrow> int" where
  "release_of s timely =
     (let published = int (unat (min timely (frames s))) * int (unat PROPOSAL) in
      if expected s = 0 \<or> int (unat (expected s)) \<le> published then pending_amount s
      else bigint_quot (pending_amount s * published) (int (unat (expected s))))"

definition new_slot :: seat_slot where
  "new_slot = \<lparr>slot_epoch = 0, seat_leaves = [], registered_at = 0, sealed_at = None, frames = 0,
     accumulator = replicate 32 0, chain_of = [], expected = 0, counted_through = 0, held_through = 0,
     pending = [], slot_outcome = Open\<rparr>"

definition hold_slot :: "u64 \<Rightarrow> u64 \<Rightarrow> int \<Rightarrow> nat \<Rightarrow> seat_slot \<Rightarrow> bool \<times> seat_slot" where
  "hold_slot frame app_frame amount committee s =
     (if \<not> is_sealed s \<or> slot_outcome s \<noteq> Open then (False, s)
      else
        let s1 = (if counted_through s < app_frame
                  then s\<lparr>expected := saturating_add (expected s) (PROPOSAL div of_nat (max committee 1)),
                         counted_through := app_frame\<rparr>
                  else s) in
        if frame \<le> held_through s1 \<or> amount \<le> 0 then (False, s1)
        else
          let b = minimal_be (nat (pending_amount s1 + amount)) in
          (True, s1\<lparr>pending := (if b = [0] then [] else b), held_through := frame\<rparr>))"

definition commit_slot ::
  "(bytes \<Rightarrow> bytes) \<Rightarrow> u64 \<Rightarrow> u64 \<Rightarrow> u64 \<Rightarrow> bytes \<Rightarrow> bytes \<Rightarrow> seat_slot \<Rightarrow> bool \<times> seat_slot" where
  "commit_slot sha3 frame_number beacon executed rho root s =
     (let latest = (if chain_of s = [] then 0 else ch_frame (last (chain_of s))) in
      if \<not> is_sealed s \<or> slot_outcome s \<noteq> Open \<or> frame_number \<le> latest \<or>
         MAX_CHAINED \<le> length (chain_of s) then (False, s)
      else (True, s\<lparr>accumulator := accumulate sha3 (accumulator s) frame_number rho root,
                    frames := frames s + 1,
                    chain_of := chain_of s @
                      [\<lparr>ch_frame = frame_number, ch_beacon = beacon, ch_executed = executed\<rparr>]\<rparr>))"

definition seal_slot :: "u64 \<Rightarrow> seat_slot \<Rightarrow> bool \<times> seat_slot" where
  "seal_slot frame s =
     (if sealed_at s = None \<and> seat_leaves s \<noteq> [] then (True, s\<lparr>sealed_at := Some frame\<rparr>) else (False, s))"

definition settle_slot :: "u64 \<Rightarrow> u64 \<Rightarrow> seat_slot \<Rightarrow> int option \<times> seat_slot" where
  "settle_slot frame timely s =
     (if slot_outcome s \<noteq> Open then (None, s)
      else let s1 = s\<lparr>slot_outcome := Settled frame, chain_of := []\<rparr> in (Some (release_of s1 timely), s1))"

definition closing :: "clock \<Rightarrow> u64 \<Rightarrow> seat_slot \<Rightarrow> bool" where
  "closing c frame s \<longleftrightarrow> slot_outcome s = Open \<and> snd (settlement_window c (slot_epoch s)) \<le> frame"

definition expire_slot :: "clock \<Rightarrow> u64 \<Rightarrow> seat_slot \<Rightarrow> seat_slot" where
  "expire_slot c frame s =
     (if closing c frame s then s\<lparr>slot_outcome := Expired frame, chain_of := []\<rparr> else s)"

subsection \<open>The seat\<close>

definition new_seat :: "bytes \<Rightarrow> bytes \<Rightarrow> seat" where
  "new_seat member_address shard_filter =
     \<lparr>seat_member = member_address, seat_filter = shard_filter, slots = []\<rparr>"

definition slot :: "seat \<Rightarrow> u64 \<Rightarrow> seat_slot option" where
  "slot st epoch = List.find (\<lambda>s. slot_epoch s = epoch) (slots st)"

fun slot_mut :: "u64 \<Rightarrow> (seat_slot \<Rightarrow> 'a \<times> seat_slot) \<Rightarrow> seat_slot list \<Rightarrow> ('a \<times> seat_slot list) option" where
  "slot_mut epoch f [] = None"
| "slot_mut epoch f (s # ss) =
     (if slot_epoch s = epoch then let (r, s') = f s in Some (r, s' # ss)
      else map_option (\<lambda>(r, ss'). (r, s # ss')) (slot_mut epoch f ss))"

definition on_slot :: "u64 \<Rightarrow> 'a \<Rightarrow> (seat_slot \<Rightarrow> 'a \<times> seat_slot) \<Rightarrow> seat \<Rightarrow> 'a \<times> seat" where
  "on_slot epoch absent f st =
     (case slot_mut epoch f (slots st) of None \<Rightarrow> (absent, st) | Some (r, ss) \<Rightarrow> (r, st\<lparr>slots := ss\<rparr>))"

definition prune :: "u64 \<Rightarrow> seat \<Rightarrow> seat" where
  "prune current_epoch st =
     (let kept = filter (\<lambda>s. current_epoch \<le> saturating_add (slot_epoch s) 2) (slots st) in
      st\<lparr>slots := drop (length kept - MAX_SLOTS) kept\<rparr>)"

definition register :: "clock \<Rightarrow> u64 \<Rightarrow> u32 list list \<Rightarrow> u64 \<Rightarrow> seat \<Rightarrow> seat" where
  "register c epoch ls frame st =
     (let others = filter (\<lambda>s. slot_epoch s \<noteq> epoch) (slots st);
          fresh = new_slot\<lparr>slot_epoch := epoch, seat_leaves := remdups_adj (sort ls), registered_at := frame\<rparr>
      in prune (epoch_for_frame c frame) (st\<lparr>slots := sort_key slot_epoch (others @ [fresh])\<rparr>))"

definition expire :: "clock \<Rightarrow> u64 \<Rightarrow> gates \<Rightarrow> seat \<Rightarrow> bool \<times> seat \<times> gates" where
  "expire c frame gs st =
     (let (suspended, gs') = gate_holds storage_kick_suspension c frame gs in
      (\<not> suspended \<and> list_ex (\<lambda>s. closing c frame s \<and> frames s \<noteq> 0) (slots st),
       st\<lparr>slots := map (expire_slot c frame) (slots st)\<rparr>, gs'))"

definition hold :: "u64 \<Rightarrow> u64 \<Rightarrow> u64 \<Rightarrow> int \<Rightarrow> nat \<Rightarrow> seat \<Rightarrow> bool \<times> seat" where
  "hold epoch frame app_frame amount committee =
     on_slot epoch False (hold_slot frame app_frame amount committee)"

definition commit ::
  "(bytes \<Rightarrow> bytes) \<Rightarrow> u64 \<Rightarrow> u64 \<Rightarrow> u64 \<Rightarrow> u64 \<Rightarrow> bytes \<Rightarrow> bytes \<Rightarrow> seat \<Rightarrow> bool \<times> seat" where
  "commit sha3 epoch frame_number beacon executed rho root =
     on_slot epoch False (commit_slot sha3 frame_number beacon executed rho root)"

definition seal :: "u64 \<Rightarrow> u64 \<Rightarrow> seat \<Rightarrow> bool \<times> seat" where
  "seal epoch frame = on_slot epoch False (seal_slot frame)"

definition settle :: "u64 \<Rightarrow> u64 \<Rightarrow> u64 \<Rightarrow> seat \<Rightarrow> int option \<times> seat" where
  "settle epoch frame timely = on_slot epoch None (settle_slot frame timely)"

definition first_commitment :: "seat \<Rightarrow> u64 \<Rightarrow> bool" where
  "first_commitment st epoch = (case slot st epoch of None \<Rightarrow> False | Some s \<Rightarrow> frames s = 1)"

definition sealed_for :: "seat \<Rightarrow> u64 \<Rightarrow> bool" where
  "sealed_for st epoch = (case slot st epoch of None \<Rightarrow> False | Some s \<Rightarrow> is_sealed s)"

subsection \<open>The expiry sweep\<close>

definition expiry_bucket :: "bytes \<Rightarrow> u8" where
  "expiry_bucket address = ucast (ucast (address ! 0) mod EXPIRY_BUCKETS)"

definition expiry_buckets_due :: "clock \<Rightarrow> u64 \<Rightarrow> (u64 \<times> nat list) option" where
  "expiry_buckets_due c frame =
     (let len = max (epoch_length_frames c) 1; current = epoch_for_frame c frame;
          count = min EXPIRY_BUCKETS len; offset = frame - current * len in
      if current < 2 then None
      else if frame < current * len then None
      else if offset < count
      then Some (current - 2, filter (\<lambda>b. unat offset \<le> b \<and> (b - unat offset) mod unat count = 0) [0..<unat EXPIRY_BUCKETS])
      else None)"

end
