(* ===== verification/Seat_Codec.thy ===== *)
theory Seat_Codec
  imports Storage_Seat
begin

text \<open>
  The stored form of a seat's slots (\<^verbatim>\<open>encode_slots\<close> and \<^verbatim>\<open>decode_slots\<close> of
  \<^verbatim>\<open>storage_seat.rs\<close>), and the limits under which it reads back. The chained roots are
  written as gaps, zigzag steps and lags in variable-length integers.
\<close>

subsection \<open>Writing\<close>

definition put_leaf :: "u32 list \<Rightarrow> bytes" where
  "put_leaf l = put_u32 (of_nat (length l)) @ concat (map put_u32 l)"

fun put_chained :: "u64 \<Rightarrow> u64 \<Rightarrow> chained list \<Rightarrow> bytes" where
  "put_chained frame beacon [] = []"
| "put_chained frame beacon (ch # chs) =
     put_varint (ch_frame ch - frame) @ put_varint (zigzag (ch_beacon ch - beacon)) @
     put_varint (ch_executed ch - ch_beacon ch) @ put_chained (ch_frame ch) (ch_beacon ch) chs"

definition put_seal :: "u64 option \<Rightarrow> bytes" where
  "put_seal sl = (case sl of Some frame \<Rightarrow> [1] @ put_u64 frame | None \<Rightarrow> [0])"

definition put_outcome :: "outcome \<Rightarrow> bytes" where
  "put_outcome oc =
     (case oc of Open \<Rightarrow> [0] | Settled frame \<Rightarrow> [1] @ put_u64 frame | Expired frame \<Rightarrow> [2] @ put_u64 frame)"

definition encode_slot :: "seat_slot \<Rightarrow> bytes" where
  "encode_slot s =
     put_u64 (slot_epoch s) @ put_u32 (of_nat (length (seat_leaves s))) @
     concat (map put_leaf (seat_leaves s)) @ put_u64 (registered_at s) @ put_seal (sealed_at s) @
     put_u64 (frames s) @ accumulator s @ put_u32 (of_nat (length (chain_of s))) @
     put_chained 0 0 (chain_of s) @ put_u64 (expected s) @ put_u64 (counted_through s) @
     put_u64 (held_through s) @ put_u32 (of_nat (length (pending s))) @ pending s @
     put_outcome (slot_outcome s)"

definition encode_slots :: "seat_slot list \<Rightarrow> bytes" where
  "encode_slots ss = [SLOTS_VERSION, of_nat (length ss)] @ concat (map encode_slot ss)"

subsection \<open>Reading\<close>

definition cursor_byte :: "bytes \<Rightarrow> (u8 \<times> bytes) result" where
  "cursor_byte bs = (case bs of [] \<Rightarrow> Err InvalidArgument | b # r \<Rightarrow> Ok (b, r))"

definition cursor_varint :: "bytes \<Rightarrow> (u64 \<times> bytes) result" where
  "cursor_varint bs = (case read_varint bs of None \<Rightarrow> Err InvalidArgument | Some x \<Rightarrow> Ok x)"

definition cursor_count :: "nat \<Rightarrow> bytes \<Rightarrow> (nat \<times> bytes) result" where
  "cursor_count cap bs =
     try_then (cursor_u32 bs) (\<lambda>(n, r). if cap < unat n then Err InvalidArgument else Ok (unat n, r))"

definition read_leaf :: "bytes \<Rightarrow> (u32 list \<times> bytes) result" where
  "read_leaf bs = try_then (cursor_count MAX_PREFIX bs) (\<lambda>(n, r). read_n cursor_u32 n r)"

definition read_seal :: "bytes \<Rightarrow> (u64 option \<times> bytes) result" where
  "read_seal bs =
     try_then (cursor_byte bs) (\<lambda>(b, r).
       if b = 0 then Ok (None, r)
       else if b = 1 then try_then (cursor_u64 r) (\<lambda>(frame, r'). Ok (Some frame, r'))
       else Err InvalidArgument)"

fun read_chained :: "nat \<Rightarrow> u64 \<Rightarrow> u64 \<Rightarrow> bytes \<Rightarrow> (chained list \<times> bytes) result" where
  "read_chained 0 frame beacon bs = Ok ([], bs)"
| "read_chained (Suc n) frame beacon bs =
     try_then (cursor_varint bs) (\<lambda>(gap, r1).
     try_then (cursor_varint r1) (\<lambda>(step, r2).
     try_then (cursor_varint r2) (\<lambda>(lag, r3).
       case checked_add frame gap of
         None \<Rightarrow> Err InvalidArgument
       | Some frame' \<Rightarrow>
           if gap = 0 then Err InvalidArgument
           else
             let beacon' = beacon + unzigzag step in
             try_then (read_chained n frame' beacon' r3) (\<lambda>(rest, r4).
               Ok (\<lparr>ch_frame = frame', ch_beacon = beacon', ch_executed = beacon' + lag\<rparr> # rest, r4)))))"

definition read_outcome :: "bytes \<Rightarrow> (outcome \<times> bytes) result" where
  "read_outcome bs =
     try_then (cursor_byte bs) (\<lambda>(b, r).
       if b = 0 then Ok (Open, r)
       else if b = 1 then try_then (cursor_u64 r) (\<lambda>(frame, r'). Ok (Settled frame, r'))
       else if b = 2 then try_then (cursor_u64 r) (\<lambda>(frame, r'). Ok (Expired frame, r'))
       else Err InvalidArgument)"

definition decode_slot :: "bytes \<Rightarrow> (seat_slot \<times> bytes) result" where
  "decode_slot bs =
     try_then (cursor_u64 bs) (\<lambda>(epoch, r).
     try_then (cursor_count MAX_LEAVES r) (\<lambda>(leaf_count, r).
     try_then (read_n read_leaf leaf_count r) (\<lambda>(ls, r).
     try_then (cursor_u64 r) (\<lambda>(registered, r).
     try_then (read_seal r) (\<lambda>(sl, r).
     try_then (cursor_u64 r) (\<lambda>(fs, r).
     try_then (cursor_bytes 32 r) (\<lambda>(acc, r).
     try_then (cursor_count MAX_CHAINED r) (\<lambda>(chained_count, r).
     try_then (read_chained chained_count 0 0 r) (\<lambda>(chs, r).
     try_then (cursor_u64 r) (\<lambda>(ex, r).
     try_then (cursor_u64 r) (\<lambda>(counted, r).
     try_then (cursor_u64 r) (\<lambda>(held, r).
     try_then (cursor_count 32 r) (\<lambda>(pending_len, r).
     try_then (cursor_bytes pending_len r) (\<lambda>(pend, r).
     try_then (read_outcome r) (\<lambda>(oc, r).
     Ok (\<lparr>slot_epoch = epoch, seat_leaves = ls, registered_at = registered, sealed_at = sl, frames = fs,
          accumulator = acc, chain_of = chs, expected = ex, counted_through = counted,
          held_through = held, pending = pend, slot_outcome = oc\<rparr>, r))))))))))))))))"

definition decode_slots :: "bytes \<Rightarrow> seat_slot list result" where
  "decode_slots data =
     try_then (cursor_byte data) (\<lambda>(v, r).
     if v \<noteq> SLOTS_VERSION then Err InvalidArgument
     else try_then (cursor_byte r) (\<lambda>(count, r).
     if MAX_SLOTS < unat count then Err InvalidArgument
     else try_then (read_n decode_slot (unat count) r) (\<lambda>(ss, r).
     if r \<noteq> [] then Err InvalidArgument else Ok ss)))"

subsection \<open>Round trip\<close>

fun ascending :: "u64 \<Rightarrow> chained list \<Rightarrow> bool" where
  "ascending frame [] = True"
| "ascending frame (ch # chs) \<longleftrightarrow> frame < ch_frame ch \<and> ascending (ch_frame ch) chs"

definition slot_fits :: "seat_slot \<Rightarrow> bool" where
  "slot_fits s \<longleftrightarrow>
     length (seat_leaves s) \<le> MAX_LEAVES \<and> list_all (\<lambda>l. length l \<le> MAX_PREFIX) (seat_leaves s) \<and>
     length (accumulator s) = 32 \<and> ascending 0 (chain_of s) \<and> length (chain_of s) \<le> MAX_CHAINED \<and>
     length (pending s) \<le> 32"

lemma cursor_byte_Cons [simp]: "cursor_byte (b # r) = Ok (b, r)"
  by (simp add: cursor_byte_def)

lemma cursor_varint_put [simp]: "cursor_varint (put_varint w @ r) = Ok (w, r)"
  by (simp add: cursor_varint_def)

lemma cursor_count_put [simp]:
  assumes "n \<le> cap" "cap < 2 ^ 32"
  shows "cursor_count cap (put_u32 (of_nat n) @ r) = Ok (n, r)"
  using assms by (simp add: cursor_count_def unat_of_nat)

lemma read_leaf_put [simp]: "length l \<le> MAX_PREFIX \<Longrightarrow> read_leaf (put_leaf l @ r) = Ok (l, r)"
  using cursor_u32.read_n_write [of l r] by (simp add: read_leaf_def put_leaf_def MAX_PREFIX_def list.pred_True)

interpretation seat_leaf: codec put_leaf read_leaf "\<lambda>l. length l \<le> MAX_PREFIX" id
  by unfold_locales simp

lemma read_seal_put [simp]: "read_seal (put_seal sl @ r) = Ok (sl, r)"
  by (cases sl) (simp_all add: read_seal_def put_seal_def)

lemma read_outcome_put [simp]: "read_outcome (put_outcome oc @ r) = Ok (oc, r)"
  by (cases oc) (simp_all add: read_outcome_def put_outcome_def)

lemma gap_adds: "f < (x :: u64) \<Longrightarrow> checked_add f (x - f) = Some x" "f < x \<Longrightarrow> x - f \<noteq> 0"
proof -
  assume less: "f < x"
  then have "unat (x - f) = unat x - unat f" by (simp add: unat_sub word_le_nat_alt word_less_nat_alt)
  moreover have "unat f < unat x" using less by (simp add: word_less_nat_alt)
  ultimately show "checked_add f (x - f) = Some x" using unat_u64_bound [of x]
    by (simp add: checked_add_Some)
  show "x - f \<noteq> 0" using less by simp
qed

lemma read_chained_put [simp]:
  "ascending f chs \<Longrightarrow> read_chained (length chs) f b (put_chained f b chs @ r) = Ok (chs, r)"
  by (induction chs arbitrary: f b) (auto simp: gap_adds Let_def)

lemma decode_encode_slot:
  assumes "slot_fits s"
  shows "decode_slot (encode_slot s @ r) = Ok (s, r)"
proof -
  note fits = assms [unfolded slot_fits_def]
  have leaves: "read_n read_leaf (length (seat_leaves s)) (concat (map put_leaf (seat_leaves s)) @ x)
      = Ok (seat_leaves s, x)" for x
    using seat_leaf.read_n_write [of "seat_leaves s" x] fits by simp
  show ?thesis
    using fits
    by (simp add: decode_slot_def encode_slot_def leaves MAX_LEAVES_def MAX_CHAINED_def)
qed

interpretation seat_slots: codec encode_slot decode_slot slot_fits id
  by unfold_locales (simp add: decode_encode_slot)

lemma decode_encode_slots:
  assumes "length ss \<le> MAX_SLOTS" "list_all slot_fits ss"
  shows "decode_slots (encode_slots ss) = Ok ss"
  using assms seat_slots.read_n_write [OF assms(2), of "[]"]
  by (simp add: decode_slots_def encode_slots_def SLOTS_VERSION_def MAX_SLOTS_def unat_of_nat)

end
