(* ===== verification/Seat_History.thy ===== *)
theory Seat_History
  imports Seat_Codec "HOL-Library.Multiset"
begin

text \<open>
  Histories of a storage seat: any interleaving of registrations, seals, commitments, held rewards,
  settlements and expiries. \<open>seat_inv\<close> is what every history keeps, and from it follow that the
  stored seat always reads back, that no more is paid than was held, and that the
  sweep visits every bucket once.
\<close>

subsection \<open>Histories\<close>

datatype seat_event =
  Register u64 "u32 list list" u64
| Seal u64 u64
| Commit u64 u64 u64 u64 bytes bytes
| Hold u64 u64 u64 int nat
| Settle u64 u64 u64
| Expire u64

fun apply_event ::
  "(bytes \<Rightarrow> bytes) \<Rightarrow> clock \<Rightarrow> seat_event \<Rightarrow> seat \<times> gates \<times> int \<Rightarrow> seat \<times> gates \<times> int" where
  "apply_event sha3 c (Register e ls f) (st, gs, paid) = (register c e ls f st, gs, paid)"
| "apply_event sha3 c (Seal e f) (st, gs, paid) = (snd (seal e f st), gs, paid)"
| "apply_event sha3 c (Commit e n b x rho rt) (st, gs, paid) = (snd (commit sha3 e n b x rho rt st), gs, paid)"
| "apply_event sha3 c (Hold e f n amount k) (st, gs, paid) = (snd (hold e f n amount k st), gs, paid)"
| "apply_event sha3 c (Settle e f timely) (st, gs, paid) =
     (case settle e f timely st of (released, st') \<Rightarrow>
        (st', gs, case released of None \<Rightarrow> paid | Some x \<Rightarrow> paid + x))"
| "apply_event sha3 c (Expire f) (st, gs, paid) =
     (case expire c f gs st of (kick, st', gs') \<Rightarrow> (st', gs', paid))"

fun held_by :: "seat_event \<Rightarrow> int" where
  "held_by (Hold e f n amount k) = max 0 amount"
| "held_by _ = 0"

fun registers_within_limits :: "seat_event \<Rightarrow> bool" where
  "registers_within_limits (Register e ls f) \<longleftrightarrow>
     length ls \<le> MAX_LEAVES \<and> list_all (\<lambda>l. length l \<le> MAX_PREFIX) ls"
| "registers_within_limits _ \<longleftrightarrow> True"

subsection \<open>Slots\<close>

definition open_pending :: "seat_slot list \<Rightarrow> int" where
  "open_pending ss = sum_list (map (\<lambda>s. if slot_outcome s = Open then pending_amount s else 0) ss)"

definition slot_inv :: "int \<Rightarrow> seat_slot \<Rightarrow> bool" where
  "slot_inv budget s \<longleftrightarrow>
     length (seat_leaves s) \<le> MAX_LEAVES \<and> list_all (\<lambda>l. length l \<le> MAX_PREFIX) (seat_leaves s) \<and>
     length (accumulator s) = 32 \<and> ascending 0 (chain_of s) \<and> length (chain_of s) \<le> MAX_CHAINED \<and>
     (slot_outcome s = Open \<longrightarrow> unat (frames s) = length (chain_of s)) \<and>
     (pending s = [] \<or> (\<exists>n. pending s = minimal_be n)) \<and> pending_amount s \<le> budget"

definition seat_inv :: "int \<Rightarrow> seat \<times> gates \<times> int \<Rightarrow> bool" where
  "seat_inv budget = (\<lambda>(st, gs, paid).
     sorted_wrt (<) (map slot_epoch (slots st)) \<and> length (slots st) \<le> MAX_SLOTS \<and>
     list_all (slot_inv budget) (slots st) \<and> paid + open_pending (slots st) \<le> budget)"

lemma from_minimal_be [simp]: "from_be (minimal_be n) = n"
proof (induction n rule: minimal_be.induct)
  case (1 n)
  then show ?case
    by (cases "n < 256") (auto simp: minimal_be.simps [of n] from_be_snoc unat_of_nat from_be_def)
qed

lemma length_minimal_be: "n < 256 ^ Suc k \<Longrightarrow> length (minimal_be n) \<le> Suc k"
proof (induction k arbitrary: n)
  case 0
  then show ?case by (simp add: minimal_be.simps [of n])
next
  case (Suc k)
  then have "n div 256 < 256 ^ Suc k" by (simp add: less_mult_imp_div_less mult.commute)
  with Suc.IH [of "n div 256"] show ?case by (cases "n < 256") (simp_all add: minimal_be.simps [of n])
qed

lemma pending_nonneg [simp]: "0 \<le> pending_amount s"
  by (simp add: pending_amount_def)

lemma slot_inv_fits:
  assumes "slot_inv budget s" "budget < 256 ^ 32"
  shows "slot_fits s"
proof -
  have "length (pending s) \<le> 32"
  proof (cases "pending s = []")
    case False
    then obtain n where n: "pending s = minimal_be n" using assms(1) by (auto simp: slot_inv_def)
    then have "int n \<le> budget" using assms(1) by (simp add: slot_inv_def pending_amount_def)
    then have "int n < int (256 ^ Suc 31)" using assms(2) by simp
    then have "n < 256 ^ Suc 31" by linarith
    from length_minimal_be [OF this] n show ?thesis by simp
  qed simp
  with assms(1) show ?thesis by (simp add: slot_inv_def slot_fits_def)
qed

lemma ascending_snoc:
  "ascending f chs \<Longrightarrow> (if chs = [] then f else ch_frame (last chs)) < ch_frame ch \<Longrightarrow> ascending f (chs @ [ch])"
proof (induction chs arbitrary: f)
  case (Cons a chs)
  then show ?case by (cases "chs = []") auto
qed simp

lemma share_bounds: "0 \<le> a \<Longrightarrow> 0 \<le> p \<Longrightarrow> p < e \<Longrightarrow> 0 \<le> a * p div e \<and> a * p div (e :: int) \<le> a"
proof -
  assume h: "0 \<le> a" "0 \<le> p" "p < e"
  then have "a * p \<le> a * e" by (intro mult_left_mono) simp_all
  then have "a * p div e \<le> a * e div e" using h by (intro zdiv_mono1) simp_all
  with h show ?thesis by (simp add: pos_imp_zdiv_nonneg_iff)
qed

lemma release_bounds: "0 \<le> release_of s timely \<and> release_of s timely \<le> pending_amount s"
proof -
  define p where "p = int (unat (min timely (frames s))) * int (unat PROPOSAL)"
  define e where "e = int (unat (expected s))"
  have r: "release_of s timely = (if expected s = 0 \<or> e \<le> p then pending_amount s
      else bigint_quot (pending_amount s * p) e)"
    by (simp only: release_of_def Let_def p_def e_def)
  have "0 \<le> p" "0 \<le> e" by (simp_all add: p_def e_def)
  then show ?thesis
    using share_bounds [of "pending_amount s" p e] unfolding r by (auto simp: not_le)
qed

subsection \<open>Every event keeps the invariant\<close>

lemma slot_mut_cases:
  assumes "slot_mut e f ss = Some (r, ss')"
  obtains pre s post where "ss = pre @ s # post" "slot_epoch s = e" "ss' = pre @ snd (f s) # post" "r = fst (f s)"
  using assms
proof (induction ss arbitrary: ss' thesis)
  case (Cons a ss)
  show ?case
  proof (cases "slot_epoch a = e")
    case True
    with Cons.prems(2) show thesis by (intro Cons.prems(1) [of "[]" a ss]) (auto split: prod.splits)
  next
    case False
    with Cons.prems(2) obtain ss1 where "slot_mut e f ss = Some (r, ss1)" "ss' = a # ss1" by auto
    with Cons.IH [of ss1] obtain pre s post where
      "ss = pre @ s # post" "slot_epoch s = e" "ss1 = pre @ snd (f s) # post" "r = fst (f s)" by blast
    with \<open>ss' = a # ss1\<close> show thesis by (intro Cons.prems(1) [of "a # pre" s post]) simp_all
  qed
qed simp

definition open_part :: "seat_slot \<Rightarrow> int" where
  "open_part s = (if slot_outcome s = Open then pending_amount s else 0)"

lemma open_pending_parts: "open_pending ss = sum_list (map open_part ss)"
  by (simp add: open_pending_def open_part_def [abs_def])

text \<open>An operation on one slot that keeps its epoch keeps the invariant, when the budget grows by at
  least what the slot gains.\<close>

lemma on_slot_inv:
  assumes "seat_inv b (st, gs, paid)" "b \<le> b'"
    and "\<And>s. slot_inv b s \<Longrightarrow> slot_inv b' (snd (f s)) \<and> slot_epoch (snd (f s)) = slot_epoch s \<and>
      cost (fst (f s)) + open_part (snd (f s)) \<le> open_part s + (b' - b)"
    and "cost absent \<le> b' - b"
  shows "seat_inv b' (snd (on_slot e absent f st), gs, paid + cost (fst (on_slot e absent f st)))"
proof -
  have mono: "slot_inv b s \<Longrightarrow> slot_inv b' s" for s using assms(2) by (auto simp: slot_inv_def)
  then have all: "list_all (slot_inv b') ss" if "list_all (slot_inv b) ss" for ss
    using that by (simp add: list_all_iff)
  show ?thesis
  proof (cases "slot_mut e f (slots st)")
    case None
    then show ?thesis using assms(1,2,4) all by (auto simp: on_slot_def seat_inv_def)
  next
    case (Some rss)
    obtain r ss' where rss: "rss = (r, ss')" by (cases rss)
    with Some have "slot_mut e f (slots st) = Some (r, ss')" by simp
    then obtain pre s post where split: "slots st = pre @ s # post" "slot_epoch s = e"
      "ss' = pre @ snd (f s) # post" "r = fst (f s)"
      by (rule slot_mut_cases)
    then have "slot_inv b s" using assms(1) by (simp add: seat_inv_def)
    note s = assms(3) [OF this]
    have inv: "sorted_wrt (<) (map slot_epoch (pre @ s # post))" "length (pre @ s # post) \<le> MAX_SLOTS"
      "list_all (slot_inv b) (pre @ s # post)" "paid + sum_list (map open_part (pre @ s # post)) \<le> b"
      using assms(1) by (simp_all add: seat_inv_def split(1) open_pending_parts)
    have "map slot_epoch ss' = map slot_epoch (pre @ s # post)" "length ss' = length (pre @ s # post)"
      using s unfolding split(3) by simp_all
    moreover have "list_all (slot_inv b') ss'"
      using s all [of pre] all [of post] inv(3) unfolding split(3) by simp
    moreover have "paid + cost r + sum_list (map open_part ss') \<le> b'"
      using s inv(4) unfolding split(3,4) by simp
    ultimately have "seat_inv b' (st\<lparr>slots := ss'\<rparr>, gs, paid + cost r)"
      using inv(1,2) by (simp add: seat_inv_def open_pending_parts)
    then show ?thesis using Some rss by (simp add: on_slot_def)
  qed
qed

lemma hold_slot_inv:
  assumes "slot_inv b s"
  shows "slot_inv (b + max 0 amount) (snd (hold_slot frame app_frame amount committee s)) \<and>
    slot_epoch (snd (hold_slot frame app_frame amount committee s)) = slot_epoch s \<and>
    open_part (snd (hold_slot frame app_frame amount committee s)) \<le> open_part s + max 0 amount"
proof -
  define s1 where "s1 = (if counted_through s < app_frame
      then s\<lparr>expected := saturating_add (expected s) (PROPOSAL div of_nat (max committee 1)),
             counted_through := app_frame\<rparr> else s)"
  have s1: "pending_amount s1 = pending_amount s" "slot_inv b s1" "slot_outcome s1 = slot_outcome s"
    "slot_epoch s1 = slot_epoch s"
    using assms by (simp_all add: s1_def slot_inv_def pending_amount_def)
  have mono: "slot_inv (b + max 0 amount) s'" if "slot_inv b s'" for s'
    using that by (auto simp: slot_inv_def)
  define bs where "bs = minimal_be (nat (pending_amount s + amount))"
  have r: "hold_slot frame app_frame amount committee s =
      (if \<not> is_sealed s \<or> slot_outcome s \<noteq> Open then (False, s)
       else if frame \<le> held_through s1 \<or> amount \<le> 0 then (False, s1)
       else (True, s1\<lparr>pending := (if bs = [0] then [] else bs), held_through := frame\<rparr>))"
    by (simp only: hold_slot_def s1_def [symmetric] Let_def bs_def s1(1))
  show ?thesis
  proof (cases "is_sealed s \<and> slot_outcome s = Open \<and> held_through s1 < frame \<and> 0 < amount")
    case False
    then show ?thesis using s1 mono assms by (auto simp: r open_part_def not_le)
  next
    case True
    let ?s = "s1\<lparr>pending := (if bs = [0] then [] else bs), held_through := frame\<rparr>"
    from True have "\<not> frame \<le> held_through s1" by (simp add: not_le)
    with True have step: "snd (hold_slot frame app_frame amount committee s) = ?s"
      by (simp add: r)
    have "pending_amount ?s = int (from_be (if bs = [0] then [] else bs))"
      by (simp add: pending_amount_def)
    also have "\<dots> = int (from_be bs)" by (simp add: from_be_def)
    also have "\<dots> = pending_amount s + amount" using True by (simp add: bs_def)
    finally have amount: "pending_amount ?s = pending_amount s + amount" .
    have "pending_amount s \<le> b" using assms by (simp add: slot_inv_def)
    then have "slot_inv (b + max 0 amount) ?s"
      using s1(2) True amount unfolding slot_inv_def by (auto simp: bs_def)
    then show ?thesis
      using True s1(3,4) amount unfolding step by (simp add: open_part_def)
  qed
qed

lemma commit_slot_inv:
  assumes "\<And>x. length (sha3 x) = 32" "slot_inv b s"
  shows "slot_inv b (snd (commit_slot sha3 n bc ex rho rt s)) \<and>
    slot_epoch (snd (commit_slot sha3 n bc ex rho rt s)) = slot_epoch s \<and>
    open_part (snd (commit_slot sha3 n bc ex rho rt s)) \<le> open_part s"
proof -
  define latest where "latest = (if chain_of s = [] then 0 else ch_frame (last (chain_of s)))"
  define ch where "ch = \<lparr>ch_frame = n, ch_beacon = bc, ch_executed = ex\<rparr>"
  let ?s = "s\<lparr>accumulator := accumulate sha3 (accumulator s) n rho rt, frames := frames s + 1,
    chain_of := chain_of s @ [ch]\<rparr>"
  have r: "commit_slot sha3 n bc ex rho rt s =
      (if \<not> is_sealed s \<or> slot_outcome s \<noteq> Open \<or> n \<le> latest \<or> MAX_CHAINED \<le> length (chain_of s)
       then (False, s) else (True, ?s))"
    by (simp only: commit_slot_def Let_def latest_def ch_def)
  show ?thesis
  proof (cases "\<not> is_sealed s \<or> slot_outcome s \<noteq> Open \<or> n \<le> latest \<or> MAX_CHAINED \<le> length (chain_of s)")
    case True
    then show ?thesis using assms(2) by (auto simp: r)
  next
    case False
    then have ok: "slot_outcome s = Open" "latest < n" "length (chain_of s) < MAX_CHAINED" by auto
    have inv: "unat (frames s) = length (chain_of s)" "ascending 0 (chain_of s)"
      using assms(2) ok(1) by (auto simp: slot_inv_def)
    have "ascending 0 (chain_of s @ [ch])"
      using inv(2) ok(2) by (intro ascending_snoc) (simp_all add: latest_def ch_def)
    moreover have "unat (frames s + 1) = Suc (length (chain_of s))"
      using inv(1) ok(3) unat_add_no_wrap [of "frames s" 1] by (simp add: MAX_CHAINED_def)
    ultimately have "slot_inv b ?s"
      using assms ok(3) unfolding slot_inv_def by (auto simp: accumulate_def pending_amount_def)
    moreover have "snd (commit_slot sha3 n bc ex rho rt s) = ?s" using False by (simp add: r)
    ultimately show ?thesis by (simp add: open_part_def pending_amount_def)
  qed
qed

lemma seal_slot_inv:
  assumes "slot_inv b s"
  shows "slot_inv b (snd (seal_slot f s)) \<and> slot_epoch (snd (seal_slot f s)) = slot_epoch s \<and>
    open_part (snd (seal_slot f s)) \<le> open_part s"
  using assms by (auto simp: seal_slot_def slot_inv_def open_part_def pending_amount_def)

lemma closed_slot_inv: "slot_inv b s \<Longrightarrow> oc \<noteq> Open \<Longrightarrow> slot_inv b (s\<lparr>slot_outcome := oc, chain_of := []\<rparr>)"
  by (auto simp: slot_inv_def pending_amount_def)

lemma settle_slot_inv:
  assumes "slot_inv b s"
  shows "slot_inv b (snd (settle_slot f k s)) \<and> slot_epoch (snd (settle_slot f k s)) = slot_epoch s \<and>
    (case fst (settle_slot f k s) of None \<Rightarrow> 0 | Some x \<Rightarrow> x) + open_part (snd (settle_slot f k s)) \<le> open_part s"
proof (cases "slot_outcome s = Open")
  case True
  let ?s = "s\<lparr>slot_outcome := Settled f, chain_of := []\<rparr>"
  have "release_of ?s k \<le> pending_amount ?s" using release_bounds by blast
  then have "release_of ?s k \<le> pending_amount s" by (simp add: pending_amount_def)
  with True closed_slot_inv [OF assms, of "Settled f"] show ?thesis
    by (simp add: settle_slot_def Let_def open_part_def)
next
  case False
  with assms show ?thesis by (simp add: settle_slot_def)
qed

lemma open_part_nonneg [simp]: "0 \<le> open_part s"
  by (simp add: open_part_def)

lemma expire_slot_inv:
  "slot_inv b s \<Longrightarrow> slot_inv b (expire_slot c f s)" "slot_epoch (expire_slot c f s) = slot_epoch s"
  "open_part (expire_slot c f s) \<le> open_part s"
  using closed_slot_inv [of b s "Expired f"]
  by (auto simp: expire_slot_def open_part_def)

lemma expire_inv:
  assumes "seat_inv b (st, gs, paid)"
  shows "seat_inv b (st\<lparr>slots := map (expire_slot c f) (slots st)\<rparr>, gs', paid)"
proof -
  have "sum_list (map open_part (map (expire_slot c f) (slots st))) \<le> sum_list (map open_part (slots st))"
    unfolding map_map by (rule sum_list_mono) (simp add: expire_slot_inv(3))
  moreover have "map slot_epoch (map (expire_slot c f) (slots st)) = map slot_epoch (slots st)"
    by (simp add: expire_slot_inv(2))
  ultimately show ?thesis
    using assms unfolding seat_inv_def open_pending_parts
    by (auto simp: list_all_iff expire_slot_inv(1) simp del: map_map)
qed

lemma sum_list_sublists:
  fixes f :: "'a \<Rightarrow> int"
  assumes "\<And>x. 0 \<le> f x"
  shows "sum_list (map f (filter P xs)) \<le> sum_list (map f xs)"
    "sum_list (map f (drop n xs)) \<le> sum_list (map f xs)"
proof -
  show "sum_list (map f (filter P xs)) \<le> sum_list (map f xs)"
    using assms by (induction xs) (auto intro: add_increasing)
  have "sum_list (map f xs) = sum_list (map f (take n xs)) + sum_list (map f (drop n xs))"
    by (metis append_take_drop_id map_append sum_list_append)
  moreover have "0 \<le> sum_list (map f (take n xs))" using assms by (intro sum_list_nonneg) auto
  ultimately show "sum_list (map f (drop n xs)) \<le> sum_list (map f xs)" by simp
qed

lemma prune_inv:
  assumes "sorted_wrt (<) (map slot_epoch (slots st))" "list_all (slot_inv b) (slots st)"
    and "paid + open_pending (slots st) \<le> b"
  shows "seat_inv b (prune e st, gs, paid)"
proof -
  define kept where "kept = filter (\<lambda>s. e \<le> saturating_add (slot_epoch s) 2) (slots st)"
  have slots: "slots (prune e st) = drop (length kept - MAX_SLOTS) kept"
    by (simp add: prune_def kept_def Let_def)
  have "sorted_wrt (<) (map slot_epoch (drop (length kept - MAX_SLOTS) kept))"
    using assms(1) unfolding sorted_wrt_map kept_def by (intro sorted_wrt_drop sorted_wrt_filter)
  moreover have "list_all (slot_inv b) (drop (length kept - MAX_SLOTS) kept)"
    using assms(2) by (auto simp: list_all_iff kept_def dest: in_set_dropD)
  moreover have "open_pending (drop (length kept - MAX_SLOTS) kept) \<le> open_pending (slots st)"
    using sum_list_sublists(1) [of open_part "\<lambda>s. e \<le> saturating_add (slot_epoch s) 2" "slots st"]
      sum_list_sublists(2) [of open_part "length kept - MAX_SLOTS" kept]
    by (simp add: open_pending_parts kept_def)
  ultimately show ?thesis using assms(3) by (simp add: seat_inv_def slots)
qed

lemma register_inv:
  assumes "seat_inv b (st, gs, paid)" "registers_within_limits (Register e ls f)" "0 \<le> b"
  shows "seat_inv b (register c e ls f st, gs, paid)"
proof -
  define others where "others = filter (\<lambda>s. slot_epoch s \<noteq> e) (slots st)"
  define fresh where
    "fresh = new_slot\<lparr>slot_epoch := e, seat_leaves := remdups_adj (sort ls), registered_at := f\<rparr>"
  define ss where "ss = sort_key slot_epoch (others @ [fresh])"
  have step: "register c e ls f st = prune (epoch_for_frame c f) (st\<lparr>slots := ss\<rparr>)"
    by (simp add: register_def Let_def others_def fresh_def ss_def)
  have inv: "sorted_wrt (<) (map slot_epoch (slots st))" "list_all (slot_inv b) (slots st)"
    "paid + open_pending (slots st) \<le> b"
    using assms(1) by (simp_all add: seat_inv_def)
  have mset: "mset ss = mset (others @ [fresh])" by (simp add: ss_def)
  have "sorted_wrt (<) (map slot_epoch others)"
    using inv(1) unfolding sorted_wrt_map others_def by (rule sorted_wrt_filter)
  then have "distinct (map slot_epoch (others @ [fresh]))"
    by (auto simp: strict_sorted_iff others_def fresh_def)
  then have "distinct (map slot_epoch ss)"
    using mset by (metis mset_eq_imp_distinct_iff mset_map)
  then have "sorted_wrt (<) (map slot_epoch ss)"
    by (simp add: strict_sorted_iff ss_def)
  moreover have "list_all (slot_inv b) ss"
  proof -
    have "slot_inv b fresh"
      using assms(2,3) remdups_adj_length [of "sort ls"]
      by (auto simp: slot_inv_def fresh_def new_slot_def list_all_iff pending_amount_def from_be_def)
    with inv(2) show ?thesis by (auto simp: ss_def others_def list_all_iff)
  qed
  moreover have "paid + open_pending ss \<le> b"
  proof -
    have "sum_list (map open_part ss) = sum_list (map open_part (others @ [fresh]))"
      using mset by (metis mset_map sum_mset_sum_list)
    also have "open_part fresh = 0" by (simp add: fresh_def new_slot_def open_part_def pending_amount_def from_be_def)
    ultimately show ?thesis
      using sum_list_sublists(1) [of open_part "\<lambda>s. slot_epoch s \<noteq> e" "slots st"] inv(3)
      by (simp add: open_pending_parts others_def)
  qed
  ultimately show ?thesis unfolding step by (intro prune_inv) simp_all
qed

lemma apply_event_inv:
  assumes "\<And>x. length (sha3 x) = 32" "seat_inv b x" "registers_within_limits ev" "0 \<le> b"
  shows "seat_inv (b + held_by ev) (apply_event sha3 c ev x)"
proof -
  obtain st gs paid where x: "x = (st, gs, paid)" by (cases x)
  note inv = assms(2) [unfolded x]
  show ?thesis
  proof (cases ev)
    case (Register e ls f)
    then show ?thesis using register_inv [OF inv] assms(3,4) x by simp
  next
    case (Seal e f)
    then show ?thesis
      using on_slot_inv [OF inv, of b "seal_slot f" "\<lambda>_. 0"] seal_slot_inv x by (simp add: seal_def)
  next
    case (Commit e n bc ex rho rt)
    then show ?thesis
      using on_slot_inv [OF inv, of b "commit_slot sha3 n bc ex rho rt" "\<lambda>_. 0"] x
        commit_slot_inv [OF assms(1)] by (simp add: commit_def)
  next
    case (Hold e f n amount k)
    then show ?thesis
      using on_slot_inv [OF inv, of "b + max 0 amount" "hold_slot f n amount k" "\<lambda>_. 0"] hold_slot_inv x
      by (simp add: hold_def)
  next
    case (Settle e f k)
    then show ?thesis
      using on_slot_inv [OF inv, of b "settle_slot f k" "\<lambda>r. case r of None \<Rightarrow> 0 | Some v \<Rightarrow> v" None e]
        settle_slot_inv x
      by (auto simp: settle_def split: prod.split option.split)
  next
    case (Expire f)
    then show ?thesis
      using expire_inv [OF inv] x by (simp add: expire_def split: prod.split)
  qed
qed

subsection \<open>What every history keeps\<close>

definition seat_run ::
  "(bytes \<Rightarrow> bytes) \<Rightarrow> clock \<Rightarrow> gates \<Rightarrow> bytes \<Rightarrow> bytes \<Rightarrow> seat_event list \<Rightarrow> seat \<times> gates \<times> int" where
  "seat_run sha3 c gs member_address shard_filter evs =
     fold (apply_event sha3 c) evs (new_seat member_address shard_filter, gs, 0)"

lemma held_by_nonneg [simp]: "0 \<le> held_by ev"
  by (cases ev) simp_all

lemma run_inv:
  assumes "\<And>x. length (sha3 x) = 32" "list_all registers_within_limits evs" "seat_inv b x" "0 \<le> b"
  shows "seat_inv (b + sum_list (map held_by evs)) (fold (apply_event sha3 c) evs x)"
  using assms(2-4)
proof (induction evs arbitrary: b x)
  case (Cons ev evs)
  have "seat_inv (b + held_by ev) (apply_event sha3 c ev x)"
    using apply_event_inv [OF assms(1) Cons.prems(2)] Cons.prems by simp
  with Cons.IH [of "b + held_by ev" "apply_event sha3 c ev x"] Cons.prems show ?case
    by (simp add: add.assoc)
qed simp

lemma ascending_sorted: "ascending f chs \<Longrightarrow> sorted_wrt (<) (f # map ch_frame chs)"
proof (induction chs arbitrary: f)
  case (Cons ch chs)
  then have "sorted_wrt (<) (ch_frame ch # map ch_frame chs)" "f < ch_frame ch" by auto
  then show ?case by (auto intro: less_trans)
qed simp

lemma seat_run_inv:
  assumes "\<And>x. length (sha3 x) = 32" "list_all registers_within_limits evs"
    and "seat_run sha3 c gs member_address shard_filter evs = (st, gs', paid)"
  shows "seat_inv (sum_list (map held_by evs)) (st, gs', paid)"
proof -
  have "seat_inv 0 (new_seat member_address shard_filter, gs, 0)"
    by (simp add: seat_inv_def new_seat_def open_pending_def)
  from run_inv [of sha3 evs 0 _ c, OF assms(1,2) this] assms(3) show ?thesis by (simp add: seat_run_def)
qed

lemma open_pending_filter:
  "open_pending ss = sum_list (map pending_amount (filter (\<lambda>s. slot_outcome s = Open) ss))"
  unfolding open_pending_def by (induction ss) simp_all

lemma seat_run_identity:
  "seat_member (fst (seat_run sha3 c gs a f evs)) = a" "seat_filter (fst (seat_run sha3 c gs a f evs)) = f"
proof -
  have keep: "seat_member (snd (on_slot e d g st)) = seat_member st" "seat_filter (snd (on_slot e d g st)) = seat_filter st"
    for e and d :: 'b and g st
    by (auto simp: on_slot_def split: option.split prod.split)
  have step: "seat_member (fst (apply_event sha3 c ev x)) = seat_member (fst x) \<and>
      seat_filter (fst (apply_event sha3 c ev x)) = seat_filter (fst x)" for ev x
    by (cases x; cases ev)
      (simp_all add: register_def prune_def Let_def seal_def commit_def hold_def settle_def expire_def keep
        on_slot_def split: prod.split option.split)
  have "seat_member (fst (fold (apply_event sha3 c) evs x)) = seat_member (fst x) \<and>
      seat_filter (fst (fold (apply_event sha3 c) evs x)) = seat_filter (fst x)" for x
    by (induction evs arbitrary: x) (simp_all add: step)
  from this [of "(new_seat a f, gs, 0)"]
  show "seat_member (fst (seat_run sha3 c gs a f evs)) = a" "seat_filter (fst (seat_run sha3 c gs a f evs)) = f"
    by (simp_all add: seat_run_def new_seat_def)
qed

lemma slot_on_slot:
  assumes "slot st e = Some s" "slot_epoch (snd (f s)) = e"
  shows "fst (on_slot e absent f st) = fst (f s)"
    "slot (snd (on_slot e absent f st)) e' = (if e' = e then Some (snd (f s)) else slot st e')"
proof -
  have "List.find (\<lambda>s. slot_epoch s = e) ss = Some s \<Longrightarrow>
      (\<exists>ss'. slot_mut e f ss = Some (fst (f s), ss') \<and>
        List.find (\<lambda>s. slot_epoch s = e') ss' =
          (if e' = e then Some (snd (f s)) else List.find (\<lambda>s. slot_epoch s = e') ss))" for ss
  proof (induction ss)
    case (Cons a ss)
    then show ?case
      using assms(2) by (cases "slot_epoch a = e") (auto split: prod.split)
  qed simp
  from this [OF assms(1) [unfolded slot_def]]
  show "fst (on_slot e absent f st) = fst (f s)"
    "slot (snd (on_slot e absent f st)) e' = (if e' = e then Some (snd (f s)) else slot st e')"
    by (auto simp: on_slot_def slot_def)
qed

lemma slot_epoch_of: "slot st e = Some s \<Longrightarrow> slot_epoch s = e"
  by (auto simp: slot_def find_Some_iff)

text \<open>A settlement pays the published share, once. Settling an open epoch pays all that is held
  when the timely roots cover the expected proposals (in units of one committee turn), and
  otherwise exactly their share, rounded down; it never pays more than is held and
  never a negative amount, and it touches no other epoch. From then on the epoch is
  closed: settling it again pays nothing, and it holds and chains nothing more.\<close>

theorem settlement_pays_share:
  assumes "slot st e = Some s" "slot_outcome s = Open"
    and "settle e f timely st = (released, st')"
    and "published = int (unat (min timely (frames s))) * 65536"
  shows "released = Some (if expected s = 0 \<or> int (unat (expected s)) \<le> published then pending_amount s
      else pending_amount s * published div int (unat (expected s))) \<and>
    0 \<le> the released \<and> the released \<le> pending_amount s \<and>
    (\<forall>e'. e' \<noteq> e \<longrightarrow> slot st' e' = slot st e') \<and>
    fst (settle e f2 timely2 st') = None \<and> \<not> fst (hold e f3 n amount k st') \<and>
    \<not> fst (commit sha3 e n2 beacon executed rho rt st')"
proof -
  let ?s = "s\<lparr>slot_outcome := Settled f, chain_of := []\<rparr>"
  have f: "settle_slot f timely s = (Some (release_of ?s timely), ?s)"
    using assms(2) by (simp add: settle_slot_def Let_def)
  have e: "slot_epoch s = e" using slot_epoch_of [OF assms(1)] .
  have st': "released = Some (release_of ?s timely)"
    "slot st' e' = (if e' = e then Some ?s else slot st e')" for e'
    using slot_on_slot [OF assms(1), of "settle_slot f timely" None] assms(3) f e
    by (simp_all add: settle_def)
  have closed: "slot st' e = Some ?s" using st'(2) [of e] by simp
  have share: "release_of ?s timely = (if expected s = 0 \<or> int (unat (expected s)) \<le> published
      then pending_amount s else pending_amount s * published div int (unat (expected s)))"
    unfolding release_of_def Let_def assms(4)
    by (simp add: PROPOSAL_def pending_amount_def)
  have "0 \<le> release_of ?s timely" "release_of ?s timely \<le> pending_amount s"
    using release_bounds [of ?s timely] by (simp_all add: pending_amount_def)
  moreover have "fst (settle e f2 timely2 st') = None" "\<not> fst (hold e f3 n amount k st')"
    "\<not> fst (commit sha3 e n2 beacon executed rho rt st')"
    using slot_on_slot(1) [OF closed, of "settle_slot f2 timely2" None]
      slot_on_slot(1) [OF closed, of "hold_slot f3 n amount k" False]
      slot_on_slot(1) [OF closed, of "commit_slot sha3 n2 beacon executed rho rt" False] e
    by (simp_all add: settle_def hold_def commit_def settle_slot_def hold_slot_def commit_slot_def)
  ultimately show ?thesis using st' share by simp
qed

subsection \<open>The sweep\<close>

lemma step_positions:
  fixes offset count b :: nat
  assumes "0 < count" "offset < count"
  shows "offset \<le> b \<and> (b - offset) mod count = 0 \<longleftrightarrow> b mod count = offset"
proof
  assume "offset \<le> b \<and> (b - offset) mod count = 0"
  then have le: "offset \<le> b" and "count dvd b - offset" by auto
  then obtain k where "b - offset = count * k" by (auto simp: dvd_def)
  then have "b = offset + count * k" using le by simp
  then show "b mod count = offset" using assms by simp
next
  assume h: "b mod count = offset"
  then have "offset \<le> b" using mod_less_eq_dividend [of b count] by simp
  moreover have "b - offset = count * (b div count)" using h by (metis minus_mod_eq_mult_div)
  ultimately show "offset \<le> b \<and> (b - offset) mod count = 0" by simp
qed

lemma epoch_split:
  assumes "0 < epoch_length_frames c"
  shows "unat f = unat (epoch_for_frame c f) * unat (epoch_length_frames c) + unat (f mod epoch_length_frames c)"
    "f - epoch_for_frame c f * epoch_length_frames c = f mod epoch_length_frames c"
    "\<not> f < epoch_for_frame c f * epoch_length_frames c"
proof -
  have "f = epoch_for_frame c f * epoch_length_frames c + f mod epoch_length_frames c"
    by (simp add: epoch_for_frame_def word_mod_div_equality)
  then show "f - epoch_for_frame c f * epoch_length_frames c = f mod epoch_length_frames c"
    by (metis add_diff_cancel_left')
  show eq: "unat f = unat (epoch_for_frame c f) * unat (epoch_length_frames c) + unat (f mod epoch_length_frames c)"
    by (simp add: epoch_for_frame_def unat_div unat_mod)
  have "unat (epoch_for_frame c f * epoch_length_frames c) \<le> unat f"
    using eq by (simp add: unat_word_ariths mod_less_eq_dividend le_trans [OF mod_less_eq_dividend])
  then show "\<not> f < epoch_for_frame c f * epoch_length_frames c"
    by (simp add: word_less_nat_alt)
qed

lemma due_frame:
  assumes "0 < epoch_length_frames c" "2 \<le> epoch_for_frame c f"
  shows "expiry_buckets_due c f = Some (e, bs) \<longleftrightarrow>
    e = epoch_for_frame c f - 2 \<and>
    unat (f mod epoch_length_frames c) < min 16 (unat (epoch_length_frames c)) \<and>
    bs = filter (\<lambda>b. b mod min 16 (unat (epoch_length_frames c)) = unat (f mod epoch_length_frames c)) [0..<16]"
proof -
  let ?l = "epoch_length_frames c"
  have pos: "0 < unat ?l" using assms(1) by (simp add: word_less_nat_alt)
  then have "1 \<le> ?l" unfolding word_le_nat_alt by (simp add: Suc_le_eq)
  then have len: "max ?l 1 = ?l" by (rule max_absorb1)
  have count: "unat (min EXPIRY_BUCKETS ?l) = min 16 (unat ?l)"
    by (simp add: EXPIRY_BUCKETS_def min_def word_le_nat_alt)
  have less: "f mod ?l < min EXPIRY_BUCKETS ?l \<longleftrightarrow> unat (f mod ?l) < min 16 (unat ?l)"
    unfolding word_less_nat_alt count ..
  have "unat EXPIRY_BUCKETS = 16" by (simp add: EXPIRY_BUCKETS_def)
  moreover have "\<not> epoch_for_frame c f < 2" using assms(2) by (simp add: not_less)
  moreover have "filter (\<lambda>b. unat (f mod ?l) \<le> b \<and> (b - unat (f mod ?l)) mod min 16 (unat ?l) = 0) [0..<16]
      = filter (\<lambda>b. b mod min 16 (unat ?l) = unat (f mod ?l)) [0..<16]"
    if "unat (f mod ?l) < min 16 (unat ?l)"
    using step_positions [of "min 16 (unat ?l)" "unat (f mod ?l)"] that pos by (intro filter_cong) simp_all
  ultimately show ?thesis
    unfolding expiry_buckets_due_def Let_def len epoch_split(2) [OF assms(1)] count less
    using epoch_split(3) [OF assms(1), of f] by auto
qed

text \<open>C17. The expiry sweep visits every queued seat exactly once. In each epoch from the third, every
  bucket is due at exactly one frame of the epoch, and there for the epoch two before; no bucket
  number outside the sixteen is ever due. This holds for every epoch length, however short,
  as long as the epoch's frame numbers fit 64 bits.\<close>

theorem expiry_sweep_exactly_once:
  assumes "0 < epoch_length_frames c" "2 \<le> e"
    and "(unat e + 1) * unat (epoch_length_frames c) \<le> 2 ^ 64" "b < 16"
  shows "\<exists>!f. epoch_for_frame c f = e \<and>
    (\<exists>e' bs. expiry_buckets_due c f = Some (e', bs) \<and> b \<in> set bs \<and> e' = e - 2)"
proof -
  let ?l = "epoch_length_frames c" and ?count = "min 16 (unat (epoch_length_frames c))"
  have pos: "0 < unat ?l" using assms(1) by (simp add: word_less_nat_alt)
  have due: "(\<exists>e' bs. expiry_buckets_due c f = Some (e', bs) \<and> b \<in> set bs \<and> e' = e - 2) \<longleftrightarrow>
      unat (f mod ?l) = b mod ?count" if "epoch_for_frame c f = e" for f
    using due_frame [OF assms(1), of f] that assms(2,4) mod_less_divisor [of ?count b] pos by auto
  let ?f = "of_nat (unat e * unat ?l + b mod ?count) :: u64"
  have "b mod ?count < ?count" using pos by (intro mod_less_divisor) simp
  then have small: "b mod ?count < unat ?l" by simp
  have "unat e * unat ?l + b mod ?count < 2 ^ 64"
    using assms(3) small by (simp add: algebra_simps)
  then have f: "unat ?f = unat e * unat ?l + b mod ?count"
    by (simp add: unat_of_nat take_bit_nat_eq_self del: of_nat_mult of_nat_add)
  have "unat (?f div ?l) = unat e" "unat (?f mod ?l) = b mod ?count"
    unfolding unat_div unat_mod f using small by simp_all
  then have in_epoch: "epoch_for_frame c ?f = e" "unat (?f mod ?l) = b mod ?count"
    by (simp_all only: epoch_for_frame_def word_unat_eq_iff)
  show ?thesis
  proof (rule ex1I [of _ ?f])
    show "epoch_for_frame c ?f = e \<and>
      (\<exists>e' bs. expiry_buckets_due c ?f = Some (e', bs) \<and> b \<in> set bs \<and> e' = e - 2)"
      using in_epoch due [of ?f] by simp
  next
    fix g assume g: "epoch_for_frame c g = e \<and>
      (\<exists>e' bs. expiry_buckets_due c g = Some (e', bs) \<and> b \<in> set bs \<and> e' = e - 2)"
    then have "unat (g mod ?l) = b mod ?count" using due [of g] by simp
    with g epoch_split(1) [OF assms(1), of g] f show "g = ?f" by (simp add: word_unat_eq_iff)
  qed
qed

subsection \<open>A seat through an epoch\<close>

definition demo_sha3 :: "bytes \<Rightarrow> bytes" where
  "demo_sha3 x = replicate 32 7"

definition demo_events :: "seat_event list" where
  "demo_events =
     [Register 1314 [[3, 1], [2], [2]] 945400, Seal 1314 946100,
      Hold 1314 946200 10 1000 4, Commit 1314 11 946199 946201 [5] (replicate 32 1),
      Hold 1314 946201 11 500 4, Hold 1314 946201 12 999 4, Settle 1314 946900 1]"

definition demo_seat :: seat where
  "demo_seat = (new_seat [1] [2])\<lparr>slots := [new_slot\<lparr>slot_epoch := 1314, seat_leaves := [[2]],
     sealed_at := Some 946100, frames := 2, expected := 5 * 65536, pending := [3, 232]\<rparr>]\<rparr>"

text \<open>A thousand held, two of five expected proposals published: four hundred are paid.\<close>

lemma settlement_pays_share_witness: "fst (settle 1314 946900 7 demo_seat) = Some 400"
proof -
  let ?s = "hd (slots demo_seat)"
  have s: "slot demo_seat 1314 = Some ?s" "slot_outcome ?s = Open" "frames ?s = 2" "expected ?s = 327680"
    "pending_amount ?s = 1000"
    by (simp_all add: demo_seat_def new_seat_def new_slot_def slot_def pending_amount_def from_be_def)
  obtain r st' where settle: "settle 1314 946900 7 demo_seat = (r, st')" by (metis surj_pair)
  have "min (7 :: u64) 2 = 2" by (simp add: min_def word_le_nat_alt)
  then show ?thesis
    using settlement_pays_share [OF s(1,2) settle refl] settle unfolding s by simp
qed

lemma expiry_sweep_exactly_once_witness:
  "\<exists>!f. epoch_for_frame initial_clock f = 1316 \<and>
    (\<exists>e' bs. expiry_buckets_due initial_clock f = Some (e', bs) \<and> 5 \<in> set bs \<and> e' = 1316 - 2)"
proof -
  have "0 < epoch_length_frames initial_clock" "(2 :: u64) \<le> 1316"
    "(unat (1316 :: u64) + 1) * unat (epoch_length_frames initial_clock) \<le> 2 ^ 64"
    by (simp_all add: word_le_nat_alt initial_clock_def epoch_length_frames_def EPOCH_LENGTH_FRAMES_def)
  from expiry_sweep_exactly_once [OF this, of 5] show ?thesis by simp
qed

end
