(* ===== verification/Seat_Vertex.thy ===== *)
theory Seat_Vertex
  imports Seat_History Prover_Lifecycle
begin

text \<open>
  A storage seat as a GLOBAL vertex (\<^verbatim>\<open>Seat::to_tree\<close> and \<^verbatim>\<open>Seat::from_tree\<close> of
  \<^verbatim>\<open>storage_seat.rs\<close>): the composition of the vertex schema, the commitment tree and the
  slot codec. Any seat a history reaches reads back from the tree that stores it.
\<close>

abbreviation SEAT_CLASS :: string where
  "SEAT_CLASS \<equiv> ''storage:StorageSeat''"

definition seat_to_tree :: "(bytes \<Rightarrow> bytes) \<Rightarrow> (bytes \<Rightarrow> bytes) \<Rightarrow> seat \<Rightarrow> vc_tree result" where
  "seat_to_tree sha poseidon st = built (
     and_then (write_type sha poseidon new_tree SEAT_CLASS) (\<lambda>t.
     and_then (write_vertex_field sha t SEAT_CLASS ''Member'' (seat_member st)) (\<lambda>t.
     and_then (write_vertex_field sha t SEAT_CLASS ''ShardFilter'' (seat_filter st)) (\<lambda>t.
     and_then (write_vertex_field sha t SEAT_CLASS ''Slots'' (encode_slots (slots st))) (\<lambda>t.
     (t, Ok ()))))))"

definition seat_field :: "vc_tree \<Rightarrow> string \<Rightarrow> bytes result" where
  "seat_field t fld =
     (case read_vertex_field t SEAT_CLASS fld of None \<Rightarrow> Err InvalidArgument | Some b \<Rightarrow> Ok b)"

definition seat_from_tree :: "vc_tree \<Rightarrow> seat result" where
  "seat_from_tree t =
     try_then (seat_field t ''Member'') (\<lambda>m.
     if length m \<noteq> 32 then Err InvalidArgument
     else try_then (seat_field t ''ShardFilter'') (\<lambda>f.
     try_then (seat_field t ''Slots'') (\<lambda>data.
     try_then (decode_slots data) (\<lambda>ss.
     Ok \<lparr>seat_member = m, seat_filter = f, slots = ss\<rparr>))))"

lemma field_key_seat [simp]:
  "field_key SEAT_CLASS ''Member'' = Some [104]"
  "field_key SEAT_CLASS ''ShardFilter'' = Some [108]"
  "field_key SEAT_CLASS ''Slots'' = Some [112]"
  by (simp_all add: field_key_def field_tag_of_def class_def_of_def GLOBAL_CLASSES_def class_defs
      tag_def order_to_key_def GLOBAL_MAX_ORDER_def MAX_ORDER_SINGLE_BYTE_def)

lemma seat_tree_round_trip:
  assumes "length (seat_member st) = 32" "decode_slots (encode_slots (slots st)) = Ok (slots st)"
  obtains t where "seat_to_tree sha poseidon st = Ok t" "wf_vertex t" "seat_from_tree t = Ok st"
proof -
  let ?ws = "[(''Member'', seat_member st), (''ShardFilter'', seat_filter st),
    (''Slots'', encode_slots (slots st))]"
  obtain t where t: "built (and_then (write_type sha poseidon new_tree SEAT_CLASS)
      (write_all sha SEAT_CLASS ?ws)) = Ok t" "wf_vertex t"
    "tree_get t = row_writes SEAT_CLASS ?ws [TYPE_KEY \<mapsto> compute_type_hash poseidon SEAT_CLASS]"
    by (rule built_writes [of SEAT_CLASS ?ws sha poseidon]) auto
  have "seat_to_tree sha poseidon st = Ok t"
    using t(1) by (simp add: seat_to_tree_def write_all_fun)
  moreover have "seat_from_tree t = Ok st"
    using assms t(3) by (simp add: seat_from_tree_def seat_field_def read_vertex_field_def)
  ultimately show thesis using t(2) that by blast
qed



end
