(* ===== verification/Pricing.thy ===== *)
theory Pricing
  imports Prelude
begin

text \<open>
  Pricing of state (\<^verbatim>\<open>quil-execution/src/pricing.rs\<close>) and the issuance of rewards
  (\<^verbatim>\<open>quil-engine/src/rewards.rs\<close>): the basis of a unit of work, which falls as the world grows, the
  baseline fee of state added to the world, the multiplier and the budget a payer is quoted, and the
  reward of an allocation on its ring. \<^verbatim>\<open>BigInt\<close> values are integers; the truncated \<open>n\<close>-th
  root of the number library is an argument \<open>nth_root\<close> of what uses it, its square root being the
  case 2.
\<close>

subsection \<open>Constants\<close>

definition POMW_SCALE_BITS :: nat where "POMW_SCALE_BITS = 53"
definition POMW_NUMERATOR :: u64 where "POMW_NUMERATOR = 1125899906842624"
definition QUIL_TOKEN_UNITS :: u64 where "QUIL_TOKEN_UNITS = 8000000000"
definition MAINNET_NETWORK :: u8 where "MAINNET_NETWORK = 0"
definition NON_MAINNET_UNITS_PER_BYTE :: u64 where "NON_MAINNET_UNITS_PER_BYTE = 1"

definition network_selector :: "bytes \<Rightarrow> u8 option" where
  "network_selector identifier =
     (if identifier = [] then None
      else if length identifier = 32 \<and> list_all (\<lambda>b. b = 0) (butlast identifier)
      then Some (last identifier) else None)"

subsection \<open>The basis of a unit of work\<close>

lemma u64_div_10000: "unat ((d :: u64) div 10000) = unat d div 10000"
  by (simp add: unat_div)

function generations_from :: "u64 \<Rightarrow> nat \<Rightarrow> nat" where
  "generations_from difflog generation =
     (if 10000 \<le> difflog then generations_from (difflog div 10000) (Suc generation) else generation)"
  by pat_completeness auto

termination
  by (relation "measure (unat \<circ> fst)") (auto simp: u64_div_10000 word_le_nat_alt)

declare generations_from.simps [simp del]

definition pomw_generation :: "u64 \<Rightarrow> nat" where
  "pomw_generation difficulty = generations_from difficulty 0"

definition pomw_basis :: "(nat \<Rightarrow> int \<Rightarrow> int) \<Rightarrow> u64 \<Rightarrow> u64 \<Rightarrow> u64 \<Rightarrow> int" where
  "pomw_basis nth_root difficulty world_state_bytes units =
     (if world_state_bytes = 0 then 0
      else
        let generation = pomw_generation difficulty;
            numerator = uint POMW_NUMERATOR;
            denominator = uint world_state_bytes in
        if generation = 0 then bigint_quot numerator denominator * uint units
        else
          let exp_denom = 2 ^ generation;
              pre_scale_bits = exp_denom * POMW_SCALE_BITS;
              scaled = bigint_quot (push_bit pre_scale_bits numerator) denominator;
              rooted = nth_root exp_denom scaled
          in drop_bit POMW_SCALE_BITS (rooted * uint units))"

subsection \<open>Rewards of an allocation\<close>

definition allocation_ring_reward :: "(nat \<Rightarrow> int \<Rightarrow> int) \<Rightarrow> int \<Rightarrow> int \<Rightarrow> int \<Rightarrow> u8 \<Rightarrow> u64 \<Rightarrow> int" where
  "allocation_ring_reward nth_root basis state_size world_bytes ring data_shards =
     (if basis \<le> 0 \<or> state_size \<le> 0 \<or> world_bytes \<le> 0 \<or> data_shards = 0 then 0
      else
        let divisor = uint (push_bit (unat (min ring 62) + 1) 1 :: u64);
            sqrt = nth_root 2 (push_bit (2 * POMW_SCALE_BITS) (uint data_shards));
            numerator = push_bit POMW_SCALE_BITS (state_size * basis)
        in bigint_quot numerator (world_bytes * divisor * sqrt))"

definition allocation_prover_reward :: "(nat \<Rightarrow> int \<Rightarrow> int) \<Rightarrow> int \<Rightarrow> int \<Rightarrow> int \<Rightarrow> u8 \<Rightarrow> u64 \<Rightarrow> int" where
  "allocation_prover_reward nth_root basis state_size world_bytes ring data_shards =
     bigint_quot (allocation_ring_reward nth_root basis state_size world_bytes ring data_shards) 8"

subsection \<open>Fees\<close>

definition get_baseline_fee :: "(nat \<Rightarrow> int \<Rightarrow> int) \<Rightarrow> u64 \<Rightarrow> u64 \<Rightarrow> u64 \<Rightarrow> u64 \<Rightarrow> int" where
  "get_baseline_fee nth_root difficulty world_state_bytes total_added units =
     (let current = pomw_basis nth_root difficulty world_state_bytes units;
          affected = pomw_basis nth_root difficulty (world_state_bytes + total_added) units;
          delta = current - affected in
      if world_state_bytes = 0 then uint total_added
      else
        let lhs = bigint_quot (delta * delta) (uint world_state_bytes);
            rhs = uint total_added
        in if rhs \<le> lhs then lhs else rhs)"

definition big_to_u64 :: "int \<Rightarrow> u64 option" where
  "big_to_u64 n = (if 0 \<le> n \<and> n < 2 ^ 64 then Some (word_of_int n) else None)"

definition big_to_u64_saturating :: "int \<Rightarrow> u64" where
  "big_to_u64_saturating n = (case big_to_u64 n of None \<Rightarrow> u64_max | Some w \<Rightarrow> w)"

definition fee_multiplier_for_cost ::
  "(nat \<Rightarrow> int \<Rightarrow> int) \<Rightarrow> u8 \<Rightarrow> u64 \<Rightarrow> u64 \<Rightarrow> int \<Rightarrow> u64 \<Rightarrow> int result" where
  "fee_multiplier_for_cost nth_root network difficulty world_state_bytes cost vote =
     (if cost = 0 then Ok 0
      else case big_to_u64 cost of
        None \<Rightarrow> Err InvalidArgument
      | Some added \<Rightarrow>
          if checked_add world_state_bytes added = None then Err InvalidArgument
          else if network \<noteq> MAINNET_NETWORK then Ok (uint NON_MAINNET_UNITS_PER_BYTE * uint vote)
          else
            let baseline = get_baseline_fee nth_root difficulty world_state_bytes added QUIL_TOKEN_UNITS;
                per_unit = bigint_quot (baseline + cost - 1) cost
            in Ok (per_unit * uint vote))"

definition fee_budget_for_payload_limit ::
  "(nat \<Rightarrow> int \<Rightarrow> int) \<Rightarrow> u8 \<Rightarrow> u64 \<Rightarrow> u64 \<Rightarrow> u64 \<Rightarrow> u64 \<Rightarrow> int result" where
  "fee_budget_for_payload_limit nth_root network difficulty world_state_bytes payload_limit vote =
     (if payload_limit = 0 then Ok 0
      else if checked_add world_state_bytes payload_limit = None then Err InvalidArgument
      else if network \<noteq> MAINNET_NETWORK
      then Ok (uint payload_limit * uint NON_MAINNET_UNITS_PER_BYTE * uint vote)
      else
        let baseline = get_baseline_fee nth_root difficulty world_state_bytes payload_limit QUIL_TOKEN_UNITS
        in Ok ((baseline + uint (payload_limit - 1)) * uint vote))"

subsection \<open>Issuance\<close>

text \<open>A prover's allocations by shard, in the order the hash map yields them.\<close>

record reward_allocation =
  ra_ring :: u8
  ra_shards :: u64
  ra_state_size :: u64

definition calculate ::
  "(nat \<Rightarrow> int \<Rightarrow> int) \<Rightarrow> u64 \<Rightarrow> u64 \<Rightarrow> u64 \<Rightarrow> (string \<times> reward_allocation) list list \<Rightarrow> int list" where
  "calculate nth_root difficulty world_state_bytes units provers =
     (let basis = pomw_basis nth_root difficulty world_state_bytes units in
      if world_state_bytes = 0 then map (\<lambda>_. 0) provers
      else map (\<lambda>allocs. fold (\<lambda>(_, alloc) total. total +
          allocation_ring_reward nth_root basis (uint (ra_state_size alloc)) (uint world_state_bytes)
            (ra_ring alloc) (ra_shards alloc)) allocs 0) provers)"

subsection \<open>Truncated roots\<close>

definition truncates :: "(nat \<Rightarrow> int \<Rightarrow> int) \<Rightarrow> bool" where
  "truncates nth_root \<longleftrightarrow>
     (\<forall>n x. 0 < n \<longrightarrow> 0 \<le> x \<longrightarrow>
        0 \<le> nth_root n x \<and> nth_root n x ^ n \<le> x \<and> x < (nth_root n x + 1) ^ n)"

lemma truncatesD:
  assumes "truncates r" "0 < n" "0 \<le> x"
  shows "0 \<le> r n x" "r n x ^ n \<le> x" "x < (r n x + 1) ^ n"
  using assms by (auto simp: truncates_def)

lemma root_at_least:
  assumes "truncates r" "0 < n" "0 \<le> y" "y ^ n \<le> x"
  shows "y \<le> r n x"
proof (rule ccontr)
  have x: "0 \<le> x" using assms(3,4) zero_le_power [OF assms(3), of n] by linarith
  note t = truncatesD [OF assms(1,2) x]
  assume "\<not> y \<le> r n x"
  then have "(r n x + 1) ^ n \<le> y ^ n" using t(1) by (intro power_mono) auto
  with t(3) assms(4) show False by linarith
qed

lemma root_mono: "truncates r \<Longrightarrow> 0 < n \<Longrightarrow> 0 \<le> x \<Longrightarrow> x \<le> y \<Longrightarrow> r n x \<le> r n y"
  by (rule root_at_least) (use truncatesD [of r n x] in auto)

text \<open>One such root, found bit by bit from the top.\<close>

fun root_bits :: "nat \<Rightarrow> int \<Rightarrow> nat \<Rightarrow> int \<Rightarrow> int" where
  "root_bits n x 0 acc = acc"
| "root_bits n x (Suc k) acc = root_bits n x k (if (acc + 2 ^ k) ^ n \<le> x then acc + 2 ^ k else acc)"

definition bit_root :: "nat \<Rightarrow> int \<Rightarrow> int" where
  "bit_root n x = root_bits n x (nat x + 1) 0"

lemma root_bits_spec:
  "0 \<le> acc \<Longrightarrow> acc ^ n \<le> x \<Longrightarrow> x < (acc + 2 ^ k) ^ n \<Longrightarrow>
   0 \<le> root_bits n x k acc \<and> root_bits n x k acc ^ n \<le> x \<and> x < (root_bits n x k acc + 1) ^ n"
proof (induction k arbitrary: acc)
  case (Suc k)
  have "acc + 2 ^ k + 2 ^ k = acc + 2 ^ Suc k" by simp
  with Suc.IH [of acc] Suc.IH [of "acc + 2 ^ k"] Suc.prems show ?case by (auto simp: not_le add.assoc)
qed simp

lemma bit_root_truncates: "truncates bit_root"
proof -
  have "x < (0 + 2 ^ (nat x + 1)) ^ n" if "0 < n" "0 \<le> x" for n :: nat and x :: int
  proof -
    have "x < int (2 ^ (nat x + 1))"
      using less_exp [of "nat x + 1"] that(2) by linarith
    also have "\<dots> = (2 ^ (nat x + 1)) ^ 1" by simp
    also have "\<dots> \<le> (2 ^ (nat x + 1)) ^ n"
      using that(1) by (intro power_increasing one_le_power) auto
    finally show ?thesis by simp
  qed
  then show ?thesis
    unfolding truncates_def bit_root_def by (intro allI impI root_bits_spec) (simp_all add: zero_power)
qed

subsection \<open>The basis falls as the world grows\<close>

lemma generations_bound: "unat d < 10000 ^ Suc n \<Longrightarrow> generations_from d k \<le> k + n"
proof (induction n arbitrary: d k)
  case 0
  then show ?case by (simp add: generations_from.simps [of d k] word_le_nat_alt)
next
  case (Suc n)
  then have "unat (d div 10000) < 10000 ^ Suc n"
    by (simp add: u64_div_10000 less_mult_imp_div_less mult.commute)
  with Suc.IH [of "d div 10000" "Suc k"] show ?case by (simp add: generations_from.simps [of d k])
qed

lemma pomw_generation_bound: "pomw_generation d \<le> 4"
  using generations_bound [of d 4 0] unat_u64_bound [of d] by (simp add: pomw_generation_def)

lemma u64_positive: "w \<noteq> 0 \<Longrightarrow> 0 < uint (w :: u64)"
  by (metis uint_0_iff unsigned_greater_eq order_le_less)

lemma quot_nonneg: "0 \<le> a \<Longrightarrow> 0 \<le> b \<Longrightarrow> 0 \<le> a div (b :: int)"
  by (cases "b = 0") (simp_all add: pos_imp_zdiv_nonneg_iff)

text \<open>What is rooted for a world of \<open>w\<close> bytes, and the basis in terms of it.\<close>

definition normalized :: "nat \<Rightarrow> u64 \<Rightarrow> int" where
  "normalized bits w = push_bit bits (uint POMW_NUMERATOR) div uint w"

lemma normalized_nonneg: "0 \<le> normalized bits w"
  by (simp add: normalized_def push_bit_eq_mult quot_nonneg)

lemma normalized_antimono: "w \<noteq> 0 \<Longrightarrow> w \<le> w' \<Longrightarrow> normalized bits w' \<le> normalized bits w"
  unfolding normalized_def
  by (intro zdiv_mono2) (auto simp: push_bit_eq_mult u64_positive word_le_def)

lemma pomw_basis_eq:
  "w \<noteq> 0 \<Longrightarrow> pomw_basis r difficulty w units =
    (if pomw_generation difficulty = 0 then normalized 0 w * uint units
     else r (2 ^ pomw_generation difficulty)
       (normalized (2 ^ pomw_generation difficulty * POMW_SCALE_BITS) w) * uint units div 2 ^ POMW_SCALE_BITS)"
  by (simp add: pomw_basis_def Let_def normalized_def drop_bit_eq_div push_bit_eq_mult)

lemma basis_nonneg:
  assumes "truncates r"
  shows "0 \<le> pomw_basis r difficulty w units"
proof (cases "w = 0")
  case True
  then show ?thesis by (simp add: pomw_basis_def)
next
  case False
  have "0 \<le> r n (normalized bits w)" if "0 < n" for n bits
    by (rule truncatesD(1) [OF assms that normalized_nonneg])
  then show ?thesis using normalized_nonneg by (simp add: pomw_basis_eq [OF False] quot_nonneg)
qed

lemma basis_antimono:
  assumes "truncates r" "w \<noteq> 0" "w \<le> w'"
  shows "pomw_basis r difficulty w' units \<le> pomw_basis r difficulty w units"
proof -
  have w': "w' \<noteq> 0" using assms by auto
  note le = normalized_antimono [OF assms(2,3)]
  have "r n (normalized bits w') \<le> r n (normalized bits w)" if "0 < n" for n bits
    by (rule root_mono [OF assms(1) that normalized_nonneg le])
  then show ?thesis
    using le by (simp add: pomw_basis_eq assms(2) w' mult_right_mono zdiv_mono1)
qed

lemma baseline_mono:
  assumes "truncates r" "unat w + unat b < 2 ^ 64" "a \<le> b"
  shows "get_baseline_fee r difficulty w a units \<le> get_baseline_fee r difficulty w b units"
    "uint b \<le> get_baseline_fee r difficulty w b units"
proof -
  let ?f = "\<lambda>w. pomw_basis r difficulty w units"
  show "uint b \<le> get_baseline_fee r difficulty w b units" by (simp add: get_baseline_fee_def Let_def)
  have ab: "uint a \<le> uint b" using assms(3) by (simp add: word_le_def)
  show "get_baseline_fee r difficulty w a units \<le> get_baseline_fee r difficulty w b units"
  proof (cases "w = 0")
    case True
    then show ?thesis using ab by (simp add: get_baseline_fee_def Let_def)
  next
    case False
    have order: "w \<le> w + a" "w + a \<le> w + b"
      using assms(2,3) by (simp_all add: word_le_nat_alt unat_add_no_wrap)
    then have "w + a \<noteq> 0" using False by auto
    then have "?f (w + b) \<le> ?f (w + a)" "?f (w + a) \<le> ?f w"
      using assms(1) order False by (auto intro!: basis_antimono)
    then have "(?f w - ?f (w + a)) * (?f w - ?f (w + a)) \<le> (?f w - ?f (w + b)) * (?f w - ?f (w + b))"
      by (intro mult_mono) auto
    then have "(?f w - ?f (w + a)) * (?f w - ?f (w + a)) div uint w
        \<le> (?f w - ?f (w + b)) * (?f w - ?f (w + b)) div uint w"
      by (intro zdiv_mono1) (simp_all add: u64_positive [OF False])
    then show ?thesis using ab False by (auto simp: get_baseline_fee_def Let_def)
  qed
qed

subsection \<open>What a payer is charged\<close>

lemma big_to_u64_uint [simp]: "big_to_u64 (uint w) = Some w"
  using uint_bounded [of w] by (simp add: big_to_u64_def)

lemma big_to_u64_Some: "big_to_u64 n = Some w \<longleftrightarrow> n = uint w"
  using big_to_u64_uint [of w]
  by (auto simp: big_to_u64_def uint_word_of_int take_bit_int_eq_self)

lemma checked_add_fits: "checked_add a b \<noteq> None \<longleftrightarrow> unat a + unat b < 2 ^ 64"
  using checked_add_Some [of a b "a + b"] by (auto simp: checked_add_def Let_def)

lemma ceiling_quot:
  assumes "0 < (c :: int)"
  shows "b \<le> (b + c - 1) div c * c" "(b + c - 1) div c * c \<le> b + c - 1"
proof -
  have "(b + c - 1) div c * c + (b + c - 1) mod c = b + c - 1" by (rule div_mult_mod_eq)
  moreover have "0 \<le> (b + c - 1) mod c" "(b + c - 1) mod c < c" using assms by simp_all
  ultimately show "b \<le> (b + c - 1) div c * c" "(b + c - 1) div c * c \<le> b + c - 1" by linarith+
qed

definition mainnet_price :: "(nat \<Rightarrow> int \<Rightarrow> int) \<Rightarrow> u64 \<Rightarrow> u64 \<Rightarrow> u64 \<Rightarrow> int" where
  "mainnet_price r difficulty w a =
     (get_baseline_fee r difficulty w a QUIL_TOKEN_UNITS + uint a - 1) div uint a"

lemma baseline_at_least: "uint a \<le> get_baseline_fee r difficulty w a units"
  by (simp add: get_baseline_fee_def Let_def)

lemma multiplier_mainnet:
  assumes "a \<noteq> 0" "unat w + unat a < 2 ^ 64"
  shows "fee_multiplier_for_cost r MAINNET_NETWORK difficulty w (uint a) vote =
    Ok (mainnet_price r difficulty w a * uint vote)"
proof -
  have "0 < uint a" by (rule u64_positive [OF assms(1)])
  with assms baseline_at_least [of a r difficulty w QUIL_TOKEN_UNITS] checked_add_fits [of w a] show ?thesis
    by (simp add: fee_multiplier_for_cost_def Let_def mainnet_price_def)
qed

lemma multiplier_elsewhere:
  "a \<noteq> (0 :: u64) \<Longrightarrow> unat w + unat a < 2 ^ 64 \<Longrightarrow> network \<noteq> MAINNET_NETWORK \<Longrightarrow>
   fee_multiplier_for_cost r network difficulty w (uint a) vote = Ok (uint vote)"
  using checked_add_fits [of w a] u64_positive [of a]
  by (simp add: fee_multiplier_for_cost_def NON_MAINNET_UNITS_PER_BYTE_def)

text \<open>C23. On mainnet the multiplier quoted for a cost is the exact ceiling of the baseline per unit of
  cost: charged back it covers the baseline at every vote, and a price one unit lower would not.
  The baseline itself is at least the bytes added. The quote is refused exactly when the cost is
  negative, does not fit a word, or would overflow the size of the world.\<close>

theorem fee_multiplier_tight:
  assumes "cost \<noteq> 0"
  shows "((\<exists>m. fee_multiplier_for_cost nth_root MAINNET_NETWORK difficulty world cost vote = Ok m) \<longleftrightarrow>
      0 < cost \<and> uint world + cost < 2 ^ 64) \<and>
    (\<forall>m. fee_multiplier_for_cost nth_root MAINNET_NETWORK difficulty world cost vote = Ok m \<longrightarrow>
      cost \<le> get_baseline_fee nth_root difficulty world (word_of_int cost) QUIL_TOKEN_UNITS \<and>
      uint vote * get_baseline_fee nth_root difficulty world (word_of_int cost) QUIL_TOKEN_UNITS \<le> m * cost \<and>
      (vote \<noteq> 0 \<longrightarrow> (m - uint vote) * cost <
        uint vote * get_baseline_fee nth_root difficulty world (word_of_int cost) QUIL_TOKEN_UNITS))"
proof (cases "big_to_u64 cost")
  case None
  then have "\<not> (0 < cost \<and> cost < 2 ^ 64)" by (auto simp: big_to_u64_def split: if_splits)
  then have "\<not> (0 < cost \<and> uint world + cost < 2 ^ 64)"
    using unsigned_greater_eq [of world, where 'a = int] by linarith
  with None assms show ?thesis by (simp add: fee_multiplier_for_cost_def)
next
  case (Some a)
  then have cost: "cost = uint a" by (simp add: big_to_u64_Some)
  then have nz: "a \<noteq> 0" using assms by auto
  note a = cost nz u64_positive [OF nz, folded cost]
  have "cost = int (unat a)" "word_of_int cost = a" by (simp_all add: cost)
  note a = a this
  have fits_iff: "uint world + cost < 2 ^ 64 \<longleftrightarrow> unat world + unat a < 2 ^ 64"
    using of_nat_less_iff [of "unat world + unat a" "2 ^ 64", where 'a = int]
    by (simp only: a(4) uint_nat of_nat_add of_nat_power of_nat_numeral)
  show ?thesis
  proof (cases "unat world + unat a < 2 ^ 64")
    case False
    then have "\<not> uint world + cost < 2 ^ 64" using fits_iff by blast
    with False Some a checked_add_fits [of world a] show ?thesis by (simp add: fee_multiplier_for_cost_def)
  next
    case True
    then have "uint world + cost < 2 ^ 64" by (simp only: fits_iff)
    define b where "b = get_baseline_fee nth_root difficulty world a QUIL_TOKEN_UNITS"
    define p where "p = mainnet_price nth_root difficulty world a"
    have p: "b \<le> p * cost" "p * cost \<le> b + cost - 1"
      unfolding p_def b_def mainnet_price_def a(1) by (rule ceiling_quot [OF u64_positive [OF a(2)]])+
    have "uint vote * b \<le> p * uint vote * cost"
      using mult_left_mono [OF p(1), of "uint vote"] by (simp add: ac_simps)
    moreover have "(p * uint vote - uint vote) * cost < uint vote * b" if "vote \<noteq> 0"
    proof -
      have "uint vote * (p * cost - cost) < uint vote * b"
        using p(2) u64_positive [OF that] by (intro mult_strict_left_mono) auto
      then show ?thesis by (simp add: algebra_simps)
    qed
    moreover have "cost \<le> b" unfolding b_def a(1) by (rule baseline_at_least)
    moreover note multiplier_mainnet [OF a(2) True, of nth_root difficulty vote]
    ultimately show ?thesis
      using \<open>uint world + cost < 2 ^ 64\<close> a(3,5) by (simp add: a(1) [symmetric] b_def p_def)
  qed
qed

text \<open>The budget quoted for a payload limit covers what is charged for every cost up to that limit at the
  same difficulty, world size and vote, on every network, and those quotes are never
  refused. The charge is the multiplier times the cost.\<close>

theorem fee_budget_covers_every_cost:
  assumes "truncates nth_root"
    and "fee_budget_for_payload_limit nth_root network difficulty world payload_limit vote = Ok budget"
    and "0 < cost" "cost \<le> uint payload_limit"
  shows "\<exists>m. fee_multiplier_for_cost nth_root network difficulty world cost vote = Ok m \<and> m * cost \<le> budget"
proof -
  define a where "a = (word_of_int cost :: u64)"
  have "uint payload_limit < 2 ^ 64" using uint_bounded [of payload_limit] by simp
  then have a: "cost = uint a" using assms(3,4) by (simp add: a_def uint_word_of_int take_bit_int_eq_self)
  then have nz: "a \<noteq> 0" "payload_limit \<noteq> 0" and le: "a \<le> payload_limit"
    using assms(3,4) by (auto simp: word_le_def)
  have fits: "unat world + unat payload_limit < 2 ^ 64"
    using assms(2) nz(2) checked_add_fits [of world payload_limit]
    by (auto simp: fee_budget_for_payload_limit_def split: if_splits)
  then have fits': "unat world + unat a < 2 ^ 64" using le by (simp add: word_le_nat_alt)
  show ?thesis
  proof (cases "network = MAINNET_NETWORK")
    case False
    then have "budget = uint payload_limit * uint vote"
      using assms(2) nz(2) checked_add_fits [of world payload_limit] fits
      by (simp add: fee_budget_for_payload_limit_def NON_MAINNET_UNITS_PER_BYTE_def split: if_splits)
    then show ?thesis
      using multiplier_elsewhere [OF nz(1) fits' False] assms(4) unfolding a
      by (simp add: mult.commute mult_right_mono)
  next
    case True
    let ?b = "\<lambda>a. get_baseline_fee nth_root difficulty world a QUIL_TOKEN_UNITS"
    have one: "uint (payload_limit - 1) = uint payload_limit - 1"
      using nz(2) u64_positive [of payload_limit] by (simp add: uint_sub_if')
    have budget: "budget = (?b payload_limit + uint payload_limit - 1) * uint vote"
      using assms(2) nz(2) checked_add_fits [of world payload_limit] fits True
      by (simp add: fee_budget_for_payload_limit_def Let_def one add_diff_eq split: if_splits)
    have "mainnet_price nth_root difficulty world a * cost \<le> ?b a + cost - 1"
      unfolding mainnet_price_def a by (rule ceiling_quot [OF u64_positive [OF nz(1)]])
    also have "\<dots> \<le> ?b payload_limit + uint payload_limit - 1"
      using baseline_mono(1) [OF assms(1) fits le, of difficulty QUIL_TOKEN_UNITS] assms(4) by simp
    finally have "mainnet_price nth_root difficulty world a * cost * uint vote \<le> budget"
      unfolding budget by (rule mult_right_mono) simp
    then have "mainnet_price nth_root difficulty world a * uint vote * cost \<le> budget"
      by (simp only: mult.assoc mult.commute [of cost])
    then show ?thesis
      using multiplier_mainnet [OF nz(1) fits', of nth_root difficulty vote] unfolding a True by blast
  qed
qed


subsection \<open>What issuance pays\<close>

lemma uint_one_shifted: "n < 64 \<Longrightarrow> uint (push_bit n 1 :: u64) = 2 ^ n"
  unfolding unsigned_push_bit_eq by (simp add: take_bit_push_bit take_bit_of_1 push_bit_eq_mult)

lemma divisor_eq:
  assumes "ring \<le> 62"
  shows "uint (push_bit (unat (min ring 62) + 1) 1 :: u64) = 2 ^ (unat (ring :: u8) + 1)"
proof -
  have "unat ring \<le> 62" "min ring 62 = ring" using assms by (simp_all add: word_le_nat_alt min_def)
  then show ?thesis using uint_one_shifted [of "unat ring + 1"] by simp
qed

lemma ring_reward_bound:
  assumes "truncates r" "0 \<le> basis" "0 \<le> sz" "ring \<le> 62"
  shows "0 \<le> allocation_ring_reward r basis sz world ring shards"
    "allocation_ring_reward r basis sz world ring shards * world * 2 ^ (unat ring + 1) \<le> sz * basis"
proof -
  let ?q = "allocation_ring_reward r basis sz world ring shards"
  have "0 \<le> ?q \<and> ?q * world * 2 ^ (unat ring + 1) \<le> sz * basis"
  proof (cases "basis \<le> 0 \<or> sz \<le> 0 \<or> world \<le> 0 \<or> shards = 0")
    case True
    then show ?thesis using assms(2,3) by (auto simp: allocation_ring_reward_def)
  next
    case False
    define s where "s = r 2 (push_bit (2 * POMW_SCALE_BITS) (uint shards))"
    define d where "d = world * 2 ^ (unat ring + 1)"
    have "(2 ^ 53) ^ 2 \<le> push_bit (2 * POMW_SCALE_BITS) (uint shards)"
      using u64_positive [of shards] False by (simp add: push_bit_eq_mult POMW_SCALE_BITS_def)
    then have s: "2 ^ 53 \<le> s" unfolding s_def by (intro root_at_least [OF assms(1)]) auto
    have d: "0 < d" using False by (simp add: d_def)
    have q: "?q = sz * basis * 2 ^ 53 div (d * s)"
      using False s d unfolding allocation_ring_reward_def Let_def divisor_eq [OF assms(4)] s_def [symmetric]
      by (simp add: d_def push_bit_eq_mult POMW_SCALE_BITS_def)
    have nonneg: "0 \<le> ?q" unfolding q using s d False by (intro quot_nonneg) auto
    have "?q * d * 2 ^ 53 \<le> ?q * d * s" using s d nonneg by (intro mult_left_mono) auto
    also have "\<dots> = ?q * (d * s)" by simp
    also have "\<dots> \<le> sz * basis * 2 ^ 53"
      unfolding q using s d by (simp add: minus_mod_eq_div_mult [symmetric])
    finally have "?q * d \<le> sz * basis" by simp
    with nonneg show ?thesis by (simp only: d_def mult.assoc simp_thms)
  qed
  then show "0 \<le> ?q" "?q * world * 2 ^ (unat ring + 1) \<le> sz * basis" by simp_all
qed

lemma fold_plus: "fold (\<lambda>x acc. acc + f x) xs (a :: int) = a + sum_list (map f xs)"
  by (induction xs arbitrary: a) simp_all

definition alloc_reward :: "(nat \<Rightarrow> int \<Rightarrow> int) \<Rightarrow> int \<Rightarrow> u64 \<Rightarrow> string \<times> reward_allocation \<Rightarrow> int" where
  "alloc_reward r basis world entry =
     allocation_ring_reward r basis (uint (ra_state_size (snd entry))) (uint world)
       (ra_ring (snd entry)) (ra_shards (snd entry))"

lemma calculate_sum:
  "world \<noteq> 0 \<Longrightarrow> sum_list (calculate r difficulty world units provers) =
     sum_list (map (alloc_reward r (pomw_basis r difficulty world units) world) (concat provers))"
  by (induction provers)
    (simp_all add: calculate_def Let_def case_prod_unfold fold_plus alloc_reward_def [abs_def])

lemma geometric: "(\<Sum>r \<le> n. 2 ^ (n - r) :: int) = 2 ^ (n + 1) - 1"
proof (induction n)
  case (Suc n)
  have "(\<Sum>r \<le> n. 2 ^ (Suc n - r) :: int) = (\<Sum>r \<le> n. 2 * 2 ^ (n - r))"
    by (rule sum.cong) (auto simp: Suc_diff_le)
  with Suc show ?case by (simp add: sum_distrib_left [symmetric])
qed simp

lemma sum_list_by_count:
  "finite A \<Longrightarrow> set xs \<subseteq> A \<Longrightarrow> sum_list (map f xs) = (\<Sum>x \<in> A. int (count_list xs x) * f x)"
proof (induction xs)
  case (Cons a xs)
  have "(\<Sum>x \<in> A. int (count_list (a # xs) x) * f x) =
      (\<Sum>x \<in> A. int (count_list xs x) * f x + (if a = x then f x else 0))"
    by (rule sum.cong) (auto simp: algebra_simps)
  with Cons show ?case by (simp add: sum.distrib)
qed simp

lemma sum_by_ring:
  assumes "\<And>x. x \<in> set xs \<Longrightarrow> snd x \<le> (62 :: nat)" "\<And>x. count_list xs x \<le> 8"
    and "\<And>k. k \<in> K \<Longrightarrow> 0 \<le> (sz k :: int)" "fst ` set xs \<subseteq> K" "finite K"
  shows "sum_list (map (\<lambda>x. sz (fst x) * 2 ^ (62 - snd x)) xs) \<le> 8 * 2 ^ 63 * sum sz K"
proof -
  let ?w = "\<lambda>x. sz (fst x) * 2 ^ (62 - snd x) :: int"
  have "sum_list (map ?w xs) = (\<Sum>x \<in> K \<times> {..62}. int (count_list xs x) * ?w x)"
    using assms(1,4,5) by (intro sum_list_by_count) force+
  also have "\<dots> \<le> (\<Sum>x \<in> K \<times> {..62}. 8 * ?w x)"
  proof (intro sum_mono mult_right_mono)
    fix x assume "x \<in> K \<times> {..62 :: nat}"
    then show "0 \<le> ?w x" using assms(3) by auto
    show "int (count_list xs x) \<le> 8" using assms(2) [of x] by simp
  qed
  also have "\<dots> = (\<Sum>k \<in> K. \<Sum>r \<le> 62. 8 * (sz k * 2 ^ (62 - r)))"
    by (simp add: sum.cartesian_product case_prod_unfold)
  also have "\<dots> = (\<Sum>k \<in> K. 8 * sz k * (\<Sum>r \<le> 62. 2 ^ (62 - r)))"
    by (simp only: sum_distrib_left mult.assoc)
  also have "\<dots> = 8 * (2 ^ 63 - 1) * sum sz K"
    unfolding geometric by (simp add: sum_distrib_left)
  also have "\<dots> \<le> 8 * 2 ^ 63 * sum sz K"
    using assms(3) by (intro mult_right_mono sum_nonneg) auto
  finally show ?thesis .
qed


lemma alloc_reward_weight:
  assumes "truncates r" "0 \<le> basis" "ra_ring alloc \<le> 62"
  shows "0 \<le> alloc_reward r basis world (shard, alloc)"
    "alloc_reward r basis world (shard, alloc) * (uint world * 2 ^ 63)
      \<le> basis * (uint (ra_state_size alloc) * 2 ^ (62 - unat (ra_ring alloc)))"
proof -
  let ?q = "alloc_reward r basis world (shard, alloc)" and ?ring = "unat (ra_ring alloc)"
  have "?ring \<le> 62" using assms(3) by (simp add: word_le_nat_alt)
  then have "63 = ?ring + 1 + (62 - ?ring)" by simp
  then have split: "(2 :: int) ^ 63 = 2 ^ (?ring + 1) * 2 ^ (62 - ?ring)" by (metis power_add)
  note b = ring_reward_bound [OF assms(1,2) unsigned_greater_eq assms(3)]
  show "0 \<le> ?q" using b(1) by (simp add: alloc_reward_def)
  have "?q * uint world * 2 ^ (?ring + 1) * 2 ^ (62 - ?ring)
      \<le> uint (ra_state_size alloc) * basis * 2 ^ (62 - ?ring)"
    using b(2) [of "ra_state_size alloc" "uint world" "ra_shards alloc"]
    by (intro mult_right_mono) (simp_all add: alloc_reward_def)
  then show "?q * (uint world * 2 ^ 63) \<le> basis * (uint (ra_state_size alloc) * 2 ^ (62 - ?ring))"
    unfolding split by (simp add: mult_ac)
qed

text \<open>C24. Issuance never pays out more than the basis. Take any set of provers whose allocations report the size
  their shard has, where no ring of a shard holds more than eight of them and no ring is above 62, and
  shards that together are no larger than the world: then the rewards issued at a frame, of
  which each prover gets an eighth, sum to at most eight times the basis, and none is negative. The
  number of data shards of an allocation can be anything.\<close>

theorem issuance_within_basis:
  assumes "truncates nth_root"
    and "\<forall>(shard, alloc) \<in> set (concat provers).
      shard \<in> shards \<and> ra_state_size alloc = state_size shard \<and> ra_ring alloc \<le> 62"
    and "\<forall>x. count_list (map (\<lambda>(shard, alloc). (shard, unat (ra_ring alloc))) (concat provers)) x \<le> 8"
    and "finite shards" "(\<Sum>shard \<in> shards. uint (state_size shard)) \<le> uint world"
  shows "sum_list (calculate nth_root difficulty world units provers)
      \<le> 8 * pomw_basis nth_root difficulty world units \<and>
    list_all (\<lambda>reward. 0 \<le> reward) (calculate nth_root difficulty world units provers)"
proof (cases "world = 0")
  case True
  then show ?thesis
    by (simp add: calculate_def list_all_iff pomw_basis_def sum_list_0 map_replicate_const [symmetric])
next
  case False
  let ?basis = "pomw_basis nth_root difficulty world units" and ?all = "concat provers"
  let ?q = "alloc_reward nth_root ?basis world"
  let ?place = "\<lambda>(shard, alloc). (shard, unat (ra_ring alloc))"
  let ?weight = "\<lambda>x. uint (state_size (fst x)) * 2 ^ (62 - snd x) :: int"
  have basis: "0 \<le> ?basis" by (rule basis_nonneg [OF assms(1)])
  have each: "fst x \<in> shards \<and> ra_state_size (snd x) = state_size (fst x) \<and> ra_ring (snd x) \<le> 62"
    if "x \<in> set ?all" for x
    using bspec [OF assms(2) that] by (simp add: case_prod_unfold)
  have entry: "0 \<le> ?q x \<and> ?q x * (uint world * 2 ^ 63) \<le> ?basis * ?weight (?place x)"
    if "x \<in> set ?all" for x
    using alloc_reward_weight [OF assms(1) basis, of "snd x" world "fst x"] each [OF that]
    by (simp add: case_prod_unfold)
  have "sum_list (map ?q ?all) * (uint world * 2 ^ 63) = sum_list (map (\<lambda>x. ?q x * (uint world * 2 ^ 63)) ?all)"
    by (simp add: sum_list_mult_const)
  also have "\<dots> \<le> sum_list (map (\<lambda>x. ?basis * ?weight (?place x)) ?all)"
    using entry by (intro sum_list_mono) blast
  also have "\<dots> = ?basis * sum_list (map ?weight (map ?place ?all))"
    by (simp add: sum_list_const_mult comp_def)
  also have "\<dots> \<le> ?basis * (8 * 2 ^ 63 * (\<Sum>shard \<in> shards. uint (state_size shard)))"
  proof (intro mult_left_mono [OF _ basis] sum_by_ring)
    fix x assume "x \<in> set (map ?place ?all)"
    then obtain y where y: "y \<in> set ?all" "x = ?place y" by auto
    show "snd x \<le> 62" using each [OF y(1)] by (simp add: y(2) case_prod_unfold word_le_nat_alt)
  next
    show "fst ` set (map ?place ?all) \<subseteq> shards" using each by (fastforce simp: case_prod_unfold)
  qed (use assms(3,4) in auto)
  also have "\<dots> \<le> ?basis * (8 * 2 ^ 63 * uint world)"
    using assms(5) by (intro mult_left_mono basis) auto
  finally have "sum_list (map ?q ?all) * (uint world * 2 ^ 63) \<le> 8 * ?basis * (uint world * 2 ^ 63)"
    by (simp add: mult_ac)
  then have "sum_list (map ?q ?all) \<le> 8 * ?basis"
    using u64_positive [OF False] by (simp del: map_concat)
  moreover have "0 \<le> fold (\<lambda>x t. t + ?q x) allocs 0" if "allocs \<in> set provers" for allocs
    using that entry unfolding fold_plus by (intro add_nonneg_nonneg sum_list_nonneg) auto
  ultimately show ?thesis
    unfolding calculate_sum [OF False]
    by (auto simp: calculate_def Let_def False list_all_iff alloc_reward_def case_prod_unfold)
qed

lemma fee_multiplier_tight_witness:
  "\<exists>m. fee_multiplier_for_cost bit_root MAINNET_NETWORK 5000 1048576 3 7 = Ok m \<and>
     7 * get_baseline_fee bit_root 5000 1048576 3 QUIL_TOKEN_UNITS \<le> m * 3 \<and>
     (m - 7) * 3 < 7 * get_baseline_fee bit_root 5000 1048576 3 QUIL_TOKEN_UNITS"
  using fee_multiplier_tight [of 3 bit_root 5000 1048576 7] by auto

lemma fee_budget_covers_every_cost_witness:
  "\<exists>budget m. fee_budget_for_payload_limit bit_root MAINNET_NETWORK 50000 1048576 128 3 = Ok budget \<and>
     fee_multiplier_for_cost bit_root MAINNET_NETWORK 50000 1048576 100 3 = Ok m \<and> m * 100 \<le> budget"
proof -
  obtain budget where budget: "fee_budget_for_payload_limit bit_root MAINNET_NETWORK 50000 1048576 128 3 = Ok budget"
    using checked_add_fits [of 1048576 128] by (auto simp: fee_budget_for_payload_limit_def Let_def)
  with fee_budget_covers_every_cost [OF bit_root_truncates this, of 100] show ?thesis by auto
qed

lemma issuance_within_basis_witness:
  "sum_list (calculate bit_root 50000 1000 1000000
     [[(''a'', \<lparr>ra_ring = 0, ra_shards = 2, ra_state_size = 600\<rparr>), (''b'', \<lparr>ra_ring = 1, ra_shards = 1, ra_state_size = 400\<rparr>)],
      [(''a'', \<lparr>ra_ring = 0, ra_shards = 2, ra_state_size = 600\<rparr>)]])
   \<le> 8 * pomw_basis bit_root 50000 1000 1000000"
proof -
  let ?provers = "[[(''a'', \<lparr>ra_ring = 0, ra_shards = 2, ra_state_size = 600\<rparr>), (''b'', \<lparr>ra_ring = 1, ra_shards = 1, ra_state_size = 400\<rparr>)],
      [(''a'', \<lparr>ra_ring = 0, ra_shards = 2, ra_state_size = 600\<rparr>)]]"
  let ?size = "\<lambda>shard. if shard = ''a'' then 600 else 400 :: u64"
  show ?thesis
    using issuance_within_basis [OF bit_root_truncates, of ?provers "{''a'', ''b''}" ?size 1000 50000 1000000]
    by simp
qed

end
