(* ===== verification/Ring_Rank.thy ===== *)
theory Ring_Rank
  imports Prelude "HOL-Library.Product_Lexorder" "HOL-Library.List_Lexorder" "HOL-Library.Multiset"
begin

text \<open>
  Reward rings (\<^verbatim>\<open>quil-execution/src/global_intrinsic/prover_rings.rs\<close>): the members of a shard rank by
  cohort, then seniority, then address, eight to a ring; a split deals its provers in groups
  of falling seniority. \<^verbatim>\<open>slice::sort_by\<close> is a stable sort by a comparison.
\<close>

subsection \<open>Comparisons and sorting of the standard library\<close>

datatype ordering = Less | Equal | Greater

definition cmp :: "'a :: linorder \<Rightarrow> 'a \<Rightarrow> ordering" where
  "cmp x y = (if x < y then Less else if x = y then Equal else Greater)"

fun then_cmp :: "ordering \<Rightarrow> ordering \<Rightarrow> ordering" where
  "then_cmp Equal o2 = o2"
| "then_cmp o1 _ = o1"

fun insert_by :: "('a \<Rightarrow> 'a \<Rightarrow> ordering) \<Rightarrow> 'a \<Rightarrow> 'a list \<Rightarrow> 'a list" where
  "insert_by c x [] = [x]"
| "insert_by c x (y # ys) = (if c x y = Greater then y # insert_by c x ys else x # y # ys)"

definition sort_by :: "('a \<Rightarrow> 'a \<Rightarrow> ordering) \<Rightarrow> 'a list \<Rightarrow> 'a list" where
  "sort_by c xs = foldr (insert_by c) xs []"

subsection \<open>Ranking\<close>

record ring_key =
  cohort :: u64
  ring_seniority :: u64

definition RING_GROUP_SIZE :: u64 where "RING_GROUP_SIZE = 8"

definition rank :: "bytes \<times> ring_key \<Rightarrow> bytes \<times> ring_key \<Rightarrow> bool \<Rightarrow> ordering" where
  "rank a b one_cohort =
     then_cmp (then_cmp (if one_cohort then Equal else cmp (cohort (snd a)) (cohort (snd b)))
       (cmp (ring_seniority (snd b)) (ring_seniority (snd a)))) (cmp (fst a) (fst b))"

definition ring_at :: "nat \<Rightarrow> u8" where
  "ring_at pos =
     (let r = unat ((of_nat pos :: u64) div RING_GROUP_SIZE) in if r < 256 then of_nat r else 255)"

definition ring_order :: "(bytes \<times> ring_key) list \<Rightarrow> bool \<Rightarrow> nat list" where
  "ring_order members one_cohort =
     sort_by (\<lambda>a b. rank (members ! a) (members ! b) one_cohort) [0..<length members]"

definition assign :: "(bytes \<times> ring_key) list \<Rightarrow> bool \<Rightarrow> u8 list" where
  "assign members one_cohort =
     fold (\<lambda>(pos, index) rings. rings[index := ring_at pos])
       (enumerate 0 (ring_order members one_cohort)) (replicate (length members) 0)"

definition children_by_value :: "bytes list \<Rightarrow> (bytes \<Rightarrow> nat) \<Rightarrow> nat list" where
  "children_by_value children size_of =
     (let sizes = map size_of children in
      sort_by (\<lambda>a b. then_cmp (cmp (sizes ! b) (sizes ! a)) (cmp (children ! a) (children ! b)))
        [0..<length children])"

fun take_groups :: "nat list \<Rightarrow> 'a list \<Rightarrow> 'a list list" where
  "take_groups [] xs = []"
| "take_groups (n # ns) xs = take n xs # take_groups ns (drop n xs)"

definition split_groups :: "('a \<times> bytes \<times> ring_key) list \<Rightarrow> nat \<Rightarrow> 'a list list result" where
  "split_groups provers k =
     (if k = 0 then Err InvalidArgument
      else
        let sorted_provers = sort_by (\<lambda>a b. rank (snd a) (snd b) True) provers;
            base = length sorted_provers div k;
            extra = length sorted_provers mod k in
        Ok (map (map fst) (take_groups (map (\<lambda>group. base + (if group < extra then 1 else 0)) [0..<k])
          sorted_provers)))"

subsection \<open>Sorting by a comparison is sorting by a key\<close>

lemma cmp_simps [simp]:
  "cmp x y = Less \<longleftrightarrow> x < y" "cmp x y = Equal \<longleftrightarrow> x = y" "cmp x y = Greater \<longleftrightarrow> y < x"
  by (auto simp: cmp_def)

lemma then_cmp_simps [simp]:
  "then_cmp a b = Less \<longleftrightarrow> a = Less \<or> a = Equal \<and> b = Less"
  "then_cmp a b = Equal \<longleftrightarrow> a = Equal \<and> b = Equal"
  "then_cmp a b = Greater \<longleftrightarrow> a = Greater \<or> a = Equal \<and> b = Greater"
  by (cases a; simp)+

lemma insert_by_key:
  "(\<And>y. y \<in> set ys \<Longrightarrow> c x y = Greater \<longleftrightarrow> k y < (k x :: 'k :: linorder)) \<Longrightarrow>
   insert_by c x ys = insort_key k x ys"
  by (induction ys) (auto simp: not_less)

lemma sort_by_key:
  fixes k :: "'a \<Rightarrow> 'k :: linorder"
  assumes "\<And>x y. x \<in> set xs \<Longrightarrow> y \<in> set xs \<Longrightarrow> c x y = Greater \<longleftrightarrow> k y < k x"
  shows "sort_by c xs = sort_key k xs"
  using assms
proof (induction xs)
  case (Cons x xs)
  then have "sort_by c xs = sort_key k xs" by simp
  then have "foldr (insert_by c) xs [] = sort_key k xs" by (simp add: sort_by_def)
  moreover have "insert_by c x (sort_key k xs) = insort_key k x (sort_key k xs)"
    by (rule insert_by_key) (use Cons.prems in auto)
  ultimately show ?case by (simp add: sort_by_def)
qed (simp add: sort_by_def)

text \<open>The key of a member: cohort up, seniority down, address up.\<close>

definition ring_rank :: "bool \<Rightarrow> bytes \<times> ring_key \<Rightarrow> u64 \<times> int \<times> bytes" where
  "ring_rank one_cohort m =
     (if one_cohort then 0 else cohort (snd m), - uint (ring_seniority (snd m)), fst m)"

lemma rank_key:
  "rank a b oc = Greater \<longleftrightarrow> ring_rank oc b < ring_rank oc a"
  "rank a b oc = Less \<longleftrightarrow> ring_rank oc a < ring_rank oc b"
  by (auto simp: rank_def ring_rank_def word_less_def [symmetric] word_le_def [symmetric])

lemma ring_order_key: "ring_order ms oc = sort_key (\<lambda>i. ring_rank oc (ms ! i)) [0..<length ms]"
  unfolding ring_order_def by (rule sort_by_key) (rule rank_key)

lemma ring_order_perm:
  "length (ring_order ms oc) = length ms" "distinct (ring_order ms oc)"
  "set (ring_order ms oc) = {..<length ms}"
  by (auto simp: ring_order_key)

subsection \<open>Assigned rings\<close>

lemma fold_updates_length: "length (fold (\<lambda>(p, i) r. r[i := f p]) ps r) = length r"
  by (induction ps arbitrary: r) auto

lemma fold_updates_other:
  "i \<notin> snd ` set ps \<Longrightarrow> fold (\<lambda>(p, i) r. r[i := f p]) ps r ! i = r ! i"
  by (induction ps arbitrary: r) force+

lemma fold_updates_nth:
  "distinct (map snd ps) \<Longrightarrow> (p, i) \<in> set ps \<Longrightarrow> i < length r \<Longrightarrow>
   fold (\<lambda>(p, i) r. r[i := f p]) ps r ! i = f p"
proof (induction ps arbitrary: r)
  case (Cons x ps)
  obtain q j where x: "x = (q, j)" by (cases x)
  show ?case
  proof (cases "(p, i) = x")
    case True
    with Cons.prems x have "i \<notin> snd ` set ps" by auto
    with True Cons.prems x show ?thesis by (simp add: fold_updates_other)
  next
    case False
    with Cons.prems x have "(p, i) \<in> set ps" "distinct (map snd ps)" by auto
    with Cons.IH [of "r[j := f q]"] Cons.prems show ?thesis by (simp add: x)
  qed
qed simp

lemma length_assign [simp]: "length (assign ms oc) = length ms"
  unfolding assign_def fold_updates_length by simp

lemma assign_at:
  assumes "p < length ms"
  shows "assign ms oc ! (ring_order ms oc ! p) = ring_at p"
proof -
  have "(p, ring_order ms oc ! p) \<in> set (enumerate 0 (ring_order ms oc))"
    using assms by (simp add: in_set_enumerate_eq ring_order_perm)
  moreover have "ring_order ms oc ! p < length ms"
    using assms ring_order_perm [of ms oc] by (metis lessThan_iff nth_mem)
  ultimately show ?thesis
    unfolding assign_def by (intro fold_updates_nth) (simp_all add: ring_order_perm)
qed

lemma ring_at_eq: "p < 18446744073709551616 \<Longrightarrow> ring_at p = (if p div 8 < 256 then of_nat (p div 8) else 255)"
  by (simp add: ring_at_def RING_GROUP_SIZE_def Let_def unat_div unat_of_nat)

text \<open>The members that rank before another, and the place they give it.\<close>

definition ahead :: "bool \<Rightarrow> (bytes \<times> ring_key) list \<Rightarrow> bytes \<times> ring_key \<Rightarrow> (bytes \<times> ring_key) set" where
  "ahead oc ms m = {x \<in> set ms. rank x m oc = Less}"

lemma ring_rank_inj: "distinct (map fst ms) \<Longrightarrow> inj_on (\<lambda>i. ring_rank oc (ms ! i)) {..<length ms}"
  by (auto simp: inj_on_def ring_rank_def distinct_conv_nth)

lemma ring_order_strict:
  assumes "distinct (map fst ms)" "p < length ms" "q < length ms"
  shows "rank (ms ! (ring_order ms oc ! p)) (ms ! (ring_order ms oc ! q)) oc = Less \<longleftrightarrow> p < q"
proof -
  let ?K = "\<lambda>i. ring_rank oc (ms ! i)" and ?o = "ring_order ms oc"
  have "sorted (map ?K ?o)" by (simp add: ring_order_key)
  moreover have "distinct (map ?K ?o)"
    using ring_rank_inj [OF assms(1)] by (simp add: distinct_map ring_order_perm)
  ultimately have strict: "sorted_wrt (<) (map ?K ?o)" by (simp add: strict_sorted_iff)
  have less: "?K (?o ! a) < ?K (?o ! b)" if "a < b" "b < length ms" for a b
    using sorted_wrt_nth_less [OF strict that(1)] that by (simp add: ring_order_perm)
  have "?K (?o ! p) < ?K (?o ! q) \<longleftrightarrow> p < q"
    using less [of p q] less [of q p] assms(2,3) by (cases p q rule: linorder_cases) auto
  then show ?thesis by (simp add: rank_key(2))
qed

lemma ahead_position:
  assumes "distinct (map fst ms)" "p < length ms"
  shows "card (ahead oc ms (ms ! (ring_order ms oc ! p))) = p"
proof -
  let ?o = "ring_order ms oc" and ?at = "\<lambda>q. ms ! (ring_order ms oc ! q)"
  have place: "?o ! q < length ms" if "q < length ms" for q
    using that ring_order_perm [of ms oc] by (metis lessThan_iff nth_mem)
  have "set ms = ?at ` {..<length ms}"
  proof -
    have "set ms = (!) ms ` set ?o" unfolding ring_order_perm(3) by (auto simp: set_conv_nth)
    also have "set ?o = (!) ?o ` {..<length ms}" by (auto simp: set_conv_nth ring_order_perm(1))
    finally show ?thesis by (simp add: image_image)
  qed
  then have "ahead oc ms (?at p) = ?at ` {..<p}"
    using assms by (auto simp: ahead_def ring_order_strict)
  moreover have "inj_on ?at {..<p}"
  proof (rule inj_onI)
    fix a b assume ab: "a \<in> {..<p}" "b \<in> {..<p}" "?at a = ?at b"
    then have "?o ! a = ?o ! b"
      using assms place distinct_map [of fst ms] by (auto simp: nth_eq_iff_index_eq)
    then show "a = b" using ab assms(2) ring_order_perm [of ms oc] by (simp add: nth_eq_iff_index_eq)
  qed
  ultimately show ?thesis by (simp add: card_image)
qed

lemma assign_ahead:
  assumes "distinct (map fst ms)" "i < length ms"
  shows "assign ms oc ! i = ring_at (card (ahead oc ms (ms ! i)))" "card (ahead oc ms (ms ! i)) < length ms"
proof -
  obtain p where "p < length ms" "ring_order ms oc ! p = i"
    using assms(2) ring_order_perm [of ms oc] by (metis in_set_conv_nth lessThan_iff)
  then show "assign ms oc ! i = ring_at (card (ahead oc ms (ms ! i)))"
    "card (ahead oc ms (ms ! i)) < length ms"
    using assign_at [of p ms oc] ahead_position [OF assms(1), of p oc] by auto
qed

lemma ring_at_mono:
  assumes "p \<le> q" "q < 18446744073709551616"
  shows "ring_at p \<le> ring_at q"
  using assms by (auto simp: ring_at_eq word_le_nat_alt unat_of_nat div_le_mono)

text \<open>C25. A member keeps its place against everyone who comes later. Whatever members leave between two
  committees of a shard and whatever members of later cohorts join, the ring of a member that is in
  both is never farther out in the second, and it is the same when nobody left.\<close>

theorem ring_never_worsens:
  assumes "distinct (map fst old)" "distinct (map fst new)" "length old < 2 ^ 64"
    and "\<forall>x \<in> set new - set old. \<forall>y \<in> set old. cohort (snd y) < cohort (snd x)"
    and "i < length old" "j < length new" "new ! j = old ! i"
  shows "assign new False ! j \<le> assign old False ! i \<and>
    (set old \<subseteq> set new \<longrightarrow> assign new False ! j = assign old False ! i)"
proof -
  let ?m = "old ! i"
  have late: "rank x ?m False \<noteq> Less" if "x \<in> set new" "x \<notin> set old" for x
  proof -
    have "cohort (snd ?m) < cohort (snd x)" using assms(4) that nth_mem [OF assms(5)] by blast
    then show ?thesis by (auto simp: rank_def)
  qed
  then have sub: "ahead False new ?m \<subseteq> ahead False old ?m" by (auto simp: ahead_def)
  have "finite (ahead False old ?m)" by (simp add: ahead_def)
  then have "card (ahead False new ?m) \<le> card (ahead False old ?m)" using sub by (rule card_mono)
  moreover have "ahead False new ?m = ahead False old ?m" if "set old \<subseteq> set new"
    using sub that by (auto simp: ahead_def)
  moreover note a = assign_ahead [OF assms(1,5), of False] assign_ahead [OF assms(2,6), of False, unfolded assms(7)]
  ultimately show ?thesis using assms(3) by (auto intro!: ring_at_mono)
qed

lemma ring_never_worsens_witness:
  "let old = [([1], \<lparr>cohort = 5, ring_seniority = 10\<rparr>), ([2], \<lparr>cohort = 5, ring_seniority = 20\<rparr>)];
       new = [([3], \<lparr>cohort = 6, ring_seniority = 99\<rparr>), ([1], \<lparr>cohort = 5, ring_seniority = 10\<rparr>)] in
   assign new False ! 1 \<le> assign old False ! 0"
proof -
  let ?old = "[([1], \<lparr>cohort = 5, ring_seniority = 10\<rparr>), ([2], \<lparr>cohort = 5, ring_seniority = 20\<rparr>)]"
    and ?new = "[([3], \<lparr>cohort = 6, ring_seniority = 99\<rparr>), ([1], \<lparr>cohort = 5, ring_seniority = 10\<rparr>)]"
  have "\<forall>x \<in> set ?new - set ?old. \<forall>y \<in> set ?old. cohort (snd y) < cohort (snd x)" by auto
  from ring_never_worsens [OF _ _ _ this, of 0 1] show ?thesis by (simp add: Let_def)
qed

text \<open>Rings fill up from the inside: of the first 255 rings each holds exactly eight members, except the
  last one in use, which holds the rest, and the ones beyond it, which hold none. So no ring below the last
  numbered one has more than eight members, whatever their keys.\<close>

theorem rings_hold_eight:
  assumes "length members < 2 ^ 64" "r < 255"
  shows "card {i. i < length members \<and> unat (assign members one_cohort ! i) = r} = min 8 (length members - 8 * r)"
proof -
  let ?n = "length members" and ?o = "ring_order members one_cohort"
  have at: "unat (ring_at p) = r \<longleftrightarrow> p div 8 = r" if "p < ?n" for p
    using that assms by (auto simp: ring_at_eq unat_of_nat)
  have bij: "{..<?n} = (!) ?o ` {..<?n}"
    using ring_order_perm [of members one_cohort] by (auto simp: set_conv_nth)
  have "{i. i < ?n \<and> unat (assign members one_cohort ! i) = r} =
      {i \<in> (!) ?o ` {..<?n}. unat (assign members one_cohort ! i) = r}" unfolding bij [symmetric] by auto
  also have "\<dots> = (!) ?o ` {p. p < ?n \<and> unat (assign members one_cohort ! (?o ! p)) = r}" by auto
  also have "\<dots> = (!) ?o ` {p. p < ?n \<and> p div 8 = r}"
    by (simp add: assign_at at cong: conj_cong)
  also have "card \<dots> = card {p. p < ?n \<and> p div 8 = r}"
    by (rule card_image) (auto simp: inj_on_def nth_eq_iff_index_eq ring_order_perm)
  also have "{p. p < ?n \<and> p div 8 = r} = {8 * r..<min ?n (8 * r + 8)}" by auto
  finally show ?thesis by auto
qed

lemma rings_hold_eight_witness:
  "let ms = map (\<lambda>a. ([a], \<lparr>cohort = 1, ring_seniority = 2\<rparr>)) [1, 2, 3, 4, 5, 6, 7, 8, 9] in
   card {i. i < length ms \<and> unat (assign ms True ! i) = 1} = 1"
proof -
  define ms where "ms = map (\<lambda>a. ([a :: u8], \<lparr>cohort = 1, ring_seniority = 2\<rparr>)) [1, 2, 3, 4, 5, 6, 7, 8, 9]"
  have "length ms = 9" by (simp add: ms_def)
  with rings_hold_eight [of ms 1 True] have "card {i. i < length ms \<and> unat (assign ms True ! i) = 1} = 1" by simp
  then show ?thesis unfolding ms_def Let_def .
qed

subsection \<open>Splits\<close>

lemma take_groups_concat: "concat (take_groups ns xs) = take (sum_list ns) xs"
  by (induction ns arbitrary: xs) (auto simp: take_add)

lemma length_take_groups [simp]: "length (take_groups ns xs) = length ns"
  by (induction ns arbitrary: xs) auto

lemma take_groups_lengths:
  "sum_list ns \<le> length xs \<Longrightarrow> map length (take_groups ns xs) = ns"
  by (induction ns arbitrary: xs) auto

lemma take_groups_nth:
  "g < length ns \<Longrightarrow> take_groups ns xs ! g = take (ns ! g) (drop (sum_list (take g ns)) xs)"
proof (induction ns arbitrary: xs g)
  case (Cons n ns)
  then show ?case by (cases g) (simp_all add: add.commute)
qed simp

lemma group_sizes_sum:
  "sum_list (map (\<lambda>g. b + (if g < e then 1 else 0)) [0..<k]) = b * k + min e k"
  by (induction k) auto

text \<open>A split deals every prover to exactly one child and keeps the most senior together: the groups,
  one per child, are the provers cut in order of falling seniority, the first groups
  one longer where the number does not divide, and no prover of a group is less senior than one of a
  later group. A split without children is refused.\<close>

theorem split_groups_partition:
  "split_groups provers 0 = Err InvalidArgument \<and>
   (0 < k \<longrightarrow> (\<exists>parts. split_groups provers k = Ok (map (map fst) parts) \<and>
     mset (concat parts) = mset provers \<and>
     map length parts = map (\<lambda>g. length provers div k + (if g < length provers mod k then 1 else 0)) [0..<k] \<and>
     sorted_wrt (\<lambda>p q. ring_seniority (snd (snd q)) \<le> ring_seniority (snd (snd p))) (concat parts)))"
proof (intro conjI impI)
  show "split_groups provers 0 = Err InvalidArgument" by (simp add: split_groups_def)
  assume "0 < k"
  let ?K = "\<lambda>p. ring_rank True (snd p)"
  define ss where "ss = sort_by (\<lambda>a b. rank (snd a) (snd b) True) provers"
  have ss: "ss = sort_key ?K provers" unfolding ss_def by (rule sort_by_key) (rule rank_key)
  define ns where "ns = map (\<lambda>g. length ss div k + (if g < length ss mod k then 1 else 0)) [0..<k]"
  have sum: "sum_list ns = length ss"
    using \<open>0 < k\<close> unfolding ns_def group_sizes_sum by (simp add: min_def less_imp_le)
  have parts: "concat (take_groups ns ss) = ss" by (simp add: take_groups_concat sum)
  have "sorted_wrt (\<lambda>p q. ring_seniority (snd (snd q)) \<le> ring_seniority (snd (snd p))) ss"
  proof (rule sorted_wrt_mono_rel [of ss "\<lambda>p q. ?K p \<le> ?K q"])
    show "sorted_wrt (\<lambda>p q. ?K p \<le> ?K q) ss" using sorted_sort_key [of ?K provers] by (simp add: ss sorted_map)
  qed (auto simp: ring_rank_def word_le_def)
  moreover have "mset ss = mset provers" by (simp add: ss)
  moreover have "map length (take_groups ns ss) =
      map (\<lambda>g. length provers div k + (if g < length provers mod k then 1 else 0)) [0..<k]"
    by (subst take_groups_lengths) (simp_all add: sum, simp add: ns_def ss)
  moreover have "split_groups provers k = Ok (map (map fst) (take_groups ns ss))"
    using \<open>0 < k\<close> by (simp add: split_groups_def Let_def ss_def [symmetric] ns_def)
  ultimately show "\<exists>parts. split_groups provers k = Ok (map (map fst) parts) \<and>
     mset (concat parts) = mset provers \<and>
     map length parts = map (\<lambda>g. length provers div k + (if g < length provers mod k then 1 else 0)) [0..<k] \<and>
     sorted_wrt (\<lambda>p q. ring_seniority (snd (snd q)) \<le> ring_seniority (snd (snd p))) (concat parts)"
    using parts by metis
qed

lemma split_groups_partition_witness:
  "\<exists>groups. split_groups [(''a'', [1], \<lparr>cohort = 1, ring_seniority = 5\<rparr>), (''b'', [2], \<lparr>cohort = 2, ring_seniority = 9\<rparr>),
       (''c'', [3], \<lparr>cohort = 3, ring_seniority = 7\<rparr>)] 2 = Ok groups \<and> map length groups = [2, 1]"
proof -
  define ps where "ps = [(''a'', [1 :: u8], \<lparr>cohort = 1, ring_seniority = 5\<rparr>), (''b'', [2], \<lparr>cohort = 2, ring_seniority = 9\<rparr>),
       (''c'', [3], \<lparr>cohort = 3, ring_seniority = 7\<rparr>)]"
  have two: "(0 :: nat) < 2" by simp
  obtain parts :: "(string \<times> bytes \<times> ring_key) list list" where parts: "split_groups ps 2 = Ok (map (map fst) parts)"
    "map length parts = map (\<lambda>g. length ps div 2 + (if g < length ps mod 2 then 1 else 0)) [0..<2]"
    using conjunct2 [OF split_groups_partition [of ps 2], rule_format, OF two] by blast
  have "map (\<lambda>g. length ps div 2 + (if g < length ps mod 2 then 1 else 0)) [0..<2] = [2, 1]"
    by (simp add: ps_def upt_rec)
  with parts have "split_groups ps 2 = Ok (map (map fst) parts) \<and> map length (map (map fst) parts) = [2, 1]"
    by (simp add: comp_def)
  then show ?thesis unfolding ps_def by (rule exI)
qed

text \<open>The children of a split in the order of their value.\<close>

lemma children_by_value_sorted:
  "mset (children_by_value children f) = mset [0..<length children] \<and>
   sorted_wrt (\<lambda>a b. f (children ! b) \<le> f (children ! a)) (children_by_value children f)"
proof -
  let ?K = "\<lambda>i. (- int (f (children ! i)), children ! i)"
  have key: "children_by_value children f = sort_key ?K [0..<length children]"
    unfolding children_by_value_def Let_def by (rule sort_by_key) auto
  have "sorted_wrt (\<lambda>a b. ?K a \<le> ?K b) (children_by_value children f)"
    using sorted_sort_key [of ?K "[0..<length children]"] by (simp add: key sorted_map)
  then have "sorted_wrt (\<lambda>a b. f (children ! b) \<le> f (children ! a)) (children_by_value children f)"
    by (rule sorted_wrt_mono_rel [rotated]) auto
  with key show ?thesis by simp
qed

end
