(* ===== verification/Prover_Rings.thy ===== *)
theory Prover_Rings
  imports Registry_View Ring_Rank
begin

text \<open>
  Ring keys on allocations (\<^verbatim>\<open>quil-execution/src/global_intrinsic/prover_rings.rs\<close>) and the estimates of a
  reward position (\<^verbatim>\<open>quil-types/src/reward_ring.rs\<close>): where a prover stands among the members of a
  shard, now or after a join, a resume or a renewal.
\<close>

subsection \<open>Keys\<close>

definition governs :: "clock \<Rightarrow> u64 \<Rightarrow> bool" where
  "governs c frame =
     (case handoff_policy c of None \<Rightarrow> False | Some policy \<Rightarrow> activation_frame policy \<le> frame)"

definition be_u64 :: "bytes \<Rightarrow> u64 option" where
  "be_u64 b = (if length b = 8 then Some (u64_of b) else None)"

definition read_key :: "vc_tree \<Rightarrow> ring_key option" where
  "read_key allocation =
     Option.bind (Option.bind (read_vertex_field allocation ALLOCATION ''RingEpoch'') be_u64) (\<lambda>e.
     map_option (\<lambda>s. \<lparr>cohort = e, ring_seniority = s\<rparr>)
       (Option.bind (read_vertex_field allocation ALLOCATION ''RingSeniority'') be_u64))"

definition write_key :: "(bytes \<Rightarrow> bytes) \<Rightarrow> vc_tree \<Rightarrow> ring_key \<Rightarrow> vc_tree \<times> unit result" where
  "write_key sha allocation rk =
     and_then (write_vertex_field sha allocation ALLOCATION ''RingEpoch'' (write_u64 (cohort rk)))
       (\<lambda>t. write_vertex_field sha t ALLOCATION ''RingSeniority'' (write_u64 (ring_seniority rk)))"

definition joined :: "clock \<Rightarrow> u64 \<Rightarrow> u64 \<Rightarrow> ring_key" where
  "joined c frame seniority = \<lparr>cohort = epoch_for_frame c frame + 1, ring_seniority = seniority\<rparr>"

definition preexisting :: "clock \<Rightarrow> u64 \<Rightarrow> u64 \<Rightarrow> ring_key" where
  "preexisting c join_confirm_frame seniority =
     \<lparr>cohort = (if join_confirm_frame = 0 then 0 else epoch_for_frame c join_confirm_frame + 1),
      ring_seniority = seniority\<rparr>"

definition moved :: "clock \<Rightarrow> ring_key \<Rightarrow> u64 \<Rightarrow> ring_key" where
  "moved c rk frame = \<lparr>cohort = epoch_for_frame c frame, ring_seniority = ring_seniority rk\<rparr>"

subsection \<open>Estimates\<close>

definition REWARD_RING_GROUP_SIZE :: u64 where "REWARD_RING_GROUP_SIZE = 8"

definition allocation_on :: "prover_info \<Rightarrow> bytes \<Rightarrow> prover_allocation_info option" where
  "allocation_on p flt = List.find (\<lambda>a. confirmation_filter a = flt) (pi_allocations p)"

datatype estimate_source = CurrentCommittee | LegacyCommitteeFloor | ResumeProjection | RenewalProjection
  | JoinProjection | NewJoinProjection | CommittedAllocationRing

record reward_ring_estimate =
  est_ring :: u8
  provers_on_ring :: nat
  member_count :: nat
  est_source :: estimate_source
  target_frame :: u64

definition join_of :: "bytes \<Rightarrow> prover_info \<Rightarrow> u64" where
  "join_of flt p = (case allocation_on p flt of None \<Rightarrow> 0 | Some a \<Rightarrow> join_frame_number a)"

definition reward_member_order :: "prover_info list \<Rightarrow> bytes \<Rightarrow> nat list" where
  "reward_member_order provers flt =
     sort_by (\<lambda>i j. then_cmp (cmp (join_of flt (provers ! i)) (join_of flt (provers ! j)))
       (cmp (pi_address (provers ! i)) (pi_address (provers ! j)))) [0..<length provers]"

definition activation_of :: "clock \<Rightarrow> prover_allocation_info \<Rightarrow> u64" where
  "activation_of c a =
     (if 0 < join_confirm_frame_number a
      then saturating_add (epoch_for_frame c (join_confirm_frame_number a)) 1
      else saturating_add (epoch_for_frame c (join_frame_number a)) 2)"

definition committed_ring_estimate ::
  "clock \<Rightarrow> prover_info list \<Rightarrow> bytes \<Rightarrow> bytes \<Rightarrow> u64 \<Rightarrow> reward_ring_estimate option" where
  "committed_ring_estimate c all_provers owner flt frame =
     (let live = filter (\<lambda>p. case allocation_on p flt of None \<Rightarrow> False | Some a \<Rightarrow> allocation_is_live c a frame) all_provers;
          own = Option.bind (List.find (\<lambda>p. pi_address p = owner) live) (\<lambda>p. allocation_on p flt);
          group = unat REWARD_RING_GROUP_SIZE in
      Some (case own of
        Some o1 \<Rightarrow>
          \<lparr>est_ring = pa_ring o1,
           provers_on_ring = length (filter (\<lambda>p. case allocation_on p flt of None \<Rightarrow> False | Some a \<Rightarrow> pa_ring a = pa_ring o1) live),
           member_count = length live, est_source = CommittedAllocationRing, target_frame = frame\<rparr>
      | None \<Rightarrow>
          \<lparr>est_ring = of_nat (length live div group), provers_on_ring = length live mod group + 1,
           member_count = length live + 1, est_source = NewJoinProjection, target_frame = frame\<rparr>))"

text \<open>The projection chosen for a status: where the estimate comes from, the frame it is for, whether joins count.\<close>

definition estimate_target ::
  "clock \<Rightarrow> prover_allocation_info option \<Rightarrow> bool \<Rightarrow> u64 \<Rightarrow> (estimate_source \<times> u64 \<times> bool) option" where
  "estimate_target c own in_committee frame =
     (case map_option (\<lambda>a. (a, effective_status c a frame)) own of
        Some (a, EActive) \<Rightarrow> if in_committee then Some (CurrentCommittee, frame, False) else None
      | Some (a, ELeaving) \<Rightarrow> if in_committee then Some (CurrentCommittee, frame, False) else None
      | Some (a, EPaused) \<Rightarrow> Some (ResumeProjection, frame, False)
      | Some (a, ExpiredEpoch) \<Rightarrow>
          Some (if in_committee then LegacyCommitteeFloor else RenewalProjection, frame, False)
      | Some (a, EJoining) \<Rightarrow>
          if in_committee then Some (LegacyCommitteeFloor, frame, False)
          else Some (JoinProjection, saturating_mul (activation_of c a) (epoch_length_frames c), True)
      | _ \<Rightarrow> Some (NewJoinProjection,
          saturating_mul (saturating_add (epoch_for_frame c frame) 2) (epoch_length_frames c), True))"

definition add_projected :: "prover_info list \<Rightarrow> prover_info \<Rightarrow> prover_info list" where
  "add_projected members p =
     (if list_ex (\<lambda>m. pi_address m = pi_address p) members then members else members @ [p])"

definition estimate_reward_ring ::
  "clock \<Rightarrow> prover_info list \<Rightarrow> prover_info list \<Rightarrow> bytes \<Rightarrow> bytes \<Rightarrow> u64 \<Rightarrow> reward_ring_estimate option" where
  "estimate_reward_ring c committee0 all_provers owner flt frame =
     (if committee_handoff_active c frame then committed_ring_estimate c all_provers owner flt frame
      else
        let committee = filter (\<lambda>p. allocation_on p flt \<noteq> None) committee0;
            own = List.find (\<lambda>p. pi_address p = owner) all_provers;
            own_alloc = Option.bind own (\<lambda>p. allocation_on p flt);
            status = map_option (\<lambda>a. effective_status c a frame) own_alloc;
            in_committee = list_ex (\<lambda>p. pi_address p = owner) committee in
        case estimate_target c own_alloc in_committee frame of
          None \<Rightarrow> None
        | Some (src, target, project_joins) \<Rightarrow>
            let staying = filter (\<lambda>p. \<not> project_joins \<or>
                  \<not> (case allocation_on p flt of None \<Rightarrow> False | Some a \<Rightarrow>
                      0 < leave_confirm_frame_number a \<and> effective_status c a target = ExpiredLeaving)) committee;
                joining = filter (\<lambda>p. case allocation_on p flt of None \<Rightarrow> False | Some a \<Rightarrow>
                  effective_status c a frame = EJoining \<and>
                  saturating_mul (activation_of c a) (epoch_length_frames c) \<le> target) all_provers;
                projected = (if project_joins then foldl add_projected staying joining else staying);
                members = (if (status = Some EPaused \<or> status = Some ExpiredEpoch) \<and> \<not> in_committee
                  then projected @ (case own of None \<Rightarrow> [] | Some p \<Rightarrow> [p]) else projected);
                order = reward_member_order members flt;
                rnk = (case position (\<lambda>i. pi_address (members ! i) = owner) order of
                  None \<Rightarrow> length members | Some r \<Rightarrow> r);
                total_members = length members + (if rnk = length members then 1 else 0);
                group = unat REWARD_RING_GROUP_SIZE in
            Some \<lparr>est_ring = of_nat (rnk div group),
              provers_on_ring = min (total_members - rnk div group * group) group,
              member_count = total_members, est_source = src, target_frame = target\<rparr>)"

end
