(* ===== verification/Vertex_Blob.thy ===== *)
theory Vertex_Blob
  imports Prover_Ops Tree_Codec
begin

text \<open>
  The stored form of a vertex (\<^verbatim>\<open>vertex_tree_to_blob\<close> and \<^verbatim>\<open>rebuild_vertex_tree_from_blob\<close> in
  \<^verbatim>\<open>quil-execution/src/prover_registry.rs\<close>): the wire form of its tree. A tree the schema's operations build
  always survives it, so what is read from the state is what was written.
\<close>

subsection \<open>Definitions\<close>

definition rebuild_vertex_tree_from_blob :: "(bytes \<Rightarrow> int) \<Rightarrow> bytes \<Rightarrow> vc_tree" where
  "rebuild_vertex_tree_from_blob of_mag blob =
     (if blob = [] then new_tree
      else case deserialize_go_tree of_mag blob of
        Ok (Some r) \<Rightarrow> \<lparr>root = Some r\<rparr>
      | _ \<Rightarrow> new_tree)"

definition vertex_tree_to_blob :: "(int \<Rightarrow> bytes) \<Rightarrow> vc_tree \<Rightarrow> bytes" where
  "vertex_tree_to_blob mag t = (case serialize_go_tree mag (root t) of Ok data \<Rightarrow> data | Err _ \<Rightarrow> [])"

subsection \<open>Well-formed trees fit the format\<close>

fun metas :: "vc_node \<Rightarrow> branch_meta set" where
  "metas (Leaf l) = {}"
| "metas (Branch pre cs m) = insert m (\<Union>c \<in> set cs. case c of None \<Rightarrow> {} | Some t \<Rightarrow> metas t)"

lemma node_fits_mono: "node_fits cap enc dec fuel t \<Longrightarrow> fuel \<le> fuel' \<Longrightarrow> node_fits cap enc dec fuel' t"
proof (induction fuel arbitrary: fuel' t)
  case (Suc fuel)
  then obtain f where "fuel' = Suc f" "fuel \<le> f" by (cases fuel') auto
  with Suc show ?case by (auto simp: list_all_iff split: option.splits vc_node.splits)
qed simp

lemma wf_node_fits:
  assumes "wf_node \<pi> t" "\<forall>l \<in> leaf_set t. length (path (key l)) \<le> n \<and> leaf_fits cap enc dec l"
    "\<forall>m \<in> metas t. meta_fits cap enc dec m" "n \<le> 256"
  shows "node_fits cap enc dec (Suc (n - length \<pi>)) (Some t)"
  using assms
proof (induction rule: wf_node.induct)
  case (wf_Leaf \<pi> l)
  then show ?case by simp
next
  case (wf_Branch cs \<pi> pre m)
  have wf: "wf_node \<pi> (Branch pre cs m)" using wf_Branch.hyps by (rule wf_node.wf_Branch)
  obtain l where l: "l \<in> leaf_set (Branch pre cs m)" using wf_leaves [OF wf] by (meson equals0I)
  then have len: "length \<pi> + length pre < n"
    using wf_branch_leaf_prefix [OF wf l] wf_Branch.prems(1) by fastforce
  have pre: "prefix_fits pre"
    using wf_prefix_range [OF wf] len wf_Branch.prems(3)
    by (force simp: prefix_fits_def MAX_TREE_PREFIX_LEN_def list_all_iff)
  have "node_fits cap enc dec (n - length \<pi>) c" if c: "c \<in> set cs" for c
  proof (cases c)
    case None
    then show ?thesis using len by (cases "n - length \<pi>") auto
  next
    case (Some d)
    obtain i where i: "i < length cs" "cs ! i = Some d" using c Some by (auto simp: in_set_conv_nth)
    have "\<forall>l \<in> leaf_set d. length (path (key l)) \<le> n \<and> leaf_fits cap enc dec l"
      using wf_Branch.prems(1) in_leaf_set_Branch [OF i(1)] i(2) by simp
    moreover have "\<forall>m \<in> metas d. meta_fits cap enc dec m"
      using wf_Branch.prems(2) c Some by force
    ultimately have "node_fits cap enc dec (Suc (n - length (\<pi> @ pre @ [int i]))) (Some d)"
      using wf_Branch.IH [of i d] i wf_Branch.hyps(1) wf_Branch.prems(3) by simp
    then show ?thesis unfolding Some by (rule node_fits_mono) (use len in simp)
  qed
  then show ?case using pre wf_Branch.hyps(1) wf_Branch.prems(2) by (simp add: list_all_iff)
qed

lemma sizes_nonneg_iff:
  "sizes_nonneg t \<longleftrightarrow> (\<forall>l \<in> leaf_set t. 0 \<le> leaf_size l) \<and> (\<forall>m \<in> metas t. 0 \<le> branch_size m)"
proof (induction t rule: sizes_nonneg.induct)
  case (2 pre cs m)
  have leaves: "leaf_set (Branch pre cs m) = (\<Union>c \<in> set cs. slot_leaves c)"
    unfolding leaf_set_Branch set_conv_nth [of cs] by auto
  have "case_option True sizes_nonneg c \<longleftrightarrow> (\<forall>l \<in> slot_leaves c. 0 \<le> leaf_size l) \<and>
      (\<forall>m \<in> (case c of None \<Rightarrow> {} | Some t \<Rightarrow> metas t). 0 \<le> branch_size m)" if "c \<in> set cs" for c
    using 2 that by (cases c) auto
  then show ?case unfolding leaves by (auto simp: list_all_iff)
qed simp

lemma metas_reloaded: "metas (reloaded t) = reloaded_meta True ` metas t"
proof (induction t rule: metas.induct)
  case (2 pre cs m)
  have "(\<Union>c \<in> set cs. case map_option reloaded c of None \<Rightarrow> {} | Some t \<Rightarrow> metas t) =
      reloaded_meta True ` (\<Union>c \<in> set cs. case c of None \<Rightarrow> {} | Some t \<Rightarrow> metas t)"
    using 2 by (fastforce simp: image_UN split: option.splits)
  then show ?case by simp
qed simp

subsection \<open>A reload keeps the content\<close>

lemma child_count_map [simp]: "child_count (map (map_option f) cs) = child_count cs"
  by (simp add: child_count_alt cong: conj_cong)

lemma child_map [simp]: "child (map (map_option f) cs) i = map_option f (child cs i)"
  by (simp add: child_def)

lemma wf_reloaded: "wf_node \<pi> t \<Longrightarrow> wf_node \<pi> (reloaded t)"
proof (induction rule: wf_node.induct)
  case (wf_Branch cs \<pi> pre m)
  show ?case
    unfolding reloaded.simps
  proof (rule wf_node.wf_Branch)
    fix i c assume "i < 64" "map (map_option reloaded) cs ! i = Some c"
    then obtain d where "cs ! i = Some d" "c = reloaded d" using wf_Branch.hyps(1) by auto
    then show "wf_node (\<pi> @ pre @ [int i]) c" using wf_Branch.IH \<open>i < 64\<close> by simp
  qed (use wf_Branch.hyps in simp_all)
qed simp

lemma get_reloaded: "get_recursive (map_option reloaded n) k d = get_recursive n k d"
proof (induction n k d rule: get_recursive.induct)
  case (3 pre cs m k d)
  then show ?case by (auto simp: Let_def split: option.split)
qed simp_all

lemma leaf_set_get:
  assumes "wf_node [] r"
  shows "l \<in> leaf_set r \<longleftrightarrow> get_leaf \<lparr>root = Some r\<rparr> (key l) = Some l"
  using get_recursive_spec [OF assms, of "key l" l] by (simp add: get_leaf_def)

lemma leaf_set_reloaded: "wf_node [] r \<Longrightarrow> leaf_set (reloaded r) = leaf_set r"
  using leaf_set_get [of r] leaf_set_get [OF wf_reloaded, of r] get_reloaded [of "Some r"]
  by (auto simp: get_leaf_def)

subsection \<open>Storable trees\<close>

definition leaf_storable :: "(int \<Rightarrow> bytes) \<Rightarrow> (bytes \<Rightarrow> int) \<Rightarrow> leaf_node \<Rightarrow> bool" where
  "leaf_storable mag of_mag l \<longleftrightarrow> leaf_fits GO_FIELD_CAP (magnitude mag) of_mag l \<and> 0 \<le> leaf_size l"

definition meta_storable :: "(int \<Rightarrow> bytes) \<Rightarrow> (bytes \<Rightarrow> int) \<Rightarrow> branch_meta \<Rightarrow> bool" where
  "meta_storable mag of_mag m \<longleftrightarrow> meta_fits GO_FIELD_CAP (magnitude mag) of_mag m \<and> 0 \<le> branch_size m"

definition storable :: "(int \<Rightarrow> bytes) \<Rightarrow> (bytes \<Rightarrow> int) \<Rightarrow> vc_tree \<Rightarrow> bool" where
  "storable mag of_mag t \<longleftrightarrow> wf_vertex t \<and>
     (\<forall>r. root t = Some r \<longrightarrow> (\<forall>l \<in> leaf_set r. leaf_storable mag of_mag l) \<and> (\<forall>m \<in> metas r. meta_storable mag of_mag m))"

lemma schema_path_length: "k \<in> schema_keys \<Longrightarrow> length (path k) \<le> 43"
  by (auto simp: schema_keys_def TYPE_KEY_def length_full_path)

lemma new_tree_storable [simp]: "storable mag of_mag new_tree"
  by (simp add: storable_def wf_over_def new_tree_def)

lemma go_blob:
  assumes "node_fits GO_FIELD_CAP (magnitude mag) of_mag (Suc MAX_DESERIALIZE_DEPTH) n"
    "case n of None \<Rightarrow> True | Some r \<Rightarrow> sizes_nonneg r"
  shows "serialize_go_tree mag n = Ok (serialize_node (magnitude mag) n)"
    "deserialize_go_tree of_mag (serialize_node (magnitude mag) n) = Ok (map_option reloaded n)"
proof -
  show "serialize_go_tree mag n = Ok (serialize_node (magnitude mag) n)"
    using assms(2) by (cases n) (simp_all add: serialize_go_tree_def write_node_def write_some_spec)
  show "deserialize_go_tree of_mag (serialize_node (magnitude mag) n) = Ok (map_option reloaded n)"
    using codec.read_write [OF node_codec [OF field_cap_u64(2)] assms(1), of "[]"]
    by (simp add: deserialize_go_tree_def del: read_node.simps)
qed

lemma serialize_node_nonempty: "serialize_node enc n \<noteq> []"
  by (cases n; simp; cases "the n"; simp add: write_leaf_def)

lemma storable_fits:
  assumes "storable mag of_mag t"
  shows "node_fits GO_FIELD_CAP (magnitude mag) of_mag (Suc MAX_DESERIALIZE_DEPTH) (root t)"
    "case root t of None \<Rightarrow> True | Some r \<Rightarrow> sizes_nonneg r"
proof -
  have "node_fits GO_FIELD_CAP (magnitude mag) of_mag (Suc MAX_DESERIALIZE_DEPTH) (Some r) \<and> sizes_nonneg r"
    if r: "root t = Some r" for r
  proof -
    have wf: "wf_node [] r" "\<forall>l \<in> leaf_set r. key l \<in> schema_keys"
      using assms r by (auto simp: storable_def wf_over_def)
    have st: "\<forall>l \<in> leaf_set r. leaf_storable mag of_mag l" "\<forall>m \<in> metas r. meta_storable mag of_mag m"
      using assms r by (auto simp: storable_def)
    have "node_fits GO_FIELD_CAP (magnitude mag) of_mag (Suc (43 - length ([] :: int list))) (Some r)"
      by (rule wf_node_fits [OF wf(1)])
        (use wf(2) st schema_path_length in \<open>auto simp: leaf_storable_def meta_storable_def\<close>)
    then show ?thesis
      using st by (auto simp: sizes_nonneg_iff leaf_storable_def meta_storable_def MAX_DESERIALIZE_DEPTH_def
          simp del: node_fits.simps intro: node_fits_mono)
  qed
  then show "node_fits GO_FIELD_CAP (magnitude mag) of_mag (Suc MAX_DESERIALIZE_DEPTH) (root t)"
    "case root t of None \<Rightarrow> True | Some r \<Rightarrow> sizes_nonneg r"
    by (cases "root t"; simp del: node_fits.simps; simp)+
qed

text \<open>What is stored is what is read, up to bookkeeping.\<close>

lemma blob_round_trip:
  assumes "storable mag of_mag t"
  shows "storable mag of_mag (rebuild_vertex_tree_from_blob of_mag (vertex_tree_to_blob mag t))"
    "tree_get (rebuild_vertex_tree_from_blob of_mag (vertex_tree_to_blob mag t)) = tree_get t"
    "vertex_tree_to_blob mag t \<noteq> []"
proof -
  note go = go_blob [OF storable_fits [OF assms]]
  have blob: "vertex_tree_to_blob mag t = serialize_node (magnitude mag) (root t)"
    by (simp add: vertex_tree_to_blob_def go(1))
  then have reread: "rebuild_vertex_tree_from_blob of_mag (vertex_tree_to_blob mag t) = \<lparr>root = map_option reloaded (root t)\<rparr>"
    by (simp add: rebuild_vertex_tree_from_blob_def go(2) serialize_node_nonempty new_tree_def
        split: option.split)
  show "vertex_tree_to_blob mag t \<noteq> []" by (simp add: blob serialize_node_nonempty)
  show "tree_get (rebuild_vertex_tree_from_blob of_mag (vertex_tree_to_blob mag t)) = tree_get t"
    by (simp add: reread tree_get_def get_leaf_def get_reloaded fun_eq_iff)
  have "storable mag of_mag \<lparr>root = Some (reloaded r)\<rparr>" if r: "root t = Some r" for r
  proof -
    have wf: "wf_node [] r" "\<forall>l \<in> leaf_set r. key l \<in> schema_keys"
      using assms r by (auto simp: storable_def wf_over_def)
    then show ?thesis
      using assms r
      by (auto simp: storable_def wf_over_def leaf_set_reloaded wf_reloaded metas_reloaded meta_storable_def
          meta_fits_def reloaded_meta_def)
  qed
  then show "storable mag of_mag (rebuild_vertex_tree_from_blob of_mag (vertex_tree_to_blob mag t))"
    unfolding reread by (cases "root t") (simp_all add: storable_def wf_over_def)
qed

subsection \<open>Writes keep a tree storable\<close>

abbreviation slot_metas :: "vc_node option \<Rightarrow> branch_meta set" where
  "slot_metas c \<equiv> (case c of None \<Rightarrow> {} | Some t \<Rightarrow> metas t)"

lemma slots_update:
  "\<forall>c \<in> set cs. Ball (slot_metas c) P \<Longrightarrow> Ball (slot_metas x) P \<Longrightarrow> \<forall>c \<in> set (cs[i := x]). Ball (slot_metas c) P"
  using set_update_subset_insert [of cs i x] by blast

lemma slots_empty: "\<forall>c \<in> set (replicate n None). Ball (slot_metas c) P"
  by simp

lemma insert_metas:
  assumes "insert_recursive sha n k v h s d = Ok t" "Ball (slot_metas n) P" "P new_meta"
    and P: "\<And>m m'. P m \<Longrightarrow> branch_size m' = branch_size m \<Longrightarrow> length (branch_commitment m') \<le> length (branch_commitment m) \<Longrightarrow> P m'"
  shows "Ball (metas t) P"
  using assms(1,2)
proof (induction sha n k v h s d arbitrary: t rule: insert_recursive.induct)
  case (1 sha k v h s d)
  then show ?case by auto
next
  case (2 sha existing k v h s d)
  let ?leaf = "new_leaf sha k v h s"
  have leaf: "Ball (slot_metas (Some (Leaf l))) P" for l by simp
  have "Ball (metas (split_leaf sha existing ?leaf d)) P"
    using P [OF assms(3), of "new_meta\<lparr>leaf_count := 2, branch_commitment := []\<rparr>"]
      slots_update [OF slots_empty [of 64 P] leaf] slots_update [OF slots_update [OF slots_empty [of 64 P] leaf] leaf]
      slots_empty [of 64 P]
    by (auto simp: split_leaf_def Let_def case_prod_unfold)
  with 2 show ?case by (auto split: if_splits)
next
  case (3 sha pre cs m k v h s d)
  have m: "P m" "\<forall>c \<in> set cs. Ball (slot_metas c) P" using "3.prems"(2) by auto
  show ?case
  proof (cases "first_mismatch k d pre")
    case (Some x)
    obtain i p n where x: "x = (i, p, n)" by (cases x)
    let ?old = "Branch (drop (Suc i) pre) cs (m\<lparr>branch_commitment := []\<rparr>)" and ?leaf = "new_leaf sha k v h s"
    let ?meta = "new_meta\<lparr>leaf_count := saturating_add (leaf_count m) 1, longest_branch := saturating_add (longest_branch m) 1\<rparr>"
    have old: "Ball (slot_metas (Some ?old)) P"
      using m P [OF m(1), of "m\<lparr>branch_commitment := []\<rparr>"] by auto
    have leaf: "Ball (slot_metas (Some (Leaf ?leaf))) P" by simp
    have meta: "P ?meta" by (rule P [OF assms(3)]) simp_all
    show ?thesis
      using "3.prems"(1) Some x meta slots_update [OF slots_empty [of 64 P] old, of "nat p"]
        slots_update [OF slots_update [OF slots_empty [of 64 P] old, of "nat p"] leaf, of "nat n"]
      by (auto simp: split_branch_def Let_def simp del: metas.simps(1) split: if_splits)
  next
    case None
    let ?d = "d + BRANCH_BITS * length pre"
    let ?nb = "get_next_nibble k ?d"
    obtain c where c: "\<not> ?nb < 0" "insert_recursive sha (child cs (nat ?nb)) k v h s (?d + BRANCH_BITS) = Ok c"
      "t = Branch pre (cs[nat ?nb := Some c]) (refresh_meta (cs[nat ?nb := Some c]) m)"
      using "3.prems"(1) None by (auto simp: Let_def split: if_splits sum.splits)
    have "Ball (slot_metas (child cs (nat ?nb))) P"
      using m(2) child_in_set [of cs "nat ?nb"] by (cases "child cs (nat ?nb)") force+
    then have "Ball (metas c) P" using "3.IH" [OF None refl refl c(1) c(2)] by simp
    moreover have "P (refresh_meta (cs[nat ?nb := Some c]) m)"
      by (rule P [OF m(1)]) (simp_all add: refresh_meta_def)
    ultimately show ?thesis using slots_update [OF m(2), of "Some c" "nat ?nb"] unfolding c(3) by auto
  qed
qed


text \<open>
  What the stored form needs of the number library and of the leaf hash: the magnitude of a positive
  size reads back, and a digest has the size of one.
\<close>

definition blob_codec :: "(bytes \<Rightarrow> bytes) \<Rightarrow> (int \<Rightarrow> bytes) \<Rightarrow> (bytes \<Rightarrow> int) \<Rightarrow> bool" where
  "blob_codec sha mag of_mag \<longleftrightarrow> (\<forall>b. length (sha b) \<le> 64) \<and>
     (\<forall>n. 0 < n \<longrightarrow> n \<le> int GO_FIELD_CAP \<longrightarrow>
        mag n \<noteq> [] \<and> length (mag n) \<le> GO_FIELD_CAP \<and> of_mag (mag n) = n)"

lemma new_leaf_storable:
  assumes "blob_codec sha mag of_mag" "length k \<le> 64" "length v \<le> GO_FIELD_CAP" "0 \<le> s" "s \<le> int GO_FIELD_CAP"
  shows "leaf_storable mag of_mag (new_leaf sha k v [] s)"
proof -
  have "length (sha b) \<le> GO_FIELD_CAP" for b
  proof -
    have "length (sha b) \<le> 64" using assms(1) by (simp add: blob_codec_def)
    then show ?thesis by (simp add: GO_FIELD_CAP_def)
  qed
  moreover have "length k \<le> GO_FIELD_CAP" using assms(2) by (simp add: GO_FIELD_CAP_def)
  moreover have "size_fits GO_FIELD_CAP (magnitude mag) of_mag s"
    using assms(1,4,5) by (cases "s = 0") (auto simp: size_fits_def magnitude_def blob_codec_def)
  ultimately show ?thesis
    using assms by (simp add: leaf_storable_def leaf_fits_def new_leaf_def compute_commitment_def)
qed

lemma new_meta_storable: "meta_storable mag of_mag new_meta"
  by (simp add: meta_storable_def meta_fits_def size_fits_def magnitude_def new_meta_def)

lemma tree_insert_storable:
  assumes "storable mag of_mag t" "k \<in> schema_keys" "leaf_storable mag of_mag (new_leaf sha k v h s)"
  shows "storable mag of_mag (fst (tree_insert sha t k v h s))"
proof -
  let ?t = "fst (tree_insert sha t k v h s)"
  have wf: "wf_vertex t" using assms(1) by (simp add: storable_def)
  note put = vertex.put_ok [OF wf assms(2), of sha "(v, h, s)"] vertex.put_inv [OF wf assms(2), of sha "(v, h, s)"]
    vertex.put_find [OF wf assms(2), of sha "(v, h, s)"]
  obtain r where r: "insert_recursive sha (root t) k v h s 0 = Ok r" "?t = \<lparr>root = Some r\<rparr>"
    using put(1) by (auto simp: tree_insert_def split: sum.splits)
  have "Ball (slot_metas (root t)) (meta_storable mag of_mag)"
    using assms(1) by (auto simp: storable_def split: option.splits)
  then have metas: "Ball (metas r) (meta_storable mag of_mag)"
    by (rule insert_metas [OF r(1), where P = "meta_storable mag of_mag"])
      (use new_meta_storable in \<open>auto simp: meta_storable_def meta_fits_def\<close>)
  have "leaf_storable mag of_mag l" if "l \<in> leaf_set r" for l
  proof -
    have "wf_node [] r" using put(2) r(2) by (auto simp: wf_over_def)
    then have "get_leaf ?t (key l) = Some l" using that by (simp add: leaf_set_get r(2))
    then have "l = new_leaf sha k v h s \<or> get_leaf t (key l) = Some l"
      using put(3) by (auto split: if_splits)
    moreover have "leaf_storable mag of_mag l" if g: "get_leaf t (key l) = Some l"
    proof -
      obtain r0 where r0: "root t = Some r0" using g by (cases "root t") (auto simp: get_leaf_def)
      then have "wf_node [] r0" using wf by (auto simp: wf_over_def)
      then have "l \<in> leaf_set r0" using g r0 by (simp add: leaf_set_get get_leaf_def)
      then show ?thesis using assms(1) r0 by (auto simp: storable_def)
    qed
    ultimately show ?thesis using assms(3) by blast
  qed
  then show ?thesis using put(2) metas by (auto simp: storable_def r(2))
qed

lemma field_value_storable:
  assumes "blob_codec sha mag of_mag" "k \<in> schema_keys" "length v \<le> GO_FIELD_CAP" "0 \<le> s" "s \<le> int GO_FIELD_CAP"
  shows "leaf_storable mag of_mag (new_leaf sha k v [] s)"
  using assms by (intro new_leaf_storable) (auto simp: schema_keys_def TYPE_KEY_def)

text \<open>A field written into a storable tree: it succeeds, and the tree stays storable.\<close>

lemma write_field_storable:
  assumes "blob_codec sha mag of_mag" "storable mag of_mag t" "field_key cls fld = Some k" "length v \<le> GO_FIELD_CAP"
  obtains t' where "write_vertex_field sha t cls fld v = (t', Ok ())" "storable mag of_mag t'"
    "tree_get t' = (tree_get t)(k \<mapsto> v)"
proof -
  have wf: "wf_vertex t" using assms(2) by (simp add: storable_def)
  note k = field_key_in [OF assms(3)]
  let ?t = "fst (tree_insert sha t k v [] (int (length v)))"
  note ins = tree_get_insert [OF wf k, of sha v "[]" "int (length v)"]
  have "storable mag of_mag ?t"
    by (rule tree_insert_storable [OF assms(2) k]) (use assms(4) in \<open>intro field_value_storable [OF assms(1) k]; simp\<close>)
  with ins assms(3) that [of ?t] show thesis by (simp add: write_vertex_field_def internal_def)
qed

lemma write_type_storable:
  assumes "blob_codec sha mag of_mag" "storable mag of_mag t" "length (compute_type_hash poseidon cls) \<le> GO_FIELD_CAP"
  obtains t' where "write_type sha poseidon t cls = (t', Ok ())" "storable mag of_mag t'"
    "tree_get t' = (tree_get t)(TYPE_KEY \<mapsto> compute_type_hash poseidon cls)"
proof -
  have wf: "wf_vertex t" using assms(2) by (simp add: storable_def)
  have k: "TYPE_KEY \<in> schema_keys" by (simp add: schema_keys_def)
  let ?t = "fst (tree_insert sha t TYPE_KEY (compute_type_hash poseidon cls) [] 32)"
  note ins = tree_get_insert [OF wf k, of sha "compute_type_hash poseidon cls" "[]" 32]
  have "storable mag of_mag ?t"
    by (rule tree_insert_storable [OF assms(2) k])
      (use assms(3) in \<open>intro field_value_storable [OF assms(1) k]; simp add: GO_FIELD_CAP_def\<close>)
  with ins that [of ?t] show thesis by (simp add: write_type_def internal_def)
qed

subsection \<open>Histories of stored vertices\<close>

text \<open>
  One operation on a stored vertex: its blob is rebuilt, fields of a class are written, and the result is
  stored again. A history is a list of those; the fields they leave are those of a plain map.
\<close>

definition rewrite_vertex ::
  "(bytes \<Rightarrow> bytes) \<Rightarrow> (int \<Rightarrow> bytes) \<Rightarrow> (bytes \<Rightarrow> int) \<Rightarrow> bytes \<Rightarrow> string \<times> (string \<times> bytes) list \<Rightarrow> bytes" where
  "rewrite_vertex sha mag of_mag blob = (\<lambda>(cls, ws).
     vertex_tree_to_blob mag (fst (write_all sha cls ws (rebuild_vertex_tree_from_blob of_mag blob))))"

definition key_writes :: "string \<times> (string \<times> bytes) list \<Rightarrow> (bytes \<times> bytes) list" where
  "key_writes = (\<lambda>(cls, ws). map (\<lambda>(fld, v). (the (field_key cls fld), v)) ws)"

definition writable :: "string \<times> (string \<times> bytes) list \<Rightarrow> bool" where
  "writable = (\<lambda>(cls, ws). list_all (\<lambda>(fld, v). field_key cls fld \<noteq> None \<and> length v \<le> GO_FIELD_CAP) ws)"

lemma write_all_storable:
  assumes "blob_codec sha mag of_mag" "storable mag of_mag t" "writable (cls, ws)"
  shows "\<exists>t'. write_all sha cls ws t = (t', Ok ()) \<and> storable mag of_mag t' \<and>
    tree_get t' = tree_get t ++ map_of (rev (key_writes (cls, ws)))"
  using assms(2,3)
proof (induction ws arbitrary: t)
  case (Cons w ws)
  obtain fld v where w: "w = (fld, v)" by (cases w)
  then obtain k where k: "field_key cls fld = Some k" "length v \<le> GO_FIELD_CAP" "writable (cls, ws)"
    using Cons.prems(2) by (auto simp: writable_def)
  from write_field_storable [OF assms(1) Cons.prems(1) k(1,2)] obtain t1 where
    "write_vertex_field sha t cls fld v = (t1, Ok ())" "storable mag of_mag t1" "tree_get t1 = (tree_get t)(k \<mapsto> v)" .
  with Cons.IH [OF this(2) k(3)] show ?case
    by (simp add: w k(1) and_then_def key_writes_def del: fun_upd_apply)
qed (simp add: key_writes_def)

lemma rewrites_storable:
  assumes "blob_codec sha mag of_mag" "list_all writable ops"
    "storable mag of_mag (rebuild_vertex_tree_from_blob of_mag blob)"
  shows "storable mag of_mag (rebuild_vertex_tree_from_blob of_mag (foldl (rewrite_vertex sha mag of_mag) blob ops)) \<and>
    tree_get (rebuild_vertex_tree_from_blob of_mag (foldl (rewrite_vertex sha mag of_mag) blob ops)) =
      tree_get (rebuild_vertex_tree_from_blob of_mag blob) ++ map_of (rev (concat (map key_writes ops)))"
  using assms(2,3)
proof (induction ops arbitrary: blob)
  case (Cons oper ops)
  let ?t = "rebuild_vertex_tree_from_blob of_mag blob"
  obtain cls ws where op: "oper = (cls, ws)" by (cases oper)
  obtain t' where t': "write_all sha cls ws ?t = (t', Ok ())" "storable mag of_mag t'"
    "tree_get t' = tree_get ?t ++ map_of (rev (key_writes oper))"
    using write_all_storable [OF assms(1) Cons.prems(2), of cls ws] Cons.prems(1) by (auto simp: op)
  have "rewrite_vertex sha mag of_mag blob oper = vertex_tree_to_blob mag t'"
    by (simp add: rewrite_vertex_def op t'(1))
  with Cons.IH [of "vertex_tree_to_blob mag t'"] Cons.prems(1) blob_round_trip [OF t'(2)] t'(3) show ?case
    by simp
qed simp

text \<open>C33. Whatever operations are run on a stored vertex, each one rebuilding it from its blob, writing fields of
  the schema and storing it again, starting from an empty blob: every stored form is a well-formed vertex that
  fits the wire format, so nothing is silently replaced by an empty tree, and every field reads as the last
  value written to it.\<close>

theorem stored_vertices_well_formed:
  assumes "blob_codec sha mag of_mag" "list_all writable ops"
  shows "storable mag of_mag (rebuild_vertex_tree_from_blob of_mag (foldl (rewrite_vertex sha mag of_mag) [] ops)) \<and>
    (ops \<noteq> [] \<longrightarrow> foldl (rewrite_vertex sha mag of_mag) [] ops \<noteq> []) \<and>
    (\<forall>cls fld. read_vertex_field (rebuild_vertex_tree_from_blob of_mag (foldl (rewrite_vertex sha mag of_mag) [] ops)) cls fld =
      Option.bind (field_key cls fld) (map_of (rev (concat (map key_writes ops)))))"
proof (intro conjI impI allI)
  have fresh: "rebuild_vertex_tree_from_blob of_mag [] = new_tree" by (simp add: rebuild_vertex_tree_from_blob_def)
  note run = rewrites_storable [OF assms, of "[]", unfolded fresh, OF new_tree_storable]
  from run show "storable mag of_mag (rebuild_vertex_tree_from_blob of_mag (foldl (rewrite_vertex sha mag of_mag) [] ops))"
    by simp
  have empty: "tree_get new_tree = Map.empty" by (simp add: tree_get_def get_leaf_def new_tree_def fun_eq_iff)
  show "read_vertex_field (rebuild_vertex_tree_from_blob of_mag (foldl (rewrite_vertex sha mag of_mag) [] ops)) cls fld =
      Option.bind (field_key cls fld) (map_of (rev (concat (map key_writes ops))))" for cls fld
    using run by (simp add: read_vertex_field_def empty)
  assume "ops \<noteq> []"
  then obtain older cls ws where ops: "ops = older @ [(cls, ws)]" by (metis rev_exhaust surj_pair)
  have "storable mag of_mag (rebuild_vertex_tree_from_blob of_mag (foldl (rewrite_vertex sha mag of_mag) [] older))"
    using rewrites_storable [OF assms(1), of older "[]"] assms(2) by (simp add: ops fresh)
  then obtain t' where "write_all sha cls ws (rebuild_vertex_tree_from_blob of_mag
      (foldl (rewrite_vertex sha mag of_mag) [] older)) = (t', Ok ())" "storable mag of_mag t'"
    using write_all_storable [OF assms(1), of _ cls ws] assms(2) by (auto simp: ops)
  then show "foldl (rewrite_vertex sha mag of_mag) [] ops \<noteq> []"
    using blob_round_trip(3) by (simp add: ops rewrite_vertex_def)
qed

definition unary_mag :: "int \<Rightarrow> bytes" where "unary_mag n = replicate (nat n) 1"
definition unary_of :: "bytes \<Rightarrow> int" where "unary_of b = int (length b)"

theorem stored_vertices_well_formed_witness:
  "storable unary_mag unary_of (rebuild_vertex_tree_from_blob unary_of
     (foldl (rewrite_vertex (\<lambda>_. [1]) unary_mag unary_of) []
       [(''allocation:ProverAllocation'', [(''JoinFrameNumber'', [1]), (''Status'', [2])]), (''allocation:ProverAllocation'', [(''Status'', [3])])])) \<and>
   read_vertex_field (rebuild_vertex_tree_from_blob unary_of
     (foldl (rewrite_vertex (\<lambda>_. [1]) unary_mag unary_of) []
       [(''allocation:ProverAllocation'', [(''JoinFrameNumber'', [1]), (''Status'', [2])]), (''allocation:ProverAllocation'', [(''Status'', [3])])]))
     ''allocation:ProverAllocation'' ''Status'' = Some [3]"
proof -
  let ?ops = "[(''allocation:ProverAllocation'', [(''JoinFrameNumber'', [1]), (''Status'', [2])]), (''allocation:ProverAllocation'', [(''Status'', [3])])]"
  have "blob_codec (\<lambda>_. [1]) unary_mag unary_of" by (auto simp: blob_codec_def unary_mag_def unary_of_def)
  moreover have "list_all writable ?ops" by (simp add: writable_def GO_FIELD_CAP_def)
  ultimately show ?thesis
    using stored_vertices_well_formed [of "\<lambda>_. [1]" unary_mag unary_of ?ops] by (simp add: key_writes_def)
qed

end
