(* ===== verification/Shard_Paths.thy ===== *)
theory Shard_Paths
  imports Bitmask Byte_Codec "HOL-Library.Sublist"
begin

text \<open>
  Shard addressing (\<^verbatim>\<open>quil-forest/src/lib.rs\<close>): a shard of an application is a bit path, the leading
  bits of the data addresses it holds. The theory has the codec of paths, the prefix forms of the shard grid,
  the routing of an address, the paths a deep split registers and the region a path can receive outputs in.
\<close>

subsection \<open>Bits of an address\<close>

definition address_bit :: "bytes \<Rightarrow> nat \<Rightarrow> bool" where
  "address_bit data i =
     (case list_get data (i div 8) of None \<Rightarrow> False | Some b \<Rightarrow> drop_bit (7 - i mod 8) b AND 1 = 1)"

definition shard_path_key_hash :: "bytes \<Rightarrow> bytes" where
  "shard_path_key_hash k = take 32 k @ replicate (32 - length k) 0"

definition shard_index :: "bytes \<Rightarrow> nat \<Rightarrow> u32" where
  "shard_index address shard_depth =
     foldl (\<lambda>idx i. push_bit 1 idx OR (if address_bit address i then 1 else 0)) 0 [0..<shard_depth]"

definition prefix_to_bits :: "u32 list \<Rightarrow> nat \<Rightarrow> bool list" where
  "prefix_to_bits pfx bits_per_level =
     concat (map (\<lambda>lvl. map (\<lambda>i. drop_bit i lvl AND 1 = 1) (rev [0..<bits_per_level])) pfx)"

subsection \<open>The wire form of a path\<close>

definition SHARD_BIT_LEN_BYTES :: nat where "SHARD_BIT_LEN_BYTES = 2"

definition div_ceil8 :: "nat \<Rightarrow> nat" where "div_ceil8 n = (n + 7) div 8"

definition set_path_bit :: "bytes \<Rightarrow> nat \<Rightarrow> bytes" where
  "set_path_bit out i = out[i div 8 := out ! (i div 8) OR push_bit (7 - i mod 8) 1]"

definition pack_bits :: "bool list \<Rightarrow> bytes" where
  "pack_bits bit_path =
     foldl (\<lambda>out (i, b). if b then set_path_bit out i else out)
       (replicate (div_ceil8 (length bit_path)) 0) (enumerate 0 bit_path)"

definition encode_shard_bit_path :: "bytes \<Rightarrow> bool list \<Rightarrow> bytes" where
  "encode_shard_bit_path app bit_path = app @ be_bytes 2 (length bit_path) @ pack_bits bit_path"

definition decode_shard_bit_path :: "bytes \<Rightarrow> nat \<Rightarrow> (bytes \<times> bool list) option" where
  "decode_shard_bit_path flt app_len =
     (if length flt < app_len + SHARD_BIT_LEN_BYTES then None
      else
        let app = take app_len flt;
            n = from_be (take SHARD_BIT_LEN_BYTES (drop app_len flt));
            n_bytes = div_ceil8 n in
        if length flt \<noteq> app_len + SHARD_BIT_LEN_BYTES + n_bytes then None
        else
          let packed = drop (app_len + SHARD_BIT_LEN_BYTES) flt;
              bits = map (\<lambda>i. drop_bit (7 - i mod 8) (packed ! (i div 8)) AND 1 = 1) [0..<n] in
          if list_ex (\<lambda>i. drop_bit (7 - i mod 8) (packed ! (i div 8)) AND 1 = 1) [n..<n_bytes * 8] then None
          else Some (app, bits))"

definition bit_path_starts_with :: "bool list \<Rightarrow> bool list \<Rightarrow> bool" where
  "bit_path_starts_with child parent \<longleftrightarrow> length parent \<le> length child \<and> take (length parent) child = parent"

definition decode_shard_filter_or_root :: "bytes \<Rightarrow> nat \<Rightarrow> (bytes \<times> bool list) option" where
  "decode_shard_filter_or_root flt app_len =
     (if length flt = app_len then Some (take app_len flt, [])
      else if app_len < length flt \<and> length flt < app_len + SHARD_BIT_LEN_BYTES then
        Some (take app_len flt, prefix_to_bits (map (\<lambda>b. ucast b) (drop app_len flt)) 6)
      else decode_shard_bit_path flt app_len)"

definition shard_filter_extends :: "bytes \<Rightarrow> bytes \<Rightarrow> nat \<Rightarrow> bool" where
  "shard_filter_extends child_filter parent_filter app_len =
     (case (decode_shard_filter_or_root child_filter app_len, decode_shard_filter_or_root parent_filter app_len) of
        (Some (ca, cb), Some (pa, pb)) \<Rightarrow> ca = pa \<and> bit_path_starts_with cb pb
      | _ \<Rightarrow> False)"

subsection \<open>Prefixes of the shard grid\<close>

definition BIT_PATH_PREFIX_SENTINEL :: u32 where "BIT_PATH_PREFIX_SENTINEL = 4294967295"

definition bit_path_to_prefix :: "bool list \<Rightarrow> u32 list" where
  "bit_path_to_prefix bit_path = BIT_PATH_PREFIX_SENTINEL # map (\<lambda>b. if b then 1 else 0) bit_path"

fun path_levels :: "u32 list \<Rightarrow> bool list option" where
  "path_levels [] = Some []"
| "path_levels (lvl # rest) =
     (if lvl = 0 then map_option ((#) False) (path_levels rest)
      else if lvl = 1 then map_option ((#) True) (path_levels rest)
      else None)"

definition shard_bit_path_from_prefix :: "u32 list \<Rightarrow> bool list option" where
  "shard_bit_path_from_prefix pfx =
     (case pfx of
        [] \<Rightarrow> None
      | head # rest \<Rightarrow> if head \<noteq> BIT_PATH_PREFIX_SENTINEL then None else path_levels rest)"

definition shard_prefix_to_filter :: "bytes \<Rightarrow> u32 list \<Rightarrow> bytes" where
  "shard_prefix_to_filter l2 pfx =
     (case shard_bit_path_from_prefix pfx of
        Some bits \<Rightarrow> encode_shard_bit_path l2 bits
      | None \<Rightarrow> l2 @ map (\<lambda>p. ucast p) pfx)"

definition genesis_grid_prefixes :: "u8 \<Rightarrow> u32 list list" where
  "genesis_grid_prefixes network =
     (if network = 0 then map (\<lambda>i. bit_path_to_prefix (prefix_to_bits [of_nat i] 6)) [0..<64] else [[]])"

definition leading_zeros :: "u32 \<Rightarrow> nat" where
  "leading_zeros w = length (takeWhile (\<lambda>i. \<not> bit w i) (rev [0..<32]))"

text \<open>The width of one level and the child index of each of its values.\<close>

definition level_partition :: "u32 list \<Rightarrow> nat \<times> (u32 \<times> u32) list" where
  "level_partition values =
     (let vs = remdups_adj (sort values);
          n = of_nat (length vs) :: u32 in
      if n \<le> 1 then (0, map (\<lambda>v. (v, 0)) vs)
      else
        let width = 32 - leading_zeros (n - 1);
            is_dense = (vs = map of_nat [0..<unat n]);
            scale = max (256 div n) 1 in
        (width, map (\<lambda>v. (v, if is_dense then v else v div scale)) vs))"

definition level_groups :: "u32 list list \<Rightarrow> nat list \<Rightarrow> nat \<Rightarrow> (u32 \<times> nat list) list" where
  "level_groups pfxs continuing depth =
     map (\<lambda>v. (v, filter (\<lambda>i. pfxs ! i ! depth = v) continuing))
       (remdups_adj (sort (map (\<lambda>i. pfxs ! i ! depth) continuing)))"

definition push_level :: "nat \<Rightarrow> u32 \<Rightarrow> nat list \<Rightarrow> bool list list \<Rightarrow> bool list list" where
  "push_level width idx grp out =
     foldl (\<lambda>acc i. acc[i := acc ! i @ map (\<lambda>b. drop_bit b idx AND 1 = 1) (rev [0..<width])]) out grp"

function canonical_bit_paths_rec :: "u32 list list \<Rightarrow> nat list \<Rightarrow> nat \<Rightarrow> bool list list \<Rightarrow> bool list list" where
  "canonical_bit_paths_rec pfxs active depth out =
     (let continuing = filter (\<lambda>i. depth < length (pfxs ! i)) active in
      if continuing = [] then out
      else
        let (width, index_map) = level_partition (map (\<lambda>i. pfxs ! i ! depth) continuing) in
        foldl (\<lambda>acc (v, grp).
            canonical_bit_paths_rec pfxs grp (depth + 1)
              (push_level width (case map_of index_map v of None \<Rightarrow> 0 | Some idx \<Rightarrow> idx) grp acc))
          out (level_groups pfxs continuing depth))"
  by pat_completeness auto

lemma level_group_nonempty:
  assumes "(v, grp) \<in> set (level_groups pfxs continuing depth)"
  shows "grp \<noteq> []" "set grp \<subseteq> set continuing"
    "length grp \<le> length continuing"
proof -
  have v: "v \<in> (\<lambda>i. pfxs ! i ! depth) ` set continuing"
    and g: "grp = filter (\<lambda>i. pfxs ! i ! depth = v) continuing"
    using assms by (auto simp: level_groups_def)
  show "grp \<noteq> []" using v by (auto simp: g filter_empty_conv)
  show "set grp \<subseteq> set continuing" by (auto simp: g)
  show "length grp \<le> length continuing" by (simp add: g)
qed

lemma sum_list_filter_le: "sum_list (map f (filter P xs)) \<le> (sum_list (map f xs) :: nat)"
  by (induction xs) auto

lemma level_group_measure:
  assumes "(v, grp) \<in> set (level_groups pfxs (filter (\<lambda>i. depth < length (pfxs ! i)) active) depth)"
  shows "sum_list (map (\<lambda>i. length (pfxs ! i) - Suc depth) grp) <
    sum_list (map (\<lambda>i. length (pfxs ! i) - depth) active)"
proof -
  let ?c = "filter (\<lambda>i. depth < length (pfxs ! i)) active"
  have g: "grp = filter (\<lambda>i. pfxs ! i ! depth = v) ?c" using assms by (auto simp: level_groups_def)
  have "sum_list (map (\<lambda>i. length (pfxs ! i) - Suc depth) grp) <
      sum_list (map (\<lambda>i. length (pfxs ! i) - depth) grp)"
    using level_group_nonempty [OF assms]
  proof (induction grp rule: list_nonempty_induct)
    case (cons x xs)
    then have "depth < length (pfxs ! x)" by auto
    with cons show ?case by simp
  qed auto
  also have "\<dots> \<le> sum_list (map (\<lambda>i. length (pfxs ! i) - depth) ?c)"
    unfolding g by (rule sum_list_filter_le)
  also have "\<dots> \<le> sum_list (map (\<lambda>i. length (pfxs ! i) - depth) active)"
    by (rule sum_list_filter_le)
  finally show ?thesis .
qed

termination canonical_bit_paths_rec
  by (relation "measure (\<lambda>(pfxs, active, depth, out). sum_list (map (\<lambda>i. length (pfxs ! i) - depth) active))")
    (auto simp: level_group_measure)

declare canonical_bit_paths_rec.simps [simp del]

definition canonical_shard_bit_paths :: "u32 list list \<Rightarrow> bool list list" where
  "canonical_shard_bit_paths pfxs =
     canonical_bit_paths_rec pfxs [0..<length pfxs] 0 (replicate (length pfxs) [])"

subsection \<open>Routing\<close>

definition addr_has_bit_prefix :: "bytes \<Rightarrow> bool list \<Rightarrow> bool" where
  "addr_has_bit_prefix data path \<longleftrightarrow> list_all (\<lambda>(i, want). address_bit data i = want) (enumerate 0 path)"

definition address_shard_index :: "bytes \<Rightarrow> bool list list \<Rightarrow> nat" where
  "address_shard_index data_addr bit_paths =
     (case position (addr_has_bit_prefix data_addr) bit_paths of None \<Rightarrow> 0 | Some i \<Rightarrow> i)"

subsection \<open>Deep splits and reachable regions\<close>

definition split_spine_siblings :: "bool list \<Rightarrow> bool list \<Rightarrow> bool list list" where
  "split_spine_siblings parent branch =
     map (\<lambda>i. take i branch @ [\<not> branch ! i]) [length parent..<length branch]"

definition POSEIDON_ADDRESS_BOUND :: bytes where
  "POSEIDON_ADDRESS_BOUND =
    [0x30, 0x64, 0x4e, 0x72, 0xe1, 0x31, 0xa0, 0x29, 0xb8, 0x50, 0x45, 0xb6, 0x81, 0x81, 0x58, 0x5d,
     0x28, 0x33, 0xe8, 0x48, 0x79, 0xb9, 0x70, 0x91, 0x43, 0xe1, 0xf5, 0x93, 0xf0, 0x00, 0x00, 0x01]"

fun bytes_less :: "bytes \<Rightarrow> bytes \<Rightarrow> bool" where
  "bytes_less (a # as) (b # bs) \<longleftrightarrow> a < b \<or> a = b \<and> bytes_less as bs"
| "bytes_less [] (b # bs) \<longleftrightarrow> True"
| "bytes_less as [] \<longleftrightarrow> False"

definition bit_path_lowest :: "bool list \<Rightarrow> bytes" where
  "bit_path_lowest bit_path =
     foldl (\<lambda>lowest (bt, b). if b
         then lowest[bt div 8 := lowest ! (bt div 8) OR drop_bit (bt mod 8) 0x80] else lowest)
       (replicate 32 0) (enumerate 0 (take 256 bit_path))"

definition bit_path_reaches_outputs :: "bool list \<Rightarrow> bool" where
  "bit_path_reaches_outputs bit_path \<longleftrightarrow> bytes_less (bit_path_lowest bit_path) POSEIDON_ADDRESS_BOUND"

subsection \<open>Bits, paths and their packed form\<close>

lemma low_bit_iff: "drop_bit k (b :: byte) AND 1 = 1 \<longleftrightarrow> bit b k"
  by (metis and_one_eq bit_iff_odd_drop_bit odd_iff_mod_2_eq_one one_neq_zero mod2_eq_if)

lemma address_bit_alt: "address_bit data i \<longleftrightarrow> i div 8 < length data \<and> bit (data ! (i div 8)) (7 - i mod 8)"
  by (simp add: address_bit_def list_get_def low_bit_iff)

lemma bytes_by_bits:
  assumes "length a = length b" "\<And>i. i < 8 * length a \<Longrightarrow> address_bit a i = address_bit b i"
  shows "a = b"
proof (rule nth_equalityI [OF assms(1)])
  fix k assume k: "k < length a"
  have "bit (a ! k) n = bit (b ! k) n" if "n < 8" for n
  proof -
    define m where "m = 7 - n"
    then have m: "m < 8" "n = 7 - m" using that by auto
    have i: "8 * k + m < 8 * length a" using m k by simp
    then show ?thesis using assms(2) [OF i] k assms(1) m by (simp add: address_bit_alt)
  qed
  then show "a ! k = b ! k" by (simp add: byte_eq_iff)
qed

lemma same_bit_position: "i div 8 = j div 8 \<Longrightarrow> 7 - i mod 8 = 7 - j mod 8 \<Longrightarrow> i = (j :: nat)"
proof -
  assume eq: "i div 8 = j div 8" "7 - i mod 8 = 7 - j mod 8"
  have "i mod 8 < 8" "j mod 8 < 8" by simp_all
  with eq(2) have "i mod 8 = j mod 8" by linarith
  with eq(1) show "i = j" by (metis div_mult_mod_eq)
qed

lemma length_set_path_bit [simp]: "length (set_path_bit bs i) = length bs"
  by (simp add: set_path_bit_def)

lemma bit_push_one: "bit (push_bit k 1 :: byte) n \<longleftrightarrow> n = k \<and> k < 8"
  by (auto simp: push_bit_of_1 bit_exp_iff)

lemma address_bit_set:
  assumes "i div 8 < length bs"
  shows "address_bit (set_path_bit bs i) j \<longleftrightarrow> j = i \<or> address_bit bs j"
  using assms same_bit_position [of j i]
  by (auto simp: address_bit_alt set_path_bit_def nth_list_update bit_or_iff bit_push_one simp del: push_bit_of_1)

text \<open>The loop that packs a path, over any byte vector that is long enough.\<close>

definition pack_into :: "bytes \<Rightarrow> bool list \<Rightarrow> bytes" where
  "pack_into bs p = foldl (\<lambda>acc (i, b). if b then set_path_bit acc i else acc) bs (enumerate 0 p)"

lemma pack_into_snoc:
  "pack_into bs (p @ [b]) = (if b then set_path_bit (pack_into bs p) (length p) else pack_into bs p)"
  by (simp add: pack_into_def enumerate_append_eq)

lemma length_pack_into [simp]: "length (pack_into bs p) = length bs"
  by (induction p rule: rev_induct) (auto simp: pack_into_snoc, simp add: pack_into_def)

lemma address_bit_pack_into:
  assumes "length p \<le> 8 * length bs"
  shows "address_bit (pack_into bs p) j \<longleftrightarrow> j < length p \<and> p ! j \<or> address_bit bs j"
  using assms
proof (induction p rule: rev_induct)
  case Nil
  then show ?case by (simp add: pack_into_def)
next
  case (snoc b p)
  then have "length p div 8 < length bs" by simp
  with snoc show ?case by (auto simp: pack_into_snoc address_bit_set nth_append less_Suc_eq)
qed

lemma address_bit_zeros [simp]: "\<not> address_bit (replicate n 0) i"
  by (simp add: address_bit_alt)

lemma pack_bits_alt: "pack_bits p = pack_into (replicate (div_ceil8 (length p)) 0) p"
  by (simp add: pack_bits_def pack_into_def)

lemma length_pack_bits [simp]: "length (pack_bits p) = div_ceil8 (length p)"
  by (simp add: pack_bits_alt)

lemma div_ceil8_fits: "n \<le> 8 * div_ceil8 n" "8 * div_ceil8 n < n + 8"
  by (simp_all add: div_ceil8_def)

lemma address_bit_pack_bits: "address_bit (pack_bits p) i \<longleftrightarrow> i < length p \<and> p ! i"
  by (simp add: pack_bits_alt address_bit_pack_into div_ceil8_fits)

lemma packed_bit:
  "i < 8 * length bs \<Longrightarrow> drop_bit (7 - i mod 8) (bs ! (i div 8)) AND 1 = 1 \<longleftrightarrow> address_bit bs i"
  by (auto simp: address_bit_alt low_bit_iff)

lemma decode_path_alt:
  "decode_shard_bit_path (app @ be_bytes 2 n @ packed) (length app) =
     (if n < 65536 \<and> length packed = div_ceil8 n \<and> (\<forall>i \<in> {n..<8 * length packed}. \<not> address_bit packed i)
      then Some (app, map (address_bit packed) [0..<n]) else
      decode_shard_bit_path (app @ be_bytes 2 n @ packed) (length app))"
proof -
  have "decode_shard_bit_path (app @ be_bytes 2 n @ packed) (length app) = Some (app, map (address_bit packed) [0..<n])"
    if n: "n < 65536" "length packed = div_ceil8 n" "\<forall>i \<in> {n..<8 * length packed}. \<not> address_bit packed i"
  proof -
    have head: "take 2 (be_bytes 2 n @ packed) = be_bytes 2 n" "drop (length app + 2) (app @ be_bytes 2 n @ packed) = packed"
      by simp_all
    have bits: "map (\<lambda>i. drop_bit (7 - i mod 8) (packed ! (i div 8)) AND 1 = 1) [0..<n] = map (address_bit packed) [0..<n]"
      using n(2) div_ceil8_fits(1) [of n] by (intro map_cong refl) (simp add: packed_bit)
    have pad: "\<not> list_ex (\<lambda>i. drop_bit (7 - i mod 8) (packed ! (i div 8)) AND 1 = 1) [n..<div_ceil8 n * 8]"
      using n(2,3) by (auto simp: list_ex_iff packed_bit mult.commute)
    have "from_be (be_bytes 2 n) = n" using n(1) by (simp add: from_be_bytes)
    then show ?thesis
      using n(2) by (simp add: decode_shard_bit_path_def SHARD_BIT_LEN_BYTES_def head bits pad Let_def)
  qed
  then show ?thesis by simp
qed

lemma decode_encode_path:
  assumes "length p < 65536"
  shows "decode_shard_bit_path (encode_shard_bit_path app p) (length app) = Some (app, p)"
proof -
  have "map (address_bit (pack_bits p)) [0..<length p] = p"
    by (rule nth_equalityI) (simp_all add: address_bit_pack_bits)
  then show ?thesis
    unfolding encode_shard_bit_path_def
    by (subst decode_path_alt) (simp add: assms address_bit_pack_bits)
qed

lemma if_None_else: "(if a then None else x) = Some r \<longleftrightarrow> \<not> a \<and> x = Some r"
  by simp

lemma decode_path_Some:
  "decode_shard_bit_path flt n = Some r \<longleftrightarrow> n + 2 \<le> length flt \<and>
     length flt = n + 2 + div_ceil8 (from_be (take 2 (drop n flt))) \<and>
     \<not> list_ex (\<lambda>i. drop_bit (7 - i mod 8) (drop (n + 2) flt ! (i div 8)) AND 1 = 1)
       [from_be (take 2 (drop n flt))..<div_ceil8 (from_be (take 2 (drop n flt))) * 8] \<and>
     r = (take n flt, map (\<lambda>i. drop_bit (7 - i mod 8) (drop (n + 2) flt ! (i div 8)) AND 1 = 1)
       [0..<from_be (take 2 (drop n flt))])"
  unfolding decode_shard_bit_path_def SHARD_BIT_LEN_BYTES_def Let_def if_None_else not_less not_not option.inject
  by (simp only: eq_commute [of r])

lemma encode_decode_path:
  assumes "decode_shard_bit_path flt n = Some (app, p)"
  shows "flt = encode_shard_bit_path app p" "length app = n" "length p < 65536"
proof -
  let ?len = "take 2 (drop n flt)" and ?packed = "drop (n + 2) flt"
  note d = assms [unfolded decode_path_Some prod.inject]
  note len = conjunct1 [OF d] and fit = conjunct1 [OF conjunct2 [OF d]]
    and padding = conjunct1 [OF conjunct2 [OF conjunct2 [OF d]]]
    and app = conjunct1 [OF conjunct2 [OF conjunct2 [OF conjunct2 [OF d]]]]
    and p = conjunct2 [OF conjunct2 [OF conjunct2 [OF conjunct2 [OF d]]]]
  have size: "length ?packed = div_ceil8 (from_be ?len)"
    unfolding length_drop by (subst fit) (rule diff_add_inverse)
  have pad: "\<forall>i \<in> {from_be ?len..<8 * length ?packed}. \<not> address_bit ?packed i"
  proof
    fix i assume i: "i \<in> {from_be ?len..<8 * length ?packed}"
    then have "\<not> drop_bit (7 - i mod 8) (?packed ! (i div 8)) AND 1 = 1"
      using padding unfolding size list_ex_iff by (force simp: mult.commute)
    then show "\<not> address_bit ?packed i" using i packed_bit [of i ?packed] by simp
  qed
  have p': "p = map (address_bit ?packed) [0..<from_be ?len]"
    unfolding p
  proof (intro map_cong refl packed_bit)
    fix i assume "i \<in> set [0..<from_be ?len]"
    then show "i < 8 * length ?packed" unfolding size using div_ceil8_fits(1) [of "from_be ?len"] by simp
  qed
  have "?packed = pack_bits p"
  proof (rule bytes_by_bits)
    show "length ?packed = length (pack_bits p)" unfolding length_pack_bits size p' by simp
    fix i assume "i < 8 * length ?packed"
    then show "address_bit ?packed i = address_bit (pack_bits p) i"
      using pad by (cases "i < from_be ?len") (auto simp: address_bit_pack_bits p')
  qed
  moreover have l2: "length ?len = 2" using len by simp
  then have "be_bytes 2 (length p) = ?len" using be_from_bytes [of ?len] by (simp add: p')
  moreover have "flt = take n flt @ ?len @ ?packed"
    using append_take_drop_id [of 2 "drop n flt"] by (simp add: add.commute)
  ultimately show "flt = encode_shard_bit_path app p" by (simp add: encode_shard_bit_path_def app)
  show "length app = n" using len by (simp add: app)
  show "length p < 65536" using from_be_less [of ?len] l2 by (simp add: p')
qed

lemma path_levels_bits: "path_levels (map (\<lambda>b. if b then 1 else 0) p) = Some p"
  by (induction p) auto

lemma path_levels_Some: "path_levels ls = Some p \<Longrightarrow> ls = map (\<lambda>b. if b then 1 else 0) p"
  by (induction ls arbitrary: p) (auto split: if_splits)

lemma prefix_bits_round_trip [simp]: "shard_bit_path_from_prefix (bit_path_to_prefix p) = Some p"
  by (simp add: shard_bit_path_from_prefix_def bit_path_to_prefix_def path_levels_bits)

lemma sentinel_prefix_unique: "shard_bit_path_from_prefix ls = Some p \<longleftrightarrow> ls = bit_path_to_prefix p"
proof
  assume "shard_bit_path_from_prefix ls = Some p"
  then show "ls = bit_path_to_prefix p"
    by (auto simp: shard_bit_path_from_prefix_def bit_path_to_prefix_def path_levels_Some split: list.splits if_splits)
qed simp

subsection \<open>Partitions of the address space\<close>

text \<open>
  A stream of bits runs through a path when the path is its beginning. A grid is sound when every stream runs
  through exactly one of its paths: no address is left out, none is claimed twice.
\<close>

definition on_path :: "(nat \<Rightarrow> bool) \<Rightarrow> bool list \<Rightarrow> bool" where
  "on_path f p \<longleftrightarrow> p = map f [0..<length p]"

definition shard_partition :: "bool list list \<Rightarrow> bool" where
  "shard_partition ps \<longleftrightarrow> distinct ps \<and> (\<forall>f. \<exists>!p. p \<in> set ps \<and> on_path f p)"

lemma on_path_nth: "on_path f p \<longleftrightarrow> (\<forall>i < length p. p ! i = f i)"
  unfolding on_path_def list_eq_iff_nth_eq by simp

lemma on_path_append: "on_path f (p @ q) \<longleftrightarrow> on_path f p \<and> on_path (\<lambda>i. f (length p + i)) q"
proof
  assume l: "on_path f (p @ q)"
  have "p ! i = f i" if "i < length p" for i
    using l that by (auto simp: on_path_nth nth_append dest: spec [of _ i])
  moreover have "q ! i = f (length p + i)" if "i < length q" for i
    using l that by (auto simp: on_path_nth nth_append dest: spec [of _ "length p + i"])
  ultimately show "on_path f p \<and> on_path (\<lambda>i. f (length p + i)) q" by (simp add: on_path_nth)
qed (auto simp: on_path_nth nth_append)

lemma on_path_snoc: "on_path f (p @ [b]) \<longleftrightarrow> on_path f p \<and> b = f (length p)"
  by (simp add: on_path_append) (simp add: on_path_nth)

lemma on_path_self: "on_path (\<lambda>i. i < length p \<and> p ! i) p"
  by (simp add: on_path_nth)

lemma addr_has_bit_prefix_alt: "addr_has_bit_prefix data p \<longleftrightarrow> on_path (address_bit data) p"
  by (auto simp: addr_has_bit_prefix_def on_path_nth list_all_iff in_set_enumerate_eq)

lemma partition_incomparable:
  assumes "shard_partition ps" "p \<in> set ps" "p @ q \<in> set ps"
  shows "q = []"
proof -
  let ?f = "\<lambda>i. i < length (p @ q) \<and> (p @ q) ! i"
  have "on_path ?f (p @ q)" by (rule on_path_self)
  moreover from this have "on_path ?f p" unfolding on_path_append by simp
  ultimately have "p = p @ q" using assms unfolding shard_partition_def by metis
  then show ?thesis by simp
qed

text \<open>Routing on a sound grid: an address goes to the one shard whose path it has.\<close>

lemma route_partition:
  assumes "shard_partition ps" "i < length ps"
  shows "address_shard_index data ps = i \<longleftrightarrow> addr_has_bit_prefix data (ps ! i)"
proof -
  obtain p where p: "p \<in> set ps" "on_path (address_bit data) p"
    and uniq: "\<And>q. q \<in> set ps \<Longrightarrow> on_path (address_bit data) q \<Longrightarrow> q = p"
    using assms(1) unfolding shard_partition_def by metis
  have "position (addr_has_bit_prefix data) ps \<noteq> None"
    using p by (auto simp: position_None addr_has_bit_prefix_alt)
  then obtain k where k: "position (addr_has_bit_prefix data) ps = Some k" by blast
  then have "k < length ps" "addr_has_bit_prefix data (ps ! k)" using position_Some by fastforce+
  moreover have "j = k" if "j < length ps" "addr_has_bit_prefix data (ps ! j)" for j
  proof -
    have "ps ! j = ps ! k" using that \<open>k < length ps\<close> \<open>addr_has_bit_prefix data (ps ! k)\<close> uniq
      by (metis addr_has_bit_prefix_alt nth_mem)
    then show ?thesis using assms(1) that(1) \<open>k < length ps\<close> by (simp add: shard_partition_def nth_eq_iff_index_eq)
  qed
  ultimately show ?thesis unfolding address_shard_index_def k option.case using assms(2) by metis
qed

subsection \<open>Deep splits keep a partition\<close>

definition split_paths :: "bool list \<Rightarrow> bool list \<Rightarrow> bool list list" where
  "split_paths parent branch =
     [branch @ [False], branch @ [True]] @ split_spine_siblings parent branch"

lemma spine_set:
  "set (split_spine_siblings parent branch) = {take i branch @ [\<not> branch ! i] |i. length parent \<le> i \<and> i < length branch}"
  by (auto simp: split_spine_siblings_def)

lemma spine_distinct: "distinct (split_spine_siblings parent branch)"
  unfolding split_spine_siblings_def distinct_map
proof (intro conjI inj_onI)
  fix i j assume ij: "i \<in> set [length parent..<length branch]" "j \<in> set [length parent..<length branch]"
    and eq: "take i branch @ [\<not> branch ! i] = take j branch @ [\<not> branch ! j]"
  show "i = j" using ij arg_cong [OF eq, of length] by simp
qed simp

lemma split_paths_distinct: "distinct (split_paths parent branch)"
proof -
  have "length q \<le> length branch" if "q \<in> set (split_spine_siblings parent branch)" for q
    using that by (auto simp: spine_set)
  then have "branch @ [b] \<notin> set (split_spine_siblings parent branch)" for b by fastforce
  then show ?thesis by (simp add: split_paths_def spine_distinct)
qed

lemma on_sibling:
  "i < length b \<Longrightarrow> on_path f (take i b @ [\<not> b ! i]) \<longleftrightarrow> (\<forall>j < i. b ! j = f j) \<and> b ! i \<noteq> f i"
  by (auto simp: on_path_snoc) (auto simp: on_path_nth)

text \<open>A stream through the parent runs through exactly one of the paths that replace it.\<close>

lemma split_paths_cover:
  assumes "on_path f parent" "branch = parent @ rest"
  shows "\<exists>!q. q \<in> set (split_paths parent branch) \<and> on_path f q"
proof (cases "on_path f branch")
  case True
  have "\<not> on_path f q" if "q \<in> set (split_spine_siblings parent branch)" for q
    using that True by (auto simp: spine_set on_sibling) (auto simp: on_path_nth)
  moreover have "on_path f (branch @ [b]) \<longleftrightarrow> b = f (length branch)" for b
    using True by (auto simp: on_path_snoc)
  ultimately show ?thesis
    by (intro ex1I [of _ "branch @ [f (length branch)]"]) (auto simp: split_paths_def)
next
  case False
  define i where "i = (LEAST i. i < length branch \<and> branch ! i \<noteq> f i)"
  have ex: "\<exists>i. i < length branch \<and> branch ! i \<noteq> f i" using False by (simp add: on_path_nth)
  have i: "i < length branch" "branch ! i \<noteq> f i" using LeastI_ex [OF ex] by (simp_all add: i_def)
  have below: "branch ! j = f j" if "j < i" for j
    using not_less_Least [of j, folded i_def] that i(1) unfolding i_def by fastforce
  have par: "length parent \<le> i"
    using i assms by (auto simp: on_path_nth nth_append not_less [symmetric])
  show ?thesis
  proof (rule ex1I [of _ "take i branch @ [\<not> branch ! i]"])
    show "take i branch @ [\<not> branch ! i] \<in> set (split_paths parent branch) \<and> on_path f (take i branch @ [\<not> branch ! i])"
      unfolding on_sibling [OF i(1)] using i below par by (auto simp: split_paths_def spine_set)
    fix q assume q: "q \<in> set (split_paths parent branch) \<and> on_path f q"
    then obtain k where k: "q = take k branch @ [\<not> branch ! k]" "k < length branch"
      using False by (auto simp: split_paths_def spine_set on_path_append)
    then have "\<forall>j < k. branch ! j = f j" "branch ! k \<noteq> f k" using q by (auto simp: on_sibling)
    then have "k = i" using i below by (metis linorder_neqE_nat)
    then show "q = take i branch @ [\<not> branch ! i]" by (simp add: k)
  qed
qed

lemma split_paths_extend:
  assumes "q \<in> set (split_paths parent branch)" "branch = parent @ rest"
  obtains r where "q = parent @ r" "r \<noteq> []"
proof -
  have "\<exists>r. q = parent @ r \<and> r \<noteq> []"
    using assms by (fastforce simp: split_paths_def spine_set)
  then show thesis using that by blast
qed

lemma unique_right: "\<exists>!q. q \<in> B \<and> P q \<Longrightarrow> (\<And>q. q \<in> A \<Longrightarrow> \<not> P q) \<Longrightarrow> \<exists>!q. q \<in> A \<union> B \<and> P q"
  by blast

lemma unique_left: "\<exists>!q. q \<in> A \<and> P q \<Longrightarrow> (\<And>q. q \<in> B \<Longrightarrow> \<not> P q) \<Longrightarrow> \<exists>!q. q \<in> A \<union> B \<and> P q"
  by blast

lemma split_partition:
  assumes "shard_partition ps" "parent \<in> set ps" "branch = parent @ rest"
  shows "shard_partition (filter (\<lambda>p. p \<noteq> parent) ps @ split_paths parent branch)"
  unfolding shard_partition_def
proof (intro conjI allI)
  have "q \<notin> set ps" if q: "q \<in> set (split_paths parent branch)" for q
    using split_paths_extend [OF q assms(3)] partition_incomparable [OF assms(1,2)] by metis
  then show "distinct (filter (\<lambda>p. p \<noteq> parent) ps @ split_paths parent branch)"
    using assms(1) split_paths_distinct by (auto simp: shard_partition_def)
  fix f
  obtain p where p: "p \<in> set ps" "on_path f p" and uniq: "\<And>q. q \<in> set ps \<Longrightarrow> on_path f q \<Longrightarrow> q = p"
    using assms(1) unfolding shard_partition_def by metis
  let ?old = "set (filter (\<lambda>p. p \<noteq> parent) ps)" and ?new = "set (split_paths parent branch)"
  show "\<exists>!q. q \<in> set (filter (\<lambda>p. p \<noteq> parent) ps @ split_paths parent branch) \<and> on_path f q"
    unfolding set_append
  proof (cases "p = parent")
    case True
    then have "\<exists>!q. q \<in> ?new \<and> on_path f q" using split_paths_cover [OF _ assms(3)] p(2) by blast
    moreover have "\<not> on_path f q" if "q \<in> ?old" for q using uniq that True by auto
    ultimately show "\<exists>!q. q \<in> ?old \<union> ?new \<and> on_path f q" by (rule unique_right)
  next
    case False
    have "\<not> on_path f q" if q: "q \<in> ?new" for q
      using split_paths_extend [OF q assms(3)] uniq [OF assms(2)] False by (metis on_path_append)
    moreover have "p \<in> ?old" using p False by simp
    then have "\<exists>!q. q \<in> ?old \<and> on_path f q" using p(2) uniq filter_is_subset [of _ ps] by blast
    ultimately show "\<exists>!q. q \<in> ?old \<union> ?new \<and> on_path f q" by (rule unique_left [rotated])
  qed
qed

subsection \<open>Where outputs can land\<close>

lemma bytes_less_trans: "bytes_less a b \<Longrightarrow> list_all2 (\<le>) c a \<Longrightarrow> bytes_less c b"
proof (induction a b arbitrary: c rule: bytes_less.induct)
  case (1 a as b bs)
  then obtain d ds where "c = d # ds" "d \<le> a" "list_all2 (\<le>) ds as" by (auto simp: list_all2_Cons2)
  with 1 show ?case by (auto simp: le_less intro: less_trans)
qed auto

lemma subset_bits_le:
  assumes "\<And>n. bit (a :: byte) n \<Longrightarrow> bit b n"
  shows "a \<le> b"
proof -
  have "a AND b = a" by (rule bit_eqI) (use assms in \<open>auto simp: bit_and_iff\<close>)
  then show ?thesis by (metis word_and_le1)
qed

lemma top_bit_shift: "n < 8 \<Longrightarrow> drop_bit n (0x80 :: byte) = push_bit (7 - n) 1"
proof -
  assume "n < 8"
  then consider "n = 0" | "n = 1" | "n = 2" | "n = 3" | "n = 4" | "n = 5" | "n = 6" | "n = 7" by linarith
  then show ?thesis by cases simp_all
qed

lemma bit_path_lowest_alt: "bit_path_lowest p = pack_into (replicate 32 0) (take 256 p)"
proof -
  have "i mod 8 < 8" for i :: nat by simp
  note shift = this [THEN top_bit_shift]
  show ?thesis unfolding bit_path_lowest_def pack_into_def set_path_bit_def shift ..
qed

lemma lowest_bits: "address_bit (bit_path_lowest p) i \<longleftrightarrow> i < length p \<and> i < 256 \<and> p ! i"
  by (auto simp: bit_path_lowest_alt address_bit_pack_into)

lemma lowest_on_path: "length p \<le> 256 \<Longrightarrow> addr_has_bit_prefix (bit_path_lowest p) p"
  by (simp add: addr_has_bit_prefix_alt on_path_nth lowest_bits)

lemma length_lowest [simp]: "length (bit_path_lowest p) = 32"
  by (simp add: bit_path_lowest_alt)

lemma bit_from_address: "n < 8 \<Longrightarrow> k < length bs \<Longrightarrow> bit (bs ! k) n \<longleftrightarrow> address_bit bs (8 * k + (7 - n))"
proof -
  assume "n < 8" "k < length bs"
  moreover define m where "m = 7 - n"
  ultimately have "m < 8" "n = 7 - m" "k < length bs" by auto
  then show ?thesis by (simp add: address_bit_alt)
qed

lemma lowest_least:
  assumes "addr_has_bit_prefix data p" "length data = 32" "length p \<le> 256"
  shows "list_all2 (\<le>) (bit_path_lowest p) data"
  unfolding list_all2_conv_all_nth
proof (intro conjI allI impI)
  fix k assume k: "k < length (bit_path_lowest p)"
  show "bit_path_lowest p ! k \<le> data ! k"
  proof (rule subset_bits_le)
    fix n assume "bit (bit_path_lowest p ! k) n"
    moreover from this have n: "n < 8" using byte_bit_beyond [of n] by (meson not_le)
    ultimately have "address_bit (bit_path_lowest p) (8 * k + (7 - n))" using bit_from_address k by blast
    then have "address_bit data (8 * k + (7 - n))"
      using assms(1) by (auto simp: lowest_bits addr_has_bit_prefix_alt on_path_nth)
    then show "bit (data ! k) n" using bit_from_address [OF n, of k data] k assms(2) by simp
  qed
qed (simp add: assms)

end
