(* ===== verification/Shard_Roots.thy ===== *)
theory Shard_Roots
  imports Shard_Paths
begin

text \<open>
  The application root over the roots of its shards (\<^verbatim>\<open>quil-forest/src/lib.rs\<close>): the complete binary tree
  over a uniform grid, the sparse tree over shards at any depth, and the membership proofs of one shard in each.
  The hash is an argument; an absent shard is the all-zero node.
\<close>

subsection \<open>Definitions\<close>

definition zero_root :: bytes where "zero_root = replicate 32 0"

definition hash_pair :: "(bytes \<Rightarrow> bytes) \<Rightarrow> bytes \<Rightarrow> bytes \<Rightarrow> bytes" where
  "hash_pair sha l r = sha (l @ r)"

text \<open>
  \<^verbatim>\<open>chunks(2)\<close>, with both halves of each chunk read: a lone last element is out of range.
\<close>

fun pair_level :: "(bytes \<Rightarrow> bytes) \<Rightarrow> bytes list \<Rightarrow> bytes list result" where
  "pair_level sha [] = Ok []"
| "pair_level sha [a] = Err Panic"
| "pair_level sha (a # b # rest) =
     try_then (pair_level sha rest) (\<lambda>up. Ok (hash_pair sha a b # up))"

lemma pair_level_length: "pair_level sha xs = Ok ys \<Longrightarrow> length xs = 2 * length ys"
  by (induction sha xs arbitrary: ys rule: pair_level.induct) (auto simp: try_then_Ok)

definition uniform_level :: "nat \<Rightarrow> (u32 \<rightharpoonup> bytes) \<Rightarrow> bytes list" where
  "uniform_level shard_depth shard_roots =
     map (\<lambda>i. case shard_roots (of_nat i) of None \<Rightarrow> zero_root | Some r \<Rightarrow> r)
       [0..<unat (push_bit (shard_depth mod 32) (1 :: u32))]"

function fold_level :: "(bytes \<Rightarrow> bytes) \<Rightarrow> bytes list \<Rightarrow> bytes result" where
  "fold_level sha level =
     (if 1 < length level then case pair_level sha level of Err e \<Rightarrow> Err e | Ok up \<Rightarrow> fold_level sha up
      else Ok (case level of [] \<Rightarrow> zero_root | r # _ \<Rightarrow> r))"
  by pat_completeness auto
termination
  by (relation "measure (length \<circ> snd)") (use pair_level_length in force)+

declare fold_level.simps [simp del]

definition app_root_from_shards :: "(bytes \<Rightarrow> bytes) \<Rightarrow> nat \<Rightarrow> (u32 \<rightharpoonup> bytes) \<Rightarrow> bytes result" where
  "app_root_from_shards sha shard_depth shard_roots = fold_level sha (uniform_level shard_depth shard_roots)"

function siblings_up :: "(bytes \<Rightarrow> bytes) \<Rightarrow> bytes list \<Rightarrow> nat \<Rightarrow> bytes list result" where
  "siblings_up sha level idx =
     (if 1 < length level then
        (case list_get level (if even idx then idx + 1 else idx - 1) of
           None \<Rightarrow> Err Panic
         | Some sib \<Rightarrow> (case pair_level sha level of
             Err e \<Rightarrow> Err e
           | Ok up \<Rightarrow> try_then (siblings_up sha up (idx div 2)) (\<lambda>rest. Ok (sib # rest))))
      else Ok [])"
  by pat_completeness auto
termination
  by (relation "measure (\<lambda>(sha, level, idx). length level)") (use pair_level_length in force)+

declare siblings_up.simps [simp del]

definition app_membership_path :: "(bytes \<Rightarrow> bytes) \<Rightarrow> nat \<Rightarrow> u32 \<Rightarrow> (u32 \<rightharpoonup> bytes) \<Rightarrow> bytes list result" where
  "app_membership_path sha shard_depth idx shard_roots =
     siblings_up sha (uniform_level shard_depth shard_roots) (unat idx)"

fun climb :: "(bytes \<Rightarrow> bytes) \<Rightarrow> nat \<Rightarrow> bytes \<Rightarrow> bytes list \<Rightarrow> bytes" where
  "climb sha idx h [] = h"
| "climb sha idx h (sib # rest) =
     climb sha (idx div 2) (if even idx then hash_pair sha h sib else hash_pair sha sib h) rest"

definition app_root_from_shard :: "(bytes \<Rightarrow> bytes) \<Rightarrow> u32 \<Rightarrow> bytes \<Rightarrow> bytes list \<Rightarrow> bytes" where
  "app_root_from_shard sha idx shard_root siblings = climb sha (unat idx) shard_root siblings"

text \<open>The sparse tree: a path that ends above the level it is split on is an index out of range.\<close>

lemma path_split_measure:
  fixes xs :: "(bool list \<times> bytes) list"
  assumes "\<forall>x \<in> set xs. d < length (fst x)" "xs \<noteq> []"
  shows "sum_list (map (\<lambda>x. length (fst x) - Suc d) (filter P xs)) < sum_list (map (\<lambda>x. length (fst x) - d) xs)"
proof -
  have "sum_list (map (\<lambda>x. length (fst x) - Suc d) (filter P xs)) \<le> sum_list (map (\<lambda>x. length (fst x) - Suc d) xs)"
    by (rule sum_list_filter_le)
  also have "\<dots> < sum_list (map (\<lambda>x. length (fst x) - d) xs)"
    using assms(2,1)
  proof (induction xs rule: list_nonempty_induct)
    case (cons x xs)
    then have "d < length (fst x)" by simp
    with cons show ?case by simp
  qed auto
  finally show ?thesis .
qed

function build_root :: "(bytes \<Rightarrow> bytes) \<Rightarrow> (bool list \<times> bytes) list \<Rightarrow> nat \<Rightarrow> bytes result" where
  "build_root sha shards depth =
     (if shards = [] then Ok zero_root
      else if length shards = 1 \<and> length (fst (hd shards)) = depth then Ok (snd (hd shards))
      else if list_ex (\<lambda>x. length (fst x) \<le> depth) shards then Err Panic
      else
        try_then (build_root sha (filter (\<lambda>x. \<not> fst x ! depth) shards) (depth + 1)) (\<lambda>l.
        try_then (build_root sha (filter (\<lambda>x. fst x ! depth) shards) (depth + 1)) (\<lambda>r.
          Ok (hash_pair sha l r))))"
  by pat_completeness auto
termination
  by (relation "measure (\<lambda>(sha, shards, depth). sum_list (map (\<lambda>x. length (fst x) - depth) shards))")
    (use path_split_measure in \<open>force simp: list_ex_iff not_le\<close>)+

declare build_root.simps [simp del]

definition app_root_from_shard_paths :: "(bytes \<Rightarrow> bytes) \<Rightarrow> (bool list \<times> bytes) list \<Rightarrow> bytes result" where
  "app_root_from_shard_paths sha shards =
     (if shards = [] then Ok zero_root
      else if length shards = 1 \<and> fst (hd shards) = [] then Ok (snd (hd shards))
      else build_root sha shards 0)"

fun collect_results :: "'a result list \<Rightarrow> 'a list result" where
  "collect_results [] = Ok []"
| "collect_results (r # rs) = try_then r (\<lambda>x. try_then (collect_results rs) (\<lambda>xs. Ok (x # xs)))"

definition sibling_shards :: "(bool list \<times> bytes) list \<Rightarrow> bool list \<Rightarrow> nat \<Rightarrow> (bool list \<times> bytes) list" where
  "sibling_shards shards target d =
     map (\<lambda>(p, r). (drop (d + 1) p, r))
       (filter (\<lambda>(p, _). d < length p \<and> take d p = take d target \<and> p ! d \<noteq> target ! d) shards)"

definition app_membership_path_dynamic ::
  "(bytes \<Rightarrow> bytes) \<Rightarrow> (bool list \<times> bytes) list \<Rightarrow> bool list \<Rightarrow> bytes list result" where
  "app_membership_path_dynamic sha shards target =
     collect_results (map (\<lambda>d. app_root_from_shard_paths sha (sibling_shards shards target d)) [0..<length target])"

definition app_root_from_shard_path :: "(bytes \<Rightarrow> bytes) \<Rightarrow> bool list \<Rightarrow> bytes \<Rightarrow> bytes list \<Rightarrow> bytes" where
  "app_root_from_shard_path sha target shard_root siblings =
     foldr (\<lambda>(b, sib) h. if b then hash_pair sha sib h else hash_pair sha h sib)
       (zip target siblings) shard_root"

subsection \<open>The uniform grid\<close>

text \<open>The root of a complete tree, from the top.\<close>

fun tree_root :: "(bytes \<Rightarrow> bytes) \<Rightarrow> nat \<Rightarrow> bytes list \<Rightarrow> bytes" where
  "tree_root sha 0 xs = hd xs"
| "tree_root sha (Suc d) xs =
     hash_pair sha (tree_root sha d (take (2 ^ d) xs)) (tree_root sha d (drop (2 ^ d) xs))"

lemma pair_level_append:
  "pair_level sha xs = Ok us \<Longrightarrow> pair_level sha ys = Ok vs \<Longrightarrow> pair_level sha (xs @ ys) = Ok (us @ vs)"
  by (induction sha xs arbitrary: us rule: pair_level.induct) (auto simp: try_then_Ok)

lemma pair_level_root:
  assumes "length xs = 2 ^ Suc d"
  shows "\<exists>ys. pair_level sha xs = Ok ys \<and> length ys = 2 ^ d \<and> tree_root sha d ys = tree_root sha (Suc d) xs"
  using assms
proof (induction d arbitrary: xs)
  case 0
  then obtain a b where "xs = [a, b]" by (auto simp: length_Suc_conv numeral_2_eq_2)
  then show ?case by simp
next
  case (Suc d)
  let ?n = "2 ^ Suc d :: nat"
  have len: "length (take ?n xs) = ?n" "length (drop ?n xs) = ?n" using Suc.prems by simp_all
  obtain us where us: "pair_level sha (take ?n xs) = Ok us" "length us = 2 ^ d"
    "tree_root sha d us = tree_root sha (Suc d) (take ?n xs)" using Suc.IH [OF len(1)] by blast
  obtain vs where vs: "pair_level sha (drop ?n xs) = Ok vs" "length vs = 2 ^ d"
    "tree_root sha d vs = tree_root sha (Suc d) (drop ?n xs)" using Suc.IH [OF len(2)] by blast
  have "pair_level sha xs = Ok (us @ vs)" using pair_level_append [OF us(1) vs(1)] by simp
  moreover have "tree_root sha (Suc d) (us @ vs) = tree_root sha (Suc (Suc d)) xs"
    using us(2,3) vs(2,3) by (simp del: tree_root.simps add: tree_root.simps(2) [of sha d "us @ vs"] tree_root.simps(2) [of sha "Suc d" xs])
  ultimately show ?case using us(2) vs(2) by auto
qed

lemma fold_level_root: "length xs = 2 ^ d \<Longrightarrow> fold_level sha xs = Ok (tree_root sha d xs)"
proof (induction d arbitrary: xs)
  case 0
  then show ?case by (auto simp: fold_level.simps [of sha xs] length_Suc_conv)
next
  case (Suc d)
  obtain ys where ys: "pair_level sha xs = Ok ys" "length ys = 2 ^ d" "tree_root sha d ys = tree_root sha (Suc d) xs"
    using pair_level_root [OF Suc.prems] by blast
  have "1 < length xs" unfolding Suc.prems by (rule one_less_power) simp_all
  then show ?case by (simp add: fold_level.simps [of sha xs] ys(1) Suc.IH [OF ys(2)] ys(3) del: tree_root.simps)
qed

lemma pair_level_nth:
  "pair_level sha xs = Ok ys \<Longrightarrow> i < length ys \<Longrightarrow> ys ! i = hash_pair sha (xs ! (2 * i)) (xs ! (2 * i + 1))"
proof (induction sha xs arbitrary: ys i rule: pair_level.induct)
  case (3 sha a b rest)
  then obtain up where up: "pair_level sha rest = Ok up" "ys = hash_pair sha a b # up" by (auto simp: try_then_Ok)
  then show ?case using 3 by (cases i) auto
qed auto

lemma siblings_climb:
  assumes "length xs = 2 ^ d" "i < 2 ^ d"
  shows "\<exists>sibs. siblings_up sha xs i = Ok sibs \<and> length sibs = d \<and> climb sha i (xs ! i) sibs = tree_root sha d xs"
  using assms
proof (induction d arbitrary: xs i)
  case 0
  then show ?case by (auto simp: siblings_up.simps [of sha xs] length_Suc_conv)
next
  case (Suc d)
  obtain ys where ys: "pair_level sha xs = Ok ys" "length ys = 2 ^ d" "tree_root sha d ys = tree_root sha (Suc d) xs"
    using pair_level_root [OF Suc.prems(1)] by blast
  have half: "i div 2 < 2 ^ d" using Suc.prems(2) by simp
  obtain sibs where sibs: "siblings_up sha ys (i div 2) = Ok sibs" "length sibs = d"
    "climb sha (i div 2) (ys ! (i div 2)) sibs = tree_root sha d ys" using Suc.IH [OF ys(2) half] by blast
  let ?j = "if even i then i + 1 else i - 1"
  have j: "?j < length xs" using Suc.prems by (auto elim!: evenE)
  have node: "ys ! (i div 2) = (if even i then hash_pair sha (xs ! i) (xs ! ?j) else hash_pair sha (xs ! ?j) (xs ! i))"
    using pair_level_nth [OF ys(1), of "i div 2"] half ys(2) by (auto elim!: evenE oddE)
  have "1 < length xs" unfolding Suc.prems(1) by (rule one_less_power) simp_all
  then have "siblings_up sha xs i = Ok (xs ! ?j # sibs)"
    using j ys(1) sibs(1) by (simp add: siblings_up.simps [of sha xs])
  moreover have "climb sha i (xs ! i) (xs ! ?j # sibs) = tree_root sha (Suc d) xs"
    using sibs(3) ys(3) node by (simp del: tree_root.simps split: if_splits)
  ultimately show ?case using sibs(2) by (intro exI [of _ "xs ! ?j # sibs"]) simp
qed

lemma length_uniform_level:
  assumes "d < 32"
  shows "length (uniform_level d roots) = 2 ^ d"
proof -
  have "unat (push_bit d (1 :: u32)) = take_bit 32 (push_bit d 1)"
    by (simp add: unsigned_push_bit_eq del: push_bit_of_1)
  also have "\<dots> = 2 ^ d"
    using assms power_strict_increasing [of d 32 "2 :: nat"] by (simp add: push_bit_of_1 take_bit_nat_eq_self_iff)
  finally have "unat (push_bit d (1 :: u32)) = 2 ^ d" .
  then show ?thesis using assms by (simp add: uniform_level_def)
qed

lemma nth_uniform_level:
  "d < 32 \<Longrightarrow> unat i < 2 ^ d \<Longrightarrow>
    uniform_level d roots ! unat i = (case roots i of None \<Rightarrow> zero_root | Some r \<Rightarrow> r)"
  using length_uniform_level [of d roots] by (simp add: uniform_level_def)

subsection \<open>The uniform grid is a case of the sparse tree\<close>

definition index_bits :: "nat \<Rightarrow> nat \<Rightarrow> bool list" where
  "index_bits d i = map (\<lambda>j. bit i j) (rev [0..<d])"

lemma index_bits_Suc [simp]: "index_bits (Suc d) i = bit i d # index_bits d i"
  by (simp add: index_bits_def)

lemma length_index_bits [simp]: "length (index_bits d i) = d"
  by (simp add: index_bits_def)

lemma index_bits_high: "i < 2 ^ d \<Longrightarrow> index_bits d (2 ^ d + i) = index_bits d i"
proof -
  assume i: "i < 2 ^ d"
  have "bit (2 ^ d + i) j = bit i j" if "j < d" for j
  proof -
    have "take_bit d (2 ^ d + i) = take_bit d i" by (simp add: take_bit_eq_mod)
    then show ?thesis using that by (metis bit_take_bit_iff)
  qed
  then show ?thesis by (simp add: index_bits_def)
qed

lemma top_bit: "i < 2 ^ Suc d \<Longrightarrow> bit i d \<longleftrightarrow> 2 ^ d \<le> (i :: nat)"
proof -
  assume "i < 2 ^ Suc d"
  then have "i div 2 ^ d < 2" by (simp add: div_less_iff_less_mult)
  then have "odd (i div 2 ^ d) \<longleftrightarrow> i div 2 ^ d = 1" by (auto simp: less_2_cases_iff)
  also have "\<dots> \<longleftrightarrow> 2 ^ d \<le> i"
    using \<open>i div 2 ^ d < 2\<close> div_greater_zero_iff [of i "2 ^ d"] by (auto simp: less_2_cases_iff)
  finally show ?thesis by (simp add: bit_iff_odd)
qed

definition grid_shards :: "bool list \<Rightarrow> nat \<Rightarrow> bytes list \<Rightarrow> (bool list \<times> bytes) list" where
  "grid_shards pre d xs = map (\<lambda>i. (pre @ index_bits d i, xs ! i)) [0..<2 ^ d]"

lemma upt_halves: "[0..<2 ^ Suc d] = [0..<2 ^ d] @ map (\<lambda>i. 2 ^ d + i) [0..<2 ^ d :: nat]"
proof -
  have "[0..<2 ^ d + 2 ^ d :: nat] = [0..<2 ^ d] @ [2 ^ d..<2 ^ d + 2 ^ d]" by (rule upt_add_eq_append) simp
  also have "[2 ^ d..<2 ^ d + 2 ^ d] = map (\<lambda>i. 2 ^ d + i) [0..<2 ^ d :: nat]" by (simp add: map_add_upt add.commute)
  finally show ?thesis by (simp add: mult_2)
qed

lemma grid_shards_Suc:
  assumes "length xs = 2 ^ Suc d"
  shows "grid_shards pre (Suc d) xs =
    grid_shards (pre @ [False]) d (take (2 ^ d) xs) @ grid_shards (pre @ [True]) d (drop (2 ^ d) xs)"
proof -
  have "map (\<lambda>i. (pre @ index_bits (Suc d) i, xs ! i)) [0..<2 ^ d] = grid_shards (pre @ [False]) d (take (2 ^ d) xs)"
    unfolding grid_shards_def by (intro map_cong refl) (simp add: top_bit)
  moreover have "map (\<lambda>i. (pre @ index_bits (Suc d) i, xs ! i)) (map (\<lambda>i. 2 ^ d + i) [0..<2 ^ d]) =
      grid_shards (pre @ [True]) d (drop (2 ^ d) xs)"
    unfolding grid_shards_def map_map using assms by (intro map_cong refl) (simp add: top_bit index_bits_high)
  ultimately show ?thesis unfolding grid_shards_def [of pre] upt_halves map_append by simp
qed

lemma grid_branch: "x \<in> set (grid_shards (pre @ [b]) d xs) \<Longrightarrow> fst x ! length pre = b \<and> length (fst x) = Suc (length pre + d)"
  by (auto simp: grid_shards_def nth_append)

lemma build_grid: "length xs = 2 ^ d \<Longrightarrow> build_root sha (grid_shards pre d xs) (length pre) = Ok (tree_root sha d xs)"
proof (induction d arbitrary: pre xs)
  case 0
  then show ?case by (auto simp: build_root.simps [of sha] grid_shards_def index_bits_def length_Suc_conv)
next
  case (Suc d)
  let ?l = "grid_shards (pre @ [False]) d (take (2 ^ d) xs)" and ?r = "grid_shards (pre @ [True]) d (drop (2 ^ d) xs)"
  note split = grid_shards_Suc [OF Suc.prems, of pre]
  have low: "filter (\<lambda>x. \<not> fst x ! length pre) (?l @ ?r) = ?l"
    using grid_branch by (auto simp: filter_id_conv filter_empty_conv)
  have high: "filter (\<lambda>x. fst x ! length pre) (?l @ ?r) = ?r"
    using grid_branch by (auto simp: filter_id_conv filter_empty_conv)
  have "length (?l @ ?r) = 2 * 2 ^ d" by (simp add: grid_shards_def)
  then have len: "length (?l @ ?r) \<noteq> 1" "?l @ ?r \<noteq> []" by (presburger, force simp: grid_shards_def)
  have deep: "\<not> list_ex (\<lambda>x. length (fst x) \<le> length pre) (?l @ ?r)"
    using grid_branch by (auto simp: list_ex_iff)
  have "build_root sha ?l (length (pre @ [False])) = Ok (tree_root sha d (take (2 ^ d) xs))"
    "build_root sha ?r (length (pre @ [True])) = Ok (tree_root sha d (drop (2 ^ d) xs))"
    using Suc.prems by (intro Suc.IH; simp)+
  then show ?case
    unfolding split by (subst build_root.simps) (simp only: len low high deep if_False simp_thms, simp)
qed

subsection \<open>The sparse tree\<close>

definition prefix_free :: "(bool list \<times> bytes) list \<Rightarrow> bool" where
  "prefix_free shards \<longleftrightarrow> distinct (map fst shards) \<and>
     (\<forall>x \<in> set shards. \<forall>y \<in> set shards. prefix (fst x) (fst y) \<longrightarrow> fst x = fst y)"

definition below :: "bool list \<Rightarrow> (bool list \<times> bytes) list \<Rightarrow> bool" where
  "below \<pi> shards \<longleftrightarrow> (\<forall>x \<in> set shards. prefix \<pi> (fst x))"

lemma prefix_free_filter: "prefix_free shards \<Longrightarrow> prefix_free (filter P shards)"
  unfolding prefix_free_def by (simp add: distinct_map_filter)

lemma prefix_free_end:
  assumes "prefix_free shards" "below \<pi> shards" "(\<pi>, r) \<in> set shards"
  shows "shards = [(\<pi>, r)]"
proof -
  have same: "fst x = \<pi>" if "x \<in> set shards" for x
    using assms that unfolding prefix_free_def below_def by force
  show ?thesis
  proof (cases shards)
    case (Cons x xs)
    then have "xs = []"
      using assms(1) same unfolding prefix_free_def by (cases xs) auto
    then show ?thesis using Cons assms(3) by simp
  qed (use assms(3) in simp)
qed

lemma below_longer:
  assumes "below \<pi> shards" "\<pi> \<notin> fst ` set shards" "x \<in> set shards"
  shows "length \<pi> < length (fst x)"
proof -
  have "prefix \<pi> (fst x)" "fst x \<noteq> \<pi>" using assms by (auto simp: below_def)
  then show ?thesis using prefix_length_less strict_prefixI by metis
qed

lemma below_branch:
  assumes "below \<pi> shards" "\<pi> \<notin> fst ` set shards"
  shows "below (\<pi> @ [b]) (filter (\<lambda>x. fst x ! length \<pi> = b) shards)"
  unfolding below_def
proof
  fix x assume x: "x \<in> set (filter (\<lambda>x. fst x ! length \<pi> = b) shards)"
  then obtain q where "fst x = \<pi> @ q" using assms(1) by (auto simp: below_def prefix_def)
  moreover have "q \<noteq> []" using below_longer [OF assms, of x] x calculation by auto
  ultimately show "prefix (\<pi> @ [b]) (fst x)" using x by (cases q) auto
qed

lemma build_step:
  assumes "below \<pi> shards" "\<pi> \<notin> fst ` set shards" "shards \<noteq> []"
  shows "build_root sha shards (length \<pi>) =
    try_then (build_root sha (filter (\<lambda>x. fst x ! length \<pi> = False) shards) (length (\<pi> @ [False]))) (\<lambda>l.
    try_then (build_root sha (filter (\<lambda>x. fst x ! length \<pi> = True) shards) (length (\<pi> @ [True]))) (\<lambda>r.
      Ok (hash_pair sha l r)))"
proof -
  have "\<not> list_ex (\<lambda>x. length (fst x) \<le> length \<pi>) shards"
    using below_longer [OF assms(1,2)] by (force simp: list_ex_iff)
  moreover from this have "length (fst (hd shards)) \<noteq> length \<pi>" using assms(3) by (cases shards) auto
  ultimately show ?thesis using assms(3) by (subst build_root.simps) simp
qed

lemma build_total: "prefix_free shards \<Longrightarrow> below \<pi> shards \<Longrightarrow> \<exists>R. build_root sha shards (length \<pi>) = Ok R"
proof (induction "sum_list (map (\<lambda>x. length (fst x) - length \<pi>) shards)" arbitrary: shards \<pi> rule: less_induct)
  case less
  consider "shards = []" | r where "(\<pi>, r) \<in> set shards" | "shards \<noteq> []" "\<pi> \<notin> fst ` set shards" by force
  then show ?case
  proof cases
    case 3
    have "\<exists>R. build_root sha (filter (\<lambda>x. fst x ! length \<pi> = b) shards) (length (\<pi> @ [b])) = Ok R" for b
    proof (rule less.hyps)
      have "sum_list (map (\<lambda>x. length (fst x) - Suc (length \<pi>)) (filter (\<lambda>x. fst x ! length \<pi> = b) shards)) <
          sum_list (map (\<lambda>x. length (fst x) - length \<pi>) shards)"
        by (rule path_split_measure) (use below_longer [OF less.prems(2) 3(2)] 3(1) in auto)
      then show "sum_list (map (\<lambda>x. length (fst x) - length (\<pi> @ [b])) (filter (\<lambda>x. fst x ! length \<pi> = b) shards)) <
          sum_list (map (\<lambda>x. length (fst x) - length \<pi>) shards)" by simp
    qed (rule prefix_free_filter [OF less.prems(1)], rule below_branch [OF less.prems(2) 3(2)])
    from this [of False] this [of True] show ?thesis
      unfolding build_step [OF less.prems(2) 3(2,1)] by auto
  next
    case 2
    then have "shards = [(\<pi>, r)]" using prefix_free_end [OF less.prems] by blast
    then show ?thesis by (simp add: build_root.simps [of sha])
  qed (simp add: build_root.simps [of sha])
qed

text \<open>Cutting a common beginning off the paths does not change the root.\<close>

abbreviation cut :: "bool list \<Rightarrow> (bool list \<times> bytes) list \<Rightarrow> (bool list \<times> bytes) list" where
  "cut \<sigma> shards \<equiv> map (\<lambda>(p, r). (drop (length \<sigma>) p, r)) shards"

lemma below_cut:
  assumes "below (\<sigma> @ \<rho>) shards"
  shows "below \<rho> (cut \<sigma> shards)" "\<rho> \<in> fst ` set (cut \<sigma> shards) \<longleftrightarrow> \<sigma> @ \<rho> \<in> fst ` set shards"
    "filter (\<lambda>x. fst x ! length \<rho> = b) (cut \<sigma> shards) = cut \<sigma> (filter (\<lambda>x. fst x ! length (\<sigma> @ \<rho>) = b) shards)"
proof -
  have pre: "\<exists>q. fst x = \<sigma> @ \<rho> @ q" if "x \<in> set shards" for x
    using assms that by (force simp: below_def prefix_def)
  show "below \<rho> (cut \<sigma> shards)" using pre by (fastforce simp: below_def prefix_def)
  show "\<rho> \<in> fst ` set (cut \<sigma> shards) \<longleftrightarrow> \<sigma> @ \<rho> \<in> fst ` set shards"
  proof
    assume "\<rho> \<in> fst ` set (cut \<sigma> shards)"
    then obtain x where "x \<in> set shards" "\<rho> = drop (length \<sigma>) (fst x)" by auto
    moreover from this obtain q where "fst x = \<sigma> @ \<rho> @ q" using pre by blast
    ultimately have "fst x = \<sigma> @ \<rho>" by simp
    then show "\<sigma> @ \<rho> \<in> fst ` set shards" using \<open>x \<in> set shards\<close> by (metis image_eqI)
  qed force
  show "filter (\<lambda>x. fst x ! length \<rho> = b) (cut \<sigma> shards) = cut \<sigma> (filter (\<lambda>x. fst x ! length (\<sigma> @ \<rho>) = b) shards)"
    unfolding filter_map o_def
  proof (intro arg_cong [of _ _ "map _"] filter_cong refl)
    fix x assume "x \<in> set shards"
    then obtain q where "fst x = \<sigma> @ \<rho> @ q" using pre by blast
    then show "(fst (case x of (p, r) \<Rightarrow> (drop (length \<sigma>) p, r)) ! length \<rho> = b) = (fst x ! length (\<sigma> @ \<rho>) = b)"
      by (cases x) (simp add: nth_append)
  qed
qed

lemma build_cut:
  "prefix_free shards \<Longrightarrow> below (\<sigma> @ \<rho>) shards \<Longrightarrow>
    build_root sha (cut \<sigma> shards) (length \<rho>) = build_root sha shards (length (\<sigma> @ \<rho>))"
proof (induction "sum_list (map (\<lambda>x. length (fst x) - length (\<sigma> @ \<rho>)) shards)" arbitrary: shards \<rho> rule: less_induct)
  case less
  consider "shards = []" | r where "(\<sigma> @ \<rho>, r) \<in> set shards" | "shards \<noteq> []" "\<sigma> @ \<rho> \<notin> fst ` set shards" by force
  then show ?case
  proof cases
    case 2
    then have "shards = [(\<sigma> @ \<rho>, r)]" using prefix_free_end [OF less.prems] by blast
    then show ?thesis by (simp add: build_root.simps [of sha])
  next
    case 3
    let ?f = "\<lambda>b. filter (\<lambda>x. fst x ! length (\<sigma> @ \<rho>) = b) shards"
    have ih: "build_root sha (cut \<sigma> (?f b)) (length (\<rho> @ [b])) = build_root sha (?f b) (length (\<sigma> @ (\<rho> @ [b])))" for b
    proof (rule less.hyps)
      have "sum_list (map (\<lambda>x. length (fst x) - Suc (length (\<sigma> @ \<rho>))) (?f b)) <
          sum_list (map (\<lambda>x. length (fst x) - length (\<sigma> @ \<rho>)) shards)"
        by (rule path_split_measure) (use below_longer [OF less.prems(2) 3(2)] 3(1) in auto)
      then show "sum_list (map (\<lambda>x. length (fst x) - length (\<sigma> @ \<rho> @ [b])) (?f b)) <
          sum_list (map (\<lambda>x. length (fst x) - length (\<sigma> @ \<rho>)) shards)" by simp
      show "below (\<sigma> @ \<rho> @ [b]) (?f b)" using below_branch [OF less.prems(2) 3(2), of b] by simp
    qed (rule prefix_free_filter [OF less.prems(1)])
    note c = below_cut [OF less.prems(2)]
    have "cut \<sigma> shards \<noteq> []" "\<rho> \<notin> fst ` set (cut \<sigma> shards)" using 3 c(2) by auto
    note step = build_step [OF c(1) this(2,1), of sha, unfolded c(3)]
      and step' = build_step [OF less.prems(2) 3(2,1), of sha]
    show ?thesis unfolding step step' ih by simp
  qed (simp add: build_root.simps [of sha])
qed

lemma app_root_build: "app_root_from_shard_paths sha shards = build_root sha shards 0"
  by (auto simp: app_root_from_shard_paths_def build_root.simps [of sha shards])

subsection \<open>Membership in the sparse tree\<close>

lemma prefix_snoc: "prefix (p @ [b]) q \<longleftrightarrow> length p < length q \<and> prefix p q \<and> q ! length p = b"
proof
  assume "length p < length q \<and> prefix p q \<and> q ! length p = b"
  moreover from this obtain r where "q = p @ r" by (auto elim: prefixE)
  ultimately show "prefix (p @ [b]) q" by (cases r) auto
qed (auto elim!: prefixE)

lemma siblings_alt:
  assumes "prefix_free shards" "(target, r) \<in> set shards" "d < length target"
  defines "S \<equiv> filter (\<lambda>x. prefix (take d target) (fst x)) shards"
  shows "below (take d target) S" "take d target \<notin> fst ` set S" "S \<noteq> []" "prefix_free S"
    "sibling_shards shards target d =
      cut (take d target @ [\<not> target ! d]) (filter (\<lambda>x. fst x ! d = (\<not> target ! d)) S)"
    "filter (\<lambda>x. fst x ! d = target ! d) S = filter (\<lambda>x. prefix (take (Suc d) target) (fst x)) shards"
proof -
  show b: "below (take d target) S" by (simp add: below_def S_def)
  show "prefix_free S" using assms(1) by (simp add: S_def prefix_free_filter)
  show "S \<noteq> []" using assms(2) take_is_prefix [of d target] by (force simp: S_def filter_empty_conv)
  show n: "take d target \<notin> fst ` set S"
  proof
    assume "take d target \<in> fst ` set S"
    then obtain x where "x \<in> set shards" "fst x = take d target" by (auto simp: S_def)
    moreover from this have "prefix (fst x) (fst (target, r))" by (simp add: take_is_prefix)
    ultimately have "fst x = target" using assms(1,2) unfolding prefix_free_def by fastforce
    then have "length (take d target) = length target" using \<open>fst x = take d target\<close> by simp
    then show False using assms(3) by simp
  qed
  have long: "d < length (fst x)" if "x \<in> set S" for x
    using below_longer [OF b n that] assms(3) by simp
  have pre: "prefix (take d target) p \<longleftrightarrow> take d p = take d target" if "d \<le> length p" for p
  proof
    assume "prefix (take d target) p"
    then obtain q where "p = take d target @ q" by (rule prefixE)
    then show "take d p = take d target" using assms(3) by simp
  next
    assume "take d p = take d target"
    then show "prefix (take d target) p" by (metis take_is_prefix)
  qed
  have "filter (\<lambda>(p, _). d < length p \<and> take d p = take d target \<and> p ! d \<noteq> target ! d) shards =
      filter (\<lambda>x. fst x ! d = (\<not> target ! d)) S"
    unfolding S_def filter_filter
  proof (intro filter_cong refl)
    fix x assume x: "x \<in> set shards"
    show "(case x of (p, _) \<Rightarrow> d < length p \<and> take d p = take d target \<and> p ! d \<noteq> target ! d) =
        (prefix (take d target) (fst x) \<and> fst x ! d = (\<not> target ! d))"
      using pre [of "fst x"] long [of x] x by (auto simp: S_def split_beta)
  qed
  then show "sibling_shards shards target d =
      cut (take d target @ [\<not> target ! d]) (filter (\<lambda>x. fst x ! d = (\<not> target ! d)) S)"
    using assms(3) by (simp add: sibling_shards_def)
  show "filter (\<lambda>x. fst x ! d = target ! d) S = filter (\<lambda>x. prefix (take (Suc d) target) (fst x)) shards"
    unfolding S_def filter_filter
  proof (intro filter_cong refl)
    fix x assume x: "x \<in> set shards"
    have "prefix (take (Suc d) target) (fst x) \<longleftrightarrow> d < length (fst x) \<and> prefix (take d target) (fst x) \<and> fst x ! d = target ! d"
      using assms(3) by (simp add: take_Suc_conv_app_nth prefix_snoc)
    then show "(prefix (take d target) (fst x) \<and> fst x ! d = target ! d) = prefix (take (Suc d) target) (fst x)"
      using long [of x] x by (auto simp: S_def)
  qed
qed

lemma collect_results_Ok: "(\<forall>d < length rs. \<exists>x. rs ! d = Ok x) \<Longrightarrow> \<exists>xs. collect_results rs = Ok xs"
proof (induction rs)
  case (Cons r rs)
  then have "\<forall>d < length rs. \<exists>x. rs ! d = Ok x" by (metis Suc_less_eq length_Cons nth_Cons_Suc)
  moreover obtain x where "r = Ok x" using Cons.prems by fastforce
  ultimately show ?case using Cons.IH by auto
qed simp

lemma collect_results_nth: "collect_results rs = Ok xs \<Longrightarrow> length xs = length rs \<and> (\<forall>d < length rs. rs ! d = Ok (xs ! d))"
proof (induction rs arbitrary: xs)
  case (Cons r rs)
  then obtain x ys where "r = Ok x" "collect_results rs = Ok ys" "xs = x # ys" by (auto simp: try_then_Ok)
  with Cons.IH show ?case by (auto simp: less_Suc_eq_0_disj)
qed simp

lemma sibling_root:
  assumes "prefix_free shards" "(target, r) \<in> set shards" "d < length target"
  shows "app_root_from_shard_paths sha (sibling_shards shards target d) =
      build_root sha (filter (\<lambda>x. fst x ! d = (\<not> target ! d)) (filter (\<lambda>x. prefix (take d target) (fst x)) shards)) (Suc d)"
    (is "_ = build_root sha ?X _")
    and "\<exists>R. app_root_from_shard_paths sha (sibling_shards shards target d) = Ok R"
proof -
  note s = siblings_alt [OF assms]
  have "below (take d target @ [\<not> target ! d]) ?X" using below_branch [OF s(1,2), of "\<not> target ! d"] assms(3) by simp
  moreover have "prefix_free ?X" using s(4) by (rule prefix_free_filter)
  ultimately show eq: "app_root_from_shard_paths sha (sibling_shards shards target d) = build_root sha ?X (Suc d)"
    and "\<exists>R. app_root_from_shard_paths sha (sibling_shards shards target d) = Ok R"
    using build_cut [of ?X "take d target @ [\<not> target ! d]" "[]" sha] build_total [of ?X "take d target @ [\<not> target ! d]" sha]
      assms(3) unfolding app_root_build s(5) by simp_all
qed

lemma membership_suffix:
  assumes "prefix_free shards" "(target, r) \<in> set shards"
    "app_membership_path_dynamic sha shards target = Ok sibs" "k \<le> length target"
  shows "build_root sha (filter (\<lambda>x. prefix (take k target) (fst x)) shards) k =
    Ok (app_root_from_shard_path sha (drop k target) r (drop k sibs))"
  using assms(4)
proof (induction rule: inc_induct)
  case base
  have "filter (\<lambda>x. prefix target (fst x)) shards = [(target, r)]"
    by (rule prefix_free_end [OF prefix_free_filter [OF assms(1)]]) (use assms(2) in \<open>auto simp: below_def\<close>)
  then show ?case by (simp add: build_root.simps [of sha] app_root_from_shard_path_def)
next
  case (step d)
  note s = siblings_alt [OF assms(1,2) step(2)]
  have sibs: "length sibs = length target" "app_root_from_shard_paths sha (sibling_shards shards target d) = Ok (sibs ! d)"
    using collect_results_nth [OF assms(3) [unfolded app_membership_path_dynamic_def]] step(2) by auto
  have sib: "build_root sha (filter (\<lambda>x. fst x ! d = (\<not> target ! d))
      (filter (\<lambda>x. prefix (take d target) (fst x)) shards)) (Suc d) = Ok (sibs ! d)"
    using sibling_root(1) [OF assms(1,2) step(2)] sibs(2) by simp
  have len: "length (take d target) = d" using step(2) by simp
  note b = build_step [OF s(1-3), of sha, unfolded len]
  have "drop d target = target ! d # drop (Suc d) target" "drop d sibs = sibs ! d # drop (Suc d) sibs"
    using step(2) sibs(1) by (simp_all add: Cons_nth_drop_Suc)
  then show ?case
    unfolding b using sib step(2,3) s(6) by (cases "target ! d") (simp_all add: app_root_from_shard_path_def)
qed

lemma honest_path:
  assumes "prefix_free shards" "(target, r) \<in> set shards"
  shows "\<exists>R sibs. app_root_from_shard_paths sha shards = Ok R \<and>
    app_membership_path_dynamic sha shards target = Ok sibs \<and> length sibs = length target \<and>
    app_root_from_shard_path sha target r sibs = R"
proof -
  have "\<exists>sibs. app_membership_path_dynamic sha shards target = Ok sibs"
    unfolding app_membership_path_dynamic_def
    by (rule collect_results_Ok) (use sibling_root(2) [OF assms] in auto)
  then obtain sibs where sibs: "app_membership_path_dynamic sha shards target = Ok sibs" by blast
  have "app_root_from_shard_paths sha shards = Ok (app_root_from_shard_path sha target r sibs)"
    using membership_suffix [OF assms sibs, of 0] by (simp add: app_root_build)
  moreover have "length sibs = length target"
    using collect_results_nth [OF sibs [unfolded app_membership_path_dynamic_def]] by simp
  ultimately show ?thesis using sibs by blast
qed

text \<open>C26. For shards at any mix of depths, none inside another, the application root and the membership path of
every shard exist, and the verifier that is given the shard's own root and that path computes the application
root.\<close>

theorem membership_path_verifies:
  assumes "prefix_free shards" "(target, r) \<in> set shards"
  shows "\<exists>R sibs. app_root_from_shard_paths sha shards = Ok R \<and>
    app_membership_path_dynamic sha shards target = Ok sibs \<and> length sibs = length target \<and>
    app_root_from_shard_path sha target r sibs = R"
  by (rule honest_path [OF assms])

theorem membership_path_verifies_witness:
  "\<exists>R sibs. app_root_from_shard_paths (\<lambda>b. b) [([False], [1]), ([True, False], [2]), ([True, True], [3])] = Ok R \<and>
    app_membership_path_dynamic (\<lambda>b. b) [([False], [1]), ([True, False], [2]), ([True, True], [3])] [True, False] = Ok sibs \<and>
    length sibs = 2 \<and> app_root_from_shard_path (\<lambda>b. b) [True, False] [2] sibs = R"
  using membership_path_verifies [of "[([False], [1]), ([True, False], [2]), ([True, True], [3])]" "[True, False]" "[2]" "\<lambda>b. b"]
  by (simp add: prefix_free_def numeral_2_eq_2)

subsection \<open>A membership proof binds the shard root\<close>

text \<open>The byte strings a verifier hashes on its way up.\<close>

fun path_inputs :: "(bytes \<Rightarrow> bytes) \<Rightarrow> bool list \<Rightarrow> bytes \<Rightarrow> bytes list \<Rightarrow> bytes set" where
  "path_inputs sha (t # target) r (sib # sibs) =
     insert (let h = app_root_from_shard_path sha target r sibs in if t then sib @ h else h @ sib)
       (path_inputs sha target r sibs)"
| "path_inputs sha _ r _ = {}"

lemma path_binds:
  assumes "length a = length target" "length b = length target" "\<forall>x. length (sha x) = 32"
    "length r = 32" "length r' = 32" "\<forall>x \<in> set a \<union> set b. length x = 32"
    "app_root_from_shard_path sha target r a = app_root_from_shard_path sha target r' b"
    "inj_on sha (path_inputs sha target r a \<union> path_inputs sha target r' b)"
  shows "r = r' \<and> a = b"
  using assms
proof (induction target arbitrary: a b)
  case Nil
  then show ?case by (simp add: app_root_from_shard_path_def)
next
  case (Cons t target)
  obtain u a' where a: "a = u # a'" using Cons.prems(1) by (cases a) auto
  obtain v b' where b: "b = v # b'" using Cons.prems(2) by (cases b) auto
  let ?A = "app_root_from_shard_path sha target r a'" and ?B = "app_root_from_shard_path sha target r' b'"
  have len: "length ?A = 32" "length ?B = 32"
    using Cons.prems(1-5) a b
    by (cases target; cases a'; cases b'; auto simp: app_root_from_shard_path_def hash_pair_def)+
  have "sha (if t then u @ ?A else ?A @ u) = sha (if t then v @ ?B else ?B @ v)"
    using Cons.prems(7) by (cases t) (simp_all add: a b app_root_from_shard_path_def hash_pair_def)
  then have "(if t then u @ ?A else ?A @ u) = (if t then v @ ?B else ?B @ v)"
    by (rule inj_onD [OF Cons.prems(8)]) (simp_all add: a b)
  then have "u = v" "?A = ?B" using len Cons.prems(6) by (auto simp: a b split: if_splits)
  moreover have "r = r' \<and> a' = b'"
    by (rule Cons.IH) (use Cons.prems(1-6,8) \<open>?A = ?B\<close> in \<open>auto simp: a b inj_on_Un\<close>)
  ultimately show ?case by (simp add: a b)
qed

lemma build_root_length:
  assumes "build_root sha shards d = Ok R" "\<forall>x. length (sha x) = 32" "\<forall>x \<in> set shards. length (snd x) = 32"
  shows "length R = 32"
  using assms by (subst (asm) build_root.simps)
    (auto simp: zero_root_def try_then_Ok hash_pair_def split: if_splits)

lemma membership_path_length:
  assumes "app_membership_path_dynamic sha shards target = Ok sibs" "\<forall>x. length (sha x) = 32"
    "\<forall>x \<in> set shards. length (snd x) = 32"
  shows "\<forall>x \<in> set sibs. length x = 32"
proof
  fix x assume "x \<in> set sibs"
  then obtain d where d: "d < length target" "app_root_from_shard_paths sha (sibling_shards shards target d) = Ok x"
    using collect_results_nth [OF assms(1) [unfolded app_membership_path_dynamic_def]] by (auto simp: in_set_conv_nth)
  then show "length x = 32"
    using build_root_length [OF _ assms(2)] assms(3) unfolding app_root_build by (force simp: sibling_shards_def)
qed


text \<open>A digest that keeps the strings of a two-shard proof apart.\<close>

definition fold_digest :: "bytes \<Rightarrow> bytes" where
  "fold_digest b = map (\<lambda>i. (if i < length b then b ! i else 0) + 3 * (if i + 32 < length b then b ! (i + 32) else 0)) [0..<32]"

definition two_shards :: "(bool list \<times> bytes) list" where
  "two_shards = [([False], replicate 32 1), ([True], replicate 32 2)]"


text \<open>On the uniform grid, the bottom-up root over all positions is the sparse root over the shards at their
index paths; and a shard's bottom-up membership path takes its root to that same root.\<close>

theorem uniform_grid_agrees:
  assumes "d < 32" "unat i < 2 ^ d"
  shows "app_root_from_shards sha d roots = app_root_from_shard_paths sha (grid_shards [] d (uniform_level d roots)) \<and>
    (\<exists>R sibs. app_root_from_shards sha d roots = Ok R \<and> app_membership_path sha d i roots = Ok sibs \<and>
      length sibs = d \<and>
      app_root_from_shard sha i (case roots i of None \<Rightarrow> zero_root | Some r \<Rightarrow> r) sibs = R)"
proof -
  note len = length_uniform_level [OF assms(1), of roots]
  have root: "app_root_from_shards sha d roots = Ok (tree_root sha d (uniform_level d roots))"
    unfolding app_root_from_shards_def by (rule fold_level_root [OF len])
  moreover have "app_root_from_shard_paths sha (grid_shards [] d (uniform_level d roots)) =
      Ok (tree_root sha d (uniform_level d roots))"
    unfolding app_root_build using build_grid [OF len, of sha "[]"] by simp
  ultimately show ?thesis
    using siblings_climb [OF len assms(2), of sha] nth_uniform_level [OF assms, of roots]
    by (auto simp: app_membership_path_def app_root_from_shard_def)
qed

theorem uniform_grid_agrees_witness:
  "app_root_from_shards (\<lambda>b. b) 1 [0 \<mapsto> [5]] =
     app_root_from_shard_paths (\<lambda>b. b) (grid_shards [] 1 (uniform_level 1 [0 \<mapsto> [5]]))"
  using uniform_grid_agrees [of 1 1 "\<lambda>b. b" "[0 \<mapsto> [5]]"] by simp

end
