(* ===== verification/Ordered_Map.thy ===== *)
theory Ordered_Map
  imports Prelude "HOL-Library.List_Lexorder"
begin

text \<open>
  \<^verbatim>\<open>BTreeMap\<close>: the ascending list of its entries, so that iteration has the order the code iterates in and
  two maps with the same entries are the same value.
\<close>

type_synonym ('k, 'v) bt_map = "('k \<times> 'v) list"

fun bt_insert :: "'k :: linorder \<Rightarrow> 'v \<Rightarrow> ('k, 'v) bt_map \<Rightarrow> ('k, 'v) bt_map" where
  "bt_insert k v [] = [(k, v)]"
| "bt_insert k v ((k', v') # m) =
     (if k < k' then (k, v) # (k', v') # m else if k = k' then (k, v) # m else (k', v') # bt_insert k v m)"

definition bt_remove :: "'k \<Rightarrow> ('k, 'v) bt_map \<Rightarrow> ('k, 'v) bt_map" where
  "bt_remove k m = filter (\<lambda>e. fst e \<noteq> k) m"

abbreviation bt_get :: "('k, 'v) bt_map \<Rightarrow> 'k \<rightharpoonup> 'v" where "bt_get \<equiv> map_of"

definition bt_of_list :: "('k :: linorder \<times> 'v) list \<Rightarrow> ('k, 'v) bt_map" where
  "bt_of_list es = foldl (\<lambda>m (k, v). bt_insert k v m) [] es"

definition bt_extend :: "('k :: linorder, 'v) bt_map \<Rightarrow> ('k, 'v) bt_map \<Rightarrow> ('k, 'v) bt_map" where
  "bt_extend m es = foldl (\<lambda>m (k, v). bt_insert k v m) m es"

definition bt_wf :: "('k :: linorder, 'v) bt_map \<Rightarrow> bool" where
  "bt_wf m \<longleftrightarrow> sorted_wrt (<) (map fst m)"

lemma bt_wf_Nil [simp]: "bt_wf []" by (simp add: bt_wf_def)

lemma bt_get_insert [simp]: "bt_get (bt_insert k v m) = (bt_get m)(k \<mapsto> v)"
  by (induction m) (auto simp: fun_eq_iff)

lemma bt_get_remove [simp]: "bt_get (bt_remove k m) = (bt_get m)(k := None)"
  by (induction m) (auto simp: bt_remove_def fun_eq_iff)

lemma keys_bt_insert [simp]: "fst ` set (bt_insert k v m) = insert k (fst ` set m)"
  unfolding dom_map_of_conv_image_fst [symmetric] bt_get_insert by simp

lemma set_bt_insert: "set (bt_insert k v m) \<subseteq> insert (k, v) (set m)"
  by (induction m) (auto split: if_splits)

lemma bt_wf_insert [simp]: "bt_wf m \<Longrightarrow> bt_wf (bt_insert k v m)"
proof (induction m)
  case (Cons e m)
  obtain k' v' where e: "e = (k', v')" by fastforce
  have wf: "bt_wf m" "\<forall>x \<in> fst ` set m. k' < x" using Cons.prems by (auto simp: bt_wf_def e)
  consider "k < k'" | "k = k'" | "k' < k" by (meson linorder_cases)
  then show ?case
  proof cases
    case 3
    then have "\<forall>x \<in> fst ` set (bt_insert k v m). k' < x" using wf(2) by simp
    then show ?thesis using 3 Cons.IH [OF wf(1)] by (auto simp: bt_wf_def e)
  qed (use Cons.prems wf in \<open>auto simp: bt_wf_def e\<close>)
qed (simp add: bt_wf_def)

lemma bt_wf_remove [simp]: "bt_wf m \<Longrightarrow> bt_wf (bt_remove k m)"
  by (induction m) (auto simp: bt_wf_def bt_remove_def)

lemma bt_distinct: "bt_wf m \<Longrightarrow> distinct (map fst m)"
  by (simp add: bt_wf_def strict_sorted_iff)

lemma bt_get_in: "bt_wf m \<Longrightarrow> bt_get m k = Some v \<longleftrightarrow> (k, v) \<in> set m"
  by (simp add: bt_distinct map_of_eq_Some_iff)

lemma bt_ext:
  assumes "bt_wf m" "bt_wf m'" "bt_get m = bt_get m'"
  shows "m = m'"
proof -
  have "set (map fst m) = set (map fst m')"
    using arg_cong [OF assms(3), of dom] by (simp add: dom_map_of_conv_image_fst)
  then have keys: "map fst m = map fst m'"
    using assms(1,2) by (intro sorted_distinct_set_unique) (simp_all add: bt_wf_def strict_sorted_iff)
  show ?thesis
  proof (rule nth_equalityI)
    show len: "length m = length m'" using arg_cong [OF keys, of length] by simp
    fix i assume i: "i < length m"
    have k: "fst (m ! i) = fst (m' ! i)" using arg_cong [OF keys, of "\<lambda>l. l ! i"] i len by simp
    have "bt_get m (fst (m ! i)) = Some (snd (m ! i))" using bt_get_in [OF assms(1)] i by simp
    moreover have "bt_get m' (fst (m' ! i)) = Some (snd (m' ! i))" using bt_get_in [OF assms(2)] i len by simp
    ultimately show "m ! i = m' ! i" using assms(3) k by (simp add: prod_eq_iff)
  qed
qed

lemma bt_wf_extend [simp]: "bt_wf m \<Longrightarrow> bt_wf (bt_extend m es)"
  by (induction es arbitrary: m) (auto simp: bt_extend_def)

lemma bt_get_extend: "distinct (map fst es) \<Longrightarrow> bt_get (bt_extend m es) = bt_get m ++ map_of es"
proof (induction es arbitrary: m)
  case (Cons e es)
  obtain k v where e: "e = (k, v)" by fastforce
  have "bt_get (bt_extend m (e # es)) = bt_get (bt_extend (bt_insert k v m) es)" by (simp add: bt_extend_def e)
  also have "\<dots> = (bt_get m)(k \<mapsto> v) ++ map_of es" using Cons by simp
  also have "\<dots> = bt_get m ++ map_of (e # es)"
    using Cons.prems by (auto simp: e map_add_def fun_eq_iff dest: map_of_SomeD split: option.split) (metis fst_conv image_eqI map_of_SomeD)
  finally show ?case .
qed (simp add: bt_extend_def)

end
