(* ===== verification/Shard_Store.thy ===== *)
theory Shard_Store
  imports Ordered_Map Shard_Paths
begin

text \<open>
  The shard metadata store (\<^verbatim>\<open>quil-store/src/shards.rs\<close>): the keys and values of the grid rows and of the
  pending topology changes, and the batch through which execution reads and writes them. A batch reads its own
  writes over those staged earlier in the frame, over the committed rows; its writes leave as records that commit
  with the frame.
\<close>

subsection \<open>Rows and changes\<close>

record shard_info =
  shard_key :: bytes
  si_prefix :: "u32 list"
  si_size :: bytes
  data_shards :: u64
  si_commitment :: "bytes list"

datatype shard_change_kind = Split | Merge

record pending_shard_change =
  kind :: shard_change_kind
  parent :: bytes
  children :: "bytes list"
  effective_epoch :: u64
  proposed_frame :: u64

definition affects_shard :: "pending_shard_change \<Rightarrow> bytes \<Rightarrow> bool" where
  "affects_shard c shard \<longleftrightarrow> parent c = shard \<or> list_ex (\<lambda>child. child = shard) (children c)"

definition SHARD :: u8 where "SHARD = 0x0A"
definition APP_SHARD_DATA :: u8 where "APP_SHARD_DATA = 0"
definition PENDING_SHARD_CHANGE :: u8 where "PENDING_SHARD_CHANGE = 1"
definition SHARD_KEY_LEN :: nat where "SHARD_KEY_LEN = 35"

definition app_shard_key :: "bytes \<Rightarrow> u32 list \<Rightarrow> bytes" where
  "app_shard_key sk pfx = [SHARD, APP_SHARD_DATA] @ sk @ concat (map write_u32 pfx)"

text \<open>The byte string just above everything that starts with a prefix.\<close>

function prefix_byte_successor :: "bytes \<Rightarrow> bytes option" where
  "prefix_byte_successor k =
     (if k = [] then None
      else if last k < 0xFF then Some (butlast k @ [last k + 1])
      else prefix_byte_successor (butlast k))"
  by pat_completeness auto
termination by (relation "measure length") auto

declare prefix_byte_successor.simps [simp del]

fun decode_words :: "nat \<Rightarrow> bytes \<Rightarrow> u32 list" where
  "decode_words 0 bs = []"
| "decode_words (Suc n) bs = of_nat (from_be (take 4 bs)) # decode_words n (drop 4 bs)"

definition decode_path :: "bytes \<Rightarrow> u32 list" where
  "decode_path v =
     (let aligned = drop (length v mod 4) v in decode_words (length aligned div 4) aligned)"

definition pending_change_key :: "u64 \<Rightarrow> bytes \<Rightarrow> bytes" where
  "pending_change_key epoch par = [SHARD, PENDING_SHARD_CHANGE] @ write_u64 epoch @ par"

definition write_u16_len :: "bytes \<Rightarrow> bytes" where
  "write_u16_len b = be_bytes 2 (length b) @ b"

definition encode_pending_change :: "pending_shard_change \<Rightarrow> bytes" where
  "encode_pending_change c =
     (case kind c of Split \<Rightarrow> [0] | Merge \<Rightarrow> [1]) @ write_u64 (effective_epoch c) @ write_u64 (proposed_frame c) @
     write_u16_len (parent c) @ be_bytes 2 (length (children c)) @ concat (map write_u16_len (children c))"

definition take_n :: "nat \<Rightarrow> bytes \<Rightarrow> (bytes \<times> bytes) result" where
  "take_n n v = (if length v < n then Err Store else Ok (take n v, drop n v))"

definition take_u64 :: "bytes \<Rightarrow> (u64 \<times> bytes) result" where
  "take_u64 v = try_then (take_n 8 v) (\<lambda>(b, r). Ok (of_nat (from_be b), r))"

definition take_u16 :: "bytes \<Rightarrow> (nat \<times> bytes) result" where
  "take_u16 v = try_then (take_n 2 v) (\<lambda>(b, r). Ok (from_be b, r))"

definition take_sized :: "bytes \<Rightarrow> (bytes \<times> bytes) result" where
  "take_sized v = try_then (take_u16 v) (\<lambda>(n, r). take_n n r)"

definition decode_pending_change :: "bytes \<Rightarrow> pending_shard_change result" where
  "decode_pending_change v =
     (case v of
        [] \<Rightarrow> Err Store
      | tag # r0 \<Rightarrow>
          try_then (if tag = 0 then Ok Split else if tag = 1 then Ok Merge else Err Store) (\<lambda>k.
          try_then (take_u64 r0) (\<lambda>(epoch, r1).
          try_then (take_u64 r1) (\<lambda>(frame, r2).
          try_then (take_sized r2) (\<lambda>(par, r3).
          try_then (take_u16 r3) (\<lambda>(n, r4).
          try_then (read_n take_sized n r4) (\<lambda>(cs, r5).
            Ok \<lparr>kind = k, parent = par, children = cs, effective_epoch = epoch, proposed_frame = frame\<rparr>)))))))"

subsection \<open>The batch\<close>

record shard_batch =
  base_rows :: "shard_info list"
  base_pending :: "pending_shard_change list"
  earlier :: "(bytes, bytes option) bt_map"
  batch_writes :: "(bytes, bytes option) bt_map"

definition batch_new ::
  "shard_info list \<Rightarrow> pending_shard_change list \<Rightarrow> (bytes, bytes option) bt_map \<Rightarrow> shard_batch" where
  "batch_new rows pend staged =
     \<lparr>base_rows = rows, base_pending = pend,
      earlier = filter (\<lambda>(k, _). k \<noteq> [] \<and> hd k = SHARD) staged, batch_writes = []\<rparr>"

definition into_records :: "shard_batch \<Rightarrow> (bytes \<times> bytes option) list" where
  "into_records b = batch_writes b"

definition batch_set :: "shard_batch \<Rightarrow> bytes \<Rightarrow> bytes \<Rightarrow> shard_batch" where
  "batch_set b k v = b\<lparr>batch_writes := bt_insert k (Some v) (batch_writes b)\<rparr>"

definition batch_delete :: "shard_batch \<Rightarrow> bytes \<Rightarrow> shard_batch" where
  "batch_delete b k = b\<lparr>batch_writes := bt_insert k None (batch_writes b)\<rparr>"

definition row_at :: "bytes \<Rightarrow> bytes \<Rightarrow> shard_info" where
  "row_at k v =
     \<lparr>shard_key = take SHARD_KEY_LEN (drop 2 k), si_prefix = decode_path v, si_size = [], data_shards = 0, si_commitment = []\<rparr>"

text \<open>
  \<^verbatim>\<open>overlay\<close> with the closures that use it: entries of another kind are passed over, a deletion removes
  the row, a value is decoded and replaces it.
\<close>

fun overlay ::
  "bytes \<Rightarrow> (bytes \<Rightarrow> bytes \<Rightarrow> 'a result) \<Rightarrow> (bytes \<times> bytes option) list \<Rightarrow> (bytes, 'a) bt_map \<Rightarrow>
   (bytes, 'a) bt_map result" where
  "overlay hdr dec [] rows = Ok rows"
| "overlay hdr dec ((k, v) # es) rows =
     (if take 2 k \<noteq> hdr then overlay hdr dec es rows
      else case v of
        None \<Rightarrow> overlay hdr dec es (bt_remove k rows)
      | Some value \<Rightarrow> try_then (dec k value) (\<lambda>x. overlay hdr dec es (bt_insert k x rows)))"

definition staged_row :: "bytes \<Rightarrow> bytes \<Rightarrow> shard_info result" where
  "staged_row k v = (if length k < 2 + SHARD_KEY_LEN then Err Store else Ok (row_at k v))"

definition app_rows :: "shard_batch \<Rightarrow> (bytes, shard_info) bt_map result" where
  "app_rows b =
     overlay [SHARD, APP_SHARD_DATA] staged_row (earlier b @ batch_writes b)
       (bt_of_list (map (\<lambda>row. (app_shard_key (shard_key row) (si_prefix row), row)) (base_rows b)))"

definition range_app_shards :: "shard_batch \<Rightarrow> shard_info list result" where
  "range_app_shards b = try_then (app_rows b) (\<lambda>rows. Ok (map snd rows))"

definition get_app_shards :: "shard_batch \<Rightarrow> bytes \<Rightarrow> u32 list \<Rightarrow> shard_info list result" where
  "get_app_shards b sk pfx =
     try_then (range_app_shards b) (\<lambda>rows.
       Ok (filter (\<lambda>row. shard_key row = sk \<and> take (length pfx) (si_prefix row) = pfx) rows))"

definition put_app_shard :: "shard_batch \<Rightarrow> shard_info \<Rightarrow> shard_batch" where
  "put_app_shard b row =
     (let k = app_shard_key (shard_key row) (si_prefix row) in
      batch_set b k (drop (2 + length (shard_key row)) k))"

definition delete_app_shard :: "shard_batch \<Rightarrow> bytes \<Rightarrow> u32 list \<Rightarrow> shard_batch" where
  "delete_app_shard b sk pfx = batch_delete b (app_shard_key sk pfx)"

definition put_pending_shard_change :: "shard_batch \<Rightarrow> pending_shard_change \<Rightarrow> shard_batch" where
  "put_pending_shard_change b c =
     batch_set b (pending_change_key (effective_epoch c) (parent c)) (encode_pending_change c)"

definition pending_rows :: "shard_batch \<Rightarrow> (bytes, pending_shard_change) bt_map result" where
  "pending_rows b =
     overlay [SHARD, PENDING_SHARD_CHANGE] (\<lambda>_. decode_pending_change) (earlier b @ batch_writes b)
       (bt_of_list (map (\<lambda>c. (pending_change_key (effective_epoch c) (parent c), c)) (base_pending b)))"

definition all_pending_shard_changes :: "shard_batch \<Rightarrow> pending_shard_change list result" where
  "all_pending_shard_changes b = try_then (pending_rows b) (\<lambda>rows. Ok (map snd rows))"

definition get_pending_shard_changes :: "shard_batch \<Rightarrow> u64 \<Rightarrow> pending_shard_change list result" where
  "get_pending_shard_changes b epoch =
     try_then (all_pending_shard_changes b) (\<lambda>cs. Ok (filter (\<lambda>c. effective_epoch c = epoch) cs))"

definition delete_pending_shard_change :: "shard_batch \<Rightarrow> bytes \<Rightarrow> u64 \<Rightarrow> shard_batch" where
  "delete_pending_shard_change b par epoch = batch_delete b (pending_change_key epoch par)"

subsection \<open>Codecs\<close>

lemma take_n_append [simp]: "length b = n \<Longrightarrow> take_n n (b @ r) = Ok (b, r)"
  by (simp add: take_n_def)

lemma take_u64_write [simp]: "take_u64 (write_u64 w @ r) = Ok (w, r)"
  by (simp add: take_u64_def write_u64_def from_be_bytes unat_u64_bound mod_less)

lemma take_u16_be [simp]: "n < 65536 \<Longrightarrow> take_u16 (be_bytes 2 n @ r) = Ok (n, r)"
  by (simp add: take_u16_def from_be_bytes)

lemma take_sized_write [simp]: "length b < 65536 \<Longrightarrow> take_sized (write_u16_len b @ r) = Ok (b, r)"
  by (simp add: take_sized_def write_u16_len_def)

lemma read_n_sized:
  "\<forall>c \<in> set cs. length c < 65536 \<Longrightarrow> read_n take_sized (length cs) (concat (map write_u16_len cs) @ r) = Ok (cs, r)"
  by (induction cs) simp_all

definition change_fits :: "pending_shard_change \<Rightarrow> bool" where
  "change_fits c \<longleftrightarrow> length (parent c) < 65536 \<and> length (children c) < 65536 \<and>
     (\<forall>child \<in> set (children c). length child < 65536)"

lemma decode_encode_change:
  assumes "change_fits c"
  shows "decode_pending_change (encode_pending_change c) = Ok c"
proof -
  have tag: "encode_pending_change c = (case kind c of Split \<Rightarrow> 0 | Merge \<Rightarrow> 1) # write_u64 (effective_epoch c) @
      write_u64 (proposed_frame c) @ write_u16_len (parent c) @ be_bytes 2 (length (children c)) @
      concat (map write_u16_len (children c)) @ []"
    by (simp add: encode_pending_change_def split: shard_change_kind.split)
  have rest: "read_n take_sized (length (children c)) (concat (map write_u16_len (children c)) @ []) = Ok (children c, [])"
    by (rule read_n_sized) (use assms in \<open>simp add: change_fits_def\<close>)
  show ?thesis
    using assms unfolding tag decode_pending_change_def
    by (cases "kind c") (simp_all add: change_fits_def rest [simplified])
qed

lemma decode_words_write: "decode_words (length p) (concat (map write_u32 p)) = p"
  by (induction p) (simp_all add: write_u32_def from_be_bytes unat_u32_bound mod_less)

lemma length_words [simp]: "length (concat (map write_u32 p)) = 4 * length p"
  by (induction p) simp_all

lemma decode_path_write [simp]: "decode_path (concat (map write_u32 p)) = p"
  by (simp add: decode_path_def decode_words_write)

lemma app_shard_key_inj:
  assumes "app_shard_key a p = app_shard_key b q" "length a = length b"
  shows "a = b \<and> p = q"
proof -
  have "a = b" "concat (map write_u32 p) = concat (map write_u32 q)"
    using assms by (simp_all add: app_shard_key_def)
  then show ?thesis using decode_path_write by metis
qed

lemma key_kinds_apart: "take 2 (app_shard_key a p) = [SHARD, APP_SHARD_DATA]"
  "take 2 (pending_change_key e q) = [SHARD, PENDING_SHARD_CHANGE]" "APP_SHARD_DATA \<noteq> PENDING_SHARD_CHANGE"
  by (simp_all add: app_shard_key_def pending_change_key_def APP_SHARD_DATA_def PENDING_SHARD_CHANGE_def)

subsection \<open>The scan bound\<close>

lemma lex_cancel: "(p @ x < p @ y) \<longleftrightarrow> (x < (y :: bytes))" "(p @ x \<le> p @ y) \<longleftrightarrow> (x \<le> y)"
  by (induction p) simp_all

lemma bytes_prefix_le: "(p :: bytes) \<le> p @ q"
  by (induction p) auto

lemma byte_top: "(b :: byte) \<le> 255"
proof -
  have "(255 :: byte) = - 1" by simp
  then show ?thesis by (metis word_order.extremum)
qed

lemma last_byte_range:
  assumes "b < (255 :: byte)"
  shows "k @ [b] \<le> x \<and> x < k @ [b + 1] \<longleftrightarrow> prefix (k @ [b]) x"
proof (induction k arbitrary: x)
  case Nil
  have one: "b \<le> c \<and> c < b + 1 \<longleftrightarrow> c = b" for c
  proof -
    have "unat (b + 1) = unat b + 1" using assms by (simp add: unat_word_ariths word_less_nat_alt)
    then show ?thesis by (auto simp: word_less_nat_alt word_le_nat_alt word_unat_eq_iff)
  qed
  show ?case
  proof (cases x)
    case (Cons c r)
    have "[b] \<le> x \<and> x < [b + 1] \<longleftrightarrow> b \<le> c \<and> c < b + 1" by (auto simp: Cons)
    then show ?thesis using one [of c] by (auto simp: Cons)
  qed simp
next
  case (Cons a k)
  show ?case
  proof (cases x)
    case x: (Cons c y)
    have "(a # k) @ [b] \<le> x \<and> x < (a # k) @ [b + 1] \<longleftrightarrow> a = c \<and> k @ [b] \<le> y \<and> y < k @ [b + 1]"
      by (auto simp: x)
    then show ?thesis unfolding Cons.IH by (simp add: x)
  qed simp
qed

lemma successor_range:
  "prefix_byte_successor k = Some u \<Longrightarrow> k \<le> x \<and> x < u \<longleftrightarrow> prefix k x"
proof (induction k rule: prefix_byte_successor.induct)
  case (1 k)
  show ?case
  proof (cases "k \<noteq> [] \<and> last k < 0xFF")
    case True
    then have "k = butlast k @ [last k]" "u = butlast k @ [last k + 1]"
      using "1.prems" by (simp_all add: prefix_byte_successor.simps [of k])
    then show ?thesis using last_byte_range [of "last k" "butlast k" x] True by simp
  next
    case False
    then have k: "k \<noteq> []" "\<not> last k < 0xFF" and u: "prefix_byte_successor (butlast k) = Some u"
      using "1.prems" by (auto simp: prefix_byte_successor.simps [of k] split: if_splits)
    have top: "last k = 255" using k(2) byte_top [of "last k"] by simp
    define k0 where "k0 = butlast k"
    have split: "k = k0 @ [255]" using k(1) top by (metis append_butlast_last_id k0_def)
    have IH: "k0 \<le> x \<and> x < u \<longleftrightarrow> prefix k0 x" using "1.IH" [OF k u] by (simp add: k0_def)
    show ?thesis
      unfolding split
    proof
      assume x: "k0 @ [255] \<le> x \<and> x < u"
      have "k0 \<le> k0 @ [255]" by (rule bytes_prefix_le)
      then have "k0 \<le> x" using x by (meson order_trans)
      then have "prefix k0 x" using IH x by blast
      then obtain r where r: "x = k0 @ r" by (rule prefixE)
      have "[255] \<le> r" using x unfolding r lex_cancel by blast
      then obtain c r' where c: "r = c # r'" "255 \<le> c" by (cases r) auto
      have "c = 255" by (rule antisym [OF byte_top c(2)])
      then show "prefix (k0 @ [255]) x" by (simp add: r c(1))
    next
      assume x: "prefix (k0 @ [255]) x"
      then obtain r where r: "x = (k0 @ [255]) @ r" by (rule prefixE)
      then have "prefix k0 x" by simp
      then show "k0 @ [255] \<le> x \<and> x < u" using IH bytes_prefix_le [of "k0 @ [255]" r] r by blast
    qed
  qed
qed

subsection \<open>A batch reads its own writes\<close>

definition last_write :: "(bytes \<times> 'b) list \<Rightarrow> bytes \<Rightarrow> 'b option" where
  "last_write es = map_of (rev es)"

lemma last_write_Cons: "last_write (e # es) k = (case last_write es k of None \<Rightarrow> map_of [e] k | w \<Rightarrow> w)"
  by (auto simp: last_write_def map_add_def split: option.split)

lemma last_write_append: "last_write (es @ fs) k = (case last_write fs k of None \<Rightarrow> last_write es k | w \<Rightarrow> w)"
  by (simp add: last_write_def map_add_def split: option.split)

lemma last_write_wf: "bt_wf m \<Longrightarrow> last_write m = bt_get m"
  using bt_distinct [of m] by (simp add: last_write_def map_of_inject_set rev_map [symmetric])

lemma bt_of_list_wf [simp]: "bt_wf (bt_of_list es)"
  using bt_wf_extend [of "[]" es] by (simp add: bt_of_list_def bt_extend_def)

locale staged_rows =
  fixes hdr :: bytes
    and dec :: "bytes \<Rightarrow> bytes \<Rightarrow> 'a result"
    and key_of :: "'a \<Rightarrow> bytes"
    and enc :: "'a \<Rightarrow> bytes"
    and fits :: "'a \<Rightarrow> bool"
    and stored :: "'a \<Rightarrow> 'a"
  assumes key_header: "fits x \<Longrightarrow> take 2 (key_of x) = hdr"
    and decodes: "fits x \<Longrightarrow> dec (key_of x) (enc x) = Ok (stored x)"
begin

lemma overlay_wf: "overlay hdr dec es rows = Ok m \<Longrightarrow> bt_wf rows \<Longrightarrow> bt_wf m"
  by (induction es arbitrary: rows) (auto simp: try_then_Ok split: if_splits option.splits)

lemma overlay_ok:
  "(\<exists>m. overlay hdr dec es rows = Ok m) \<longleftrightarrow>
    (\<forall>(k, v) \<in> set es. take 2 k = hdr \<longrightarrow> (\<forall>x. v = Some x \<longrightarrow> (\<exists>y. dec k x = Ok y)))"
proof (induction es arbitrary: rows)
  case (Cons e es)
  obtain k v where e: "e = (k, v)" by fastforce
  show ?case
  proof (cases "v = None \<or> take 2 k \<noteq> hdr")
    case True
    then show ?thesis using Cons by (auto simp: e split: option.splits)
  next
    case False
    then obtain x where "v = Some x" "take 2 k = hdr" by auto
    then show ?thesis using Cons by (cases "dec k x") (auto simp: e)
  qed
qed simp

lemma overlay_get:
  assumes "overlay hdr dec es rows = Ok m"
  shows "bt_get m k = (case (if take 2 k = hdr then last_write es k else None) of
      None \<Rightarrow> bt_get rows k
    | Some None \<Rightarrow> None
    | Some (Some v) \<Rightarrow> (case dec k v of Err _ \<Rightarrow> None | Ok x \<Rightarrow> Some x))"
  using assms
proof (induction es arbitrary: rows)
  case Nil
  then show ?case by (simp add: last_write_def)
next
  case (Cons e es)
  obtain k' v where e: "e = (k', v)" by fastforce
  show ?case
  proof (cases "take 2 k' = hdr")
    case True
    show ?thesis
    proof (cases v)
      case None
      then have "overlay hdr dec es (bt_remove k' rows) = Ok m" using Cons.prems True by (simp add: e)
      then show ?thesis using Cons.IH True None by (auto simp: e last_write_Cons split: option.splits)
    next
      case (Some w)
      then obtain x where x: "dec k' w = Ok x" "overlay hdr dec es (bt_insert k' x rows) = Ok m"
        using Cons.prems True by (auto simp: e try_then_Ok)
      then show ?thesis using Cons.IH [OF x(2)] True Some by (auto simp: e last_write_Cons split: option.splits)
    qed
  next
    case False
    then have "overlay hdr dec es rows = Ok m" using Cons.prems by (simp add: e)
    then show ?thesis using Cons.IH False by (auto simp: e last_write_Cons split: option.splits)
  qed
qed

lemma overlay_grow:
  assumes "overlay hdr dec (es @ w) rows = Ok m" "\<And>x. take 2 k = hdr \<Longrightarrow> v = Some x \<Longrightarrow> \<exists>y. dec k x = Ok y"
  obtains m' where "overlay hdr dec (es @ bt_insert k v w) rows = Ok m'"
proof -
  define good where "good = (\<lambda>(k, v). take 2 k = hdr \<longrightarrow> (\<forall>x. v = Some x \<longrightarrow> (\<exists>y. dec k x = Ok y)))"
  have ok: "(\<exists>m. overlay hdr dec fs rows = Ok m) \<longleftrightarrow> Ball (set fs) good" for fs
    unfolding overlay_ok good_def ..
  have "Ball (set (es @ w)) good" using ok [of "es @ w"] assms(1) by blast
  moreover have "good (k, v)" using assms(2) by (simp add: good_def)
  ultimately have "Ball (set (es @ bt_insert k v w)) good" using set_bt_insert [of k v w] by auto
  then show thesis using ok that by blast
qed

lemma set_write:
  assumes "bt_wf w" "overlay hdr dec (es @ w) rows = Ok m" "bt_wf rows" "fits x"
  shows "overlay hdr dec (es @ bt_insert (key_of x) (Some (enc x)) w) rows = Ok (bt_insert (key_of x) (stored x) m)"
proof -
  obtain m' where m': "overlay hdr dec (es @ bt_insert (key_of x) (Some (enc x)) w) rows = Ok m'"
    using overlay_grow [OF assms(2), of "key_of x" "Some (enc x)"] decodes [OF assms(4)] by blast
  have "bt_get m' = bt_get (bt_insert (key_of x) (stored x) m)"
    unfolding fun_eq_iff overlay_get [OF m'] bt_get_insert fun_upd_apply overlay_get [OF assms(2)]
    using assms(1) key_header [OF assms(4)] decodes [OF assms(4)]
    by (auto simp: last_write_append last_write_wf split: option.splits)
  then have "m' = bt_insert (key_of x) (stored x) m"
    using overlay_wf [OF m' assms(3)] overlay_wf [OF assms(2,3)] by (intro bt_ext) simp_all
  then show ?thesis using m' by simp
qed

lemma delete_write:
  assumes "bt_wf w" "overlay hdr dec (es @ w) rows = Ok m" "bt_wf rows" "take 2 k = hdr"
  shows "overlay hdr dec (es @ bt_insert k None w) rows = Ok (bt_remove k m)"
proof -
  obtain m' where m': "overlay hdr dec (es @ bt_insert k None w) rows = Ok m'"
    using overlay_grow [OF assms(2), of k None] by blast
  have "bt_get m' = bt_get (bt_remove k m)"
    unfolding fun_eq_iff overlay_get [OF m'] bt_get_remove fun_upd_apply overlay_get [OF assms(2)]
    using assms(1,4) by (auto simp: last_write_append last_write_wf split: option.splits)
  then have "m' = bt_remove k m"
    using overlay_wf [OF m' assms(3)] overlay_wf [OF assms(2,3)] by (intro bt_ext) simp_all
  then show ?thesis using m' by simp
qed

lemma foreign_write:
  assumes "bt_wf w" "overlay hdr dec (es @ w) rows = Ok m" "bt_wf rows" "take 2 k \<noteq> hdr"
  shows "overlay hdr dec (es @ bt_insert k v w) rows = Ok m"
proof -
  obtain m' where m': "overlay hdr dec (es @ bt_insert k v w) rows = Ok m'"
    using overlay_grow [OF assms(2), of k v] assms(4) by blast
  have "bt_get m' = bt_get m"
    unfolding fun_eq_iff overlay_get [OF m'] overlay_get [OF assms(2)]
    using assms(1,4) by (auto simp: last_write_append last_write_wf split: option.splits)
  then have "m' = m" using overlay_wf [OF m' assms(3)] overlay_wf [OF assms(2,3)] by (intro bt_ext) simp_all
  then show ?thesis using m' by simp
qed

end

definition plain_row :: "shard_info \<Rightarrow> shard_info" where
  "plain_row row = row\<lparr>si_size := [], data_shards := 0, si_commitment := []\<rparr>"

abbreviation row_key :: "shard_info \<Rightarrow> bytes" where
  "row_key row \<equiv> app_shard_key (shard_key row) (si_prefix row)"

abbreviation change_key :: "pending_shard_change \<Rightarrow> bytes" where
  "change_key c \<equiv> pending_change_key (effective_epoch c) (parent c)"

interpretation grid: staged_rows "[SHARD, APP_SHARD_DATA]" staged_row row_key
  "\<lambda>row. concat (map write_u32 (si_prefix row))" "\<lambda>row. length (shard_key row) = SHARD_KEY_LEN" plain_row
proof
  fix row :: shard_info
  assume "length (shard_key row) = SHARD_KEY_LEN"
  then show "staged_row (row_key row) (concat (map write_u32 (si_prefix row))) = Ok (plain_row row)"
    by (simp add: staged_row_def row_at_def plain_row_def app_shard_key_def)
qed (simp add: app_shard_key_def)

interpretation changes: staged_rows "[SHARD, PENDING_SHARD_CHANGE]" "\<lambda>_. decode_pending_change" change_key
  encode_pending_change change_fits "\<lambda>c. c"
  by unfold_locales (simp_all add: pending_change_key_def decode_encode_change)

lemmas batch_ops = put_app_shard_def delete_app_shard_def put_pending_shard_change_def
  delete_pending_shard_change_def batch_set_def batch_delete_def Let_def

lemma row_value [simp]:
  "length sk = SHARD_KEY_LEN \<Longrightarrow> drop (2 + length sk) (app_shard_key sk p) = concat (map write_u32 p)"
  by (simp add: app_shard_key_def)

lemma batch_wf_ops [simp]:
  "bt_wf (batch_writes b) \<Longrightarrow> bt_wf (batch_writes (put_app_shard b row))"
  "bt_wf (batch_writes b) \<Longrightarrow> bt_wf (batch_writes (delete_app_shard b sk p))"
  "bt_wf (batch_writes b) \<Longrightarrow> bt_wf (batch_writes (put_pending_shard_change b c))"
  "bt_wf (batch_writes b) \<Longrightarrow> bt_wf (batch_writes (delete_pending_shard_change b par e))"
  by (simp_all add: batch_ops)

lemma app_rows_put:
  assumes "bt_wf (batch_writes b)" "app_rows b = Ok rows" "length (shard_key row) = SHARD_KEY_LEN"
  shows "app_rows (put_app_shard b row) = Ok (bt_insert (row_key row) (plain_row row) rows)"
  using grid.set_write [OF assms(1) assms(2) [unfolded app_rows_def] _ assms(3)]
  unfolding put_app_shard_def Let_def row_value [OF assms(3)] by (simp add: app_rows_def batch_set_def)

lemma app_rows_delete:
  assumes "bt_wf (batch_writes b)" "app_rows b = Ok rows"
  shows "app_rows (delete_app_shard b sk p) = Ok (bt_remove (app_shard_key sk p) rows)"
  using grid.delete_write [OF assms(1) assms(2) [unfolded app_rows_def], of "app_shard_key sk p"]
  by (simp add: app_rows_def batch_ops key_kinds_apart)


definition sample_row :: shard_info where
  "sample_row = \<lparr>shard_key = replicate 35 7, si_prefix = [BIT_PATH_PREFIX_SENTINEL, 1], si_size = [], data_shards = 0, si_commitment = []\<rparr>"

definition sample_change :: pending_shard_change where
  "sample_change = \<lparr>kind = Split, parent = replicate 32 7, children = [[1], [2]], effective_epoch = 5, proposed_frame = 900\<rparr>"


text \<open>The bound a prefix scan stops at is exact: the keys from the prefix up to it are the keys that start with
the prefix, the sentinel rows included.\<close>

theorem prefix_scan_exact:
  "prefix_byte_successor k = Some u \<Longrightarrow> {x. k \<le> x \<and> x < u} = {k @ r |r. True}"
  using successor_range [of k u] by (auto simp: prefix_def)

theorem prefix_scan_exact_witness:
  "{x :: bytes. [7, 255] \<le> x \<and> x < [8]} = {[7, 255] @ r |r. True}"
  using prefix_scan_exact [of "[7, 255]" "[8]"] by (simp add: prefix_byte_successor.simps)

end
