(* ===== verification/Shard_Ranges.thy ===== *)
theory Shard_Ranges
  imports Shard_Paths "HOL-Library.List_Lexorder"
begin

text \<open>
  The range a set of shards covers (\<^verbatim>\<open>partition\<close> in
  \<^verbatim>\<open>quil-execution/src/global_intrinsic/handoff.rs\<close>): the check that a committee transition keeps the
  addresses it is about. Siblings are folded into their parent until none are left; two lists of shards cover
  the same addresses exactly when they fold to the same set.
\<close>

subsection \<open>Definitions\<close>

text \<open>A \<^verbatim>\<open>BTreeSet\<close> of paths is its ascending list.\<close>

fun first_overlap :: "bool list list \<Rightarrow> bool" where
  "first_overlap (a # b # rest) \<longleftrightarrow> bit_path_starts_with b a \<or> first_overlap (b # rest)"
| "first_overlap _ \<longleftrightarrow> False"

definition find_pair :: "bool list list \<Rightarrow> bool list option" where
  "find_pair paths =
     List.find (\<lambda>path. path \<noteq> [] \<and> \<not> last path \<and> butlast path @ [True] \<in> set paths) paths"

definition fold_pair :: "bool list \<Rightarrow> bool list list \<Rightarrow> bool list list" where
  "fold_pair left paths = insort_insert (butlast left) (remove1 (butlast left @ [True]) (remove1 left paths))"

function reduce_paths :: "bool list list \<Rightarrow> bool list list" where
  "reduce_paths paths =
     (case find_pair paths of None \<Rightarrow> paths | Some left \<Rightarrow> reduce_paths (fold_pair left paths))"
  by pat_completeness auto

lemma find_pair_Some:
  assumes "find_pair paths = Some left"
  obtains s where "left = s @ [False]" "s @ [False] \<in> set paths" "s @ [True] \<in> set paths"
proof -
  have "left \<in> set paths" "left \<noteq> []" "\<not> last left" "butlast left @ [True] \<in> set paths"
    using assms by (auto simp: find_pair_def find_Some_iff)
  moreover from this have "left = butlast left @ [False]" by (metis append_butlast_last_id)
  ultimately show thesis using that [of "butlast left"] by simp
qed

lemma find_pair_None: "find_pair paths = None \<longleftrightarrow> (\<forall>s. \<not> (s @ [False] \<in> set paths \<and> s @ [True] \<in> set paths))"
proof
  assume "find_pair paths = None"
  then have "\<not> (\<exists>path \<in> set paths. path \<noteq> [] \<and> \<not> last path \<and> butlast path @ [True] \<in> set paths)"
    by (auto simp: find_pair_def find_None_iff)
  then show "\<forall>s. \<not> (s @ [False] \<in> set paths \<and> s @ [True] \<in> set paths)" by force
next
  assume "\<forall>s. \<not> (s @ [False] \<in> set paths \<and> s @ [True] \<in> set paths)"
  then show "find_pair paths = None" using find_pair_Some by (metis option.exhaust)
qed

termination reduce_paths
proof (relation "measure length")
  fix paths :: "bool list list" and left
  assume "find_pair paths = Some left"
  then obtain s where s: "left = s @ [False]" "s @ [False] \<in> set paths" "s @ [True] \<in> set paths"
    by (rule find_pair_Some)
  then have "s @ [True] \<in> set (remove1 left paths)" "length paths \<ge> 2"
    using length_remove1 [of left paths]
    by (auto simp: in_set_remove1) (metis One_nat_def Suc_leI Suc_1 length_pos_if_in_set in_set_remove1 length_remove1
        append_eq_append_conv list.inject less_diff_conv add_0 plus_1_eq_Suc)
  then show "(fold_pair left paths, paths) \<in> measure length"
    using s by (simp add: fold_pair_def insort_insert_key_def length_remove1) linarith
qed simp

declare reduce_paths.simps [simp del]

fun collect_paths :: "bytes \<Rightarrow> bytes list \<Rightarrow> bool list list \<Rightarrow> bool list list result" where
  "collect_paths app [] paths = Ok paths"
| "collect_paths app (flt # rest) paths =
     (if length flt < 32 \<or> take 32 flt \<noteq> app then Err InvalidArgument
      else if length flt = 33 \<and> 64 \<le> flt ! 32 then Err InvalidArgument
      else case decode_shard_filter_or_root flt 32 of
        None \<Rightarrow> Err InvalidArgument
      | Some (_, path) \<Rightarrow>
          if 256 < length path \<or> path \<in> set paths then Err InvalidArgument
          else collect_paths app rest (insort_insert path paths))"

definition partition_of :: "bytes list \<Rightarrow> (bytes \<times> bool list list) result" where
  "partition_of filters =
     (if filters = [] \<or> length (hd filters) < 32 then Err InvalidArgument
      else
        let app = take 32 (hd filters) in
        try_then (collect_paths app filters []) (\<lambda>paths.
          if first_overlap paths then Err InvalidArgument else Ok (app, reduce_paths paths)))"

subsection \<open>Covered streams\<close>

definition covered :: "bool list set \<Rightarrow> (nat \<Rightarrow> bool) \<Rightarrow> bool" where
  "covered R f \<longleftrightarrow> (\<exists>p \<in> R. on_path f p)"

definition antichain :: "bool list set \<Rightarrow> bool" where
  "antichain R \<longleftrightarrow> (\<forall>p q. p \<in> R \<longrightarrow> p @ q \<in> R \<longrightarrow> q = [])"

definition reduced :: "bool list set \<Rightarrow> bool" where
  "reduced R \<longleftrightarrow> (\<forall>s. \<not> (s @ [False] \<in> R \<and> s @ [True] \<in> R))"

lemma antichainD: "antichain R \<Longrightarrow> p \<in> R \<Longrightarrow> p @ q \<in> R \<Longrightarrow> q = []"
  by (simp add: antichain_def)

lemma on_path_comparable:
  assumes "on_path f p" "on_path f q"
  shows "(\<exists>r. q = p @ r) \<or> (\<exists>r. p = q @ r)"
proof (cases "length p \<le> length q")
  case True
  have "take (length p) q = p" by (rule nth_equalityI) (use assms True in \<open>auto simp: on_path_nth\<close>)
  then show ?thesis using append_take_drop_id [of "length p" q] by metis
next
  case False
  have "take (length q) p = q" by (rule nth_equalityI) (use assms False in \<open>auto simp: on_path_nth\<close>)
  then show ?thesis using append_take_drop_id [of "length q" p] by metis
qed

lemma on_path_extend: "on_path f (p @ q) \<Longrightarrow> on_path f p"
  by (simp add: on_path_append)

lemma on_path_children: "on_path f s \<longleftrightarrow> on_path f (s @ [False]) \<or> on_path f (s @ [True])"
  by (auto simp: on_path_snoc)

lemma antichain_once: "antichain R \<Longrightarrow> p \<in> R \<Longrightarrow> q \<in> R \<Longrightarrow> on_path f p \<Longrightarrow> on_path f q \<Longrightarrow> p = q"
  using on_path_comparable antichainD by (metis append_Nil2)

text \<open>
  In a folded antichain a fully covered region lies under one path: a longest path below the region would have
  its sibling in the set.
\<close>

lemma covered_region_has_path:
  assumes "finite R" "antichain R" "reduced R" "\<And>f. on_path f s \<Longrightarrow> covered R f"
  shows "\<exists>r \<in> R. \<exists>q. s = r @ q"
proof (rule ccontr)
  assume none: "\<not> (\<exists>r \<in> R. \<exists>q. s = r @ q)"
  have below: "\<exists>r \<in> R. \<exists>q. r = s @ q" if f: "on_path f s" for f
  proof -
    obtain r where "r \<in> R" "on_path f r" using assms(4) [OF f] by (auto simp: covered_def)
    then show ?thesis using on_path_comparable [OF f, of r] none by blast
  qed
  let ?E = "{r \<in> R. \<exists>q. r = s @ q}"
  have "finite ?E" using assms(1) by simp
  moreover have "?E \<noteq> {}" using below [OF on_path_self [of s]] by blast
  ultimately have "Max (length ` ?E) \<in> length ` ?E" by (intro Max_in) simp_all
  then obtain r where m: "Max (length ` ?E) = length r" and r: "r \<in> ?E" by (rule imageE)
  have longest: "length r' \<le> length r" if "r' \<in> ?E" for r'
    unfolding m [symmetric] using \<open>finite ?E\<close> that by (intro Max_ge) simp_all
  obtain q where q: "r = s @ q" "q \<noteq> []" using r none by fastforce
  obtain t b where t: "q = t @ [b]" using q(2) by (meson rev_exhaust)
  let ?sib = "(s @ t) @ [\<not> b]"
  obtain f where f: "on_path f ?sib" using on_path_self by blast
  then have "on_path f s" using on_path_extend [of f s "t @ [\<not> b]"] by simp
  then obtain r' where r': "r' \<in> R" "on_path f r'" using assms(4) by (auto simp: covered_def)
  consider q2 where "?sib = r' @ q2" "q2 \<noteq> []" | "r' = ?sib" | q2 where "r' = ?sib @ q2" "q2 \<noteq> []"
    using on_path_comparable [OF f r'(2)] by (metis append_Nil2)
  then show False
  proof cases
    case (1 q2)
    then obtain u c where "q2 = u @ [c]" by (meson rev_exhaust)
    with 1 have "s @ t = r' @ u" by simp
    moreover have "(s @ t) @ [b] \<in> R" using r by (simp add: q t)
    ultimately have "r' @ (u @ [b]) \<in> R" by simp
    then show False using antichainD [OF assms(2) r'(1)] by blast
  next
    case 2
    then have "(s @ t) @ [\<not> b] \<in> R" "(s @ t) @ [b] \<in> R" using r r' by (simp_all add: q t)
    then show False using assms(3) [unfolded reduced_def, THEN spec, of "s @ t"] by (cases b) simp_all
  next
    case (3 q2)
    then have "r' \<in> ?E" using r' by simp
    then show False using longest [of r'] 3 by (simp add: q t)
  qed
qed

lemma folded_subset:
  assumes "finite A" "antichain A" "reduced A" "finite B" "antichain B" "reduced B"
    "\<And>f. covered A f \<longleftrightarrow> covered B f"
  shows "A \<subseteq> B"
proof
  fix p assume p: "p \<in> A"
  then have "\<And>f. on_path f p \<Longrightarrow> covered B f" using assms(7) by (auto simp: covered_def)
  then obtain r q where r: "r \<in> B" "p = r @ q" using covered_region_has_path [OF assms(4-6)] by blast
  then have "\<And>f. on_path f r \<Longrightarrow> covered A f" using assms(7) by (auto simp: covered_def)
  then obtain p' q' where p': "p' \<in> A" "r = p' @ q'" using covered_region_has_path [OF assms(1-3)] by blast
  have "p' @ (q' @ q) \<in> A" using p by (simp add: r(2) p'(2))
  then have "q' @ q = []" by (rule antichainD [OF assms(2) p'(1)])
  then show "p \<in> B" using r by simp
qed

lemma folded_unique:
  assumes "finite R" "antichain R" "reduced R" "finite R'" "antichain R'" "reduced R'"
    "\<And>f. covered R f \<longleftrightarrow> covered R' f"
  shows "R = R'"
  using folded_subset [OF assms] folded_subset [OF assms(4-6,1-3)] assms(7) by blast

subsection \<open>Folding\<close>

lemma set_fold_pair:
  assumes "distinct paths"
  shows "set (fold_pair (s @ [False]) paths) = insert s (set paths - {s @ [False], s @ [True]})"
  using assms by (auto simp: fold_pair_def set_insort_insert)

lemma fold_pair_ordered:
  assumes "sorted paths" "distinct paths"
  shows "sorted (fold_pair left paths)" "distinct (fold_pair left paths)"
proof -
  let ?r = "remove1 (butlast left @ [True]) (remove1 left paths)"
  have "sorted ?r" "distinct ?r" using assms by (simp_all add: sorted_remove1)
  then show "sorted (fold_pair left paths)" "distinct (fold_pair left paths)"
    by (simp_all add: fold_pair_def insort_insert_key_def sorted_insort distinct_insort)
qed

lemma fold_pair_covered:
  assumes "distinct paths" "s @ [False] \<in> set paths" "s @ [True] \<in> set paths"
  shows "covered (set (fold_pair (s @ [False]) paths)) f \<longleftrightarrow> covered (set paths) f"
  unfolding set_fold_pair [OF assms(1)] covered_def using assms(2,3) on_path_children [of f s] by blast

lemma fold_pair_antichain:
  assumes "distinct paths" "s @ [False] \<in> set paths" "s @ [True] \<in> set paths" "antichain (set paths)"
  shows "antichain (set (fold_pair (s @ [False]) paths))"
  unfolding set_fold_pair [OF assms(1)] antichain_def
proof (intro allI impI)
  fix p q assume p: "p \<in> insert s (set paths - {s @ [False], s @ [True]})"
    "p @ q \<in> insert s (set paths - {s @ [False], s @ [True]})"
  show "q = []"
  proof (cases "p = s")
    case True
    show ?thesis
    proof (cases q)
      case (Cons b q')
      have "(s @ [b]) @ q' \<in> set paths" using p(2) True Cons by auto
      moreover have "s @ [b] \<in> set paths" using assms(2,3) by (cases b) auto
      ultimately have "q' = []" using antichainD [OF assms(4)] by blast
      then show ?thesis using p(2) True Cons by (cases b) auto
    qed
  next
    case False
    then have pin: "p \<in> set paths" using p(1) by simp
    show ?thesis
    proof (cases "p @ q = s")
      case True
      then have "p @ (q @ [False]) \<in> set paths" using assms(2) by (metis append.assoc)
      then show ?thesis using antichainD [OF assms(4) pin] by blast
    next
      case False
      then show ?thesis using p(2) antichainD [OF assms(4) pin] by blast
    qed
  qed
qed

lemma reduce_paths_spec:
  assumes "sorted paths" "distinct paths" "antichain (set paths)"
  shows "sorted (reduce_paths paths) \<and> distinct (reduce_paths paths) \<and> antichain (set (reduce_paths paths)) \<and>
    reduced (set (reduce_paths paths)) \<and> (\<forall>f. covered (set (reduce_paths paths)) f \<longleftrightarrow> covered (set paths) f)"
  using assms
proof (induction paths rule: reduce_paths.induct)
  case (1 paths)
  show ?case
  proof (cases "find_pair paths")
    case None
    then have "reduced (set paths)" unfolding find_pair_None reduced_def .
    then show ?thesis using 1 None by (simp add: reduce_paths.simps [of paths])
  next
    case (Some left)
    obtain s where s: "left = s @ [False]" "s @ [False] \<in> set paths" "s @ [True] \<in> set paths"
      using find_pair_Some [OF Some] .
    have step: "reduce_paths paths = reduce_paths (fold_pair left paths)"
      by (simp add: reduce_paths.simps [of paths] Some)
    note IH = "1.IH" [OF Some fold_pair_ordered(1) fold_pair_ordered(2)] 
    show ?thesis
      unfolding step using IH fold_pair_antichain fold_pair_covered s "1.prems" by simp
  qed
qed

subsection \<open>The check on neighbours finds every overlap\<close>

lemma lex_between: "(p :: bool list) < y \<Longrightarrow> y \<le> p @ q \<Longrightarrow> \<exists>r. y = p @ r"
proof (induction p arbitrary: y)
  case (Cons a p)
  then obtain b y' where y: "y = b # y'" by (cases y) auto
  with Cons.prems have "b = a" by auto
  then show ?case using Cons y by auto
qed simp

lemma lex_prefix_le: "(p :: bool list) \<le> p @ q"
  by (induction p) auto

lemma no_overlap_antichain:
  assumes "sorted_wrt (<) paths" "\<not> first_overlap paths"
  shows "antichain (set paths)"
  using assms
proof (induction paths rule: first_overlap.induct)
  case (1 a b rest)
  have tail: "antichain (set (b # rest))" using 1 by simp
  have "q = []" if pq: "p \<in> set (a # b # rest)" "p @ q \<in> set (a # b # rest)" for p q
  proof (cases "p = a")
    case True
    show ?thesis
    proof (rule ccontr)
      assume "q \<noteq> []"
      then have "p @ q \<in> set (b # rest)" using pq(2) True by simp
      then have "b \<le> p @ q" using "1.prems"(1) by (auto intro: less_imp_le)
      moreover have "p < b" using "1.prems"(1) True by simp
      ultimately obtain r where "b = a @ r" using lex_between True by blast
      then show False using "1.prems"(2) by (simp add: bit_path_starts_with_def)
    qed
  next
    case False
    then have p: "p \<in> set (b # rest)" using pq(1) by simp
    then have "a < p" using "1.prems"(1) by auto
    then have "p @ q \<noteq> a" using lex_prefix_le [of p q] by auto
    then have "p @ q \<in> set (b # rest)" using pq(2) by simp
    then show ?thesis using antichainD [OF tail p] by blast
  qed
  then show ?case unfolding antichain_def by blast
qed (auto simp: antichain_def)

subsection \<open>What the comparison decides\<close>

definition filter_path :: "bytes \<Rightarrow> bool list" where
  "filter_path flt = (case decode_shard_filter_or_root flt 32 of None \<Rightarrow> [] | Some (_, p) \<Rightarrow> p)"

lemma collect_paths_spec:
  assumes "collect_paths app filters paths = Ok ps" "sorted_wrt (<) paths"
  shows "sorted_wrt (<) ps \<and> set ps = set paths \<union> filter_path ` set filters \<and>
    (\<forall>flt \<in> set filters. take 32 flt = app \<and> 32 \<le> length flt)"
  using assms
proof (induction filters arbitrary: paths)
  case (Cons flt filters)
  then obtain a p where p: "decode_shard_filter_or_root flt 32 = Some (a, p)" "p \<notin> set paths"
    "collect_paths app filters (insort_insert p paths) = Ok ps" "take 32 flt = app" "32 \<le> length flt"
    by (auto split: if_splits option.splits)
  have "sorted_wrt (<) (insort_insert p paths)"
    using Cons.prems(2) p(2) by (simp add: insort_insert_key_def strict_sorted_iff sorted_insort distinct_insort)
  from Cons.IH [OF p(3) this] show ?case using p by (auto simp: set_insort_insert filter_path_def)
qed simp

lemma partition_of_spec:
  assumes "partition_of filters = Ok (app, ps)"
  shows "sorted ps" "distinct ps" "antichain (set ps)" "reduced (set ps)"
    "covered (set ps) f \<longleftrightarrow> covered (filter_path ` set filters) f" "antichain (filter_path ` set filters)"
    "\<forall>flt \<in> set filters. take 32 flt = app"
proof -
  obtain qs where qs: "collect_paths app filters [] = Ok qs" "\<not> first_overlap qs" "ps = reduce_paths qs"
    using assms by (auto simp: partition_of_def Let_def try_then_Ok split: if_splits)
  note c = collect_paths_spec [OF qs(1), simplified]
  then have anti: "antichain (set qs)" using no_overlap_antichain qs(2) by blast
  have "sorted qs" "distinct qs" using c by (simp_all add: strict_sorted_iff)
  note r = reduce_paths_spec [OF this anti]
  show "sorted ps" "distinct ps" "antichain (set ps)" "reduced (set ps)"
    "covered (set ps) f \<longleftrightarrow> covered (filter_path ` set filters) f" "antichain (filter_path ` set filters)"
    "\<forall>flt \<in> set filters. take 32 flt = app"
    using r c anti by (simp_all add: qs(3))
qed


definition example_app :: bytes where "example_app = replicate 32 1"

lemma partition_example:
  "partition_of [example_app] = Ok (example_app, [[]])"
  "partition_of [encode_shard_bit_path example_app [False], encode_shard_bit_path example_app [True]] =
     Ok (example_app, [[]])"
  by code_simp+


end
