(* ===== verification/Shard_Grid.thy ===== *)
theory Shard_Grid
  imports Shard_Store Shard_Ranges
begin

text \<open>
  Splits and merges of shards: the proposal (\<^verbatim>\<open>first_split_bifurcation\<close> in
  \<^verbatim>\<open>quil-forest/src/forest.rs\<close>), its materialization (\<^verbatim>\<open>materialize_shard_split\<close>,
  \<^verbatim>\<open>materialize_shard_merge\<close>, \<^verbatim>\<open>migrate_app_shards_to_sentinel\<close> in
  \<^verbatim>\<open>quil-execution/src/global_intrinsic/materialize.rs\<close>) and the step that flips the grid when a change comes
  due (\<^verbatim>\<open>apply_due_shard_changes_inner\<close> in \<^verbatim>\<open>intrinsic.rs\<close>).
\<close>

subsection \<open>Proposing a split\<close>

datatype split_bifurcation = Children "bool list list" | Withheld "bool list" | Unsplittable

text \<open>The count of committed leaves below a path is the forest's; the reachability test is an argument of the code.\<close>

fun descend_split ::
  "(bool list \<Rightarrow> nat result) \<Rightarrow> (bool list \<Rightarrow> bool) \<Rightarrow> nat \<Rightarrow> bool list \<Rightarrow> split_bifurcation result" where
  "descend_split count reachable 0 path = Ok Unsplittable"
| "descend_split count reachable (Suc n) path =
     try_then (count (path @ [False])) (\<lambda>c0.
     try_then (count (path @ [True])) (\<lambda>c1.
       if 0 < c0 \<and> 0 < c1 then Ok (Children [path @ [False], path @ [True]])
       else if c0 = 0 \<and> c1 = 0 then Ok Unsplittable
       else
         let (kept, empty) = (if 0 < c0 then (path @ [False], path @ [True]) else (path @ [True], path @ [False])) in
         if reachable empty then Ok (Withheld empty) else descend_split count reachable n kept))"

definition first_split_bifurcation ::
  "(bool list \<Rightarrow> nat result) \<Rightarrow> bool list \<Rightarrow> nat \<Rightarrow> (bool list \<Rightarrow> bool) \<Rightarrow> split_bifurcation result" where
  "first_split_bifurcation count shard_bits max_extra_bits reachable =
     try_then (count shard_bits) (\<lambda>n.
       if n < 2 then Ok Unsplittable else descend_split count reachable max_extra_bits shard_bits)"

subsection \<open>Materializing a split or a merge\<close>

record shard_split_output =
  new_shards :: "(bytes \<times> u32 list) list"
  removed_parent :: "(bytes \<times> u32 list) option"

record shard_merge_output =
  removed_shards :: "(bytes \<times> u32 list) list"
  added_parent :: "(bytes \<times> u32 list) option"

definition longest_common_bit_prefix :: "bool list list \<Rightarrow> bool list" where
  "longest_common_bit_prefix paths =
     (case paths of
        [] \<Rightarrow> []
      | first # rest \<Rightarrow>
          foldl (\<lambda>pre p. take (length (takeWhile (\<lambda>(a, b). a = b) (zip pre p))) pre) first rest)"

text \<open>One proposed child: its application and path, and the bits of a bit-path child.\<close>

definition split_child :: "bytes \<Rightarrow> bool \<Rightarrow> bytes \<Rightarrow> ((bytes \<times> u32 list) \<times> bool list option) result" where
  "split_child shard_address bit_path_mode proposed =
     (if bit_path_mode then
        if \<not> shard_filter_extends proposed shard_address 32 then Err InvalidArgument
        else case decode_shard_bit_path proposed 32 of
          None \<Rightarrow> Err InvalidArgument
        | Some (l2, bits) \<Rightarrow> Ok ((l2, bit_path_to_prefix bits), Some bits)
      else if length proposed < 32 then Err InvalidArgument
      else if take (length shard_address) proposed \<noteq> shard_address then Err InvalidArgument
      else Ok ((take 32 proposed, map (\<lambda>b. ucast b) (drop 32 proposed)), None))"

fun map_results :: "('a \<Rightarrow> 'b result) \<Rightarrow> 'a list \<Rightarrow> 'b list result" where
  "map_results f [] = Ok []"
| "map_results f (x # xs) = try_then (f x) (\<lambda>y. try_then (map_results f xs) (\<lambda>ys. Ok (y # ys)))"

definition materialize_shard_split :: "bytes \<Rightarrow> bytes list \<Rightarrow> bool \<Rightarrow> shard_split_output result" where
  "materialize_shard_split shard_address proposed_shards bit_path_mode =
     (if length shard_address < 32 then Err InvalidArgument
      else if length proposed_shards < 2 then Err InvalidArgument
      else
        try_then (map_results (split_child shard_address bit_path_mode) proposed_shards) (\<lambda>found.
          let listed = map fst found; child_bits = List.map_filter snd found in
          if bit_path_mode then
            case decode_shard_filter_or_root shard_address 32 of
              None \<Rightarrow> Err InvalidArgument
            | Some (app, parent_bits) \<Rightarrow>
                let branch = longest_common_bit_prefix child_bits in
                Ok \<lparr>new_shards = listed @ map (\<lambda>sib. (app, bit_path_to_prefix sib)) (split_spine_siblings parent_bits branch),
                    removed_parent = Some (app, bit_path_to_prefix parent_bits)\<rparr>
          else Ok \<lparr>new_shards = listed, removed_parent = None\<rparr>))"

definition merge_child :: "bytes \<Rightarrow> bool \<Rightarrow> bytes \<Rightarrow> (bytes \<times> u32 list) result" where
  "merge_child parent_address bit_path_mode addr =
     (if bit_path_mode then
        if \<not> shard_filter_extends addr parent_address 32 then Err InvalidArgument
        else case decode_shard_bit_path addr 32 of
          None \<Rightarrow> Err InvalidArgument
        | Some (l2, bits) \<Rightarrow> Ok (l2, bit_path_to_prefix bits)
      else if length addr \<noteq> length parent_address + 1 \<and> length addr \<noteq> length parent_address + 2 then Err InvalidArgument
      else if take (length parent_address) addr \<noteq> parent_address then Err InvalidArgument
      else Ok (take 32 addr, map (\<lambda>b. ucast b) (drop 32 addr)))"

definition materialize_shard_merge :: "bytes list \<Rightarrow> bytes \<Rightarrow> bool \<Rightarrow> shard_merge_output result" where
  "materialize_shard_merge shard_addresses parent_address bit_path_mode =
     (if length parent_address < 32 \<or> 63 < length parent_address then Err InvalidArgument
      else if length shard_addresses < 2 then Err InvalidArgument
      else
        try_then (map_results (merge_child parent_address bit_path_mode) shard_addresses) (\<lambda>removed.
          if bit_path_mode then
            case decode_shard_filter_or_root parent_address 32 of
              None \<Rightarrow> Err InvalidArgument
            | Some (app, parent_bits) \<Rightarrow>
                Ok \<lparr>removed_shards = removed, added_parent = Some (app, bit_path_to_prefix parent_bits)\<rparr>
          else Ok \<lparr>removed_shards = removed, added_parent = None\<rparr>))"

definition migrate_app_shards_to_sentinel :: "shard_batch \<Rightarrow> bytes \<Rightarrow> shard_batch result" where
  "migrate_app_shards_to_sentinel b gk =
     try_then (range_app_shards b) (\<lambda>all.
       let rows = filter (\<lambda>r. shard_key r = gk) all in
       if rows = [] then Ok b
       else if list_all (\<lambda>r. shard_bit_path_from_prefix (si_prefix r) \<noteq> None) rows then Ok b
       else Ok (foldl (\<lambda>acc (row, bits).
           put_app_shard (delete_app_shard acc (shard_key row) (si_prefix row)) (row\<lparr>si_prefix := bit_path_to_prefix bits\<rparr>))
         b (zip rows (canonical_shard_bit_paths (map si_prefix rows)))))"

subsection \<open>Flipping the grid\<close>

text \<open>The index filter of an application, the first part of a grid key, is the hypergraph crate's.\<close>

definition grid_key :: "(bytes \<Rightarrow> bytes) \<Rightarrow> bytes \<Rightarrow> bytes" where
  "grid_key l1 l2 = l1 l2 @ l2"

definition canon_bits :: "u32 list \<Rightarrow> bool list" where
  "canon_bits pfx = (case shard_bit_path_from_prefix pfx of Some bits \<Rightarrow> bits | None \<Rightarrow> prefix_to_bits pfx 6)"

record flip_state =
  flip_batch :: shard_batch
  live :: "(bytes \<times> bool list) set"
  flipped :: "(bytes \<times> bool list) list"

definition fresh_row :: "bytes \<Rightarrow> u32 list \<Rightarrow> shard_info" where
  "fresh_row gk pfx = \<lparr>shard_key = gk, si_prefix = pfx, si_size = [], data_shards = 0, si_commitment = []\<rparr>"

definition register_shard :: "(bytes \<Rightarrow> bytes) \<Rightarrow> flip_state \<Rightarrow> bytes \<times> u32 list \<Rightarrow> flip_state" where
  "register_shard l1 st = (\<lambda>(l2, path).
     st\<lparr>flip_batch := put_app_shard (flip_batch st) (fresh_row (grid_key l1 l2) path),
        live := insert (grid_key l1 l2, canon_bits path) (live st)\<rparr>)"

definition note_flipped :: "bytes \<times> u32 list \<Rightarrow> flip_state \<Rightarrow> flip_state" where
  "note_flipped = (\<lambda>(l2, path) st.
     if 32 \<le> length l2 then st\<lparr>flipped := flipped st @ [(take 32 l2, canon_bits path)]\<rparr> else st)"

definition retire_parent :: "(bytes \<Rightarrow> bytes) \<Rightarrow> bytes \<times> u32 list \<Rightarrow> flip_state \<Rightarrow> flip_state" where
  "retire_parent l1 = (\<lambda>(l2, path) st.
     note_flipped (l2, path)
       (st\<lparr>flip_batch := delete_app_shard (flip_batch st) (grid_key l1 l2) path,
           live := live st - {(grid_key l1 l2, canon_bits path)}\<rparr>))"

definition parent_in_grid :: "(bytes \<Rightarrow> bytes) \<Rightarrow> shard_split_output \<Rightarrow> (bytes \<times> bool list) set \<Rightarrow> bool" where
  "parent_in_grid l1 out grid =
     (case removed_parent out of None \<Rightarrow> True | Some (l2, path) \<Rightarrow> (grid_key l1 l2, canon_bits path) \<in> grid)"

definition flip_split :: "(bytes \<Rightarrow> bytes) \<Rightarrow> u64 \<Rightarrow> pending_shard_change \<Rightarrow> flip_state \<Rightarrow> flip_state result" where
  "flip_split l1 cutover change st =
     (let bit_path_mode = cutover \<le> proposed_frame change in
      try_then (materialize_shard_split (parent change) (children change) bit_path_mode) (\<lambda>out.
        if \<not> parent_in_grid l1 out (live st) then Ok st
        else
          try_then (if bit_path_mode \<and> 32 \<le> length (parent change)
              then migrate_app_shards_to_sentinel (flip_batch st) (grid_key l1 (take 32 (parent change)))
              else Ok (flip_batch st)) (\<lambda>b.
            let registered = foldl (register_shard l1) (st\<lparr>flip_batch := b\<rparr>) (new_shards out) in
            Ok (case removed_parent out of None \<Rightarrow> registered | Some p \<Rightarrow> retire_parent l1 p registered))))"

definition drop_merged :: "(bytes \<Rightarrow> bytes) \<Rightarrow> flip_state \<Rightarrow> bytes \<times> u32 list \<Rightarrow> flip_state" where
  "drop_merged l1 st = (\<lambda>(l2, path).
     note_flipped (l2, path) (st\<lparr>flip_batch := delete_app_shard (flip_batch st) (grid_key l1 l2) path\<rparr>))"

definition flip_merge :: "(bytes \<Rightarrow> bytes) \<Rightarrow> u64 \<Rightarrow> pending_shard_change \<Rightarrow> flip_state \<Rightarrow> flip_state result" where
  "flip_merge l1 cutover change st =
     (let bit_path_mode = cutover \<le> proposed_frame change in
      try_then (materialize_shard_merge (children change) (parent change) bit_path_mode) (\<lambda>out.
        let dropped = foldl (drop_merged l1) st (removed_shards out) in
        Ok (case added_parent out of
              None \<Rightarrow> dropped
            | Some (l2, path) \<Rightarrow>
                dropped\<lparr>flip_batch := put_app_shard (flip_batch dropped) (fresh_row (grid_key l1 l2) path)\<rparr>)))"

definition flip_change :: "(bytes \<Rightarrow> bytes) \<Rightarrow> u64 \<Rightarrow> pending_shard_change \<Rightarrow> flip_state \<Rightarrow> flip_state result" where
  "flip_change l1 cutover change st =
     try_then (case kind change of Split \<Rightarrow> flip_split l1 cutover change st | Merge \<Rightarrow> flip_merge l1 cutover change st)
       (\<lambda>st'. Ok (st'\<lparr>flip_batch :=
          delete_pending_shard_change (flip_batch st') (parent change) (effective_epoch change)\<rparr>))"

fun flip_all :: "(bytes \<Rightarrow> bytes) \<Rightarrow> u64 \<Rightarrow> pending_shard_change list \<Rightarrow> flip_state \<Rightarrow> flip_state result" where
  "flip_all l1 cutover [] st = Ok st"
| "flip_all l1 cutover (c # due) st = try_then (flip_change l1 cutover c st) (flip_all l1 cutover due)"

definition due_changes :: "u64 \<Rightarrow> pending_shard_change list \<Rightarrow> pending_shard_change list" where
  "due_changes cur_epoch pend = filter (\<lambda>c. effective_epoch c \<le> cur_epoch) pend"

definition live_grid :: "shard_info list \<Rightarrow> (bytes \<times> bool list) set" where
  "live_grid rows = set (map (\<lambda>r. (shard_key r, canon_bits (si_prefix r))) rows)"

definition flip_due_changes :: "(bytes \<Rightarrow> bytes) \<Rightarrow> u64 \<Rightarrow> u64 \<Rightarrow> shard_batch \<Rightarrow> flip_state result" where
  "flip_due_changes l1 cutover cur_epoch b =
     try_then (all_pending_shard_changes b) (\<lambda>pend.
       let due = due_changes cur_epoch pend in
       if due = [] then Ok \<lparr>flip_batch = b, live = {}, flipped = []\<rparr>
       else
         try_then (range_app_shards b) (\<lambda>rows.
           flip_all l1 cutover due \<lparr>flip_batch = b, live = live_grid rows, flipped = []\<rparr>))"

subsection \<open>What a bifurcation materializes to\<close>

lemma filter_or_root_app: "decode_shard_filter_or_root flt 32 = Some (app, p) \<Longrightarrow> length app = 32"
  by (auto simp: decode_shard_filter_or_root_def dest: encode_decode_path(2) split: if_splits)

lemma length_encode: "length (encode_shard_bit_path app p) = length app + 2 + div_ceil8 (length p)"
  by (simp add: encode_shard_bit_path_def)

lemma decode_filter_encode:
  assumes "length app = 32" "length p < 65536"
  shows "decode_shard_filter_or_root (encode_shard_bit_path app p) 32 = Some (app, p)"
  using decode_encode_path [OF assms(2), of app] assms(1)
  by (simp add: decode_shard_filter_or_root_def length_encode SHARD_BIT_LEN_BYTES_def)

lemma lcp_pair: "longest_common_bit_prefix [p @ [False], p @ [True]] = p"
proof -
  have "takeWhile (\<lambda>(a, b). a = b) (zip (p @ [False]) (p @ [True])) = zip p p"
    by (simp add: takeWhile_append set_zip)
  then show ?thesis by (simp add: longest_common_bit_prefix_def)
qed

definition bifurcation :: "bytes \<Rightarrow> bool list \<Rightarrow> bytes list" where
  "bifurcation app br = [encode_shard_bit_path app (br @ [False]), encode_shard_bit_path app (br @ [True])]"

lemma extends_child:
  assumes "decode_shard_filter_or_root par 32 = Some (app, pb)" "length (pb @ q) < 65536"
  shows "shard_filter_extends (encode_shard_bit_path app (pb @ q)) par 32"
  using assms decode_filter_encode [OF filter_or_root_app [OF assms(1)] assms(2)]
  by (simp add: shard_filter_extends_def bit_path_starts_with_def)

lemma materialize_split_bifurcation:
  assumes "decode_shard_filter_or_root par 32 = Some (app, pb)" "32 \<le> length par" "length (pb @ rest) < 65535"
  shows "materialize_shard_split par (bifurcation app (pb @ rest)) True =
    Ok \<lparr>new_shards = map (\<lambda>p. (app, bit_path_to_prefix p)) (split_paths pb (pb @ rest)),
       removed_parent = Some (app, bit_path_to_prefix pb)\<rparr>"
proof -
  have app: "length app = 32" by (rule filter_or_root_app [OF assms(1)])
  have child: "split_child par True (encode_shard_bit_path app ((pb @ rest) @ [b])) =
      Ok ((app, bit_path_to_prefix ((pb @ rest) @ [b])), Some ((pb @ rest) @ [b]))" for b
    using extends_child [OF assms(1), of "rest @ [b]"] decode_encode_path [of "(pb @ rest) @ [b]" app] app assms(3)
    by (simp add: split_child_def)
  show ?thesis
    using assms(1,2) child [of False] child [of True] lcp_pair [of "pb @ rest"]
    by (simp add: materialize_shard_split_def bifurcation_def map_filter_def split_paths_def Let_def)
qed

lemma materialize_merge_bifurcation:
  assumes "decode_shard_filter_or_root par 32 = Some (app, pb)" "32 \<le> length par" "length par \<le> 63" "length pb < 65535"
  shows "materialize_shard_merge (bifurcation app pb) par True =
    Ok \<lparr>removed_shards = [(app, bit_path_to_prefix (pb @ [False])), (app, bit_path_to_prefix (pb @ [True]))],
       added_parent = Some (app, bit_path_to_prefix pb)\<rparr>"
proof -
  have app: "length app = 32" by (rule filter_or_root_app [OF assms(1)])
  have "merge_child par True (encode_shard_bit_path app (pb @ [b])) = Ok (app, bit_path_to_prefix (pb @ [b]))" for b
    using extends_child [OF assms(1), of "[b]"] decode_encode_path [of "pb @ [b]" app] app assms(4)
    by (simp add: merge_child_def)
  then show ?thesis using assms by (simp add: materialize_shard_merge_def bifurcation_def)
qed

subsection \<open>The rows of one application\<close>

definition rows_ok :: "(bytes, shard_info) bt_map \<Rightarrow> bool" where
  "rows_ok rows \<longleftrightarrow> bt_wf rows \<and>
     (\<forall>(k, row) \<in> set rows. k = row_key row \<and> length (shard_key row) = SHARD_KEY_LEN)"

definition grid_rows :: "(bytes, shard_info) bt_map \<Rightarrow> bytes \<Rightarrow> shard_info list" where
  "grid_rows rows gk = filter (\<lambda>row. shard_key row = gk) (map snd rows)"

definition grid_prefixes :: "(bytes, shard_info) bt_map \<Rightarrow> bytes \<Rightarrow> u32 list set" where
  "grid_prefixes rows gk = si_prefix ` set (grid_rows rows gk)"

text \<open>The bit paths of an application's shards, as its routing reads an all-sentinel grid.\<close>

definition grid_paths :: "(bytes, shard_info) bt_map \<Rightarrow> bytes \<Rightarrow> bool list list" where
  "grid_paths rows gk = map (canon_bits \<circ> si_prefix) (grid_rows rows gk)"

lemma canon_sentinel [simp]: "canon_bits (bit_path_to_prefix p) = p"
  by (simp add: canon_bits_def)

lemma grid_prefixes_get:
  assumes "rows_ok rows" "length gk = SHARD_KEY_LEN"
  shows "p \<in> grid_prefixes rows gk \<longleftrightarrow> bt_get rows (app_shard_key gk p) \<noteq> None"
proof
  assume "p \<in> grid_prefixes rows gk"
  then obtain k row where "(k, row) \<in> set rows" "shard_key row = gk" "si_prefix row = p"
    by (auto simp: grid_prefixes_def grid_rows_def)
  then have "(app_shard_key gk p, row) \<in> set rows" using assms(1) by (auto simp: rows_ok_def)
  then show "bt_get rows (app_shard_key gk p) \<noteq> None" using assms(1) bt_get_in by (force simp: rows_ok_def)
next
  assume "bt_get rows (app_shard_key gk p) \<noteq> None"
  then obtain row where row: "(app_shard_key gk p, row) \<in> set rows" using map_of_SomeD by fastforce
  then have "app_shard_key gk p = row_key row" "length (shard_key row) = SHARD_KEY_LEN"
    using assms(1) by (auto simp: rows_ok_def)
  then have "gk = shard_key row" "p = si_prefix row" using app_shard_key_inj assms(2) by metis+
  then show "p \<in> grid_prefixes rows gk" using row by (force simp: grid_prefixes_def grid_rows_def)
qed

lemma rows_ok_insert:
  assumes "rows_ok rows" "length (shard_key row) = SHARD_KEY_LEN"
  shows "rows_ok (bt_insert (row_key row) row rows)"
  using assms set_bt_insert [of "row_key row" row rows] by (auto simp: rows_ok_def)

lemma rows_ok_remove: "rows_ok rows \<Longrightarrow> rows_ok (bt_remove k rows)"
  by (auto simp: rows_ok_def bt_remove_def) (auto simp: bt_wf_def sorted_wrt_map sorted_wrt_filter)

lemma grid_prefixes_insert:
  assumes "rows_ok rows" "length gk = SHARD_KEY_LEN" "length g = SHARD_KEY_LEN"
  shows "grid_prefixes (bt_insert (app_shard_key g p) (fresh_row g p) rows) gk =
    (if g = gk then insert p (grid_prefixes rows gk) else grid_prefixes rows gk)"
proof -
  have ok: "rows_ok (bt_insert (app_shard_key g p) (fresh_row g p) rows)"
    using rows_ok_insert [OF assms(1), of "fresh_row g p"] assms(3) by (simp add: fresh_row_def)
  have "q \<in> grid_prefixes (bt_insert (app_shard_key g p) (fresh_row g p) rows) gk \<longleftrightarrow>
      g = gk \<and> q = p \<or> q \<in> grid_prefixes rows gk" for q
    unfolding grid_prefixes_get [OF ok assms(2)] grid_prefixes_get [OF assms(1,2)] bt_get_insert
    using app_shard_key_inj [of gk q g p] assms(2,3) by (auto split: if_splits)
  then show ?thesis by auto
qed

lemma grid_prefixes_remove:
  assumes "rows_ok rows" "length gk = SHARD_KEY_LEN" "length g = SHARD_KEY_LEN"
  shows "grid_prefixes (bt_remove (app_shard_key g p) rows) gk =
    (if g = gk then grid_prefixes rows gk - {p} else grid_prefixes rows gk)"
proof -
  have "q \<in> grid_prefixes (bt_remove (app_shard_key g p) rows) gk \<longleftrightarrow>
      q \<in> grid_prefixes rows gk \<and> \<not> (g = gk \<and> q = p)" for q
    unfolding grid_prefixes_get [OF rows_ok_remove [OF assms(1)] assms(2)] grid_prefixes_get [OF assms(1,2)] bt_get_remove
    using app_shard_key_inj [of gk q g p] assms(2,3) by (auto split: if_splits)
  then show ?thesis by auto
qed

definition grid_set :: "(bytes, shard_info) bt_map \<Rightarrow> bytes \<Rightarrow> bool list set" where
  "grid_set rows gk = {p. bit_path_to_prefix p \<in> grid_prefixes rows gk}"

definition all_sentinel :: "(bytes, shard_info) bt_map \<Rightarrow> bytes \<Rightarrow> bool" where
  "all_sentinel rows gk \<longleftrightarrow> grid_prefixes rows gk \<subseteq> range bit_path_to_prefix"

lemma sentinel_inj: "bit_path_to_prefix p = bit_path_to_prefix q \<longleftrightarrow> p = q"
  by (metis canon_sentinel)

lemma set_grid_paths: "all_sentinel rows gk \<Longrightarrow> set (grid_paths rows gk) = grid_set rows gk"
proof -
  assume all: "all_sentinel rows gk"
  have "set (grid_paths rows gk) = canon_bits ` grid_prefixes rows gk"
    by (simp add: grid_paths_def grid_prefixes_def image_comp)
  also have "\<dots> = grid_set rows gk"
  proof (intro set_eqI iffI)
    fix p assume "p \<in> canon_bits ` grid_prefixes rows gk"
    then obtain x where x: "x \<in> grid_prefixes rows gk" "p = canon_bits x" by blast
    then obtain q where "x = bit_path_to_prefix q" using all by (auto simp: all_sentinel_def)
    then show "p \<in> grid_set rows gk" using x by (simp add: grid_set_def)
  next
    fix p assume "p \<in> grid_set rows gk"
    then show "p \<in> canon_bits ` grid_prefixes rows gk" by (metis canon_sentinel grid_set_def imageI mem_Collect_eq)
  qed
  finally show ?thesis .
qed

lemma distinct_grid_paths:
  assumes "rows_ok rows" "all_sentinel rows gk"
  shows "distinct (grid_paths rows gk)"
proof -
  have "map fst rows = map row_key (map snd rows)" using assms(1) by (auto simp: rows_ok_def)
  then have "distinct (map row_key (map snd rows))" using assms(1) bt_distinct by (metis rows_ok_def)
  then have d: "distinct (map row_key (grid_rows rows gk))" unfolding grid_rows_def by (rule distinct_map_filter)
  have "row_key row = app_shard_key gk (bit_path_to_prefix ((canon_bits \<circ> si_prefix) row))"
    if "row \<in> set (grid_rows rows gk)" for row
  proof -
    have "si_prefix row \<in> grid_prefixes rows gk" "shard_key row = gk"
      using that by (auto simp: grid_prefixes_def grid_rows_def)
    then show ?thesis using assms(2) by (auto simp: all_sentinel_def)
  qed
  then have "map row_key (grid_rows rows gk) = map (\<lambda>b. app_shard_key gk (bit_path_to_prefix b)) (grid_paths rows gk)"
    by (simp add: grid_paths_def)
  then show ?thesis using d by (metis distinct_map)
qed

lemma partition_same_set: "shard_partition ps \<Longrightarrow> distinct qs \<Longrightarrow> set qs = set ps \<Longrightarrow> shard_partition qs"
  by (simp add: shard_partition_def)

subsection \<open>Rows through a flip\<close>

definition grid_state :: "flip_state \<Rightarrow> (bytes, shard_info) bt_map \<Rightarrow> bool" where
  "grid_state st rows \<longleftrightarrow> bt_wf (batch_writes (flip_batch st)) \<and> app_rows (flip_batch st) = Ok rows \<and> rows_ok rows"

lemma put_fresh:
  assumes "grid_state st rows" "length g = SHARD_KEY_LEN"
  shows "grid_state (st\<lparr>flip_batch := put_app_shard (flip_batch st) (fresh_row g p)\<rparr>)
    (bt_insert (app_shard_key g p) (fresh_row g p) rows)"
proof -
  have "app_rows (put_app_shard (flip_batch st) (fresh_row g p)) = Ok (bt_insert (app_shard_key g p) (fresh_row g p) rows)"
    using app_rows_put [of "flip_batch st" rows "fresh_row g p"] assms by (simp add: grid_state_def fresh_row_def plain_row_def)
  moreover have "rows_ok (bt_insert (app_shard_key g p) (fresh_row g p) rows)"
    using rows_ok_insert [of rows "fresh_row g p"] assms by (simp add: grid_state_def fresh_row_def)
  ultimately show ?thesis using assms by (simp add: grid_state_def)
qed

lemma drop_row:
  assumes "grid_state st rows"
  shows "grid_state (st\<lparr>flip_batch := delete_app_shard (flip_batch st) g p\<rparr>) (bt_remove (app_shard_key g p) rows)"
  using assms app_rows_delete [of "flip_batch st" rows g p] by (simp add: grid_state_def rows_ok_remove)

lemma consume_pending:
  assumes "grid_state st rows"
  shows "grid_state (st\<lparr>flip_batch := delete_pending_shard_change (flip_batch st) par e\<rparr>) rows"
proof -
  let ?base = "bt_of_list (map (\<lambda>row. (row_key row, row)) (base_rows (flip_batch st)))"
  have "overlay [SHARD, APP_SHARD_DATA] staged_row (earlier (flip_batch st) @
      bt_insert (pending_change_key e par) None (batch_writes (flip_batch st))) ?base = Ok rows"
    by (rule grid.foreign_write) (use assms key_kinds_apart in \<open>simp_all add: grid_state_def app_rows_def\<close>)
  then show ?thesis
    using assms by (simp add: grid_state_def app_rows_def delete_pending_shard_change_def batch_delete_def)
qed

lemma grid_state_more [simp]:
  "grid_state (st\<lparr>live := l\<rparr>) rows = grid_state st rows" "grid_state (st\<lparr>flipped := f\<rparr>) rows = grid_state st rows"
  "grid_state (st\<lparr>flip_batch := flip_batch st\<rparr>) rows = grid_state st rows"
  by (simp_all add: grid_state_def)

lemma note_flipped_live [simp]: "live (note_flipped p st) = live st" "grid_state (note_flipped p st) rows = grid_state st rows"
  by (auto simp: note_flipped_def split_beta)

lemma register_many:
  assumes "grid_state st rows" "length (grid_key l1 app) = SHARD_KEY_LEN"
  shows "\<exists>rows'. grid_state (foldl (register_shard l1) st (map (\<lambda>p. (app, bit_path_to_prefix p)) ps)) rows' \<and>
    (\<forall>gk. length gk = SHARD_KEY_LEN \<longrightarrow> grid_prefixes rows' gk =
      (if gk = grid_key l1 app then grid_prefixes rows gk \<union> bit_path_to_prefix ` set ps else grid_prefixes rows gk)) \<and>
    live (foldl (register_shard l1) st (map (\<lambda>p. (app, bit_path_to_prefix p)) ps)) =
      live st \<union> {grid_key l1 app} \<times> set ps"
  using assms(1)
proof (induction ps arbitrary: st rows)
  case (Cons p ps)
  let ?g = "grid_key l1 app" and ?row = "fresh_row (grid_key l1 app) (bit_path_to_prefix p)"
  let ?rows = "bt_insert (app_shard_key ?g (bit_path_to_prefix p)) ?row rows"
  define st1 where "st1 = register_shard l1 st (app, bit_path_to_prefix p)"
  have st1: "grid_state st1 ?rows" "live st1 = insert (?g, p) (live st)"
    using put_fresh [OF Cons.prems assms(2)] by (simp_all add: st1_def register_shard_def)
  have pre: "grid_prefixes ?rows gk = (if ?g = gk then insert (bit_path_to_prefix p) (grid_prefixes rows gk) else grid_prefixes rows gk)"
    if "length gk = SHARD_KEY_LEN" for gk
    using grid_prefixes_insert [OF _ that assms(2)] Cons.prems by (simp add: grid_state_def)
  from Cons.IH [OF st1(1)] obtain rows' where rows':
    "grid_state (foldl (register_shard l1) st1 (map (\<lambda>p. (app, bit_path_to_prefix p)) ps)) rows'"
    "\<forall>gk. length gk = SHARD_KEY_LEN \<longrightarrow> grid_prefixes rows' gk =
      (if gk = ?g then grid_prefixes ?rows gk \<union> bit_path_to_prefix ` set ps else grid_prefixes ?rows gk)"
    "live (foldl (register_shard l1) st1 (map (\<lambda>p. (app, bit_path_to_prefix p)) ps)) = live st1 \<union> {?g} \<times> set ps"
    by blast
  show ?case
    by (rule exI [of _ rows']) (use rows' pre st1(2) in \<open>auto simp: st1_def [symmetric]\<close>)
qed auto

subsection \<open>Splits keep the grid a partition\<close>

definition sound_grid :: "bytes \<Rightarrow> flip_state \<Rightarrow> (bytes, shard_info) bt_map \<Rightarrow> bool" where
  "sound_grid gk st rows \<longleftrightarrow> grid_state st rows \<and> all_sentinel rows gk \<and> shard_partition (grid_paths rows gk) \<and>
     (\<forall>p. (gk, p) \<in> live st \<longleftrightarrow> p \<in> set (grid_paths rows gk))"

definition split_of :: "(bytes \<Rightarrow> bytes) \<Rightarrow> u64 \<Rightarrow> bytes \<Rightarrow> pending_shard_change \<Rightarrow> bool list \<Rightarrow> bool list \<Rightarrow> bool" where
  "split_of l1 cutover app c pb rest \<longleftrightarrow> kind c = Split \<and> cutover \<le> proposed_frame c \<and> 32 \<le> length (parent c) \<and>
     take 32 (parent c) = app \<and> decode_shard_filter_or_root (parent c) 32 = Some (app, pb) \<and>
     children c = bifurcation app (pb @ rest) \<and> length (pb @ rest) < 65535"

lemma migrate_sentinel:
  assumes "grid_state st rows" "all_sentinel rows gk"
  shows "migrate_app_shards_to_sentinel (flip_batch st) gk = Ok (flip_batch st)"
proof -
  have "list_all (\<lambda>r. shard_bit_path_from_prefix (si_prefix r) \<noteq> None) (grid_rows rows gk)"
    using assms(2) by (force simp: list_all_iff all_sentinel_def grid_prefixes_def)
  then show ?thesis
    using assms(1) by (simp add: migrate_app_shards_to_sentinel_def range_app_shards_def grid_state_def grid_rows_def Let_def)
qed

lemma split_applies:
  assumes "grid_state st rows" "all_sentinel rows (grid_key l1 app)" "(grid_key l1 app, pb) \<in> live st"
    "length (grid_key l1 app) = SHARD_KEY_LEN" "split_of l1 cutover app c pb rest"
  shows "\<exists>st' rows'. flip_change l1 cutover c st = Ok st' \<and> grid_state st' rows' \<and> all_sentinel rows' (grid_key l1 app) \<and>
    set (grid_paths rows' (grid_key l1 app)) =
      set (grid_paths rows (grid_key l1 app)) - {pb} \<union> set (split_paths pb (pb @ rest)) \<and>
    (\<forall>p. (grid_key l1 app, p) \<in> live st' \<longleftrightarrow>
      (grid_key l1 app, p) \<in> live st \<and> p \<noteq> pb \<or> p \<in> set (split_paths pb (pb @ rest)))"
proof -
  let ?g = "grid_key l1 app" and ?ps = "split_paths pb (pb @ rest)"
  have c: "kind c = Split" "cutover \<le> proposed_frame c" "32 \<le> length (parent c)" "take 32 (parent c) = app"
    "decode_shard_filter_or_root (parent c) 32 = Some (app, pb)" "children c = bifurcation app (pb @ rest)"
    "length (pb @ rest) < 65535" using assms(5) by (auto simp: split_of_def)
  note mat = materialize_split_bifurcation [OF c(5,3,7)]
  obtain rows1 where r1: "grid_state (foldl (register_shard l1) st (map (\<lambda>p. (app, bit_path_to_prefix p)) ?ps)) rows1"
    "grid_prefixes rows1 ?g = grid_prefixes rows ?g \<union> bit_path_to_prefix ` set ?ps"
    "live (foldl (register_shard l1) st (map (\<lambda>p. (app, bit_path_to_prefix p)) ?ps)) = live st \<union> {?g} \<times> set ?ps"
    using register_many [OF assms(1,4), of ?ps] assms(4) by auto
  define st1 where "st1 = foldl (register_shard l1) st (map (\<lambda>p. (app, bit_path_to_prefix p)) ?ps)"
  define st2 where "st2 = retire_parent l1 (app, bit_path_to_prefix pb) st1"
  define rows2 where "rows2 = bt_remove (app_shard_key ?g (bit_path_to_prefix pb)) rows1"
  let ?st = "st2\<lparr>flip_batch := delete_pending_shard_change (flip_batch st2) (parent c) (effective_epoch c)\<rparr>"
  have run: "flip_change l1 cutover c st = Ok ?st"
    using assms(3) migrate_sentinel [OF assms(1,2)]
    by (simp add: flip_change_def flip_split_def c mat parent_in_grid_def st1_def st2_def)
  have g2: "grid_state st2 rows2"
    unfolding st2_def rows2_def retire_parent_def using drop_row [OF r1(1) [folded st1_def]] by simp
  have pre2: "grid_prefixes rows2 ?g = grid_prefixes rows ?g \<union> bit_path_to_prefix ` set ?ps - {bit_path_to_prefix pb}"
    unfolding rows2_def using grid_prefixes_remove [OF _ assms(4,4)] r1 by (simp add: grid_state_def)
  have sen2: "all_sentinel rows2 ?g" using assms(2) by (auto simp: all_sentinel_def pre2)
  have pb: "pb \<notin> set ?ps" by (metis append_self_conv split_paths_extend)
  have "set (grid_paths rows2 ?g) = set (grid_paths rows ?g) - {pb} \<union> set ?ps"
    unfolding set_grid_paths [OF assms(2)] set_grid_paths [OF sen2] using pb
    by (auto simp: grid_set_def pre2 sentinel_inj)
  moreover have "(?g, p) \<in> live ?st \<longleftrightarrow> (?g, p) \<in> live st \<and> p \<noteq> pb \<or> p \<in> set ?ps" for p
    using pb r1(3) by (auto simp: st2_def st1_def retire_parent_def)
  ultimately show ?thesis using run consume_pending [OF g2] sen2 by blast
qed

lemma split_step:
  assumes "sound_grid (grid_key l1 app) st rows" "length (grid_key l1 app) = SHARD_KEY_LEN" "split_of l1 cutover app c pb rest"
  shows "\<exists>st' rows'. flip_change l1 cutover c st = Ok st' \<and> sound_grid (grid_key l1 app) st' rows'"
proof -
  let ?g = "grid_key l1 app"
  have st: "grid_state st rows" "all_sentinel rows ?g" and part: "shard_partition (grid_paths rows ?g)"
    and live: "\<And>p. (?g, p) \<in> live st \<longleftrightarrow> p \<in> set (grid_paths rows ?g)"
    using assms(1) by (auto simp: sound_grid_def)
  show ?thesis
  proof (cases "(?g, pb) \<in> live st")
    case False
    have c: "kind c = Split" "cutover \<le> proposed_frame c" "32 \<le> length (parent c)"
      "decode_shard_filter_or_root (parent c) 32 = Some (app, pb)" "children c = bifurcation app (pb @ rest)"
      "length (pb @ rest) < 65535" using assms(3) by (auto simp: split_of_def)
    have "flip_change l1 cutover c st =
        Ok (st\<lparr>flip_batch := delete_pending_shard_change (flip_batch st) (parent c) (effective_epoch c)\<rparr>)"
      using False by (simp add: flip_change_def flip_split_def c materialize_split_bifurcation [OF c(4,3,6)] parent_in_grid_def)
    then show ?thesis using assms(1) consume_pending [OF st(1)] by (auto simp: sound_grid_def)
  next
    case True
    obtain st' rows' where s: "flip_change l1 cutover c st = Ok st'" "grid_state st' rows'" "all_sentinel rows' ?g"
      "set (grid_paths rows' ?g) = set (grid_paths rows ?g) - {pb} \<union> set (split_paths pb (pb @ rest))"
      "\<And>p. (?g, p) \<in> live st' \<longleftrightarrow> (?g, p) \<in> live st \<and> p \<noteq> pb \<or> p \<in> set (split_paths pb (pb @ rest))"
      using split_applies [OF st True assms(2,3)] by blast
    have "rows_ok rows'" using s(2) by (simp add: grid_state_def)
    have pb: "pb \<in> set (grid_paths rows ?g)" using True live by blast
    have "shard_partition (grid_paths rows' ?g)"
      by (rule partition_same_set [OF split_partition [OF part pb refl, of rest]
          distinct_grid_paths [OF \<open>rows_ok rows'\<close> s(3)]]) (auto simp: s(4))
    then show ?thesis using s live by (auto simp: sound_grid_def)
  qed
qed

lemma merge_partition:
  assumes "shard_partition ps" "br @ [False] \<in> set ps" "br @ [True] \<in> set ps"
  shows "shard_partition (br # filter (\<lambda>p. p \<noteq> br @ [False] \<and> p \<noteq> br @ [True]) ps)"
  unfolding shard_partition_def
proof (intro conjI allI)
  have "br \<notin> set ps" using partition_incomparable [OF assms(1) _ assms(2)] by blast
  then show "distinct (br # filter (\<lambda>p. p \<noteq> br @ [False] \<and> p \<noteq> br @ [True]) ps)"
    using assms(1) by (simp add: shard_partition_def)
  fix f
  obtain p where p: "p \<in> set ps" "on_path f p" and uniq: "\<And>q. q \<in> set ps \<Longrightarrow> on_path f q \<Longrightarrow> q = p"
    using assms(1) unfolding shard_partition_def by metis
  let ?rest = "set (filter (\<lambda>p. p \<noteq> br @ [False] \<and> p \<noteq> br @ [True]) ps)"
  have "\<exists>!q. q \<in> {br} \<union> ?rest \<and> on_path f q"
  proof (cases "on_path f br")
    case True
    then have "p = br @ [False] \<or> p = br @ [True]" using on_path_children [of f br] uniq assms(2,3) by blast
    then have "\<not> on_path f q" if "q \<in> ?rest" for q using uniq that by auto
    then show ?thesis using True by (intro unique_left) auto
  next
    case False
    then have "p \<noteq> br @ [False] \<and> p \<noteq> br @ [True]" using p(2) on_path_children [of f br] by blast
    then have "p \<in> ?rest" using p(1) by simp
    moreover have "?rest \<subseteq> set ps" by auto
    ultimately have "\<exists>!q. q \<in> ?rest \<and> on_path f q" using p(2) uniq by blast
    then show ?thesis using False by (intro unique_right) auto
  qed
  then show "\<exists>!q. q \<in> set (br # filter (\<lambda>p. p \<noteq> br @ [False] \<and> p \<noteq> br @ [True]) ps) \<and> on_path f q"
    by simp
qed

lemma splits_run:
  assumes "sound_grid (grid_key l1 app) st rows" "length (grid_key l1 app) = SHARD_KEY_LEN"
    "\<forall>c \<in> set due. \<exists>pb rest. split_of l1 cutover app c pb rest"
  shows "\<exists>st' rows'. flip_all l1 cutover due st = Ok st' \<and> sound_grid (grid_key l1 app) st' rows'"
  using assms(1,3)
proof (induction due arbitrary: st rows)
  case (Cons c due)
  then obtain pb rest where "split_of l1 cutover app c pb rest" by auto
  from split_step [OF Cons.prems(1) assms(2) this] obtain st1 rows1 where
    "flip_change l1 cutover c st = Ok st1" "sound_grid (grid_key l1 app) st1 rows1" by blast
  with Cons show ?case by simp
qed auto


definition unit_app :: bytes where "unit_app = replicate 32 9"
definition unit_l1 :: "bytes \<Rightarrow> bytes" where "unit_l1 _ = [1, 2, 3]"

definition root_batch :: shard_batch where
  "root_batch = batch_new [fresh_row (grid_key unit_l1 unit_app) [BIT_PATH_PREFIX_SENTINEL]] [] []"

definition root_state :: flip_state where
  "root_state = \<lparr>flip_batch = root_batch, live = {(grid_key unit_l1 unit_app, [])}, flipped = []\<rparr>"

definition root_split :: pending_shard_change where
  "root_split = \<lparr>kind = Split, parent = unit_app, children = bifurcation unit_app [False], effective_epoch = 4, proposed_frame = 10\<rparr>"

lemma root_sound:
  "sound_grid (grid_key unit_l1 unit_app) root_state
     [(app_shard_key (grid_key unit_l1 unit_app) [BIT_PATH_PREFIX_SENTINEL], fresh_row (grid_key unit_l1 unit_app) [BIT_PATH_PREFIX_SENTINEL])]"
proof -
  have "grid_paths [(k, fresh_row g [BIT_PATH_PREFIX_SENTINEL])] g = [[]]" for k g
    by (simp add: grid_paths_def grid_rows_def fresh_row_def canon_bits_def shard_bit_path_from_prefix_def)
  moreover have "[BIT_PATH_PREFIX_SENTINEL] = bit_path_to_prefix []" by (simp add: bit_path_to_prefix_def)
  ultimately show ?thesis
    by (auto simp: sound_grid_def grid_state_def root_state_def root_batch_def batch_new_def app_rows_def bt_of_list_def
        rows_ok_def bt_wf_def fresh_row_def grid_key_def unit_l1_def unit_app_def SHARD_KEY_LEN_def all_sentinel_def
        grid_prefixes_def grid_rows_def shard_partition_def on_path_def)
qed

lemma root_split_of: "split_of unit_l1 5 unit_app root_split [] [False]"
  by (simp add: split_of_def root_split_def decode_shard_filter_or_root_def unit_app_def)

lemma unit_key_length: "length (grid_key unit_l1 unit_app) = SHARD_KEY_LEN"
  by (simp add: grid_key_def unit_l1_def unit_app_def SHARD_KEY_LEN_def)


definition merge_of :: "u64 \<Rightarrow> bytes \<Rightarrow> pending_shard_change \<Rightarrow> bool list \<Rightarrow> bool" where
  "merge_of cutover app c pb \<longleftrightarrow> kind c = Merge \<and> cutover \<le> proposed_frame c \<and> 32 \<le> length (parent c) \<and>
     length (parent c) \<le> 63 \<and> decode_shard_filter_or_root (parent c) 32 = Some (app, pb) \<and>
     children c = bifurcation app pb \<and> length pb < 65535"

lemma merge_step:
  assumes "grid_state st rows" "all_sentinel rows (grid_key l1 app)" "shard_partition (grid_paths rows (grid_key l1 app))"
    "length (grid_key l1 app) = SHARD_KEY_LEN" "merge_of cutover app c pb"
    "pb @ [False] \<in> set (grid_paths rows (grid_key l1 app))" "pb @ [True] \<in> set (grid_paths rows (grid_key l1 app))"
  shows "\<exists>st' rows'. flip_change l1 cutover c st = Ok st' \<and> grid_state st' rows' \<and> all_sentinel rows' (grid_key l1 app) \<and>
    shard_partition (grid_paths rows' (grid_key l1 app)) \<and>
    set (grid_paths rows' (grid_key l1 app)) =
      insert pb (set (grid_paths rows (grid_key l1 app)) - {pb @ [False], pb @ [True]}) \<and> live st' = live st"
proof -
  let ?g = "grid_key l1 app" and ?pre = bit_path_to_prefix
  define st2 where "st2 = drop_merged l1 (drop_merged l1 st (app, ?pre (pb @ [False]))) (app, ?pre (pb @ [True]))"
  define rows2 where "rows2 = bt_remove (app_shard_key ?g (?pre (pb @ [True]))) (bt_remove (app_shard_key ?g (?pre (pb @ [False]))) rows)"
  define st3 where "st3 = st2\<lparr>flip_batch := put_app_shard (flip_batch st2) (fresh_row ?g (?pre pb))\<rparr>"
  define rows3 where "rows3 = bt_insert (app_shard_key ?g (?pre pb)) (fresh_row ?g (?pre pb)) rows2"
  have g2: "grid_state st2 rows2"
    unfolding st2_def rows2_def drop_merged_def using drop_row [OF drop_row [OF assms(1)]] by (simp add: note_flipped_def)
  then have g3: "grid_state st3 rows3" unfolding st3_def rows3_def by (rule put_fresh [OF _ assms(4)])
  have ok: "rows_ok rows" "rows_ok rows2" "rows_ok rows3" "rows_ok (bt_remove (app_shard_key ?g (?pre (pb @ [False]))) rows)"
    using assms(1) g2 g3 rows_ok_remove by (auto simp: grid_state_def)
  have pre3: "grid_prefixes rows3 ?g = insert (?pre pb) (grid_prefixes rows ?g - {?pre (pb @ [False]), ?pre (pb @ [True])})"
    using grid_prefixes_insert [OF ok(2) assms(4,4)] grid_prefixes_remove [OF ok(1) assms(4,4)]
      grid_prefixes_remove [OF ok(4) assms(4,4)] by (auto simp: rows3_def rows2_def)
  have sen3: "all_sentinel rows3 ?g" using assms(2) by (auto simp: all_sentinel_def pre3)
  have set3: "set (grid_paths rows3 ?g) = insert pb (set (grid_paths rows ?g) - {pb @ [False], pb @ [True]})"
    unfolding set_grid_paths [OF assms(2)] set_grid_paths [OF sen3] by (auto simp: grid_set_def pre3 sentinel_inj)
  have "shard_partition (grid_paths rows3 ?g)"
    by (rule partition_same_set [OF merge_partition [OF assms(3,6,7)] distinct_grid_paths [OF ok(3) sen3]])
      (auto simp: set3)
  moreover have "flip_change l1 cutover c st =
      Ok (st3\<lparr>flip_batch := delete_pending_shard_change (flip_batch st3) (parent c) (effective_epoch c)\<rparr>)"
    using materialize_merge_bifurcation [of "parent c" app pb] assms(5)
    by (simp add: merge_of_def flip_change_def flip_merge_def st3_def st2_def Let_def)
  moreover have "app_rows (flip_batch (st3\<lparr>flip_batch := delete_pending_shard_change (flip_batch st3) (parent c) (effective_epoch c)\<rparr>)) = Ok rows3"
    using consume_pending [OF g3] by (simp add: grid_state_def)
  moreover have "live st3 = live st" by (simp add: st3_def st2_def drop_merged_def)
  ultimately show ?thesis using set3 consume_pending [OF g3] sen3
    by (intro exI [of _ "st3\<lparr>flip_batch := delete_pending_shard_change (flip_batch st3) (parent c) (effective_epoch c)\<rparr>"] exI [of _ rows3]) simp
qed


definition pair_rows :: "shard_info list" where
  "pair_rows = map (\<lambda>p. fresh_row (grid_key unit_l1 unit_app) (bit_path_to_prefix p)) [[False], [True]]"

definition pair_state :: flip_state where
  "pair_state = \<lparr>flip_batch = batch_new pair_rows [] [], live = live_grid pair_rows, flipped = []\<rparr>"

definition pair_merge :: pending_shard_change where
  "pair_merge = \<lparr>kind = Merge, parent = unit_app, children = bifurcation unit_app [], effective_epoch = 4, proposed_frame = 10\<rparr>"

abbreviation keyed_rows :: "shard_info list \<Rightarrow> (bytes, shard_info) bt_map" where
  "keyed_rows rows \<equiv> map (\<lambda>row. (row_key row, row)) rows"

lemma pair_grid: "grid_paths (keyed_rows pair_rows) (grid_key unit_l1 unit_app) = [[False], [True]]"
  by (simp add: grid_paths_def grid_rows_def pair_rows_def fresh_row_def)

lemma pair_partition: "shard_partition [[False], [True]]"
proof -
  have one: "on_path f [b] \<longleftrightarrow> b = f 0" for f b using on_path_snoc [of f "[]" b] by (simp add: on_path_def)
  have "\<exists>!p. p \<in> set [[False], [True]] \<and> on_path f p" for f
    by (intro ex1I [of _ "[f 0]"]) (auto simp: one)
  then show ?thesis by (simp add: shard_partition_def)
qed

lemma pair_keys_ascend: "row_key (pair_rows ! 0) < row_key (pair_rows ! 1)"
proof -
  have four: "(4 :: nat) = Suc (Suc (Suc (Suc 0)))" by simp
  have "write_u32 0 < write_u32 1" by (simp add: write_u32_def four)
  then show ?thesis by (simp add: pair_rows_def fresh_row_def app_shard_key_def bit_path_to_prefix_def lex_cancel)
qed

lemma pair_sound: "sound_grid (grid_key unit_l1 unit_app) pair_state (keyed_rows pair_rows)"
proof -
  have two: "keyed_rows pair_rows = [(row_key (pair_rows ! 0), pair_rows ! 0), (row_key (pair_rows ! 1), pair_rows ! 1)]"
    by (simp add: pair_rows_def)
  have "bt_of_list (keyed_rows pair_rows) = keyed_rows pair_rows"
    unfolding two bt_of_list_def using pair_keys_ascend less_not_sym [OF pair_keys_ascend] by auto
  moreover have "bt_wf (keyed_rows pair_rows)" unfolding two bt_wf_def using pair_keys_ascend by simp
  moreover have "\<forall>row \<in> set pair_rows. length (shard_key row) = SHARD_KEY_LEN"
    using unit_key_length by (simp add: pair_rows_def fresh_row_def)
  ultimately have "grid_state pair_state (keyed_rows pair_rows)"
    by (auto simp: grid_state_def pair_state_def batch_new_def app_rows_def rows_ok_def)
  moreover have "all_sentinel (keyed_rows pair_rows) (grid_key unit_l1 unit_app)"
    by (auto simp: all_sentinel_def grid_prefixes_def grid_rows_def pair_rows_def fresh_row_def)
  moreover have "(grid_key unit_l1 unit_app, p) \<in> live pair_state \<longleftrightarrow> p \<in> {[False], [True]}" for p
    by (auto simp: pair_state_def live_grid_def pair_rows_def fresh_row_def)
  ultimately show ?thesis using pair_partition pair_grid by (simp add: sound_grid_def)
qed

lemma pair_merge_of: "merge_of 5 unit_app pair_merge []"
  by (simp add: merge_of_def pair_merge_def decode_shard_filter_or_root_def unit_app_def)


subsection \<open>A merge and a split due together\<close>

text \<open>The set of live shards that tells a stale split from a good one is kept up to date by splits only. When a
merge of two siblings and a split of one of them come due together, the merge is applied, the split still finds
its parent live and is applied too: the grid ends with the merged shard and the grandchildren below it, and an
address has two shards.\<close>

theorem merge_leaves_child_live:
  assumes "sound_grid (grid_key l1 app) st rows" "length (grid_key l1 app) = SHARD_KEY_LEN" "merge_of cutover app m pb"
    "pb @ [False] \<in> set (grid_paths rows (grid_key l1 app))" "pb @ [True] \<in> set (grid_paths rows (grid_key l1 app))"
    "split_of l1 cutover app c (pb @ [False]) rest"
  shows "\<exists>st' rows'. flip_all l1 cutover [m, c] st = Ok st' \<and> app_rows (flip_batch st') = Ok rows' \<and>
    {pb, (pb @ [False] @ rest) @ [False]} \<subseteq> set (grid_paths rows' (grid_key l1 app)) \<and>
    \<not> shard_partition (grid_paths rows' (grid_key l1 app))"
proof -
  let ?g = "grid_key l1 app" and ?q = "(pb @ [False]) @ rest"
  have st: "grid_state st rows" "all_sentinel rows ?g" "shard_partition (grid_paths rows ?g)"
    "(?g, pb @ [False]) \<in> live st" using assms(1,4) by (auto simp: sound_grid_def)
  obtain st1 rows1 where m: "flip_change l1 cutover m st = Ok st1" "grid_state st1 rows1" "all_sentinel rows1 ?g"
    "pb \<in> set (grid_paths rows1 ?g)" "live st1 = live st"
    using merge_step [OF st(1-3) assms(2-5)] by auto
  then obtain st2 rows2 where c: "flip_change l1 cutover c st1 = Ok st2" "grid_state st2 rows2"
    "set (grid_paths rows2 ?g) = set (grid_paths rows1 ?g) - {pb @ [False]} \<union> set (split_paths (pb @ [False]) ?q)"
    using split_applies [OF m(2,3) _ assms(2,6)] st(4) by auto
  have both: "pb \<in> set (grid_paths rows2 ?g)" "?q @ [False] \<in> set (grid_paths rows2 ?g)"
    using m(4) by (auto simp: c(3) split_paths_def)
  have "\<not> shard_partition (grid_paths rows2 ?g)"
  proof
    assume "shard_partition (grid_paths rows2 ?g)"
    from partition_incomparable [OF this both(1), of "[False] @ rest @ [False]"] both(2) show False by simp
  qed
  then show ?thesis using m(1) c(1,2) both by (intro exI [of _ st2] exI [of _ rows2]) (simp add: grid_state_def)
qed

definition stale_child_split :: pending_shard_change where
  "stale_child_split = \<lparr>kind = Split, parent = encode_shard_bit_path unit_app [False],
     children = bifurcation unit_app [False], effective_epoch = 4, proposed_frame = 11\<rparr>"

lemma stale_child_split_of: "split_of unit_l1 5 unit_app stale_child_split ([] @ [False]) []"
proof -
  have "decode_shard_filter_or_root (encode_shard_bit_path unit_app [False]) 32 = Some (unit_app, [False])"
    by (rule decode_filter_encode) (simp_all add: unit_app_def)
  then show ?thesis
    by (simp add: split_of_def stale_child_split_def length_encode) (simp add: encode_shard_bit_path_def unit_app_def)
qed

theorem merge_leaves_child_live_witness:
  "\<exists>st' rows'. flip_all unit_l1 5 [pair_merge, stale_child_split] pair_state = Ok st' \<and>
    app_rows (flip_batch st') = Ok rows' \<and> {[], [False, False]} \<subseteq> set (grid_paths rows' (grid_key unit_l1 unit_app)) \<and>
    \<not> shard_partition (grid_paths rows' (grid_key unit_l1 unit_app))"
  using merge_leaves_child_live [OF pair_sound unit_key_length pair_merge_of _ _ stale_child_split_of] pair_grid by simp

subsection \<open>What the proposer proposes\<close>

definition additive :: "(bool list \<Rightarrow> nat) \<Rightarrow> bool" where
  "additive n \<longleftrightarrow> (\<forall>p. n p = n (p @ [False]) + n (p @ [True]))"

lemma spine_step:
  "split_spine_siblings path (path @ b # rest) =
     (path @ [\<not> b]) # split_spine_siblings (path @ [b]) ((path @ [b]) @ rest)"
proof -
  have "[length path..<length (path @ b # rest)] = length path # [Suc (length path)..<length (path @ b # rest)]"
    by (rule upt_conv_Cons) simp
  then show ?thesis by (simp add: split_spine_siblings_def)
qed

lemma descend_children:
  assumes "descend_split (\<lambda>p. Ok (n p)) reachable k path = Ok (Children cs)"
  shows "\<exists>rest. length rest < k \<and> cs = [(path @ rest) @ [False], (path @ rest) @ [True]] \<and>
    0 < n ((path @ rest) @ [False]) \<and> 0 < n ((path @ rest) @ [True]) \<and>
    (\<forall>q \<in> set (split_spine_siblings path (path @ rest)). n q = 0 \<and> \<not> reachable q)"
  using assms
proof (induction k arbitrary: path)
  case (Suc k)
  let ?c0 = "n (path @ [False])" and ?c1 = "n (path @ [True])"
  show ?case
  proof (cases "0 < ?c0 \<and> 0 < ?c1")
    case True
    then show ?thesis using Suc.prems by (intro exI [of _ "[]"]) (simp add: split_spine_siblings_def)
  next
    case False
    define b where "b = (\<not> 0 < ?c0)"
    have one: "n (path @ [\<not> b]) = 0" "\<not> reachable (path @ [\<not> b])"
      and rec: "descend_split (\<lambda>p. Ok (n p)) reachable k (path @ [b]) = Ok (Children cs)"
      using Suc.prems False by (auto simp: b_def split: if_splits)
    obtain rest where r: "length rest < k" "cs = [((path @ [b]) @ rest) @ [False], ((path @ [b]) @ rest) @ [True]]"
      "0 < n (((path @ [b]) @ rest) @ [False])" "0 < n (((path @ [b]) @ rest) @ [True])"
      "\<forall>q \<in> set (split_spine_siblings (path @ [b]) ((path @ [b]) @ rest)). n q = 0 \<and> \<not> reachable q"
      using Suc.IH [OF rec] by blast
    show ?thesis using r one by (intro exI [of _ "b # rest"]) (simp add: spine_step)
  qed
qed simp

text \<open>C32. When the proposer offers two children, both hold leaves, every region the split steps past is empty, and no
address an output can take lies in one: an output address under the split shard falls under one of the two children,
so no delivery is left to a shard without a committee.\<close>

theorem split_strands_no_output:
  assumes "first_split_bifurcation (\<lambda>p. Ok (n p)) shard_bits k bit_path_reaches_outputs = Ok (Children cs)"
    "length shard_bits + k \<le> 256"
  shows "\<exists>rest. cs = [(shard_bits @ rest) @ [False], (shard_bits @ rest) @ [True]] \<and> (\<forall>c \<in> set cs. 0 < n c) \<and>
    (\<forall>q \<in> set (split_spine_siblings shard_bits (shard_bits @ rest)). n q = 0) \<and>
    (\<forall>data. length data = 32 \<longrightarrow> bytes_less data POSEIDON_ADDRESS_BOUND \<longrightarrow>
      addr_has_bit_prefix data shard_bits \<longrightarrow> (\<exists>c \<in> set cs. addr_has_bit_prefix data c))"
proof -
  have "descend_split (\<lambda>p. Ok (n p)) bit_path_reaches_outputs k shard_bits = Ok (Children cs)"
    using assms(1) by (simp add: first_split_bifurcation_def split: if_splits)
  from descend_children [OF this] obtain rest where r: "length rest < k"
    "cs = [(shard_bits @ rest) @ [False], (shard_bits @ rest) @ [True]]"
    "0 < n ((shard_bits @ rest) @ [False])" "0 < n ((shard_bits @ rest) @ [True])"
    "\<forall>q \<in> set (split_spine_siblings shard_bits (shard_bits @ rest)). n q = 0 \<and> \<not> bit_path_reaches_outputs q" by blast
  have "\<exists>c \<in> set cs. addr_has_bit_prefix data c"
    if d: "length data = 32" "bytes_less data POSEIDON_ADDRESS_BOUND" "addr_has_bit_prefix data shard_bits" for data
  proof -
    obtain q where q: "q \<in> set (split_paths shard_bits (shard_bits @ rest))" "addr_has_bit_prefix data q"
      using split_paths_cover [of "address_bit data" shard_bits "shard_bits @ rest" rest] d(3)
      by (auto simp: addr_has_bit_prefix_alt)
    have "q \<notin> set (split_spine_siblings shard_bits (shard_bits @ rest))"
    proof
      assume spine: "q \<in> set (split_spine_siblings shard_bits (shard_bits @ rest))"
      then have "length q \<le> 256" using r(1) assms(2) by (auto simp: spine_set)
      then have "bit_path_reaches_outputs q"
        using bytes_less_trans [OF d(2) lowest_least [OF q(2) d(1)]] by (simp add: bit_path_reaches_outputs_def)
      then show False using r(5) spine by blast
    qed
    then show ?thesis using q r(2) by (auto simp: split_paths_def)
  qed
  then show ?thesis using r by (intro exI [of _ rest]) auto
qed

definition two_leaves :: "bool list \<Rightarrow> nat" where
  "two_leaves p = length (filter (\<lambda>leaf. take (length p) leaf = p) [[False, False, True], [False, False, False]])"

lemma two_leaves_split:
  "first_split_bifurcation (\<lambda>p. Ok (two_leaves p)) [] 5 bit_path_reaches_outputs =
     Ok (Children [[False, False, False], [False, False, True]])"
  by code_simp

theorem split_strands_no_output_witness:
  "0 < two_leaves [False, False, False] \<and> 0 < two_leaves [False, False, True] \<and>
   (addr_has_bit_prefix (replicate 32 0) [False, False, False] \<or>
    addr_has_bit_prefix (replicate 32 0) [False, False, True])"
proof -
  have "bytes_less (replicate 32 0) POSEIDON_ADDRESS_BOUND" by code_simp
  moreover have "addr_has_bit_prefix (replicate 32 0) []" by (simp add: addr_has_bit_prefix_def)
  ultimately show ?thesis
    using split_strands_no_output [OF two_leaves_split]
    by (auto dest!: spec [of _ "replicate 32 0 :: bytes"])
qed

subsection \<open>A split passes the range check\<close>

lemma collect_encoded:
  assumes "length app = 32" "\<forall>p \<in> set ps. length p \<le> 256" "distinct ps" "set ps \<inter> set acc = {}"
  shows "\<exists>qs. collect_paths app (map (encode_shard_bit_path app) ps) acc = Ok qs"
  using assms(2-)
proof (induction ps arbitrary: acc)
  case (Cons p ps)
  have "decode_shard_filter_or_root (encode_shard_bit_path app p) 32 = Some (app, p)"
    using decode_filter_encode [OF assms(1)] Cons.prems(1) by fastforce
  moreover have "length (encode_shard_bit_path app p) \<noteq> 33" "32 \<le> length (encode_shard_bit_path app p)"
    "take 32 (encode_shard_bit_path app p) = app"
    using assms(1) by (simp_all add: length_encode) (simp add: encode_shard_bit_path_def)
  ultimately show ?case using Cons by (auto simp: set_insort_insert)
qed simp

lemma overlap_not_antichain: "first_overlap ps \<Longrightarrow> distinct ps \<Longrightarrow> \<not> antichain (set ps)"
proof (induction ps rule: first_overlap.induct)
  case (1 a b rest)
  show ?case
  proof (cases "bit_path_starts_with b a")
    case True
    then have b: "b = a @ drop (length a) b" by (metis append_take_drop_id bit_path_starts_with_def)
    show ?thesis
    proof
      assume anti: "antichain (set (a # b # rest))"
      have "a @ drop (length a) b \<in> set (a # b # rest)" using b by simp
      then have "drop (length a) b = []" by (rule antichainD [OF anti, rotated]) simp
      then show False using b "1.prems"(2) by simp
    qed
  next
    case False
    then show ?thesis using 1 by (auto simp: antichain_def)
  qed
qed simp_all

lemma partition_encoded:
  assumes "length app = 32" "\<forall>p \<in> set ps. length p \<le> 256" "distinct ps" "antichain (set ps)" "ps \<noteq> []"
  shows "\<exists>qs. partition_of (map (encode_shard_bit_path app) ps) = Ok (app, qs) \<and> filter_path ` set (map (encode_shard_bit_path app) ps) = set ps"
proof -
  have path: "filter_path (encode_shard_bit_path app p) = p" if "p \<in> set ps" for p
    using decode_filter_encode [OF assms(1), of p] assms(2) that by (auto simp: filter_path_def)
  then have img: "filter_path ` set (map (encode_shard_bit_path app) ps) = set ps" by (force simp: image_image)
  obtain qs where qs: "collect_paths app (map (encode_shard_bit_path app) ps) [] = Ok qs"
    using collect_encoded [OF assms(1-3), of "[]"] by auto
  then have "sorted_wrt (<) qs" "set qs = set ps" using collect_paths_spec [OF qs] img by simp_all
  then have "\<not> first_overlap qs" using overlap_not_antichain [of qs] assms(4) by (auto simp: strict_sorted_iff)
  moreover have "take 32 (hd (map (encode_shard_bit_path app) ps)) = app" "32 \<le> length (hd (map (encode_shard_bit_path app) ps))"
    using assms(1,5) by (cases ps; simp add: length_encode; simp add: encode_shard_bit_path_def)+
  ultimately have "partition_of (map (encode_shard_bit_path app) ps) = Ok (app, reduce_paths qs)"
    using qs assms(5) by (auto simp: partition_of_def Let_def)
  then show ?thesis using img by blast
qed

lemma split_antichain: "antichain (set (split_paths pb (pb @ rest)))"
  unfolding antichain_def
proof (intro allI impI)
  fix p q assume pq: "p \<in> set (split_paths pb (pb @ rest))" "p @ q \<in> set (split_paths pb (pb @ rest))"
  let ?f = "\<lambda>i. i < length (p @ q) \<and> (p @ q) ! i"
  have on: "on_path ?f (p @ q)" "on_path ?f p" using on_path_self on_path_extend by blast+
  obtain r where "p = pb @ r" using split_paths_extend [OF pq(1) refl] by blast
  then have "on_path ?f pb" using on(2) on_path_extend by blast
  from split_paths_cover [OF this refl, of rest] have "p = p @ q" using pq on by blast
  then show "q = []" by simp
qed

text \<open>A split registered with its whole spine covers exactly what the parent covered, whatever the depth: the
check on committee transitions folds its shards back to the parent.\<close>

theorem split_passes_range_check:
  assumes "length app = 32" "length (pb @ rest) < 256"
  shows "partition_of (map (encode_shard_bit_path app) (split_paths pb (pb @ rest))) =
      partition_of [encode_shard_bit_path app pb] \<and>
    partition_of [encode_shard_bit_path app pb] = Ok (app, [pb])"
proof -
  have len: "\<forall>p \<in> set (split_paths pb (pb @ rest)). length p \<le> 256"
    using assms(2) by (auto simp: split_paths_def spine_set)
  obtain qs where qs: "partition_of (map (encode_shard_bit_path app) (split_paths pb (pb @ rest))) = Ok (app, qs)"
    "filter_path ` set (map (encode_shard_bit_path app) (split_paths pb (pb @ rest))) = set (split_paths pb (pb @ rest))"
    using partition_encoded [OF assms(1) len split_paths_distinct split_antichain] by (auto simp: split_paths_def)
  obtain rs where rs: "partition_of [encode_shard_bit_path app pb] = Ok (app, rs)"
    "filter_path ` {encode_shard_bit_path app pb} = {pb}"
    using partition_encoded [OF assms(1), of "[pb]"] assms(2) by (auto simp: antichain_def)
  note a = partition_of_spec [OF qs(1)] and b = partition_of_spec [OF rs(1)]
  have cov: "covered (set (split_paths pb (pb @ rest))) f \<longleftrightarrow> covered {pb} f" for f
    using split_paths_cover [of f pb "pb @ rest" rest] split_paths_extend [OF _ refl] on_path_extend
    unfolding covered_def by (metis singletonD singletonI)
  have single: "antichain {pb}" "reduced {pb}" by (auto simp: antichain_def reduced_def)
  have "set qs = {pb}"
    by (rule folded_unique) (use a(3,4) single cov a(5) [unfolded qs(2)] in simp_all)
  moreover have "set rs = {pb}"
    by (rule folded_unique) (use b(3,4) single b(5) [unfolded list.set rs(2)] in simp_all)
  moreover have "xs = [pb]" if "sorted xs" "distinct xs" "set xs = {pb}" for xs
    using sorted_distinct_set_unique [of xs "[pb]"] that by simp
  ultimately have "qs = [pb]" "rs = [pb]" using a(1,2) b(1,2) by blast+
  then show ?thesis using qs(1) rs(1) by simp
qed

theorem split_passes_range_check_witness:
  "partition_of [encode_shard_bit_path unit_app [True]] = Ok (unit_app, [[True]])"
  using split_passes_range_check [of unit_app "[True]" "[False]"] by (simp add: unit_app_def)

subsection \<open>Children that are no bifurcation\<close>

text \<open>
  The materialization says its shards replace the parent by a complete, prefix-free set. It checks only that each
  child extends the parent: two children that leave half of the parent uncovered are registered as they are.
\<close>

theorem split_accepts_gap:
  "materialize_shard_split unit_app [encode_shard_bit_path unit_app [False, False], encode_shard_bit_path unit_app [True, True]] True =
     Ok \<lparr>new_shards = [(unit_app, bit_path_to_prefix [False, False]), (unit_app, bit_path_to_prefix [True, True])],
        removed_parent = Some (unit_app, bit_path_to_prefix [])\<rparr> \<and>
   \<not> shard_partition [[False, False], [True, True]]"
proof
  show "materialize_shard_split unit_app [encode_shard_bit_path unit_app [False, False], encode_shard_bit_path unit_app [True, True]] True =
     Ok \<lparr>new_shards = [(unit_app, bit_path_to_prefix [False, False]), (unit_app, bit_path_to_prefix [True, True])],
        removed_parent = Some (unit_app, bit_path_to_prefix [])\<rparr>"
    by code_simp
  show "\<not> shard_partition [[False, False], [True, True]]"
    unfolding shard_partition_def on_path_nth
    by (auto simp: numeral_2_eq_2 less_Suc_eq intro!: exI [of _ "\<lambda>i. i = 0"])
qed

end
