(* ===== verification/Size_Buckets.thy ===== *)
theory Size_Buckets
  imports Byte_Codec "HOL-Library.Finite_Map"
begin

text \<open>
  The persisted size buckets of the hypergraph (\<^verbatim>\<open>serialize_buckets\<close> and \<^verbatim>\<open>deserialize_buckets\<close> in
  \<^verbatim>\<open>quil-hypergraph/src/crdt.rs\<close>). The writer walks a hash map, so the order of the entries is its argument; the
  reader stops silently at the first entry that does not fit.
\<close>

definition i128_bytes :: "int \<Rightarrow> bytes" where
  "i128_bytes s = be_bytes 16 (nat (s mod 2 ^ 128))"

definition i128_from :: "bytes \<Rightarrow> int" where
  "i128_from b = (let n = int (from_be b) in if 2 ^ 127 \<le> n then n - 2 ^ 128 else n)"

definition serialize_bucket :: "bytes \<times> u64 \<times> int \<Rightarrow> bytes" where
  "serialize_bucket = (\<lambda>(k, c, s). be_bytes 4 (length k mod 2 ^ 32) @ k @ be_bytes 8 (unat c) @ i128_bytes s)"

definition serialize_buckets :: "(bytes \<times> u64 \<times> int) list \<Rightarrow> bytes" where
  "serialize_buckets entries = be_bytes 4 (length entries mod 2 ^ 32) @ concat (map serialize_bucket entries)"

fun read_buckets :: "nat \<Rightarrow> bytes \<Rightarrow> (bytes, u64 \<times> int) fmap \<Rightarrow> (bytes, u64 \<times> int) fmap" where
  "read_buckets 0 b m = m"
| "read_buckets (Suc n) b m =
     (if length b < 4 then m
      else
        let kl = from_be (take 4 b); rest = drop 4 b in
        if length rest < kl + 8 + 16 then m
        else
          let k = take kl rest; c = of_nat (from_be (take 8 (drop kl rest))); s = i128_from (take 16 (drop (kl + 8) rest)) in
          read_buckets n (drop (kl + 24) rest) (fmupd k (c, s) m))"

definition deserialize_buckets :: "bytes \<Rightarrow> (bytes, u64 \<times> int) fmap" where
  "deserialize_buckets b = (if length b < 4 then fmempty else read_buckets (from_be (take 4 b)) (drop 4 b) fmempty)"

subsection \<open>Round trip\<close>

definition bucket_fits :: "bytes \<times> u64 \<times> int \<Rightarrow> bool" where
  "bucket_fits = (\<lambda>(k, c, s). length k < 2 ^ 32 \<and> - (2 ^ 127) \<le> s \<and> s < 2 ^ 127)"

lemma length_i128 [simp]: "length (i128_bytes s) = 16" by (simp add: i128_bytes_def)

lemma i128_round_trip:
  assumes "- (2 ^ 127) \<le> s" "s < 2 ^ 127"
  shows "i128_from (i128_bytes s) = s"
proof -
  have "nat (s mod 2 ^ 128) < 256 ^ 16" by (simp add: nat_less_iff)
  then have "from_be (i128_bytes s) = nat (s mod 2 ^ 128)" by (simp add: i128_bytes_def from_be_bytes)
  then have n: "int (from_be (i128_bytes s)) = s mod 2 ^ 128" by simp
  show ?thesis
  proof (cases "0 \<le> s")
    case True
    then have "s mod 2 ^ 128 = s" using assms(2) by (intro mod_pos_pos_trivial) simp_all
    then show ?thesis using True assms(2) n by (simp add: i128_from_def Let_def)
  next
    case False
    have "(s + 2 ^ 128) mod 2 ^ 128 = s + 2 ^ 128" using False assms(1) by (intro mod_pos_pos_trivial) simp_all
    then have "s mod 2 ^ 128 = s + 2 ^ 128" by simp
    then show ?thesis using False assms(1) n by (simp add: i128_from_def Let_def)
  qed
qed

lemma read_bucket:
  assumes "bucket_fits e"
  shows "read_buckets (Suc n) (serialize_bucket e @ r) m = read_buckets n r (fmupd (fst e) (snd e) m)"
proof -
  obtain k c s where e: "e = (k, c, s)" by (cases e)
  have k: "length k < 4294967296" and s: "- (2 ^ 127) \<le> s" "s < 2 ^ 127" using assms by (simp_all add: e bucket_fits_def)
  have len: "from_be (be_bytes 4 (length k)) = length k" using k by (simp add: from_be_bytes)
  have cnt: "from_be (be_bytes 8 (unat c)) = unat c" using unat_u64_bound [of c] by (simp add: from_be_bytes)
  show ?thesis
    using k i128_round_trip [OF s] by (simp add: e serialize_bucket_def len cnt Let_def)
qed

lemma read_all_buckets:
  "list_all bucket_fits es \<Longrightarrow>
   read_buckets (length es) (concat (map serialize_bucket es) @ r) m = foldl (\<lambda>m e. fmupd (fst e) (snd e) m) m es"
proof (induction es arbitrary: m)
  case (Cons e es)
  then show ?case using read_bucket [of e "length es" "concat (map serialize_bucket es) @ r" m] by (simp del: read_buckets.simps)
qed simp

lemma fmupd_distinct:
  "distinct (map fst es) \<Longrightarrow>
   fmlookup (foldl (\<lambda>m e. fmupd (fst e) (snd e) m) m es) k = (case map_of es k of Some v \<Rightarrow> Some v | None \<Rightarrow> fmlookup m k)"
proof (induction es arbitrary: m)
  case (Cons e es)
  obtain a v where e: "e = (a, v)" by (cases e)
  have "map_of es a = None" using Cons.prems by (simp add: e map_of_eq_None_iff)
  then show ?case using Cons by (cases "k = a") (simp_all add: e split: option.split)
qed simp

text \<open>C37. The persisted size buckets read back: in whatever order the map is written, reading gives the same map, negative sizes
  included, and bytes after the last entry are ignored.\<close>

theorem buckets_round_trip:
  assumes "distinct (map fst es)" "fmap_of_list es = m" "list_all bucket_fits es" "length es < 2 ^ 32"
  shows "deserialize_buckets (serialize_buckets es @ trailing) = m"
proof (rule fmap_ext)
  fix k
  have "from_be (be_bytes 4 (length es)) = length es" using assms(4) by (simp add: from_be_bytes)
  then have "deserialize_buckets (serialize_buckets es @ trailing) = foldl (\<lambda>m e. fmupd (fst e) (snd e) m) fmempty es"
    using assms(3,4) by (simp add: deserialize_buckets_def serialize_buckets_def read_all_buckets)
  then show "fmlookup (deserialize_buckets (serialize_buckets es @ trailing)) k = fmlookup m k"
    using fmupd_distinct [OF assms(1), of fmempty k] assms(2) by (auto simp: fmlookup_of_list split: option.split)
qed

theorem buckets_round_trip_witness:
  "deserialize_buckets (serialize_buckets [([1, 2], 5, - 7), ([3], 6, 9)] @ [0]) = fmap_of_list [([3], 6, 9), ([1, 2], 5, - 7)]"
proof -
  have "fmap_of_list [([1, 2], 5, - 7), ([3], 6, 9)] = (fmap_of_list [([3], 6, 9), ([1, 2], 5, - 7)] :: (bytes, u64 \<times> int) fmap)"
    by (rule fmap_ext) (auto simp: fmlookup_of_list)
  then show ?thesis
    using buckets_round_trip [of "[([1, 2], 5, - 7), ([3], 6, 9)]" "fmap_of_list [([3], 6, 9), ([1, 2], 5, - 7)]" "[0]"]
    by (simp add: bucket_fits_def)
qed

end
