(* ===== verification/Crdt_Staging.thy ===== *)
theory Crdt_Staging
  imports Shard_Paths Tree_Codec "HOL-Library.Finite_Map"
begin

text \<open>
  Staging in the hypergraph (\<^verbatim>\<open>quil-hypergraph/src/crdt.rs\<close>, with \<^verbatim>\<open>addressing.rs\<close> and the vertex leaves of
  \<^verbatim>\<open>quil-tries/src/vertex_commit.rs\<close>). Vertices and hyperedges form two sets that are only ever added to and
  tombstoned; a batch of mutations is prepared against everything staged and committed, and published as a
  whole, together with the change of the per-shard sizes; what is staged can be discarded.

  What the code reads of the committed state is a record of arguments: the store's blobs, the size of a
  committed leaf in the forest, the filter indices of an application (\<open>Bloom_Filter\<close> models how they are drawn;
  nothing here depends on it) and the hashes. The locks around the
  maps are not modelled; every operation runs under the commit lock.
\<close>

subsection \<open>Locations and leaves\<close>

record location =
  app_address :: bytes
  data_address :: bytes

datatype shard_key = ShardKey (sk_l1: bytes) (sk_l2: bytes)

definition from_id :: "bytes \<Rightarrow> location" where
  "from_id i = \<lparr>app_address = take 32 i, data_address = drop 32 i\<rparr>"

definition to_id :: "location \<Rightarrow> bytes" where
  "to_id l = app_address l @ data_address l"

definition shard_key_for_location :: "(bytes \<Rightarrow> bytes) \<Rightarrow> location \<Rightarrow> shard_key" where
  "shard_key_for_location indices l = ShardKey (indices (app_address l)) (app_address l)"

definition VERTEX_LEAF_LEN :: nat where "VERTEX_LEAF_LEN = 32 + 8"

record crdt_env =
  load_vertex_underlying_raw :: "string \<Rightarrow> string \<Rightarrow> shard_key \<Rightarrow> bytes \<Rightarrow> bytes option result"
  committed_leaf_size :: "bytes \<Rightarrow> nat \<Rightarrow> bytes \<Rightarrow> u64 option result"
  filter_indices :: "bytes \<Rightarrow> bytes"
  sha256 :: "bytes \<Rightarrow> bytes"
  sha512 :: "bytes \<Rightarrow> bytes"
  of_magnitude :: "bytes \<Rightarrow> int"

definition sha_commit_raw :: "crdt_env \<Rightarrow> bytes \<Rightarrow> nat \<Rightarrow> bytes option" where
  "sha_commit_raw env data poly_size = Some (sha256 env data)"

definition vertex_commitment :: "crdt_env \<Rightarrow> bytes \<Rightarrow> bytes result" where
  "vertex_commitment env blob =
     (if blob = [] then Ok (replicate 32 0)
      else case deserialize_go_tree (of_magnitude env) blob of
        Ok (Some r) \<Rightarrow> Ok (sha256 env (snd (tree_commit (sha512 env) (sha_commit_raw env) \<lparr>root = Some r\<rparr>)))
      | _ \<Rightarrow> Ok (sha256 env blob))"

definition vertex_leaf_value :: "crdt_env \<Rightarrow> bytes \<Rightarrow> bytes result" where
  "vertex_leaf_value env blob =
     try_then (vertex_commitment env blob) (\<lambda>c. Ok (c @ be_bytes 8 (length blob mod 2 ^ 64)))"

definition sized_tombstone_leaf_value :: "crdt_env \<Rightarrow> u64 \<Rightarrow> bytes result" where
  "sized_tombstone_leaf_value env sz =
     try_then (vertex_leaf_value env []) (\<lambda>v. Ok (take 32 v @ be_bytes 8 (unat sz) @ drop VERTEX_LEAF_LEN v))"

definition split_vertex_leaf :: "bytes \<Rightarrow> (bytes \<times> u64) option" where
  "split_vertex_leaf v =
     (if length v < 32 then None
      else Some (take 32 v,
        if VERTEX_LEAF_LEN \<le> length v then of_nat (from_be (take 8 (drop 32 v))) else 0))"

definition vertex_leaf_size :: "bytes \<Rightarrow> nat" where
  "vertex_leaf_size v = (if 40 \<le> length v then from_be (take 8 (drop 32 v)) else 0)"

definition per_vertex_leaf :: "crdt_env \<Rightarrow> bytes \<Rightarrow> bytes \<Rightarrow> (bytes \<times> bytes) list result" where
  "per_vertex_leaf env i blob =
     (let data = (if 64 \<le> length i then take 32 (drop 32 i) else i) in
      try_then (vertex_leaf_value env blob) (\<lambda>v. Ok [(data, v)]))"

subsection \<open>The staged state\<close>

definition PHASE_STR :: "(string \<times> string) list" where
  "PHASE_STR = [(''vertex'', ''adds''), (''vertex'', ''removes''), (''hyperedge'', ''adds''), (''hyperedge'', ''removes'')]"

type_synonym phase_maps = "(shard_key \<times> nat, (bytes, bytes) fmap) fmap"

record crdt =
  pending :: phase_maps
  pending_blobs :: phase_maps
  sub_meta :: "(bytes, u64 \<times> int) fmap"
  pending_records :: "(bytes, bytes option) fmap"
  staged_sizes_base :: "(bytes, (u64 \<times> int) option) fmap"
  exact_sizes :: bool
  app_shard_prefixes :: "(bytes, u32 list list) fmap"
  app_shard_bit_paths :: "(bytes, bool list list) fmap"

datatype crdt_mutation =
    AddVertex location bytes
  | RemoveVertex location
  | AddHyperedge location bytes
  | RemoveHyperedge location
  | RecordMutation bytes "bytes option"

record prepared =
  p_deltas :: phase_maps
  p_blobs :: phase_maps
  p_metadata :: "(bytes \<times> int \<times> int) list"
  p_records :: "(bytes, bytes option) fmap"

definition prepared_default :: prepared where
  "prepared_default = \<lparr>p_deltas = fmempty, p_blobs = fmempty, p_metadata = [], p_records = fmempty\<rparr>"

text \<open>A map of maps: the entry of an inner key, and \<^verbatim>\<open>entry(k).or_default().extend(..)\<close>.\<close>

definition nested_get :: "phase_maps \<Rightarrow> shard_key \<Rightarrow> nat \<Rightarrow> bytes \<Rightarrow> bytes option" where
  "nested_get m shard ph k = Option.bind (fmlookup m (shard, ph)) (\<lambda>inner. fmlookup inner k)"

definition or_default :: "phase_maps \<Rightarrow> shard_key \<times> nat \<Rightarrow> (bytes, bytes) fmap" where
  "or_default m k = (case fmlookup m k of None \<Rightarrow> fmempty | Some inner \<Rightarrow> inner)"

definition extend_entry :: "shard_key \<times> nat \<Rightarrow> (bytes, bytes) fmap \<Rightarrow> phase_maps \<Rightarrow> phase_maps" where
  "extend_entry k entries m = fmupd k (fmadd (or_default m k) entries) m"

definition extend_entries :: "phase_maps \<Rightarrow> phase_maps \<Rightarrow> phase_maps" where
  "extend_entries m new = fmadd m (fmmap_keys (\<lambda>k entries. fmadd (or_default m k) entries) new)"

definition keep_entries :: "phase_maps \<Rightarrow> phase_maps \<Rightarrow> phase_maps" where
  "keep_entries m old = fmadd m (fmmap_keys (\<lambda>k entries. fmadd entries (or_default m k)) old)"

subsection \<open>Reading\<close>

definition read_blob_checked :: "crdt_env \<Rightarrow> crdt \<Rightarrow> shard_key \<Rightarrow> nat \<Rightarrow> bytes \<Rightarrow> bytes option result" where
  "read_blob_checked env st shard ph i =
     (case nested_get (pending_blobs st) shard ph i of
        Some b \<Rightarrow> Ok (Some b)
      | None \<Rightarrow> (case PHASE_STR ! ph of (set_name, phase_name) \<Rightarrow>
          load_vertex_underlying_raw env set_name phase_name shard i))"

definition nonempty_blob :: "bytes option \<Rightarrow> bytes option" where
  "nonempty_blob b = (case b of Some (x # xs) \<Rightarrow> Some (x # xs) | _ \<Rightarrow> None)"

definition get_vertex_data_checked :: "crdt_env \<Rightarrow> crdt \<Rightarrow> location \<Rightarrow> bytes option result" where
  "get_vertex_data_checked env st l =
     (let shard = shard_key_for_location (filter_indices env) l; i = to_id l in
      try_then (read_blob_checked env st shard 1 i) (\<lambda>removed.
        if removed \<noteq> None then Ok None
        else try_then (read_blob_checked env st shard 0 i) (\<lambda>b. Ok (nonempty_blob b))))"

definition get_hyperedge_data_checked :: "crdt_env \<Rightarrow> crdt \<Rightarrow> location \<Rightarrow> bytes option result" where
  "get_hyperedge_data_checked env st l =
     (let shard = shard_key_for_location (filter_indices env) l; i = to_id l in
      try_then (read_blob_checked env st shard 3 i) (\<lambda>removed.
        if removed \<noteq> None then Ok None
        else try_then (read_blob_checked env st shard 2 i) (\<lambda>b. Ok (nonempty_blob b))))"

definition ok_flatten :: "bytes option result \<Rightarrow> bytes option" where
  "ok_flatten r = (case r of Ok b \<Rightarrow> b | Err _ \<Rightarrow> None)"

definition get_vertex_data :: "crdt_env \<Rightarrow> crdt \<Rightarrow> location \<Rightarrow> bytes option" where
  "get_vertex_data env st l = ok_flatten (get_vertex_data_checked env st l)"

definition lookup_vertex :: "crdt_env \<Rightarrow> crdt \<Rightarrow> location \<Rightarrow> bool" where
  "lookup_vertex env st l \<longleftrightarrow> get_vertex_data env st l \<noteq> None"

definition get_hyperedge_data :: "crdt_env \<Rightarrow> crdt \<Rightarrow> location \<Rightarrow> bytes option" where
  "get_hyperedge_data env st l = ok_flatten (get_hyperedge_data_checked env st l)"

definition lookup_hyperedge :: "crdt_env \<Rightarrow> crdt \<Rightarrow> location \<Rightarrow> bool" where
  "lookup_hyperedge env st l \<longleftrightarrow> get_hyperedge_data env st l \<noteq> None"

definition staged_tombstone_size :: "crdt_env \<Rightarrow> crdt \<Rightarrow> shard_key \<Rightarrow> nat \<Rightarrow> bytes \<Rightarrow> u64 result" where
  "staged_tombstone_size env st shard ph k =
     (case nested_get (pending st) shard ph k of
        Some v \<Rightarrow> Ok (of_nat (vertex_leaf_size v))
      | None \<Rightarrow> try_then (committed_leaf_size env (sk_l2 shard) ph k) (\<lambda>sz.
          Ok (case sz of None \<Rightarrow> 0 | Some s \<Rightarrow> s)))"

definition staged_records :: "crdt \<Rightarrow> (bytes, bytes option) fmap" where
  "staged_records st = pending_records st"

definition read_execution_record :: "(bytes \<Rightarrow> bytes option result) \<Rightarrow> crdt \<Rightarrow> bytes \<Rightarrow> bytes option result" where
  "read_execution_record store_get st k =
     (case fmlookup (pending_records st) k of Some v \<Rightarrow> Ok v | None \<Rightarrow> store_get k)"

subsection \<open>Routing a location to its size bucket\<close>

definition app_prefixes :: "crdt \<Rightarrow> bytes \<Rightarrow> u32 list list" where
  "app_prefixes st app = (case fmlookup (app_shard_prefixes st) app of None \<Rightarrow> [[]] | Some ps \<Rightarrow> ps)"

definition shard_bit_paths :: "crdt \<Rightarrow> bytes \<Rightarrow> bool list list" where
  "shard_bit_paths st app =
     (case fmlookup (app_shard_bit_paths st) app of
        Some bp \<Rightarrow> bp
      | None \<Rightarrow>
          let prefixes = app_prefixes st app in
          if prefixes \<noteq> [] \<and> list_all (\<lambda>p. shard_bit_path_from_prefix p \<noteq> None) prefixes
          then map (\<lambda>p. the (shard_bit_path_from_prefix p)) prefixes
          else canonical_shard_bit_paths prefixes)"

definition addr_path_shard_id :: "bytes \<Rightarrow> u32 list \<Rightarrow> bytes" where
  "addr_path_shard_id app pfx = app @ concat (map (\<lambda>lvl. be_bytes 4 (unat lvl)) pfx)"

definition sub_shard_id_for :: "crdt \<Rightarrow> bytes \<Rightarrow> bytes \<Rightarrow> bytes result" where
  "sub_shard_id_for st app data =
     (let prefixes = app_prefixes st app in
      if prefixes = [[]] then Ok (addr_path_shard_id app [])
      else
        let pi = address_shard_index data (shard_bit_paths st app) in
        if pi < length prefixes then Ok (addr_path_shard_id app (prefixes ! pi)) else Err Panic)"

subsection \<open>Preparing a batch\<close>

definition prepared_read ::
  "crdt_env \<Rightarrow> crdt \<Rightarrow> prepared \<Rightarrow> shard_key \<Rightarrow> nat \<Rightarrow> bytes \<Rightarrow> bytes option result" where
  "prepared_read env st p shard ph i =
     (case nested_get (p_blobs p) shard ph i of
        Some b \<Rightarrow> Ok (Some b)
      | None \<Rightarrow> read_blob_checked env st shard ph i)"

definition stage ::
  "crdt_env \<Rightarrow> shard_key \<Rightarrow> nat \<Rightarrow> bytes \<Rightarrow> bytes \<Rightarrow> u64 option \<Rightarrow> prepared \<Rightarrow> prepared result" where
  "stage env shard ph i blob tombstone_size p =
     try_then (case tombstone_size of
         Some sz \<Rightarrow> try_then (sized_tombstone_leaf_value env sz) (\<lambda>v. Ok [(take 32 (drop 32 i), v)])
       | None \<Rightarrow> per_vertex_leaf env i blob) (\<lambda>leaves.
       Ok (p\<lparr>p_deltas := extend_entry (shard, ph) (fmap_of_list leaves) (p_deltas p),
            p_blobs := extend_entry (shard, ph) (fmap_of_list [(i, blob)]) (p_blobs p)\<rparr>))"

definition bump :: "crdt \<Rightarrow> shard_key \<Rightarrow> location \<Rightarrow> int \<Rightarrow> int \<Rightarrow> prepared \<Rightarrow> prepared result" where
  "bump st shard l count sz p =
     (if sk_l2 shard \<noteq> replicate 32 255 then
        try_then (sub_shard_id_for st (sk_l2 shard) (data_address l)) (\<lambda>sid.
          Ok (p\<lparr>p_metadata := p_metadata p @ [(sid, count, sz)]\<rparr>))
      else Ok p)"

definition prepared_tombstone_size ::
  "crdt_env \<Rightarrow> crdt \<Rightarrow> prepared \<Rightarrow> shard_key \<Rightarrow> nat \<Rightarrow> bytes \<Rightarrow> u64 result" where
  "prepared_tombstone_size env st p shard ph i =
     (let k = take 32 (drop 32 i) in
      case nested_get (p_deltas p) shard ph k of
        Some v \<Rightarrow> Ok (of_nat (vertex_leaf_size v))
      | None \<Rightarrow> staged_tombstone_size env st shard ph k)"

definition blob_len :: "bytes option \<Rightarrow> nat" where
  "blob_len b = (case b of None \<Rightarrow> 0 | Some x \<Rightarrow> length x)"

definition prepare_add :: "crdt_env \<Rightarrow> crdt \<Rightarrow> location \<Rightarrow> bytes \<Rightarrow> nat \<Rightarrow> prepared \<Rightarrow> prepared result" where
  "prepare_add env st l data adds_phase p =
     (let shard = shard_key_for_location (filter_indices env) l; i = to_id l in
      try_then (prepared_read env st p shard (if adds_phase = 0 then 0 else 3) i) (\<lambda>seen.
        if adds_phase \<noteq> 0 \<and> seen \<noteq> None then Ok p
        else
          let new_vertex = (adds_phase = 0 \<and> seen = None) in
          try_then (if exact_sizes st then try_then (prepared_read env st p shard adds_phase i) (\<lambda>b. Ok (blob_len b)) else Ok 0) (\<lambda>replaced.
          try_then (stage env shard adds_phase i data None p) (\<lambda>p1.
            bump st shard l (if new_vertex then 1 else 0) (int (length data) - int replaced) p1))))"

definition prepare_remove :: "crdt_env \<Rightarrow> crdt \<Rightarrow> location \<Rightarrow> nat \<Rightarrow> prepared \<Rightarrow> prepared result" where
  "prepare_remove env st l adds_phase p =
     (let shard = shard_key_for_location (filter_indices env) l; i = to_id l in
      try_then (prepared_read env st p shard adds_phase i) (\<lambda>existing.
      try_then (prepared_read env st p shard (adds_phase + 1) i) (\<lambda>tomb.
        let removed = tomb \<noteq> None; sz = blob_len existing; present = (sz \<noteq> 0 \<and> \<not> removed);
            placeholder = (existing = None); placeholders = (if adds_phase = 0 \<and> placeholder then 1 else 0) in
        try_then (if exact_sizes st \<and> removed then prepared_tombstone_size env st p shard (adds_phase + 1) i else Ok 0) (\<lambda>replaced.
        try_then (if placeholder then stage env shard adds_phase i [] None p else Ok p) (\<lambda>p1.
        try_then (stage env shard (adds_phase + 1) i [] (Some (of_nat sz)) p1) (\<lambda>p2.
          if exact_sizes st then
            let change = uint replaced - int sz in
            if change \<noteq> 0 \<or> placeholders \<noteq> 0 then bump st shard l placeholders change p2 else Ok p2
          else if present \<or> adds_phase = 0 \<and> placeholder
          then bump st shard l placeholders (if present then - int sz else 0) p2
          else Ok p2))))))"

fun prepare_one :: "crdt_env \<Rightarrow> crdt \<Rightarrow> crdt_mutation \<Rightarrow> prepared \<Rightarrow> prepared result" where
  "prepare_one env st (AddVertex l data) p = prepare_add env st l data 0 p"
| "prepare_one env st (RemoveVertex l) p = prepare_remove env st l 0 p"
| "prepare_one env st (AddHyperedge l data) p = prepare_add env st l data 2 p"
| "prepare_one env st (RemoveHyperedge l) p = prepare_remove env st l 2 p"
| "prepare_one env st (RecordMutation k v) p = Ok (p\<lparr>p_records := fmupd k v (p_records p)\<rparr>)"

fun prepare_all :: "crdt_env \<Rightarrow> crdt \<Rightarrow> crdt_mutation list \<Rightarrow> prepared \<Rightarrow> prepared result" where
  "prepare_all env st [] p = Ok p"
| "prepare_all env st (m # ms) p = try_then (prepare_one env st m p) (prepare_all env st ms)"

subsection \<open>Publishing and discarding\<close>

definition i128_add :: "int \<Rightarrow> int \<Rightarrow> int option" where
  "i128_add a b = (let s = a + b in if - (2 ^ 127) \<le> s \<and> s < 2 ^ 127 then Some s else None)"

definition next_entry :: "u64 \<times> int \<Rightarrow> int \<Rightarrow> int \<Rightarrow> (u64 \<times> int) result" where
  "next_entry e count sz =
     (case (if 0 \<le> count then checked_add (fst e) (word_of_int count)
            else Some (saturating_sub (fst e) (word_of_int (- count)))) of
        None \<Rightarrow> Err ExecutionUnavailable
      | Some n \<Rightarrow> (case i128_add (snd e) sz of None \<Rightarrow> Err ExecutionUnavailable | Some s \<Rightarrow> Ok (n, s)))"

fun next_metadata ::
  "(bytes, u64 \<times> int) fmap \<Rightarrow> (bytes \<times> int \<times> int) list \<Rightarrow> (bytes, u64 \<times> int) fmap \<Rightarrow> (bytes, u64 \<times> int) fmap result" where
  "next_metadata meta [] acc = Ok acc"
| "next_metadata meta ((k, count, sz) # es) acc =
     (let e = (case fmlookup acc k of Some e \<Rightarrow> e | None \<Rightarrow>
          (case fmlookup meta k of Some e \<Rightarrow> e | None \<Rightarrow> (0, 0))) in
      try_then (next_entry e count sz) (\<lambda>e'. next_metadata meta es (fmupd k e' acc)))"

definition publish :: "prepared \<Rightarrow> (bytes, u64 \<times> int) fmap \<Rightarrow> crdt \<Rightarrow> crdt" where
  "publish p meta st = st\<lparr>
     staged_sizes_base := fmadd (fmmap_keys (\<lambda>k _. fmlookup (sub_meta st) k) meta) (staged_sizes_base st),
     pending := extend_entries (pending st) (p_deltas p),
     pending_blobs := extend_entries (pending_blobs st) (p_blobs p),
     sub_meta := fmadd (sub_meta st) meta,
     pending_records := fmadd (pending_records st) (p_records p)\<rparr>"

definition apply_mutations :: "crdt_env \<Rightarrow> crdt \<Rightarrow> crdt_mutation list \<Rightarrow> crdt \<times> unit result" where
  "apply_mutations env st ms =
     (case prepare_all env st ms prepared_default of
        Err e \<Rightarrow> (st, Err e)
      | Ok p \<Rightarrow> (case next_metadata (sub_meta st) (p_metadata p) fmempty of
          Err e \<Rightarrow> (st, Err e)
        | Ok meta \<Rightarrow> (publish p meta st, Ok ())))"

definition add_vertex :: "crdt_env \<Rightarrow> crdt \<Rightarrow> location \<Rightarrow> bytes \<Rightarrow> crdt \<times> unit result" where
  "add_vertex env st l data = apply_mutations env st [AddVertex l data]"
definition remove_vertex :: "crdt_env \<Rightarrow> crdt \<Rightarrow> location \<Rightarrow> crdt \<times> unit result" where
  "remove_vertex env st l = apply_mutations env st [RemoveVertex l]"
definition add_hyperedge :: "crdt_env \<Rightarrow> crdt \<Rightarrow> location \<Rightarrow> bytes \<Rightarrow> crdt \<times> unit result" where
  "add_hyperedge env st l data = apply_mutations env st [AddHyperedge l data]"
definition remove_hyperedge :: "crdt_env \<Rightarrow> crdt \<Rightarrow> location \<Rightarrow> crdt \<times> unit result" where
  "remove_hyperedge env st l = apply_mutations env st [RemoveHyperedge l]"

definition restore_sizes :: "(bytes, (u64 \<times> int) option) fmap \<Rightarrow> (bytes, u64 \<times> int) fmap \<Rightarrow> (bytes, u64 \<times> int) fmap" where
  "restore_sizes base meta =
     fmfilter (\<lambda>k. fmlookup base k \<noteq> Some None)
       (fmadd meta (fmmap the (fmfilter (\<lambda>k. fmlookup base k \<noteq> Some None) base)))"

definition discard_staged_mutations :: "crdt \<Rightarrow> crdt \<times> bool" where
  "discard_staged_mutations st =
     (st\<lparr>pending := fmempty, pending_blobs := fmempty, pending_records := fmempty, staged_sizes_base := fmempty,
         sub_meta := restore_sizes (staged_sizes_base st) (sub_meta st)\<rparr>,
      pending st \<noteq> fmempty \<or> pending_blobs st \<noteq> fmempty \<or> pending_records st \<noteq> fmempty \<or> staged_sizes_base st \<noteq> fmempty)"

definition has_staged_mutations :: "crdt \<Rightarrow> bool" where
  "has_staged_mutations st \<longleftrightarrow> pending st \<noteq> fmempty \<or> pending_blobs st \<noteq> fmempty \<or> pending_records st \<noteq> fmempty"

record pending_commit =
  pc_deltas :: phase_maps
  pc_blobs :: phase_maps
  pc_records :: "(bytes, bytes option) fmap"

definition drain_staged :: "crdt \<Rightarrow> pending_commit \<times> crdt" where
  "drain_staged st =
     (\<lparr>pc_deltas = pending st, pc_blobs = pending_blobs st, pc_records = pending_records st\<rparr>,
      st\<lparr>pending := fmempty, pending_blobs := fmempty, pending_records := fmempty\<rparr>)"

definition drop_pending_commit :: "bool \<Rightarrow> pending_commit \<Rightarrow> crdt \<Rightarrow> crdt" where
  "drop_pending_commit committed pc st =
     (if committed then st
      else st\<lparr>pending := keep_entries (pending st) (pc_deltas pc),
              pending_blobs := keep_entries (pending_blobs st) (pc_blobs pc),
              pending_records := fmadd (pc_records pc) (pending_records st)\<rparr>)"

subsection \<open>Maps of maps\<close>

lemma or_default_lookup: "fmlookup (or_default m (shard, ph)) k = nested_get m shard ph k"
  by (simp add: or_default_def nested_get_def split: option.split)

lemma nested_get_empty [simp]: "nested_get fmempty shard ph k = None"
  by (simp add: nested_get_def)

lemma nested_get_extend_entry [simp]:
  "nested_get (extend_entry (shard, ph) (fmupd k v fmempty) m) shard' ph' k' =
     (if shard' = shard \<and> ph' = ph \<and> k' = k then Some v else nested_get m shard' ph' k')"
  by (auto simp: nested_get_def extend_entry_def or_default_lookup [unfolded nested_get_def])

lemma nested_get_extend_entries [simp]:
  "nested_get (extend_entries m new) shard ph k =
     (case nested_get new shard ph k of Some v \<Rightarrow> Some v | None \<Rightarrow> nested_get m shard ph k)"
  by (cases "fmlookup new (shard, ph)"; cases "fmlookup m (shard, ph)")
    (auto simp: nested_get_def extend_entries_def or_default_def fmlookup_dom_iff split: option.splits)

lemma nested_get_keep_entries [simp]:
  "nested_get (keep_entries m old) shard ph k =
     (case nested_get m shard ph k of Some v \<Rightarrow> Some v | None \<Rightarrow> nested_get old shard ph k)"
  by (cases "fmlookup old (shard, ph)"; cases "fmlookup m (shard, ph)")
    (auto simp: nested_get_def keep_entries_def or_default_def fmlookup_dom_iff split: option.splits)

subsection \<open>A prepared batch as a state\<close>

text \<open>The state as the batch sees it: what is prepared over what is staged.\<close>

definition overlaid :: "prepared \<Rightarrow> crdt \<Rightarrow> crdt" where
  "overlaid p st = st\<lparr>pending := extend_entries (pending st) (p_deltas p),
     pending_blobs := extend_entries (pending_blobs st) (p_blobs p)\<rparr>"

lemma prepared_read_overlaid: "prepared_read env st p = read_blob_checked env (overlaid p st)"
  by (simp add: fun_eq_iff prepared_read_def read_blob_checked_def overlaid_def split: option.split)

lemma prepared_tombstone_overlaid:
  "prepared_tombstone_size env st p shard ph i = staged_tombstone_size env (overlaid p st) shard ph (take 32 (drop 32 i))"
  by (simp add: prepared_tombstone_size_def staged_tombstone_size_def overlaid_def Let_def split: option.split)

definition staged_leaf :: "crdt_env \<Rightarrow> bytes \<Rightarrow> u64 option \<Rightarrow> bytes result" where
  "staged_leaf env blob tomb =
     (case tomb of Some sz \<Rightarrow> sized_tombstone_leaf_value env sz | None \<Rightarrow> vertex_leaf_value env blob)"

lemma vertex_commitment_total: "\<exists>c. vertex_commitment env blob = Ok c"
  by (auto simp: vertex_commitment_def split: sum.split option.split)

lemma staged_leaf_total: "\<exists>v. staged_leaf env blob tomb = Ok v"
  using vertex_commitment_total [of env blob] vertex_commitment_total [of env "[]"]
  by (auto simp: staged_leaf_def sized_tombstone_leaf_value_def vertex_leaf_value_def split: option.split)

lemma tombstone_leaf_size: "sized_tombstone_leaf_value env sz = Ok v \<Longrightarrow> vertex_leaf_size v = unat sz"
  using unat_u64_bound [of sz]
  by (auto simp: sized_tombstone_leaf_value_def vertex_leaf_value_def vertex_commitment_def vertex_leaf_size_def
      VERTEX_LEAF_LEN_def from_be_bytes)

definition wf_location :: "location \<Rightarrow> bool" where
  "wf_location l \<longleftrightarrow> length (app_address l) = 32 \<and> length (data_address l) = 32"

lemma to_id_inj: "wf_location l \<Longrightarrow> wf_location l' \<Longrightarrow> to_id l = to_id l' \<longleftrightarrow> l = l'"
  by (auto simp: wf_location_def to_id_def)

lemma from_to_id: "wf_location l \<Longrightarrow> from_id (to_id l) = l"
  by (simp add: wf_location_def to_id_def from_id_def)

lemma id_parts: "wf_location l \<Longrightarrow> length (to_id l) = 64" "wf_location l \<Longrightarrow> take 32 (drop 32 (to_id l)) = data_address l"
  "wf_location l \<Longrightarrow> drop 32 (to_id l) = data_address l" "wf_location l \<Longrightarrow> take 32 (data_address l) = data_address l"
  by (simp_all add: wf_location_def to_id_def)

lemma stage_spec:
  assumes "wf_location l" "stage env shard ph (to_id l) blob tomb p = Ok p'"
  obtains v where "staged_leaf env blob tomb = Ok v"
    "p' = p\<lparr>p_deltas := extend_entry (shard, ph) (fmupd (data_address l) v fmempty) (p_deltas p),
      p_blobs := extend_entry (shard, ph) (fmupd (to_id l) blob fmempty) (p_blobs p)\<rparr>"
  using assms staged_leaf_total [of env blob tomb]
  by (auto simp: stage_def staged_leaf_def per_vertex_leaf_def id_parts Let_def split: option.splits)

lemma stage_total:
  assumes "wf_location l"
  shows "\<exists>p'. stage env shard ph (to_id l) blob tomb p = Ok p'"
  using assms staged_leaf_total [of env blob tomb]
  by (auto simp: stage_def staged_leaf_def per_vertex_leaf_def id_parts Let_def split: option.splits)

subsection \<open>What the maps say of a location\<close>

definition blob_at :: "crdt_env \<Rightarrow> crdt \<Rightarrow> nat \<Rightarrow> location \<Rightarrow> bytes option" where
  "blob_at env st ph l = ok_flatten (read_blob_checked env st (shard_key_for_location (filter_indices env) l) ph (to_id l))"

definition tomb_at :: "crdt_env \<Rightarrow> crdt \<Rightarrow> nat \<Rightarrow> location \<Rightarrow> nat" where
  "tomb_at env st ph l =
     (case staged_tombstone_size env st (shard_key_for_location (filter_indices env) l) ph (data_address l) of
        Ok sz \<Rightarrow> unat sz | Err _ \<Rightarrow> 0)"

definition reads_ok :: "crdt_env \<Rightarrow> bool" where
  "reads_ok env \<longleftrightarrow> (\<forall>s ph shard i. \<exists>b. load_vertex_underlying_raw env s ph shard i = Ok b) \<and>
     (\<forall>app ph k. \<exists>sz. committed_leaf_size env app ph k = Ok sz)"

lemma read_blob_at:
  "reads_ok env \<Longrightarrow>
   read_blob_checked env st (shard_key_for_location (filter_indices env) l) ph (to_id l) = Ok (blob_at env st ph l)"
proof -
  assume "reads_ok env"
  then have "\<exists>b. read_blob_checked env st (shard_key_for_location (filter_indices env) l) ph (to_id l) = Ok b"
    by (auto simp: read_blob_checked_def reads_ok_def split: option.split prod.split)
  then show ?thesis by (auto simp: blob_at_def ok_flatten_def)
qed

lemma tombstone_at:
  "reads_ok env \<Longrightarrow>
   staged_tombstone_size env st (shard_key_for_location (filter_indices env) l) ph (data_address l) =
     Ok (of_nat (tomb_at env st ph l))"
proof -
  assume "reads_ok env"
  then obtain sz where "committed_leaf_size env (sk_l2 (shard_key_for_location (filter_indices env) l)) ph (data_address l) = Ok sz"
    unfolding reads_ok_def by blast
  then show ?thesis by (auto simp: tomb_at_def staged_tombstone_size_def split: option.split)
qed

lemma shard_data_inj:
  "wf_location l \<Longrightarrow> wf_location l' \<Longrightarrow>
   shard_key_for_location f l = shard_key_for_location f l' \<and> data_address l = data_address l' \<longleftrightarrow> l = l'"
  by (auto simp: shard_key_for_location_def)

lemma shard_id_inj:
  "wf_location l \<Longrightarrow> wf_location l' \<Longrightarrow>
   shard_key_for_location f l = shard_key_for_location f l' \<and> to_id l = to_id l' \<longleftrightarrow> l = l'"
  using to_id_inj by blast

text \<open>Staging changes one location in one phase.\<close>

lemma stage_effect:
  assumes "reads_ok env" "wf_location l" "wf_location l'"
    "stage env (shard_key_for_location (filter_indices env) l) ph (to_id l) blob tomb p = Ok p'"
  shows "blob_at env (overlaid p' st) ph' l' =
      (if ph' = ph \<and> l' = l then Some blob else blob_at env (overlaid p st) ph' l')"
    "tomb = Some sz \<or> ph' \<noteq> ph \<Longrightarrow> tomb_at env (overlaid p' st) ph' l' =
      (if ph' = ph \<and> l' = l then unat sz else tomb_at env (overlaid p st) ph' l')"
    "p_metadata p' = p_metadata p" "p_records p' = p_records p"
proof -
  obtain v where v: "staged_leaf env blob tomb = Ok v"
    "p' = p\<lparr>p_deltas := extend_entry (shard_key_for_location (filter_indices env) l, ph) (fmupd (data_address l) v fmempty) (p_deltas p),
      p_blobs := extend_entry (shard_key_for_location (filter_indices env) l, ph) (fmupd (to_id l) blob fmempty) (p_blobs p)\<rparr>"
    using stage_spec [OF assms(2,4)] .
  show "p_metadata p' = p_metadata p" "p_records p' = p_records p" by (simp_all add: v(2))
  show "blob_at env (overlaid p' st) ph' l' =
      (if ph' = ph \<and> l' = l then Some blob else blob_at env (overlaid p st) ph' l')"
    using shard_id_inj [OF assms(3,2), of "filter_indices env"]
    by (auto simp: v(2) blob_at_def read_blob_checked_def overlaid_def ok_flatten_def)
  assume t: "tomb = Some sz \<or> ph' \<noteq> ph"
  have "vertex_leaf_size v = unat sz" if "ph' = ph"
    using t that v(1) tombstone_leaf_size by (auto simp: staged_leaf_def)
  then show "tomb_at env (overlaid p' st) ph' l' =
      (if ph' = ph \<and> l' = l then unat sz else tomb_at env (overlaid p st) ph' l')"
    using shard_data_inj [OF assms(3,2), of "filter_indices env"]
    by (auto simp: v(2) tomb_at_def staged_tombstone_size_def overlaid_def)
qed

subsection \<open>The abstract hypergraph\<close>

text \<open>
  Two sets that grow: members with their data, and the locations removed for good. An edge that was removed cannot be
  added again; a vertex can be written, and stays removed.
\<close>

record or_set =
  members :: "location \<Rightarrow> bytes option"
  dead :: "location set"

record hypergraph =
  vertices :: or_set
  edges :: or_set

definition or_add :: "location \<Rightarrow> bytes \<Rightarrow> or_set \<Rightarrow> or_set" where
  "or_add l d s = s\<lparr>members := (members s)(l \<mapsto> d)\<rparr>"

definition or_remove :: "location \<Rightarrow> or_set \<Rightarrow> or_set" where
  "or_remove l s = s\<lparr>members := (members s)(l \<mapsto> (case members s l of None \<Rightarrow> [] | Some b \<Rightarrow> b)), dead := insert l (dead s)\<rparr>"

definition or_read :: "or_set \<Rightarrow> location \<Rightarrow> bytes option" where
  "or_read s l = (if l \<in> dead s then None else nonempty_blob (members s l))"

fun graph_step :: "crdt_mutation \<Rightarrow> hypergraph \<Rightarrow> hypergraph" where
  "graph_step (AddVertex l d) g = g\<lparr>vertices := or_add l d (vertices g)\<rparr>"
| "graph_step (RemoveVertex l) g = g\<lparr>vertices := or_remove l (vertices g)\<rparr>"
| "graph_step (AddHyperedge l d) g = (if l \<in> dead (edges g) then g else g\<lparr>edges := or_add l d (edges g)\<rparr>)"
| "graph_step (RemoveHyperedge l) g = g\<lparr>edges := or_remove l (edges g)\<rparr>"
| "graph_step (RecordMutation k v) g = g"

definition or_set_of :: "crdt_env \<Rightarrow> crdt \<Rightarrow> nat \<Rightarrow> or_set" where
  "or_set_of env st a = \<lparr>members = (\<lambda>l. if wf_location l then blob_at env st a l else None),
     dead = {l. wf_location l \<and> blob_at env st (a + 1) l \<noteq> None}\<rparr>"

definition hypergraph_of :: "crdt_env \<Rightarrow> crdt \<Rightarrow> hypergraph" where
  "hypergraph_of env st = \<lparr>vertices = or_set_of env st 0, edges = or_set_of env st 2\<rparr>"

fun mutation_ok :: "crdt_mutation \<Rightarrow> bool" where
  "mutation_ok (AddVertex l d) \<longleftrightarrow> wf_location l \<and> length d < 2 ^ 64"
| "mutation_ok (RemoveVertex l) \<longleftrightarrow> wf_location l"
| "mutation_ok (AddHyperedge l d) \<longleftrightarrow> wf_location l \<and> length d < 2 ^ 64"
| "mutation_ok (RemoveHyperedge l) \<longleftrightarrow> wf_location l"
| "mutation_ok (RecordMutation k v) \<longleftrightarrow> True"

subsection \<open>One mutation\<close>

definition bucket_of :: "crdt \<Rightarrow> location \<Rightarrow> bytes option" where
  "bucket_of st l =
     (if app_address l = replicate 32 255 then None
      else case sub_shard_id_for st (app_address l) (data_address l) of Ok sid \<Rightarrow> Some sid | Err _ \<Rightarrow> None)"

definition bumped :: "crdt \<Rightarrow> location \<Rightarrow> int \<Rightarrow> int \<Rightarrow> (bytes \<times> int \<times> int) list" where
  "bumped st l count sz = (case bucket_of st l of None \<Rightarrow> [] | Some sid \<Rightarrow> [(sid, count, sz)])"

lemma bump_spec:
  "bump st (shard_key_for_location f l) l count sz p = Ok p' \<Longrightarrow>
   p' = p\<lparr>p_metadata := p_metadata p @ bumped st l count sz\<rparr>"
  by (auto simp: bump_def bumped_def bucket_of_def shard_key_for_location_def try_then_Ok split: if_splits sum.splits)

lemma overlaid_metadata [simp]: "overlaid (p\<lparr>p_metadata := es\<rparr>) st = overlaid p st"
  by (simp add: overlaid_def)

lemma bump_overlaid: "bump st (shard_key_for_location f l) l count sz p = Ok p' \<Longrightarrow> overlaid p' st' = overlaid p st'"
  using bump_spec [of st f l count sz p p'] by simp

text \<open>An addition writes the location in its phase and counts the change of its size.\<close>

lemma prepare_add_spec:
  assumes "reads_ok env" "wf_location l" "a = 0 \<or> a = 2" "prepare_add env st l d a p = Ok p'"
  obtains (ignored) "a = 2" "blob_at env (overlaid p st) 3 l \<noteq> None" "p' = p"
    | (staged) "a = 2 \<longrightarrow> blob_at env (overlaid p st) 3 l = None"
      "\<And>ph' l'. wf_location l' \<Longrightarrow> blob_at env (overlaid p' st) ph' l' =
        (if ph' = a \<and> l' = l then Some d else blob_at env (overlaid p st) ph' l')"
      "\<And>ph' l'. wf_location l' \<Longrightarrow> ph' \<noteq> a \<Longrightarrow> tomb_at env (overlaid p' st) ph' l' = tomb_at env (overlaid p st) ph' l'"
      "p_metadata p' = p_metadata p @ bumped st l (if a = 0 \<and> blob_at env (overlaid p st) 0 l = None then 1 else 0)
        (int (length d) - (if exact_sizes st then int (blob_len (blob_at env (overlaid p st) a l)) else 0))"
proof -
  let ?v = "overlaid p st" and ?shard = "shard_key_for_location (filter_indices env) l"
  note reads = prepared_read_overlaid read_blob_at [OF assms(1)]
  show thesis
  proof (cases "a = 2 \<and> blob_at env ?v 3 l \<noteq> None")
    case True
    then have "prepare_add env st l d a p = Ok p" unfolding prepare_add_def Let_def reads try_then_simps by simp
    with assms(4) have "p' = p" by simp
    with True show ?thesis by (intro ignored) simp_all
  next
    case False
    define c s where "c = (if a = 0 \<and> blob_at env ?v 0 l = None then 1 else 0 :: int)"
      and "s = int (length d) - (if exact_sizes st then int (blob_len (blob_at env ?v a l)) else 0)"
    obtain p1 where p1: "stage env ?shard a (to_id l) d None p = Ok p1" "bump st ?shard l c s p1 = Ok p'"
    proof -
      have "try_then (stage env ?shard a (to_id l) d None p) (\<lambda>p1. bump st ?shard l c s p1) = Ok p'"
        using assms(3,4) False unfolding c_def s_def
        by (cases "exact_sizes st") (auto simp: prepare_add_def reads Let_def)
      then show thesis using that by (auto simp: try_then_Ok)
    qed
    note e = stage_effect [OF assms(1,2) _ p1(1)] and b = bump_spec [OF p1(2)]
    show ?thesis
    proof (rule staged)
      show "a = 2 \<longrightarrow> blob_at env ?v 3 l = None" using False by blast
      show "blob_at env (overlaid p' st) ph' l' = (if ph' = a \<and> l' = l then Some d else blob_at env ?v ph' l')"
        if "wf_location l'" for ph' l' using e(1) [OF that] by (simp add: b)
      show "tomb_at env (overlaid p' st) ph' l' = tomb_at env ?v ph' l'" if "wf_location l'" "ph' \<noteq> a" for ph' l'
        using e(2) [OF that(1), where sz = 0] that(2) by (simp add: b)
      show "p_metadata p' = p_metadata p @ bumped st l (if a = 0 \<and> blob_at env ?v 0 l = None then 1 else 0)
          (int (length d) - (if exact_sizes st then int (blob_len (blob_at env ?v a l)) else 0))"
        by (simp only: b e(3) [OF assms(2)] c_def s_def) simp
    qed
  qed
qed

lemma u64_of_nat: "n < 2 ^ 64 \<Longrightarrow> uint (of_nat n :: u64) = int n" "n < 2 ^ 64 \<Longrightarrow> unat (of_nat n :: u64) = n"
  by (simp_all add: unsigned_of_nat take_bit_nat_eq_self)

lemma prepare_remove_body:
  assumes "reads_ok env" "wf_location l"
    "c = (if a = 0 \<and> blob_at env (overlaid p st) a l = None then 1 else 0 :: int)"
    "r = (if exact_sizes st \<and> blob_at env (overlaid p st) (a + 1) l \<noteq> None then of_nat (tomb_at env (overlaid p st) (a + 1) l) else 0 :: u64)"
    "sz = blob_len (blob_at env (overlaid p st) a l)" "shard = shard_key_for_location (filter_indices env) l"
  shows "prepare_remove env st l a p =
    try_then (if blob_at env (overlaid p st) a l = None then stage env shard a (to_id l) [] None p else Ok p) (\<lambda>p1.
      try_then (stage env shard (a + 1) (to_id l) [] (Some (of_nat sz)) p1) (\<lambda>p2.
        if exact_sizes st then
          if uint r - int sz \<noteq> 0 \<or> c \<noteq> 0 then bump st shard l c (uint r - int sz) p2 else Ok p2
        else if sz \<noteq> 0 \<and> blob_at env (overlaid p st) (a + 1) l = None \<or> a = 0 \<and> blob_at env (overlaid p st) a l = None
        then bump st shard l c (if sz \<noteq> 0 \<and> blob_at env (overlaid p st) (a + 1) l = None then - int sz else 0) p2 else Ok p2))"
proof -
  have rr: "(if exact_sizes st \<and> blob_at env (overlaid p st) (a + 1) l \<noteq> None
      then prepared_tombstone_size env st p (shard_key_for_location (filter_indices env) l) (a + 1) (to_id l) else Ok 0) = Ok r"
    by (auto simp: assms(4) prepared_tombstone_overlaid id_parts(2) [OF assms(2)] tombstone_at [OF assms(1)])
  show ?thesis
    by (simp only: prepare_remove_def Let_def prepared_read_overlaid read_blob_at [OF assms(1)] try_then_simps rr assms(3,5,6) not_not)
qed

text \<open>A removal writes a tombstone with the size of what it removes, over a placeholder when there is nothing.\<close>

lemma prepare_remove_spec:
  assumes "reads_ok env" "wf_location l" "a = 0 \<or> a = 2" "prepare_remove env st l a p = Ok p'"
  shows "wf_location l' \<Longrightarrow> blob_at env (overlaid p' st) ph' l' =
      (if l' = l \<and> ph' = a + 1 then Some []
       else if l' = l \<and> ph' = a then Some (case blob_at env (overlaid p st) a l of None \<Rightarrow> [] | Some b \<Rightarrow> b)
       else blob_at env (overlaid p st) ph' l')"
    "wf_location l' \<Longrightarrow> ph' \<noteq> a \<Longrightarrow> tomb_at env (overlaid p' st) ph' l' =
      (if l' = l \<and> ph' = a + 1 then unat (of_nat (blob_len (blob_at env (overlaid p st) a l)) :: u64)
       else tomb_at env (overlaid p st) ph' l')"
    "exact_sizes st \<Longrightarrow> \<exists>c s. p_metadata p' = p_metadata p @ (if c = 0 \<and> s = 0 then [] else bumped st l c s) \<and>
      c = (if a = 0 \<and> blob_at env (overlaid p st) 0 l = None then 1 else 0) \<and>
      s = (if blob_at env (overlaid p st) (a + 1) l = None then 0 else int (tomb_at env (overlaid p st) (a + 1) l))
        - int (blob_len (blob_at env (overlaid p st) a l))"
proof -
  let ?v = "overlaid p st" and ?shard = "shard_key_for_location (filter_indices env) l"
  let ?sz = "blob_len (blob_at env ?v a l)"
  define c where "c = (if a = 0 \<and> blob_at env ?v a l = None then 1 else 0 :: int)"
  define r where "r = (if exact_sizes st \<and> blob_at env ?v (a + 1) l \<noteq> None then of_nat (tomb_at env ?v (a + 1) l) else 0 :: u64)"
  note body = prepare_remove_body [OF assms(1,2) c_def r_def refl refl]
  obtain p1 p2 where p1: "(if blob_at env ?v a l = None then stage env ?shard a (to_id l) [] None p else Ok p) = Ok p1"
    and p2: "stage env ?shard (a + 1) (to_id l) [] (Some (of_nat ?sz)) p1 = Ok p2"
    and last: "(if exact_sizes st then
          if uint r - int ?sz \<noteq> 0 \<or> c \<noteq> 0 then bump st ?shard l c (uint r - int ?sz) p2 else Ok p2
        else if ?sz \<noteq> 0 \<and> blob_at env ?v (a + 1) l = None \<or> a = 0 \<and> blob_at env ?v a l = None
        then bump st ?shard l c (if ?sz \<noteq> 0 \<and> blob_at env ?v (a + 1) l = None then - int ?sz else 0) p2 else Ok p2) = Ok p'"
    using assms(4) unfolding body by (auto simp: try_then_Ok)
  have v': "overlaid p' st = overlaid p2 st"
    using last by (auto dest: bump_overlaid split: if_splits)
  have e1: "blob_at env (overlaid p1 st) ph' l' =
      (if l' = l \<and> ph' = a then Some (case blob_at env ?v a l of None \<Rightarrow> [] | Some b \<Rightarrow> b) else blob_at env ?v ph' l')"
    if "wf_location l'" for ph' l'
    using stage_effect(1) [OF assms(1,2) that, of a "[]" None p p1] p1 by (cases "blob_at env ?v a l") auto
  have t1: "tomb_at env (overlaid p1 st) ph' l' = tomb_at env ?v ph' l'" if "wf_location l'" "ph' \<noteq> a" for ph' l'
    using stage_effect(2) [OF assms(1,2) that(1), of a "[]" None p p1 0 ph'] p1 that(2)
    by (cases "blob_at env ?v a l") auto
  have m: "p_metadata p2 = p_metadata p"
    using stage_effect(3) [OF assms(1,2,2) p2] stage_effect(3) [OF assms(1,2,2), of a "[]" None p p1] p1
    by (auto split: if_splits)
  show "blob_at env (overlaid p' st) ph' l' =
      (if l' = l \<and> ph' = a + 1 then Some []
       else if l' = l \<and> ph' = a then Some (case blob_at env ?v a l of None \<Rightarrow> [] | Some b \<Rightarrow> b)
       else blob_at env ?v ph' l')" if "wf_location l'"
    using stage_effect(1) [OF assms(1,2) that p2, of st ph'] e1 [OF that, of ph'] by (auto simp: v')
  show "tomb_at env (overlaid p' st) ph' l' =
      (if l' = l \<and> ph' = a + 1 then unat (of_nat ?sz :: u64) else tomb_at env ?v ph' l')"
    if "wf_location l'" "ph' \<noteq> a"
    using stage_effect(2) [OF assms(1,2) that(1) p2, of "of_nat ?sz" ph'] t1 [OF that] by (simp add: v')
  show "\<exists>c s. p_metadata p' = p_metadata p @ (if c = 0 \<and> s = 0 then [] else bumped st l c s) \<and>
      c = (if a = 0 \<and> blob_at env ?v 0 l = None then 1 else 0) \<and>
      s = (if blob_at env ?v (a + 1) l = None then 0 else int (tomb_at env ?v (a + 1) l)) - int ?sz" if "exact_sizes st"
  proof (intro exI conjI)
    have "tomb_at env ?v (a + 1) l < 2 ^ 64"
      unfolding tomb_at_def using unat_u64_bound by (auto split: sum.split)
    then have r: "uint r = (if blob_at env ?v (a + 1) l = None then 0 else int (tomb_at env ?v (a + 1) l))"
      using that u64_of_nat by (simp add: r_def)
    show "p_metadata p' = p_metadata p @ (if c = 0 \<and> uint r - int ?sz = 0 then [] else bumped st l c (uint r - int ?sz))"
    proof (cases "uint r - int ?sz \<noteq> 0 \<or> c \<noteq> 0")
      case True
      then have "bump st ?shard l c (uint r - int ?sz) p2 = Ok p'" using last that by simp
      from bump_spec [OF this] True m show ?thesis by auto
    next
      case False
      then have "p' = p2" using last that by simp
      with False m show ?thesis by simp
    qed
    show "c = (if a = 0 \<and> blob_at env ?v 0 l = None then 1 else 0)" by (auto simp: c_def)
    show "uint r - int ?sz = (if blob_at env ?v (a + 1) l = None then 0 else int (tomb_at env ?v (a + 1) l)) - int ?sz"
      using r by simp
  qed
qed

lemma or_set_eqI:
  "(\<And>l. members s l = members t l) \<Longrightarrow> (\<And>l. l \<in> dead s \<longleftrightarrow> l \<in> dead t) \<Longrightarrow> s = (t :: or_set)"
  by (cases s; cases t) auto

text \<open>A mutation acts on the abstract hypergraph as specified.\<close>

lemma add_refines:
  assumes "reads_ok env" "wf_location l" "a = 0 \<or> a = 2" "prepare_add env st l d a p = Ok p'"
  shows "or_set_of env (overlaid p' st) a =
      (if a = 2 \<and> l \<in> dead (or_set_of env (overlaid p st) 2) then or_set_of env (overlaid p st) a
       else or_add l d (or_set_of env (overlaid p st) a)) \<and>
    (\<forall>b. (b = 0 \<or> b = 2) \<and> b \<noteq> a \<longrightarrow> or_set_of env (overlaid p' st) b = or_set_of env (overlaid p st) b)"
proof (cases rule: prepare_add_spec [OF assms, case_names ignored staged])
  case ignored
  then show ?thesis using assms(2) by (auto simp: or_set_of_def)
next
  case staged
  note eff = staged(2)
  have alive: "\<not> (a = 2 \<and> l \<in> dead (or_set_of env (overlaid p st) 2))" using staged(1) by (auto simp: or_set_of_def)
  have "or_set_of env (overlaid p' st) a = or_add l d (or_set_of env (overlaid p st) a)"
    by (rule or_set_eqI) (use assms(2) in \<open>auto simp: or_set_of_def or_add_def eff\<close>)
  moreover have "or_set_of env (overlaid p' st) b = or_set_of env (overlaid p st) b" if "b = 0 \<or> b = 2" "b \<noteq> a" for b
    by (rule or_set_eqI) (use that assms(3) in \<open>auto simp: or_set_of_def eff\<close>)
  ultimately show ?thesis using alive by auto
qed

lemma remove_refines:
  assumes "reads_ok env" "wf_location l" "a = 0 \<or> a = 2" "prepare_remove env st l a p = Ok p'"
  shows "or_set_of env (overlaid p' st) a = or_remove l (or_set_of env (overlaid p st) a)"
    "b = 0 \<or> b = 2 \<Longrightarrow> b \<noteq> a \<Longrightarrow> or_set_of env (overlaid p' st) b = or_set_of env (overlaid p st) b"
proof -
  note eff = prepare_remove_spec(1) [OF assms]
  show "or_set_of env (overlaid p' st) a = or_remove l (or_set_of env (overlaid p st) a)"
    by (rule or_set_eqI) (use assms(2) in \<open>auto simp: or_set_of_def or_remove_def eff\<close>)
  show "or_set_of env (overlaid p' st) b = or_set_of env (overlaid p st) b" if "b = 0 \<or> b = 2" "b \<noteq> a"
    by (rule or_set_eqI) (use that assms(3) in \<open>auto simp: or_set_of_def eff\<close>)
qed

lemma prepare_one_refines:
  assumes "reads_ok env" "mutation_ok m" "prepare_one env st m p = Ok p'"
  shows "hypergraph_of env (overlaid p' st) = graph_step m (hypergraph_of env (overlaid p st))"
proof (cases m)
  case (AddVertex l d)
  then show ?thesis using assms add_refines [of env l 0 st d p p'] by (simp add: hypergraph_of_def)
next
  case (RemoveVertex l)
  then show ?thesis using assms remove_refines [of env l 0 st p p'] by (simp add: hypergraph_of_def)
next
  case (AddHyperedge l d)
  then show ?thesis using assms add_refines [of env l 2 st d p p'] by (simp add: hypergraph_of_def)
next
  case (RemoveHyperedge l)
  then show ?thesis using assms remove_refines [of env l 2 st p p'] by (simp add: hypergraph_of_def)
next
  case (RecordMutation k v)
  then have "overlaid p' st = overlaid p st" using assms(3) by (auto simp: overlaid_def)
  then show ?thesis using RecordMutation by simp
qed

lemma prepare_all_refines:
  assumes "reads_ok env" "list_all mutation_ok ms" "prepare_all env st ms p = Ok p'"
  shows "hypergraph_of env (overlaid p' st) = fold graph_step ms (hypergraph_of env (overlaid p st))"
  using assms(2,3)
proof (induction ms arbitrary: p)
  case (Cons m ms)
  then obtain p1 where "prepare_one env st m p = Ok p1" "prepare_all env st ms p1 = Ok p'" by (auto simp: try_then_Ok)
  with Cons prepare_one_refines [OF assms(1)] show ?case by auto
qed simp

lemma blob_at_cong: "pending_blobs st = pending_blobs st' \<Longrightarrow> blob_at env st = blob_at env st'"
  by (simp add: blob_at_def read_blob_checked_def fun_eq_iff)

lemma tomb_at_cong: "pending st = pending st' \<Longrightarrow> tomb_at env st = tomb_at env st'"
  by (simp add: tomb_at_def staged_tombstone_size_def fun_eq_iff)

lemma hypergraph_of_cong: "pending_blobs st = pending_blobs st' \<Longrightarrow> hypergraph_of env st = hypergraph_of env st'"
  unfolding hypergraph_of_def or_set_of_def by (drule blob_at_cong [where env = env]) (simp only:)

subsection \<open>Sizes\<close>

text \<open>
  What a location weighs: its data, less what its tombstones took away, over vertices and edges. The state is
  sized when a location that was not removed has no tombstone size, and data fits a word.
\<close>

definition net :: "crdt_env \<Rightarrow> crdt \<Rightarrow> location \<Rightarrow> int" where
  "net env st l = int (blob_len (blob_at env st 0 l)) - int (tomb_at env st 1 l) +
     (int (blob_len (blob_at env st 2 l)) - int (tomb_at env st 3 l))"

definition counted_vertex :: "crdt_env \<Rightarrow> crdt \<Rightarrow> location \<Rightarrow> int" where
  "counted_vertex env st l = (if blob_at env st 0 l = None then 0 else 1)"

definition sized :: "crdt_env \<Rightarrow> crdt \<Rightarrow> bool" where
  "sized env st \<longleftrightarrow> (\<forall>l a. wf_location l \<longrightarrow> a = 0 \<or> a = 2 \<longrightarrow>
     (blob_at env st (a + 1) l = None \<longrightarrow> tomb_at env st (a + 1) l = 0) \<and> blob_len (blob_at env st a l) < 2 ^ 64)"

lemma sizedD:
  "sized env st \<Longrightarrow> wf_location l \<Longrightarrow> a = 0 \<or> a = 2 \<Longrightarrow>
   (blob_at env st (a + 1) l = None \<longrightarrow> tomb_at env st (a + 1) l = 0) \<and> blob_len (blob_at env st a l) < 2 ^ 64"
  unfolding sized_def by (drule spec [of _ l], drule spec [of _ a], drule mp, assumption, drule mp, assumption)

definition size_sum :: "bytes \<Rightarrow> (bytes \<times> int \<times> int) list \<Rightarrow> int" where
  "size_sum sid es = sum_list (map (\<lambda>(k, c, s). if k = sid then s else 0) es)"

definition count_sum :: "bytes \<Rightarrow> (bytes \<times> int \<times> int) list \<Rightarrow> int" where
  "count_sum sid es = sum_list (map (\<lambda>(k, c, s). if k = sid then c else 0) es)"

lemma sums_simps [simp]:
  "size_sum sid [] = 0" "count_sum sid [] = 0"
  "size_sum sid (es @ fs) = size_sum sid es + size_sum sid fs"
  "count_sum sid (es @ fs) = count_sum sid es + count_sum sid fs"
  "size_sum sid ((k, c, s) # es) = (if k = sid then s else 0) + size_sum sid es"
  "count_sum sid ((k, c, s) # es) = (if k = sid then c else 0) + count_sum sid es"
  by (simp_all add: size_sum_def count_sum_def)

lemma sums_bumped [simp]:
  "size_sum sid (bumped st l c s) = (if bucket_of st l = Some sid then s else 0)"
  "count_sum sid (bumped st l c s) = (if bucket_of st l = Some sid then c else 0)"
  by (auto simp: bumped_def split: option.split)

definition accounted :: "crdt_env \<Rightarrow> crdt \<Rightarrow> crdt \<Rightarrow> crdt \<Rightarrow> location \<Rightarrow> (bytes \<times> int \<times> int) list \<Rightarrow> bool" where
  "accounted env st v v' l es \<longleftrightarrow> sized env v' \<and> list_all (\<lambda>(k, c, s). c = 0 \<or> c = 1) es \<and>
     (\<forall>sid. size_sum sid es = (if bucket_of st l = Some sid then net env v' l - net env v l else 0) \<and>
        count_sum sid es = (if bucket_of st l = Some sid then counted_vertex env v' l - counted_vertex env v l else 0)) \<and>
     (\<forall>l'. wf_location l' \<longrightarrow> l' \<noteq> l \<longrightarrow> net env v' l' = net env v l' \<and> counted_vertex env v' l' = counted_vertex env v l')"

lemma bumped_counts: "c = 0 \<or> c = 1 \<Longrightarrow> list_all (\<lambda>(k, c, s). c = 0 \<or> c = 1) (bumped st l c s)"
  by (auto simp: bumped_def split: option.split)

lemma add_sized:
  assumes "reads_ok env" "wf_location l" "a = 0 \<or> a = 2" "prepare_add env st l d a p = Ok p'"
    "sized env (overlaid p st)" "length d < 2 ^ 64"
  shows "sized env (overlaid p' st)"
proof (cases rule: prepare_add_spec [OF assms(1-4), case_names ignored staged])
  case ignored
  then show ?thesis using assms(5) by simp
next
  case staged
  let ?v = "overlaid p st" and ?v' = "overlaid p' st"
  note blob = staged(2) and tomb = staged(3)
  show ?thesis
    unfolding sized_def
  proof (intro allI impI)
    fix l' b assume l': "wf_location l'" and b: "b = 0 \<or> b = (2 :: nat)"
    have "b + 1 \<noteq> a" using b assms(3) by auto
    then show "(blob_at env ?v' (b + 1) l' = None \<longrightarrow> tomb_at env ?v' (b + 1) l' = 0) \<and> blob_len (blob_at env ?v' b l') < 2 ^ 64"
      using assms(6) sizedD [OF assms(5) l' b] tomb [OF l' \<open>b + 1 \<noteq> a\<close>] unfolding blob [OF l'] by (auto simp: blob_len_def)
  qed
qed

lemma add_accounted:
  assumes "reads_ok env" "wf_location l" "a = 0 \<or> a = 2" "prepare_add env st l d a p = Ok p'"
    "exact_sizes st" "sized env (overlaid p st)" "length d < 2 ^ 64"
  shows "\<exists>es. p_metadata p' = p_metadata p @ es \<and> accounted env st (overlaid p st) (overlaid p' st) l es"
proof (cases rule: prepare_add_spec [OF assms(1-4), case_names ignored staged])
  case ignored
  then show ?thesis using assms(6) by (intro exI [of _ "[]"]) (simp add: accounted_def)
next
  case staged
  let ?v = "overlaid p st" and ?v' = "overlaid p' st"
  note blob = staged(2) and tomb = staged(3)
  have sz: "sized env ?v'" by (rule add_sized [OF assms(1-4,6,7)])
  have other: "net env ?v' l' = net env ?v l' \<and> counted_vertex env ?v' l' = counted_vertex env ?v l'"
    if "wf_location l'" "l' \<noteq> l" for l'
    using that assms(3) by (auto simp: net_def counted_vertex_def blob tomb)
  have own: "net env ?v' l - net env ?v l = int (length d) - int (blob_len (blob_at env ?v a l))"
    "counted_vertex env ?v' l - counted_vertex env ?v l = (if a = 0 \<and> blob_at env ?v 0 l = None then 1 else 0)"
    using assms(2,3) by (auto simp: net_def counted_vertex_def blob tomb blob_len_def)
  have "accounted env st ?v ?v' l (bumped st l (if a = 0 \<and> blob_at env ?v 0 l = None then 1 else 0)
      (int (length d) - int (blob_len (blob_at env ?v a l))))"
    unfolding accounted_def own using sz other bumped_counts by simp
  then show ?thesis using staged(4) assms(5) by auto
qed

lemma remove_sized:
  assumes "reads_ok env" "wf_location l" "a = 0 \<or> a = 2" "prepare_remove env st l a p = Ok p'" "sized env (overlaid p st)"
  shows "sized env (overlaid p' st)"
proof -
  let ?v = "overlaid p st" and ?v' = "overlaid p' st"
  note blob = prepare_remove_spec(1) [OF assms(1-4)] and tomb = prepare_remove_spec(2) [OF assms(1-4)]
  have before: "blob_len (blob_at env ?v a l) < 2 ^ 64" using sizedD [OF assms(5,2,3)] by simp
  have kept: "blob_len (Some (case blob_at env ?v a l of None \<Rightarrow> [] | Some b \<Rightarrow> b)) = blob_len (blob_at env ?v a l)"
    by (simp add: blob_len_def split: option.split)
  show ?thesis
    unfolding sized_def
  proof (intro allI impI)
    fix l' b assume l': "wf_location l'" and b: "b = 0 \<or> b = (2 :: nat)"
    have "b + 1 \<noteq> a" "b \<noteq> a + 1" using b assms(3) by auto
    then show "(blob_at env ?v' (b + 1) l' = None \<longrightarrow> tomb_at env ?v' (b + 1) l' = 0) \<and> blob_len (blob_at env ?v' b l') < 2 ^ 64"
    proof (cases "l' = l \<and> b = a")
      case True
      then show ?thesis using before kept blob [OF assms(2), of a] blob [OF assms(2), of "a + 1"] by simp
    next
      case False
      have "(blob_at env ?v (b + 1) l' = None \<longrightarrow> tomb_at env ?v (b + 1) l' = 0) \<and> blob_len (blob_at env ?v b l') < 2 ^ 64"
        by (rule sizedD [OF assms(5) l' b])
      moreover have "blob_at env ?v' (b + 1) l' = blob_at env ?v (b + 1) l'" "blob_at env ?v' b l' = blob_at env ?v b l'"
        "tomb_at env ?v' (b + 1) l' = tomb_at env ?v (b + 1) l'"
        using False \<open>b + 1 \<noteq> a\<close> \<open>b \<noteq> a + 1\<close> blob [OF l', of "b + 1"] blob [OF l', of b] tomb [OF l' \<open>b + 1 \<noteq> a\<close>]
        by auto
      ultimately show ?thesis by simp
    qed
  qed
qed

lemma remove_accounted:
  assumes "reads_ok env" "wf_location l" "a = 0 \<or> a = 2" "prepare_remove env st l a p = Ok p'"
    "exact_sizes st" "sized env (overlaid p st)"
  shows "\<exists>es. p_metadata p' = p_metadata p @ es \<and> accounted env st (overlaid p st) (overlaid p' st) l es"
proof -
  let ?v = "overlaid p st" and ?v' = "overlaid p' st"
  note blob = prepare_remove_spec(1) [OF assms(1-4)] and tomb = prepare_remove_spec(2) [OF assms(1-4)]
  obtain c s where cs: "p_metadata p' = p_metadata p @ (if c = 0 \<and> s = 0 then [] else bumped st l c s)"
    "c = (if a = 0 \<and> blob_at env ?v 0 l = None then 1 else 0)"
    "s = (if blob_at env ?v (a + 1) l = None then 0 else int (tomb_at env ?v (a + 1) l)) - int (blob_len (blob_at env ?v a l))"
    using prepare_remove_spec(3) [OF assms(1-5)] by blast
  have before: "blob_at env ?v (a + 1) l = None \<longrightarrow> tomb_at env ?v (a + 1) l = 0" "blob_len (blob_at env ?v a l) < 2 ^ 64"
    using sizedD [OF assms(6,2,3)] by simp_all
  have s: "s = int (tomb_at env ?v (a + 1) l) - int (blob_len (blob_at env ?v a l))" using cs(3) before(1) by simp
  have kept: "blob_len (Some (case blob_at env ?v a l of None \<Rightarrow> [] | Some b \<Rightarrow> b)) = blob_len (blob_at env ?v a l)"
    by (simp add: blob_len_def split: option.split)
  have sz: "sized env ?v'" by (rule remove_sized [OF assms(1-4,6)])
  have other: "net env ?v' l' = net env ?v l' \<and> counted_vertex env ?v' l' = counted_vertex env ?v l'"
    if "wf_location l'" "l' \<noteq> l" for l'
    using that assms(3) by (auto simp: net_def counted_vertex_def blob tomb)
  have own: "net env ?v' l - net env ?v l = s" "counted_vertex env ?v' l - counted_vertex env ?v l = c"
    using assms(2,3) before(2) kept u64_of_nat
    by (auto simp: net_def counted_vertex_def blob tomb s cs(2))
  have c01: "c = 0 \<or> c = 1" using cs(2) by auto
  have "accounted env st ?v ?v' l (if c = 0 \<and> s = 0 then [] else bumped st l c s)"
    unfolding accounted_def own using sz other bumped_counts [OF c01] by auto
  then show ?thesis using cs(1) by blast
qed

text \<open>Sums over a finite set of locations that holds every location of a batch.\<close>

definition bucket_total :: "crdt_env \<Rightarrow> crdt \<Rightarrow> location set \<Rightarrow> bytes \<Rightarrow> int" where
  "bucket_total env st L sid = (\<Sum>l \<in> {l \<in> L. bucket_of st l = Some sid}. net env st l)"

definition bucket_count :: "crdt_env \<Rightarrow> crdt \<Rightarrow> location set \<Rightarrow> bytes \<Rightarrow> int" where
  "bucket_count env st L sid = (\<Sum>l \<in> {l \<in> L. bucket_of st l = Some sid}. counted_vertex env st l)"

definition same_layout :: "crdt \<Rightarrow> crdt \<Rightarrow> bool" where
  "same_layout st st' \<longleftrightarrow> app_shard_prefixes st = app_shard_prefixes st' \<and>
     app_shard_bit_paths st = app_shard_bit_paths st' \<and> exact_sizes st = exact_sizes st'"

lemma same_layout_refl [simp]: "same_layout st st" by (simp add: same_layout_def)

lemma bucket_same_layout: "same_layout st st' \<Longrightarrow> bucket_of st = bucket_of st'"
proof -
  assume same: "same_layout st st'"
  then have "app_prefixes st = app_prefixes st'" by (simp add: fun_eq_iff app_prefixes_def same_layout_def)
  moreover from this have "shard_bit_paths st = shard_bit_paths st'"
    using same unfolding fun_eq_iff shard_bit_paths_def same_layout_def by (auto split: option.split)
  ultimately show ?thesis by (simp only: fun_eq_iff bucket_of_def sub_shard_id_for_def) simp
qed

lemma layout_overlaid [simp]: "same_layout (overlaid p st) st"
  by (simp add: same_layout_def overlaid_def)

lemma sum_one_changed:
  fixes f g :: "'a \<Rightarrow> int"
  assumes "finite L" "l \<in> L" "\<And>x. x \<in> L \<Longrightarrow> x \<noteq> l \<Longrightarrow> f x = g x"
  shows "(\<Sum>x \<in> {x \<in> L. P x}. f x) - (\<Sum>x \<in> {x \<in> L. P x}. g x) = (if P l then f l - g l else 0)"
proof -
  have "(\<Sum>x \<in> {x \<in> L. P x}. f x) - (\<Sum>x \<in> {x \<in> L. P x}. g x) = (\<Sum>x \<in> {x \<in> L. P x}. f x - g x)"
    by (simp add: sum_subtractf)
  also have "\<dots> = (\<Sum>x \<in> {x \<in> L. P x}. if x = l then f l - g l else 0)"
    by (rule sum.cong) (use assms(3) in auto)
  also have "\<dots> = (if P l then f l - g l else 0)" using assms(1,2) by (simp add: sum.delta)
  finally show ?thesis .
qed

lemma accounted_total:
  assumes "accounted env st v v' l es" "finite L" "l \<in> L" "\<forall>l \<in> L. wf_location l" "same_layout v st" "same_layout v' st"
  shows "size_sum sid es = bucket_total env v' L sid - bucket_total env v L sid"
    "count_sum sid es = bucket_count env v' L sid - bucket_count env v L sid"
proof -
  have b: "bucket_of v = bucket_of st" "bucket_of v' = bucket_of st"
    using bucket_same_layout assms(5,6) by blast+
  have same: "net env v' x = net env v x" "counted_vertex env v' x = counted_vertex env v x" if "x \<in> L" "x \<noteq> l" for x
    using assms(1,4) that unfolding accounted_def by blast+
  show "size_sum sid es = bucket_total env v' L sid - bucket_total env v L sid"
    unfolding bucket_total_def b
    using sum_one_changed [OF assms(2,3), of "net env v'" "net env v" "\<lambda>x. bucket_of st x = Some sid"] same(1) assms(1)
    unfolding accounted_def by simp
  show "count_sum sid es = bucket_count env v' L sid - bucket_count env v L sid"
    unfolding bucket_count_def b
    using sum_one_changed [OF assms(2,3), of "counted_vertex env v'" "counted_vertex env v" "\<lambda>x. bucket_of st x = Some sid"] same(2) assms(1)
    unfolding accounted_def by simp
qed

fun location_of :: "crdt_mutation \<Rightarrow> location set" where
  "location_of (AddVertex l d) = {l}"
| "location_of (RemoveVertex l) = {l}"
| "location_of (AddHyperedge l d) = {l}"
| "location_of (RemoveHyperedge l) = {l}"
| "location_of (RecordMutation k v) = {}"

definition tracked :: "crdt_env \<Rightarrow> crdt \<Rightarrow> crdt \<Rightarrow> location set \<Rightarrow> (bytes \<times> int \<times> int) list \<Rightarrow> bool" where
  "tracked env v v' L es \<longleftrightarrow> sized env v' \<and> list_all (\<lambda>(k, c, s). c = 0 \<or> c = 1) es \<and>
     (\<forall>sid. size_sum sid es = bucket_total env v' L sid - bucket_total env v L sid \<and>
        count_sum sid es = bucket_count env v' L sid - bucket_count env v L sid)"

lemma accounted_tracked:
  "accounted env st v v' l es \<Longrightarrow> finite L \<Longrightarrow> l \<in> L \<Longrightarrow> \<forall>l \<in> L. wf_location l \<Longrightarrow> same_layout v st \<Longrightarrow> same_layout v' st \<Longrightarrow>
   tracked env v v' L es"
  unfolding tracked_def by (intro conjI allI accounted_total) (simp_all add: accounted_def)

lemma tracked_trans:
  "tracked env v v1 L es \<Longrightarrow> tracked env v1 v2 L fs \<Longrightarrow> tracked env v v2 L (es @ fs)"
  by (simp add: tracked_def)

lemma prepare_one_tracked:
  assumes "reads_ok env" "mutation_ok m" "prepare_one env st m p = Ok p'" "exact_sizes st" "sized env (overlaid p st)"
    "finite L" "location_of m \<subseteq> L" "\<forall>l \<in> L. wf_location l"
  shows "\<exists>es. p_metadata p' = p_metadata p @ es \<and> tracked env (overlaid p st) (overlaid p' st) L es"
proof -
  note t = accounted_tracked [OF _ assms(6) _ assms(8) layout_overlaid layout_overlaid]
  show ?thesis
  proof (cases m)
    case (AddVertex l d)
    then show ?thesis using add_accounted [OF assms(1), of l 0 st d p p'] assms t [of env st p p' l] by auto
  next
    case (RemoveVertex l)
    then show ?thesis using remove_accounted [OF assms(1), of l 0 st p p'] assms t [of env st p p' l] by auto
  next
    case (AddHyperedge l d)
    then show ?thesis using add_accounted [OF assms(1), of l 2 st d p p'] assms t [of env st p p' l] by auto
  next
    case (RemoveHyperedge l)
    then show ?thesis using remove_accounted [OF assms(1), of l 2 st p p'] assms t [of env st p p' l] by auto
  next
    case (RecordMutation k v)
    then have "overlaid p' st = overlaid p st" "p_metadata p' = p_metadata p" using assms(3) by (auto simp: overlaid_def)
    then show ?thesis using assms(5) by (intro exI [of _ "[]"]) (simp add: tracked_def)
  qed
qed

lemma prepare_all_tracked:
  assumes "reads_ok env" "list_all mutation_ok ms" "prepare_all env st ms p = Ok p'" "exact_sizes st" "sized env (overlaid p st)"
    "finite L" "\<forall>m \<in> set ms. location_of m \<subseteq> L" "\<forall>l \<in> L. wf_location l"
  shows "\<exists>es. p_metadata p' = p_metadata p @ es \<and> tracked env (overlaid p st) (overlaid p' st) L es"
  using assms(2,3,5,7)
proof (induction ms arbitrary: p)
  case Nil
  then show ?case by (intro exI [of _ "[]"]) (simp add: tracked_def)
next
  case (Cons m ms)
  obtain p1 where p1: "prepare_one env st m p = Ok p1" "prepare_all env st ms p1 = Ok p'"
    using Cons.prems(2) by (auto simp: try_then_Ok)
  obtain es where es: "p_metadata p1 = p_metadata p @ es" "tracked env (overlaid p st) (overlaid p1 st) L es"
    using prepare_one_tracked [OF assms(1) _ p1(1) assms(4) Cons.prems(3) assms(6) _ assms(8)] Cons.prems(1,4) by auto
  obtain fs where fs: "p_metadata p' = p_metadata p1 @ fs" "tracked env (overlaid p1 st) (overlaid p' st) L fs"
    using Cons.IH [OF _ p1(2)] Cons.prems(1,4) es(2) by (auto simp: tracked_def)
  show ?case using es(1) fs(1) tracked_trans [OF es(2) fs(2)] by auto
qed

subsection \<open>Publishing\<close>

definition bucket :: "(bytes, u64 \<times> int) fmap \<Rightarrow> bytes \<Rightarrow> u64 \<times> int" where
  "bucket meta sid = (case fmlookup meta sid of Some e \<Rightarrow> e | None \<Rightarrow> (0, 0))"

lemma next_entry_spec:
  assumes "next_entry e c s = Ok e'" "c = 0 \<or> c = 1"
  shows "snd e' = snd e + s" "uint (fst e') = uint (fst e) + c"
proof -
  obtain n where n: "checked_add (fst e) (word_of_int c) = Some n" "i128_add (snd e) s = Some (snd e')" "fst e' = n"
    using assms by (auto simp: next_entry_def split: option.splits if_splits)
  show "snd e' = snd e + s" using n(2) by (auto simp: i128_add_def Let_def split: if_splits)
  have "unat n = unat (fst e) + unat (word_of_int c :: u64)"
    using n(1) unat_add_no_wrap by (auto simp: checked_add_Some)
  then have "int (unat n) = int (unat (fst e)) + int (unat (word_of_int c :: u64))" by simp
  then show "uint (fst e') = uint (fst e) + c" using assms(2) n(3) by auto
qed

lemma bucket_over:
  "(case fmlookup acc k of Some e \<Rightarrow> e | None \<Rightarrow> (case fmlookup meta k of Some e \<Rightarrow> e | None \<Rightarrow> (0, 0))) = bucket (fmadd meta acc) k"
  by (auto simp: bucket_def fmlookup_dom_iff split: option.split)

lemma next_metadata_spec:
  assumes "next_metadata meta es acc = Ok acc'" "list_all (\<lambda>(k, c, s). c = 0 \<or> c = 1) es"
  shows "snd (bucket (fmadd meta acc') sid) = snd (bucket (fmadd meta acc) sid) + size_sum sid es \<and>
    uint (fst (bucket (fmadd meta acc') sid)) = uint (fst (bucket (fmadd meta acc) sid)) + count_sum sid es"
  using assms
proof (induction es arbitrary: acc)
  case (Cons e es)
  obtain k c s where e: "e = (k, c, s)" by (cases e)
  obtain x where x: "next_entry (bucket (fmadd meta acc) k) c s = Ok x" "next_metadata meta es (fmupd k x acc) = Ok acc'"
    using Cons.prems(1) by (auto simp: e bucket_over Let_def try_then_Ok)
  have "bucket (fmadd meta (fmupd k x acc)) sid = (if k = sid then x else bucket (fmadd meta acc) sid)"
    by (auto simp: bucket_def)
  then show ?case
    using Cons.IH [OF x(2)] next_entry_spec [OF x(1)] Cons.prems(2) by (auto simp: e)
qed simp

lemma apply_mutations_cases:
  obtains (failed) e where "apply_mutations env st ms = (st, Err e)"
  | (published) p meta where "prepare_all env st ms prepared_default = Ok p"
      "next_metadata (sub_meta st) (p_metadata p) fmempty = Ok meta" "apply_mutations env st ms = (publish p meta st, Ok ())"
  by (cases "prepare_all env st ms prepared_default"; cases "next_metadata (sub_meta st) (p_metadata (projr (prepare_all env st ms prepared_default))) fmempty")
    (auto simp: apply_mutations_def)

lemma overlaid_default: "overlaid prepared_default st = st"
proof -
  have "extend_entries m fmempty = m" for m by (rule fmap_ext) (simp add: extend_entries_def)
  then show ?thesis by (simp add: overlaid_def prepared_default_def)
qed

lemma publish_blobs: "pending_blobs (publish p meta st) = pending_blobs (overlaid p st)" "pending (publish p meta st) = pending (overlaid p st)"
  by (simp_all add: publish_def overlaid_def)

end
