(* ===== verification/Crdt_Properties.thy ===== *)
theory Crdt_Properties
  imports Crdt_Staging
begin

text \<open>
  What the staging of the hypergraph guarantees over whole histories of batches: it implements two sets with
  permanent removals, its size buckets follow the data, discarding takes everything back, and the persisted buckets
  read back.
\<close>

subsection \<open>Histories of batches\<close>

definition run_batches :: "crdt_env \<Rightarrow> crdt \<Rightarrow> crdt_mutation list list \<Rightarrow> crdt" where
  "run_batches env st bs = foldl (\<lambda>st ms. fst (apply_mutations env st ms)) st bs"

fun accepted :: "crdt_env \<Rightarrow> crdt \<Rightarrow> crdt_mutation list list \<Rightarrow> crdt_mutation list list" where
  "accepted env st [] = []"
| "accepted env st (ms # bs) =
     (if snd (apply_mutations env st ms) = Ok () then [ms] else []) @ accepted env (fst (apply_mutations env st ms)) bs"

lemma run_batches_simps [simp]:
  "run_batches env st [] = st"
  "run_batches env st (ms # bs) = run_batches env (fst (apply_mutations env st ms)) bs"
  by (simp_all add: run_batches_def)

lemma apply_refines:
  assumes "reads_ok env" "list_all mutation_ok ms"
  shows "hypergraph_of env (fst (apply_mutations env st ms)) =
    (if snd (apply_mutations env st ms) = Ok () then fold graph_step ms (hypergraph_of env st) else hypergraph_of env st)"
proof (cases rule: apply_mutations_cases [of env st ms])
  case (failed e)
  then show ?thesis by simp
next
  case (published p meta)
  have "hypergraph_of env (publish p meta st) = hypergraph_of env (overlaid p st)"
    by (rule hypergraph_of_cong) (rule publish_blobs)
  with published prepare_all_refines [OF assms published(1)] show ?thesis by (simp add: overlaid_default)
qed

lemma run_refines:
  assumes "reads_ok env" "list_all (list_all mutation_ok) bs"
  shows "hypergraph_of env (run_batches env st bs) = fold graph_step (concat (accepted env st bs)) (hypergraph_of env st)"
  using assms(2)
proof (induction bs arbitrary: st)
  case (Cons ms bs)
  then show ?case using apply_refines [OF assms(1), of ms st] by simp
qed simp

lemma dead_stays:
  "l \<in> dead (vertices g) \<Longrightarrow> l \<in> dead (vertices (graph_step m g))"
  "l \<in> dead (edges g) \<Longrightarrow> l \<in> dead (edges (graph_step m g))"
  by (cases m; simp add: or_add_def or_remove_def)+

lemma dead_stays_run:
  "l \<in> dead (vertices g) \<Longrightarrow> l \<in> dead (vertices (fold graph_step ms g))"
  "l \<in> dead (edges g) \<Longrightarrow> l \<in> dead (edges (fold graph_step ms g))"
  by (induction ms arbitrary: g) (simp_all add: dead_stays)

lemma reads_or_set:
  assumes "reads_ok env" "wf_location l"
  shows "get_vertex_data_checked env st l = Ok (or_read (vertices (hypergraph_of env st)) l)"
    "get_hyperedge_data_checked env st l = Ok (or_read (edges (hypergraph_of env st)) l)"
  using assms(2)
  by (simp_all add: get_vertex_data_checked_def get_hyperedge_data_checked_def read_blob_at [OF assms(1)] Let_def or_read_def
      hypergraph_of_def or_set_of_def)

subsection \<open>Batches that are accepted\<close>

text \<open>
  A batch is refused only when a read fails, when the declared shards cannot route a location, or when a counter
  would overflow.
\<close>

definition routable :: "crdt \<Rightarrow> bool" where
  "routable st \<longleftrightarrow> (\<forall>app data. \<exists>sid. sub_shard_id_for st app data = Ok sid)"

definition small :: "(bytes \<times> int \<times> int) list \<Rightarrow> bool" where
  "small es \<longleftrightarrow> list_all (\<lambda>(k, c, s). (c = 0 \<or> c = 1) \<and> \<bar>s\<bar> < 2 ^ 64) es"

lemma small_bumped: "c = 0 \<or> c = 1 \<Longrightarrow> \<bar>s\<bar> < 2 ^ 64 \<Longrightarrow> small (bumped st l c s) \<and> length (bumped st l c s) \<le> 1"
  by (auto simp: small_def bumped_def split: option.split)

lemma bump_total:
  "routable st \<Longrightarrow> \<exists>p'. bump st (shard_key_for_location f l) l c s p = Ok p'"
  by (auto simp: bump_def routable_def) (metis try_then_simps(1))

lemma prepare_add_total:
  assumes "reads_ok env" "wf_location l" "a = 0 \<or> a = 2" "routable st" "sized env (overlaid p st)" "length d < 2 ^ 64"
  shows "\<exists>p' es. prepare_add env st l d a p = Ok p' \<and> p_metadata p' = p_metadata p @ es \<and> small es \<and> length es \<le> 1 \<and>
    sized env (overlaid p' st)"
proof -
  let ?shard = "shard_key_for_location (filter_indices env) l" and ?v = "overlaid p st"
  note reads = prepared_read_overlaid read_blob_at [OF assms(1)]
  obtain p1 where p1: "stage env ?shard a (to_id l) d None p = Ok p1" using stage_total [OF assms(2)] by blast
  have "\<exists>p'. prepare_add env st l d a p = Ok p'"
    unfolding prepare_add_def Let_def reads
    by (cases "exact_sizes st"; simp add: p1 bump_total [OF assms(4)])
  then obtain p' where p': "prepare_add env st l d a p = Ok p'" ..
  have len: "blob_len (blob_at env ?v a l) < 2 ^ 64" using sizedD [OF assms(5,2,3)] by simp
  have "\<exists>es. p_metadata p' = p_metadata p @ es \<and> small es \<and> length es \<le> 1"
  proof (cases rule: prepare_add_spec [OF assms(1-3) p', case_names ignored staged])
    case ignored
    then show ?thesis by (intro exI [of _ "[]"]) (simp add: small_def)
  next
    case staged
    have "\<bar>int (length d) - (if exact_sizes st then int (blob_len (blob_at env ?v a l)) else 0)\<bar> < 2 ^ 64"
      using len assms(6) by auto
    from small_bumped [OF _ this] staged(4) show ?thesis by (intro exI, intro conjI) auto
  qed
  then show ?thesis using p' add_sized [OF assms(1-3) p' assms(5,6)] by blast
qed

lemma uint_u64_bound: "uint (x :: u64) < 18446744073709551616"
proof -
  have "uint x < 2 ^ LENGTH(64)" by (rule unsigned_less)
  then show ?thesis by simp
qed

lemma prepare_remove_total:
  assumes "reads_ok env" "wf_location l" "a = 0 \<or> a = 2" "routable st" "sized env (overlaid p st)"
  shows "\<exists>p' es. prepare_remove env st l a p = Ok p' \<and> p_metadata p' = p_metadata p @ es \<and> small es \<and> length es \<le> 1 \<and>
    sized env (overlaid p' st)"
proof -
  let ?shard = "shard_key_for_location (filter_indices env) l" and ?v = "overlaid p st"
  define c where "c = (if a = 0 \<and> blob_at env ?v a l = None then 1 else 0 :: int)"
  define r where "r = (if exact_sizes st \<and> blob_at env ?v (a + 1) l \<noteq> None then of_nat (tomb_at env ?v (a + 1) l) else 0 :: u64)"
  define sz where "sz = blob_len (blob_at env ?v a l)"
  note body = prepare_remove_body [OF assms(1,2) c_def r_def sz_def refl]
  have sz: "sz < 2 ^ 64" using sizedD [OF assms(5,2,3)] by (simp add: sz_def)
  obtain p1 where p1: "(if blob_at env ?v a l = None then stage env ?shard a (to_id l) [] None p else Ok p) = Ok p1" "p_metadata p1 = p_metadata p"
    using stage_total [OF assms(2), of env ?shard a "[]" None p] stage_effect(3) [OF assms(1,2,2), of a "[]" None p]
    by (cases "blob_at env ?v a l") auto
  obtain p2 where p2: "stage env ?shard (a + 1) (to_id l) [] (Some (of_nat sz)) p1 = Ok p2"
    using stage_total [OF assms(2)] by blast
  have m: "p_metadata p2 = p_metadata p" using stage_effect(3) [OF assms(1,2,2) p2] p1(2) by simp
  define change where "change = (if exact_sizes st then uint r - int sz
    else if sz \<noteq> 0 \<and> blob_at env ?v (a + 1) l = None then - int sz else 0)"
  have "0 \<le> uint r" "sz < 18446744073709551616" using sz by simp_all
  then have "\<bar>uint r - int sz\<bar> < 18446744073709551616" using uint_u64_bound [of r] by linarith
  then have small: "\<bar>change\<bar> < 2 ^ 64" "c = 0 \<or> c = 1"
    using sz by (auto simp: change_def c_def)
  obtain p3 where p3: "bump st ?shard l c change p2 = Ok p3" using bump_total [OF assms(4)] by blast
  have "prepare_remove env st l a p = Ok p2 \<or> prepare_remove env st l a p = Ok p3"
    using p3 unfolding body p1(1) try_then_simps p2 change_def by (auto split: if_splits)
  then show ?thesis
  proof
    assume p': "prepare_remove env st l a p = Ok p2"
    show ?thesis
      by (rule exI [of _ p2], rule exI [of _ "[]"]) (use p' m remove_sized [OF assms(1-3) p' assms(5)] in \<open>simp add: small_def\<close>)
  next
    assume p': "prepare_remove env st l a p = Ok p3"
    show ?thesis
      by (rule exI [of _ p3], rule exI [of _ "bumped st l c change"])
        (use p' m bump_spec [OF p3] remove_sized [OF assms(1-3) p' assms(5)] small_bumped [OF small(2,1)] in simp)
  qed
qed

lemma prepare_one_total:
  assumes "reads_ok env" "mutation_ok m" "routable st" "sized env (overlaid p st)"
  shows "\<exists>p' es. prepare_one env st m p = Ok p' \<and> p_metadata p' = p_metadata p @ es \<and> small es \<and> length es \<le> 1 \<and>
    sized env (overlaid p' st)"
proof (cases m)
  case (RecordMutation k v)
  have "overlaid (p\<lparr>p_records := fmupd k v (p_records p)\<rparr>) st = overlaid p st" by (simp add: overlaid_def)
  then show ?thesis using RecordMutation assms(4) by (intro exI [of _ "p\<lparr>p_records := fmupd k v (p_records p)\<rparr>"] exI [of _ "[]"]) (simp add: small_def)
qed (use assms prepare_add_total [OF assms(1) _ _ assms(3,4)] prepare_remove_total [OF assms(1) _ _ assms(3,4)] in auto)

lemma prepare_all_total:
  assumes "reads_ok env" "list_all mutation_ok ms" "routable st" "sized env (overlaid p st)"
  shows "\<exists>p' es. prepare_all env st ms p = Ok p' \<and> p_metadata p' = p_metadata p @ es \<and> small es \<and> length es \<le> length ms"
  using assms(2,4)
proof (induction ms arbitrary: p)
  case Nil
  show ?case by (simp add: small_def)
next
  case (Cons m ms)
  have "mutation_ok m" "list_all mutation_ok ms" using Cons.prems(1) by simp_all
  from prepare_one_total [OF assms(1) this(1) assms(3) Cons.prems(2)] obtain p1 es where
    p1: "prepare_one env st m p = Ok p1" "p_metadata p1 = p_metadata p @ es" "small es" "length es \<le> 1" "sized env (overlaid p1 st)"
    by blast
  from Cons.IH [OF \<open>list_all mutation_ok ms\<close> p1(5)] obtain p' fs where
    "prepare_all env st ms p1 = Ok p'" "p_metadata p' = p_metadata p1 @ fs" "small fs" "length fs \<le> length ms" by blast
  with p1 show ?case by (intro exI [of _ p'] exI [of _ "es @ fs"]) (simp add: small_def)
qed

lemma bucket_fmupd: "bucket (fmupd k x m) sid = (if k = sid then x else bucket m sid)"
  by (simp add: bucket_def)

lemma next_entry_total:
  assumes "c = 0 \<or> c = 1" "\<bar>s\<bar> < 2 ^ 64" "uint (fst e) + 1 + int n < 2 ^ 64" "\<bar>snd e\<bar> + (1 + int n) * 2 ^ 64 < 2 ^ 127"
  shows "\<exists>e'. next_entry e c s = Ok e' \<and> uint (fst e') + int n < 2 ^ 64 \<and> \<bar>snd e'\<bar> + int n * 2 ^ 64 < 2 ^ 127"
proof -
  have "unat (fst e) + unat (word_of_int c :: u64) < 2 ^ 64"
  proof -
    have "int (unat (fst e) + 1) < int (2 ^ 64)" using assms(3) by simp
    then have "unat (fst e) + 1 < 2 ^ 64" unfolding of_nat_less_iff .
    moreover have "unat (word_of_int c :: u64) \<le> 1" using assms(1) by auto
    ultimately show ?thesis by linarith
  qed
  then have "checked_add (fst e) (word_of_int c) = Some (fst e + word_of_int c)" by (simp add: checked_add_Some)
  moreover have "i128_add (snd e) s = Some (snd e + s)" using assms(2,4) by (auto simp: i128_add_def Let_def)
  ultimately have e: "next_entry e c s = Ok (fst e + word_of_int c, snd e + s)"
    using assms(1) by (auto simp: next_entry_def)
  then show ?thesis using next_entry_spec [OF e assms(1)] assms by auto
qed

lemma next_metadata_total:
  assumes "small es" "\<forall>sid. uint (fst (bucket (fmadd meta acc) sid)) + int (length es) < 2 ^ 64 \<and>
    \<bar>snd (bucket (fmadd meta acc) sid)\<bar> + int (length es) * 2 ^ 64 < 2 ^ 127"
  shows "\<exists>acc'. next_metadata meta es acc = Ok acc'"
  using assms
proof (induction es arbitrary: acc)
  case (Cons e es)
  obtain k c s where e: "e = (k, c, s)" by (cases e)
  have sm: "c = 0 \<or> c = 1" "\<bar>s\<bar> < 2 ^ 64" "small es" using Cons.prems(1) by (auto simp: small_def e)
  from next_entry_total [OF sm(1,2), of "bucket (fmadd meta acc) k" "length es"] Cons.prems(2) obtain x where
    x: "next_entry (bucket (fmadd meta acc) k) c s = Ok x" "uint (fst x) + int (length es) < 2 ^ 64"
      "\<bar>snd x\<bar> + int (length es) * 2 ^ 64 < 2 ^ 127" by (auto simp: add.assoc)
  have "uint (fst (bucket (fmadd meta acc) sid)) + int (length es) < 2 ^ 64 \<and>
      \<bar>snd (bucket (fmadd meta acc) sid)\<bar> + int (length es) * 2 ^ 64 < 2 ^ 127" for sid
    using Cons.prems(2) [rule_format, of sid] by (auto simp: distrib_right)
  then have "\<exists>acc'. next_metadata meta es (fmupd k x acc) = Ok acc'"
    using x(2,3) by (intro Cons.IH [OF sm(3)]) (simp add: bucket_fmupd)
  then show ?case using x(1) by (simp add: e bucket_over Let_def)
qed simp

lemma batch_accepted:
  assumes "reads_ok env" "list_all mutation_ok ms" "routable st" "sized env st"
    "\<forall>sid. uint (fst (bucket (sub_meta st) sid)) + int (length ms) < 2 ^ 64 \<and>
      \<bar>snd (bucket (sub_meta st) sid)\<bar> + int (length ms) * 2 ^ 64 < 2 ^ 127"
  shows "snd (apply_mutations env st ms) = Ok ()"
proof -
  obtain p es where p: "prepare_all env st ms prepared_default = Ok p" "p_metadata p = p_metadata prepared_default @ es"
    "small es" "length es \<le> length ms"
    using prepare_all_total [OF assms(1-3), of prepared_default] assms(4) by (auto simp: overlaid_default)
  have "\<exists>acc. next_metadata (sub_meta st) es fmempty = Ok acc"
  proof (rule next_metadata_total [OF p(3)], intro allI)
    fix sid
    have "int (length es) \<le> int (length ms)" using p(4) by simp
    then show "uint (fst (bucket (fmadd (sub_meta st) fmempty) sid)) + int (length es) < 2 ^ 64 \<and>
        \<bar>snd (bucket (fmadd (sub_meta st) fmempty) sid)\<bar> + int (length es) * 2 ^ 64 < 2 ^ 127"
      using assms(5) [rule_format, of sid] by auto
  qed
  then show ?thesis using p by (auto simp: apply_mutations_def prepared_default_def)
qed

text \<open>C7. The staged hypergraph is two sets with permanent removals. After any history of batches, the state is what the
  accepted batches do to the abstract sets, in order, a refused batch changing nothing; every read answers from them; and a
  location removed once reads as absent whatever is written to it later. A batch is accepted whenever the reads
  succeed, the shards route every location and no counter would overflow.\<close>

theorem crdt_refines_hypergraph:
  assumes "reads_ok env" "list_all (list_all mutation_ok) bs"
  shows "hypergraph_of env (run_batches env st bs) = fold graph_step (concat (accepted env st bs)) (hypergraph_of env st) \<and>
    (\<forall>l. wf_location l \<longrightarrow>
      get_vertex_data_checked env (run_batches env st bs) l =
        Ok (or_read (vertices (fold graph_step (concat (accepted env st bs)) (hypergraph_of env st))) l) \<and>
      get_hyperedge_data_checked env (run_batches env st bs) l =
        Ok (or_read (edges (fold graph_step (concat (accepted env st bs)) (hypergraph_of env st))) l) \<and>
      (l \<in> dead (vertices (hypergraph_of env st)) \<longrightarrow> get_vertex_data_checked env (run_batches env st bs) l = Ok None)) \<and>
    (\<forall>ms. list_all mutation_ok ms \<longrightarrow> routable st \<longrightarrow> sized env st \<longrightarrow>
      (\<forall>sid. uint (fst (bucket (sub_meta st) sid)) + int (length ms) < 2 ^ 64 \<and>
        \<bar>snd (bucket (sub_meta st) sid)\<bar> + int (length ms) * 2 ^ 64 < 2 ^ 127) \<longrightarrow>
      accepted env st [ms] = [ms])"
proof -
  note run = run_refines [OF assms, of st]
  have "get_vertex_data_checked env (run_batches env st bs) l = Ok None"
    if "wf_location l" "l \<in> dead (vertices (hypergraph_of env st))" for l
    using reads_or_set(1) [OF assms(1) that(1), of "run_batches env st bs"] dead_stays_run(1) [OF that(2)]
    by (simp add: run or_read_def)
  moreover have "accepted env st [ms] = [ms]" if "list_all mutation_ok ms" "routable st" "sized env st"
    "\<forall>sid. uint (fst (bucket (sub_meta st) sid)) + int (length ms) < 2 ^ 64 \<and>
        \<bar>snd (bucket (sub_meta st) sid)\<bar> + int (length ms) * 2 ^ 64 < 2 ^ 127" for ms
    using batch_accepted [OF assms(1) that] by simp
  ultimately show ?thesis using run reads_or_set [OF assms(1), of _ "run_batches env st bs"] by auto
qed

subsection \<open>Exact sizes\<close>

lemma apply_layout: "same_layout (fst (apply_mutations env st ms)) st"
  by (cases rule: apply_mutations_cases [of env st ms]) (simp_all add: same_layout_def publish_def)

lemma run_layout: "same_layout (run_batches env st bs) st"
proof (induction bs arbitrary: st)
  case (Cons ms bs)
  from Cons [of "fst (apply_mutations env st ms)"] apply_layout [of env st ms] show ?case by (simp add: same_layout_def)
qed simp

definition bucket_follows :: "crdt_env \<Rightarrow> location set \<Rightarrow> crdt \<Rightarrow> crdt \<Rightarrow> bool" where
  "bucket_follows env L st st' \<longleftrightarrow> (\<forall>sid.
     snd (bucket (sub_meta st') sid) - snd (bucket (sub_meta st) sid) = bucket_total env st' L sid - bucket_total env st L sid \<and>
     uint (fst (bucket (sub_meta st') sid)) - uint (fst (bucket (sub_meta st) sid)) =
       bucket_count env st' L sid - bucket_count env st L sid)"

lemma totals_cong:
  assumes "pending st = pending st'" "pending_blobs st = pending_blobs st'" "same_layout st st'"
  shows "bucket_total env st L sid = bucket_total env st' L sid" "bucket_count env st L sid = bucket_count env st' L sid"
    "sized env st = sized env st'"
proof -
  note c = blob_at_cong [OF assms(2), of env] tomb_at_cong [OF assms(1), of env] bucket_same_layout [OF assms(3)]
  show "bucket_total env st L sid = bucket_total env st' L sid" "bucket_count env st L sid = bucket_count env st' L sid"
    "sized env st = sized env st'"
    by (simp_all only: bucket_total_def bucket_count_def sized_def net_def [abs_def] counted_vertex_def [abs_def] c)
qed

lemma apply_follows:
  assumes "reads_ok env" "list_all mutation_ok ms" "exact_sizes st" "sized env st"
    "finite L" "\<forall>m \<in> set ms. location_of m \<subseteq> L" "\<forall>l \<in> L. wf_location l"
  shows "sized env (fst (apply_mutations env st ms)) \<and> bucket_follows env L st (fst (apply_mutations env st ms))"
proof (cases rule: apply_mutations_cases [of env st ms])
  case (failed e)
  then show ?thesis using assms(4) by (simp add: bucket_follows_def)
next
  case (published p meta)
  let ?st = "publish p meta st"
  obtain es where es: "p_metadata p = p_metadata prepared_default @ es" "tracked env (overlaid prepared_default st) (overlaid p st) L es"
    using prepare_all_tracked [OF assms(1,2) published(1) assms(3) _ assms(5-7)] assms(4) by (auto simp: overlaid_default)
  have lay: "same_layout ?st (overlaid p st)" by (simp add: same_layout_def publish_def overlaid_def)
  note cong = totals_cong [OF publish_blobs(2,1) lay]
  have "next_metadata (sub_meta st) es fmempty = Ok meta" using published(2) es(1) by (simp add: prepared_default_def)
  from next_metadata_spec [OF this] es(2) have
    "snd (bucket (sub_meta ?st) sid) = snd (bucket (sub_meta st) sid) + size_sum sid es \<and>
     uint (fst (bucket (sub_meta ?st) sid)) = uint (fst (bucket (sub_meta st) sid)) + count_sum sid es" for sid
    by (simp add: tracked_def publish_def)
  with es(2) show ?thesis
    unfolding published(3) fst_conv tracked_def overlaid_default bucket_follows_def cong by simp
qed

lemma bucket_follows_trans: "bucket_follows env L a b \<Longrightarrow> bucket_follows env L b c \<Longrightarrow> bucket_follows env L a c"
proof -
  assume ab: "bucket_follows env L a b" and bc: "bucket_follows env L b c"
  show ?thesis
    unfolding bucket_follows_def
  proof (intro allI)
    fix sid
    show "snd (bucket (sub_meta c) sid) - snd (bucket (sub_meta a) sid) = bucket_total env c L sid - bucket_total env a L sid \<and>
        uint (fst (bucket (sub_meta c) sid)) - uint (fst (bucket (sub_meta a) sid)) = bucket_count env c L sid - bucket_count env a L sid"
      using ab [unfolded bucket_follows_def, rule_format, of sid] bc [unfolded bucket_follows_def, rule_format, of sid] by linarith
  qed
qed

lemma run_follows:
  assumes "reads_ok env" "list_all (list_all mutation_ok) bs" "exact_sizes st" "sized env st"
    "finite L" "\<forall>ms \<in> set bs. \<forall>m \<in> set ms. location_of m \<subseteq> L" "\<forall>l \<in> L. wf_location l"
  shows "sized env (run_batches env st bs) \<and> bucket_follows env L st (run_batches env st bs)"
  using assms(2-4,6)
proof (induction bs arbitrary: st)
  case Nil
  then show ?case by (simp add: bucket_follows_def)
next
  case (Cons ms bs)
  let ?st = "fst (apply_mutations env st ms)"
  have one: "sized env ?st" "bucket_follows env L st ?st"
    using apply_follows [OF assms(1) _ Cons.prems(2,3) assms(5) _ assms(7)] Cons.prems(1,4) by auto
  have "exact_sizes ?st" using apply_layout [of env st ms] Cons.prems(2) by (simp add: same_layout_def)
  then show ?case using Cons.IH [OF _ _ one(1)] Cons.prems(1,4) bucket_follows_trans [OF one(2)] by auto
qed

text \<open>C9. Under exact sizes the buckets follow the data. Over any history of batches, the size of every bucket changes by exactly
  the change, over all locations the bucket owns, of the size of the data less the size its tombstones
  record, for vertices and edges together; its count changes by the number of vertices that appeared. Overwrites,
  repeated removals, removals of what was never added and refused batches are all counted right.\<close>

theorem exact_sizes_follow_data:
  assumes "reads_ok env" "list_all (list_all mutation_ok) bs" "exact_sizes st" "sized env st"
    "finite L" "\<forall>ms \<in> set bs. \<forall>m \<in> set ms. location_of m \<subseteq> L" "\<forall>l \<in> L. wf_location l"
  shows "snd (bucket (sub_meta (run_batches env st bs)) sid) - snd (bucket (sub_meta st) sid) =
      (\<Sum>l \<in> {l \<in> L. bucket_of st l = Some sid}. net env (run_batches env st bs) l - net env st l) \<and>
    uint (fst (bucket (sub_meta (run_batches env st bs)) sid)) - uint (fst (bucket (sub_meta st) sid)) =
      (\<Sum>l \<in> {l \<in> L. bucket_of st l = Some sid}. counted_vertex env (run_batches env st bs) l - counted_vertex env st l)"
  using run_follows [OF assms] bucket_same_layout [OF run_layout, of env st bs]
  by (simp add: bucket_follows_def bucket_total_def bucket_count_def sum_subtractf)

subsection \<open>Discarding and failed commits\<close>

definition clean :: "crdt \<Rightarrow> bool" where
  "clean st \<longleftrightarrow> pending st = fmempty \<and> pending_blobs st = fmempty \<and> pending_records st = fmempty \<and> staged_sizes_base st = fmempty"

definition based_on :: "crdt \<Rightarrow> crdt \<Rightarrow> bool" where
  "based_on st0 st \<longleftrightarrow> same_layout st st0 \<and> (\<forall>k. case fmlookup (staged_sizes_base st) k of
     None \<Rightarrow> fmlookup (sub_meta st) k = fmlookup (sub_meta st0) k | Some b \<Rightarrow> b = fmlookup (sub_meta st0) k)"

lemma apply_based:
  assumes "based_on st0 st"
  shows "based_on st0 (fst (apply_mutations env st ms))"
proof (cases rule: apply_mutations_cases [of env st ms])
  case (failed e)
  then show ?thesis using assms by simp
next
  case (published p meta)
  have "case fmlookup (staged_sizes_base (publish p meta st)) k of
      None \<Rightarrow> fmlookup (sub_meta (publish p meta st)) k = fmlookup (sub_meta st0) k | Some b \<Rightarrow> b = fmlookup (sub_meta st0) k" for k
    using assms [unfolded based_on_def, THEN conjunct2, rule_format, of k]
    by (cases "fmlookup meta k"; cases "fmlookup (staged_sizes_base st) k") (auto simp: publish_def fmlookup_dom_iff)
  moreover have "same_layout (publish p meta st) st0"
    using assms by (simp add: based_on_def same_layout_def publish_def)
  ultimately show ?thesis unfolding published(3) fst_conv based_on_def by blast
qed

lemma run_based: "based_on st0 st \<Longrightarrow> based_on st0 (run_batches env st bs)"
  by (induction bs arbitrary: st) (simp_all add: apply_based)

lemma restore_based:
  assumes "based_on st0 st"
  shows "restore_sizes (staged_sizes_base st) (sub_meta st) = sub_meta st0"
proof (rule fmap_ext)
  fix k
  show "fmlookup (restore_sizes (staged_sizes_base st) (sub_meta st)) k = fmlookup (sub_meta st0) k"
    using assms [unfolded based_on_def, THEN conjunct2, rule_format, of k]
    by (cases "fmlookup (staged_sizes_base st) k"; cases "fmlookup (sub_meta st0) k")
      (auto simp: restore_sizes_def fmlookup_dom_iff)
qed

lemma crdt_eqI:
  "same_layout st st' \<Longrightarrow> pending st = pending st' \<Longrightarrow> pending_blobs st = pending_blobs st' \<Longrightarrow> sub_meta st = sub_meta st' \<Longrightarrow>
   pending_records st = pending_records st' \<Longrightarrow> staged_sizes_base st = staged_sizes_base st' \<Longrightarrow> st = (st' :: crdt)"
  by (cases st; cases st') (simp add: same_layout_def)

lemma discard_based:
  assumes "clean st0" "based_on st0 st"
  shows "fst (discard_staged_mutations st) = st0"
  using assms restore_based [OF assms(2)]
  by (intro crdt_eqI) (simp_all add: discard_staged_mutations_def clean_def based_on_def same_layout_def)

lemma keep_empty: "keep_entries fmempty m = m"
  by (rule fmap_ext) (simp add: keep_entries_def or_default_def option.map_ident)

text \<open>C10. Discarding undoes a failed execution completely. Whatever batches were staged since the state was last committed, accepted or
  refused, discarding returns exactly the committed state, its size buckets included, and reports whether anything had been
  staged; and a commit that drained the staged work and failed puts it back as it was.\<close>

theorem discard_restores_committed:
  assumes "clean st"
  shows "fst (discard_staged_mutations (run_batches env st bs)) = st \<and>
    (snd (discard_staged_mutations (run_batches env st bs)) \<longleftrightarrow> run_batches env st bs \<noteq> st) \<and>
    drop_pending_commit False (fst (drain_staged (run_batches env st bs))) (snd (drain_staged (run_batches env st bs))) =
      run_batches env st bs"
proof -
  let ?st = "run_batches env st bs"
  have based: "based_on st ?st" using run_based [of st st env bs] assms by (simp add: based_on_def clean_def)
  have "?st = st" if "clean ?st"
    using that based assms restore_based [OF based]
    by (intro crdt_eqI) (simp_all add: clean_def based_on_def fmap_ext)
  moreover have "snd (discard_staged_mutations ?st) \<longleftrightarrow> \<not> clean ?st"
    by (simp add: discard_staged_mutations_def clean_def)
  moreover have "drop_pending_commit False (fst (drain_staged ?st)) (snd (drain_staged ?st)) = ?st"
    by (simp add: drop_pending_commit_def drain_staged_def keep_empty)
  ultimately show ?thesis using discard_based [OF assms based] assms by metis
qed

subsection \<open>Examples\<close>

definition demo_env :: crdt_env where
  "demo_env = \<lparr>load_vertex_underlying_raw = (\<lambda>_ _ _ _. Ok None), committed_leaf_size = (\<lambda>_ _ _. Ok None),
     filter_indices = (\<lambda>_. [1, 2, 3]), sha256 = (\<lambda>_. replicate 32 7), sha512 = (\<lambda>_. replicate 64 7), of_magnitude = (\<lambda>_. 0)\<rparr>"

definition demo_crdt :: crdt where
  "demo_crdt = \<lparr>pending = fmempty, pending_blobs = fmempty, sub_meta = fmempty, pending_records = fmempty,
     staged_sizes_base = fmempty, exact_sizes = True, app_shard_prefixes = fmempty, app_shard_bit_paths = fmempty\<rparr>"

definition demo_location :: location where
  "demo_location = \<lparr>app_address = replicate 32 4, data_address = replicate 32 5\<rparr>"

definition demo_batches :: "crdt_mutation list list" where
  "demo_batches = [[AddVertex demo_location [1, 2, 3]], [RemoveVertex demo_location, AddVertex demo_location [9]]]"

lemma demo_wf: "wf_location demo_location" by (simp add: wf_location_def demo_location_def)

lemma demo_reads: "reads_ok demo_env" by (simp add: reads_ok_def demo_env_def)

lemma demo_mutations: "list_all (list_all mutation_ok) demo_batches" by (simp add: demo_batches_def demo_wf)

lemma demo_empty: "blob_at demo_env demo_crdt ph l = None" "tomb_at demo_env demo_crdt ph l = 0"
  by (simp_all add: blob_at_def read_blob_checked_def ok_flatten_def tomb_at_def staged_tombstone_size_def demo_env_def
      demo_crdt_def split: prod.split)

lemma demo_sized: "sized demo_env demo_crdt" by (simp add: sized_def demo_empty blob_len_def)

lemma demo_routable: "routable demo_crdt"
  by (simp add: routable_def sub_shard_id_for_def app_prefixes_def demo_crdt_def)

theorem crdt_refines_hypergraph_witness:
  "wf_location demo_location \<and> accepted demo_env demo_crdt [[RemoveVertex demo_location]] = [[RemoveVertex demo_location]] \<and>
   hypergraph_of demo_env (run_batches demo_env demo_crdt demo_batches) =
     fold graph_step (concat (accepted demo_env demo_crdt demo_batches)) (hypergraph_of demo_env demo_crdt)"
proof -
  have "bucket (sub_meta demo_crdt) sid = (0, 0)" for sid by (simp add: bucket_def demo_crdt_def)
  then show ?thesis
    using crdt_refines_hypergraph [OF demo_reads demo_mutations, of demo_crdt] demo_sized demo_routable demo_wf by auto
qed

theorem exact_sizes_follow_data_witness:
  "snd (bucket (sub_meta (run_batches demo_env demo_crdt demo_batches)) (replicate 32 4)) =
     (\<Sum>l \<in> {l \<in> {demo_location}. bucket_of demo_crdt l = Some (replicate 32 4)}.
        net demo_env (run_batches demo_env demo_crdt demo_batches) l)"
proof -
  have "\<forall>ms \<in> set demo_batches. \<forall>m \<in> set ms. location_of m \<subseteq> {demo_location}" by (simp add: demo_batches_def)
  from exact_sizes_follow_data [OF demo_reads demo_mutations _ demo_sized _ this, of "replicate 32 4"] show ?thesis
    by (simp add: demo_wf demo_crdt_def bucket_def net_def demo_empty [unfolded demo_crdt_def] blob_len_def)
qed

theorem discard_restores_committed_witness:
  "clean demo_crdt \<and> fst (discard_staged_mutations (run_batches demo_env demo_crdt demo_batches)) = demo_crdt"
proof -
  have "clean demo_crdt" by (simp add: clean_def demo_crdt_def)
  then show ?thesis using discard_restores_committed [of demo_crdt demo_env demo_batches] by simp
qed

end
