(* ===== verification/Hypergraph_State.thy ===== *)
theory Hypergraph_State
  imports Crdt_Properties
begin

text \<open>
  The changeset that execution writes through (\<^verbatim>\<open>quil-execution/src/hypergraph_state.rs\<close>): state changes and
  ancillary records are appended, read back newest first, cut back to a savepoint when a message fails, and published
  to the hypergraph of \<open>Crdt_Staging\<close> as one batch.

  The hash that names the four sets is an argument; the cells that remember its values are not
  modelled, since they only hold what the hash returns. The covered prefix is the hypergraph's.
\<close>

subsection \<open>Definitions\<close>

datatype state_change_event = Initialize_event | Create_event | Update_event | Delete_event

record state_change =
  sc_domain :: bytes
  sc_address :: bytes
  sc_discriminator :: bytes
  sc_event :: state_change_event
  sc_value :: bytes

datatype execution_change = StateEntry state_change | RecordEntry bytes "bytes option"

record hg_state =
  hg_crdt :: crdt
  hg_covered :: "int list"
  changeset :: "execution_change list"

definition ascii :: "string \<Rightarrow> bytes" where "ascii s = map of_char s"

definition vertex_adds_discriminator :: "(bytes \<Rightarrow> bytes result) \<Rightarrow> bytes result" where
  "vertex_adds_discriminator poseidon = poseidon (ascii ''vertex:adds'')"
definition vertex_removes_discriminator :: "(bytes \<Rightarrow> bytes result) \<Rightarrow> bytes result" where
  "vertex_removes_discriminator poseidon = poseidon (ascii ''vertex:removes'')"
definition hyperedge_adds_discriminator :: "(bytes \<Rightarrow> bytes result) \<Rightarrow> bytes result" where
  "hyperedge_adds_discriminator poseidon = poseidon (ascii ''hyperedge:adds'')"
definition hyperedge_removes_discriminator :: "(bytes \<Rightarrow> bytes result) \<Rightarrow> bytes result" where
  "hyperedge_removes_discriminator poseidon = poseidon (ascii ''hyperedge:removes'')"

definition HYPERGRAPH_METADATA_ADDRESS :: bytes where "HYPERGRAPH_METADATA_ADDRESS = replicate 32 255"

definition location_from_domain_address :: "bytes \<Rightarrow> bytes \<Rightarrow> location result" where
  "location_from_domain_address domain address =
     (if length domain < 32 \<or> length address < 32 then Err InvalidArgument
      else Ok \<lparr>app_address = take 32 domain, data_address = take 32 address\<rparr>)"

definition hg_new :: "crdt \<Rightarrow> int list \<Rightarrow> hg_state" where
  "hg_new c pre = \<lparr>hg_crdt = c, hg_covered = pre, changeset = []\<rparr>"

definition require_full_domain_coverage :: "hg_state \<Rightarrow> bytes \<Rightarrow> unit result" where
  "require_full_domain_coverage st domain =
     (let pre = hg_covered st; pth = get_full_path domain in
      if length domain * 8 div BRANCH_BITS < length pre \<or> take (length pre) pth \<noteq> pre
      then Err ExecutionUnavailable else Ok ())"

definition change_at :: "bytes \<Rightarrow> bytes \<Rightarrow> bytes \<Rightarrow> execution_change \<Rightarrow> bytes option" where
  "change_at domain address disc ch =
     (case ch of
        StateEntry c \<Rightarrow> if sc_domain c = domain \<and> sc_address c = address \<and> sc_discriminator c = disc then Some (sc_value c) else None
      | RecordEntry k v \<Rightarrow> None)"

definition hg_get :: "crdt_env \<Rightarrow> (bytes \<Rightarrow> bytes result) \<Rightarrow> hg_state \<Rightarrow> bytes \<Rightarrow> bytes \<Rightarrow> bytes \<Rightarrow> bytes option result" where
  "hg_get env poseidon st domain address disc =
     (case first_some (map (change_at domain address disc) (rev (changeset st))) of
        Some v \<Rightarrow> Ok (Some v)
      | None \<Rightarrow>
          try_then (vertex_adds_discriminator poseidon) (\<lambda>va.
          try_then (hyperedge_adds_discriminator poseidon) (\<lambda>ha.
            if disc = va then
              try_then (location_from_domain_address domain address) (get_vertex_data_checked env (hg_crdt st))
            else if disc = ha then
              try_then (location_from_domain_address domain address) (get_hyperedge_data_checked env (hg_crdt st))
            else Err InvalidArgument)))"

definition hg_push :: "execution_change list \<Rightarrow> hg_state \<Rightarrow> hg_state" where
  "hg_push chs st = st\<lparr>changeset := changeset st @ chs\<rparr>"

definition hg_set :: "(bytes \<Rightarrow> bytes result) \<Rightarrow> bytes \<Rightarrow> bytes \<Rightarrow> bytes \<Rightarrow> bytes \<Rightarrow> hg_state \<Rightarrow> hg_state \<times> unit result" where
  "hg_set poseidon domain address disc v st =
     (case try_then (location_from_domain_address domain address) (\<lambda>_.
           try_then (vertex_adds_discriminator poseidon) (\<lambda>va.
           try_then (hyperedge_adds_discriminator poseidon) (\<lambda>ha.
             if disc \<noteq> va \<and> disc \<noteq> ha then Err InvalidArgument else Ok ()))) of
        Err e \<Rightarrow> (st, Err e)
      | Ok _ \<Rightarrow> (hg_push [StateEntry \<lparr>sc_domain = domain, sc_address = address, sc_discriminator = disc,
            sc_event = Update_event, sc_value = v\<rparr>] st, Ok ()))"

definition hg_delete :: "bytes \<Rightarrow> bytes \<Rightarrow> bytes \<Rightarrow> hg_state \<Rightarrow> hg_state \<times> unit result" where
  "hg_delete domain address disc st =
     (hg_push [StateEntry \<lparr>sc_domain = domain, sc_address = address, sc_discriminator = disc,
        sc_event = Delete_event, sc_value = []\<rparr>] st, Ok ())"

definition outside_prefix :: "int list \<Rightarrow> location \<Rightarrow> bool" where
  "outside_prefix pre l \<longleftrightarrow> pre \<noteq> [] \<and>
     (length (get_full_path (to_id l)) < length pre \<or> take (length pre) (get_full_path (to_id l)) \<noteq> pre)"

text \<open>One entry of the changeset as mutations of the hypergraph, given the names of the four sets.\<close>

definition entry_mutations :: "bytes \<times> bytes \<times> bytes \<times> bytes \<Rightarrow> int list \<Rightarrow> execution_change \<Rightarrow> crdt_mutation list result" where
  "entry_mutations = (\<lambda>(va, vr, ha, hr) pre ch.
     case ch of
       RecordEntry k v \<Rightarrow> Ok [RecordMutation k v]
     | StateEntry c \<Rightarrow>
         try_then (location_from_domain_address (sc_domain c) (sc_address c)) (\<lambda>l.
           if outside_prefix pre l then Ok []
           else if sc_discriminator c = va then Ok (if sc_event c = Delete_event then [] else [AddVertex l (sc_value c)])
           else if sc_discriminator c = vr then Ok [RemoveVertex l]
           else if sc_discriminator c = ha then Ok (if sc_event c = Delete_event then [] else [AddHyperedge l (sc_value c)])
           else if sc_discriminator c = hr then Ok [RemoveHyperedge l]
           else Ok []))"

fun changeset_mutations ::
  "bytes \<times> bytes \<times> bytes \<times> bytes \<Rightarrow> int list \<Rightarrow> execution_change list \<Rightarrow> crdt_mutation list result" where
  "changeset_mutations names pre [] = Ok []"
| "changeset_mutations names pre (ch # chs) =
     try_then (entry_mutations names pre ch) (\<lambda>ms. try_then (changeset_mutations names pre chs) (\<lambda>rest. Ok (ms @ rest)))"

definition hg_commit :: "crdt_env \<Rightarrow> (bytes \<Rightarrow> bytes result) \<Rightarrow> hg_state \<Rightarrow> hg_state \<times> unit result" where
  "hg_commit env poseidon st =
     (case try_then (vertex_adds_discriminator poseidon) (\<lambda>va.
           try_then (vertex_removes_discriminator poseidon) (\<lambda>vr.
           try_then (hyperedge_adds_discriminator poseidon) (\<lambda>ha.
           try_then (hyperedge_removes_discriminator poseidon) (\<lambda>hr.
             changeset_mutations (va, vr, ha, hr) (hg_covered st) (changeset st))))) of
        Err e \<Rightarrow> (st, Err e)
      | Ok ms \<Rightarrow> (case apply_mutations env (hg_crdt st) ms of (c, r) \<Rightarrow> (st\<lparr>hg_crdt := c\<rparr>, r)))"

definition stage_records :: "(bytes \<times> bytes option) list \<Rightarrow> hg_state \<Rightarrow> hg_state" where
  "stage_records rs st = hg_push (map (\<lambda>(k, v). RecordEntry k v) rs) st"

definition record_at :: "bytes \<Rightarrow> execution_change \<Rightarrow> bytes option option" where
  "record_at k ch = (case ch of RecordEntry k' v \<Rightarrow> if k' = k then Some v else None | StateEntry c \<Rightarrow> None)"

definition pending_records_of :: "hg_state \<Rightarrow> (bytes, bytes option) fmap" where
  "pending_records_of st =
     foldl (\<lambda>m ch. case ch of RecordEntry k v \<Rightarrow> fmupd k v m | StateEntry c \<Rightarrow> m) (staged_records (hg_crdt st)) (changeset st)"

definition get_record :: "(bytes \<Rightarrow> bytes option result) \<Rightarrow> hg_state \<Rightarrow> bytes \<Rightarrow> bytes option result" where
  "get_record store_get st k =
     (case first_some (map (record_at k) (rev (changeset st))) of
        Some v \<Rightarrow> Ok v
      | None \<Rightarrow> read_execution_record store_get (hg_crdt st) k)"

definition hg_abort :: "hg_state \<Rightarrow> hg_state" where
  "hg_abort st = st\<lparr>changeset := []\<rparr>"

definition rollback_to :: "nat \<Rightarrow> hg_state \<Rightarrow> hg_state" where
  "rollback_to savepoint st = (if savepoint < length (changeset st) then st\<lparr>changeset := take savepoint (changeset st)\<rparr> else st)"

definition changeset_len :: "hg_state \<Rightarrow> nat" where
  "changeset_len st = length (changeset st)"

definition pending_vertex_adds :: "(bytes \<Rightarrow> bytes result) \<Rightarrow> hg_state \<Rightarrow> bytes \<Rightarrow> (bytes \<times> bytes) list result" where
  "pending_vertex_adds poseidon st domain =
     try_then (vertex_adds_discriminator poseidon) (\<lambda>disc.
       Ok (List.map_filter (\<lambda>ch. case ch of
           StateEntry c \<Rightarrow> if sc_domain c = domain \<and> sc_discriminator c = disc \<and> sc_event c \<noteq> Delete_event
             then Some (sc_address c, sc_value c) else None
         | RecordEntry k v \<Rightarrow> None) (changeset st)))"

subsection \<open>Metadata vertices\<close>

definition tree_content_digest :: "(bytes \<Rightarrow> bytes) \<Rightarrow> vc_tree \<Rightarrow> bytes" where
  "tree_content_digest sha t =
     sha (concat (map (\<lambda>(k, v). be_bytes 4 (length k mod 2 ^ 32) @ k @ be_bytes 4 (length v mod 2 ^ 32) @ v) (tree_leaves t)))"

definition to_internal :: "'a result \<Rightarrow> 'a result" where
  "to_internal r = (case r of Ok x \<Rightarrow> Ok x | Err _ \<Rightarrow> Err Internal)"

definition seal_metadata_state_at_index ::
  "(bytes \<Rightarrow> bytes) \<Rightarrow> (int \<Rightarrow> bytes) \<Rightarrow> vc_tree \<Rightarrow> vc_tree \<Rightarrow> nat \<Rightarrow> vc_tree \<times> unit result" where
  "seal_metadata_state_at_index sha mag metadata sub index =
     (if 63 < index then (metadata, Err InvalidArgument)
      else case to_internal (serialize_go_tree mag (root sub)) of
        Err e \<Rightarrow> (metadata, Err e)
      | Ok sub_bytes \<Rightarrow>
          let (t, r) = tree_insert sha metadata [push_bit 2 (of_nat index)] sub_bytes (tree_content_digest sha sub)
            (case root sub of None \<Rightarrow> 0 | Some n \<Rightarrow> node_size n) in
          (t, to_internal r))"

text \<open>The additional subtrees, from index 3 on: the first thirteen indices are reserved and must be empty.\<close>

fun seal_additional ::
  "(bytes \<Rightarrow> bytes) \<Rightarrow> (int \<Rightarrow> bytes) \<Rightarrow> nat \<Rightarrow> vc_tree option list \<Rightarrow> vc_tree \<Rightarrow> vc_tree \<times> unit result" where
  "seal_additional sha mag index [] t = (t, Ok ())"
| "seal_additional sha mag index (a # as) t =
     (if index < 16 then
        if a \<noteq> None then (t, Err InvalidArgument) else seal_additional sha mag (Suc index) as t
      else case a of
        None \<Rightarrow> (t, Err InvalidArgument)
      | Some sub \<Rightarrow> (case seal_metadata_state_at_index sha mag t sub (index mod 256) of
          (t1, Ok _) \<Rightarrow> seal_additional sha mag (Suc index) as t1
        | (t1, Err e) \<Rightarrow> (t1, Err e)))"

definition then_tree :: "vc_tree \<times> unit result \<Rightarrow> (vc_tree \<Rightarrow> vc_tree \<times> unit result) \<Rightarrow> vc_tree \<times> unit result" where
  "then_tree r f = (case r of (t, Ok _) \<Rightarrow> f t | (t, Err e) \<Rightarrow> (t, Err e))"

definition insert_raw :: "(bytes \<Rightarrow> bytes) \<Rightarrow> bytes \<Rightarrow> bytes \<Rightarrow> vc_tree \<Rightarrow> vc_tree \<times> unit result" where
  "insert_raw sha k v t = (let (t', r) = tree_insert sha t k v [] (int (length v)) in (t', to_internal r))"

definition metadata_tree ::
  "(bytes \<Rightarrow> bytes) \<Rightarrow> (int \<Rightarrow> bytes) \<Rightarrow> vc_tree \<Rightarrow> vc_tree \<Rightarrow> bytes \<Rightarrow> vc_tree option list \<Rightarrow> bytes \<Rightarrow> vc_tree \<times> unit result" where
  "metadata_tree sha mag consensus_metadata sumcheck_info rdf_schema additional_data intrinsic_type =
     then_tree (seal_metadata_state_at_index sha mag new_tree consensus_metadata 0) (\<lambda>t.
     then_tree (seal_metadata_state_at_index sha mag t sumcheck_info 1) (\<lambda>t.
     then_tree (insert_raw sha [push_bit 2 2] rdf_schema t) (\<lambda>t.
     then_tree (seal_additional sha mag 3 additional_data t) (\<lambda>t.
       insert_raw sha (replicate 32 255) intrinsic_type t))))"

definition init_metadata_vertex ::
  "(bytes \<Rightarrow> bytes) \<Rightarrow> (int \<Rightarrow> bytes) \<Rightarrow> (bytes \<Rightarrow> bytes result) \<Rightarrow> bytes \<Rightarrow> vc_tree \<Rightarrow> vc_tree \<Rightarrow> bytes \<Rightarrow>
   vc_tree option list \<Rightarrow> bytes \<Rightarrow> hg_state \<Rightarrow> hg_state \<times> unit result" where
  "init_metadata_vertex sha mag poseidon domain consensus_metadata sumcheck_info rdf_schema additional_data intrinsic_type st =
     (if length domain \<noteq> 32 then (st, Err InvalidArgument)
      else case metadata_tree sha mag consensus_metadata sumcheck_info rdf_schema additional_data intrinsic_type of
        (public, Err e) \<Rightarrow> (st, Err e)
      | (public, Ok _) \<Rightarrow>
          (case try_then (to_internal (serialize_go_tree mag (root public))) (\<lambda>blob.
                try_then (vertex_adds_discriminator poseidon) (\<lambda>va. Ok (blob, va))) of
             Err e \<Rightarrow> (st, Err e)
           | Ok (blob, va) \<Rightarrow> hg_set poseidon domain HYPERGRAPH_METADATA_ADDRESS va blob st))"

subsection \<open>Publishing a changeset\<close>

definition names_of :: "(bytes \<Rightarrow> bytes result) \<Rightarrow> bytes \<times> bytes \<times> bytes \<times> bytes \<Rightarrow> bool" where
  "names_of poseidon = (\<lambda>(va, vr, ha, hr). vertex_adds_discriminator poseidon = Ok va \<and>
     vertex_removes_discriminator poseidon = Ok vr \<and> hyperedge_adds_discriminator poseidon = Ok ha \<and>
     hyperedge_removes_discriminator poseidon = Ok hr \<and> distinct [va, vr, ha, hr])"

text \<open>Entries as execution makes them: full addresses, data in the two sets of additions, deletions in the other two.\<close>

definition entry_ok :: "bytes \<times> bytes \<times> bytes \<times> bytes \<Rightarrow> execution_change \<Rightarrow> bool" where
  "entry_ok = (\<lambda>(va, vr, ha, hr) ch. case ch of
     RecordEntry k v \<Rightarrow> True
   | StateEntry c \<Rightarrow> length (sc_domain c) = 32 \<and> length (sc_address c) = 32 \<and> length (sc_value c) < 2 ^ 64 \<and>
       (if sc_event c = Delete_event then sc_discriminator c = vr \<or> sc_discriminator c = hr
        else (sc_discriminator c = va \<or> sc_discriminator c = ha) \<and> sc_value c \<noteq> []))"

definition removes :: "bytes \<Rightarrow> bytes \<Rightarrow> bytes \<Rightarrow> execution_change \<Rightarrow> bool" where
  "removes domain address disc ch \<longleftrightarrow> change_at domain address disc ch \<noteq> None"

lemma first_some_snoc:
  "first_some (map f (rev (xs @ [x]))) = (case f x of Some v \<Rightarrow> Some v | None \<Rightarrow> first_some (map f (rev xs)))"
  by (simp split: option.split)

lemma location_ok: "length d = 32 \<Longrightarrow> length a = 32 \<Longrightarrow> location_from_domain_address d a = Ok \<lparr>app_address = d, data_address = a\<rparr>"
  by (simp add: location_from_domain_address_def)

lemma changeset_mutations_snoc:
  "changeset_mutations names pre (chs @ [ch]) =
     try_then (changeset_mutations names pre chs) (\<lambda>ms. try_then (entry_mutations names pre ch) (\<lambda>rest. Ok (ms @ rest)))"
proof (induction chs)
  case Nil
  show ?case by (cases "entry_mutations names pre ch") simp_all
next
  case (Cons c chs)
  show ?case
    by (cases "entry_mutations names pre c"; cases "changeset_mutations names pre chs"; cases "entry_mutations names pre ch")
      (simp_all add: Cons)
qed

lemma entry_mutations_ok:
  assumes "entry_ok names ch"
  shows "\<exists>ms. entry_mutations names pre ch = Ok ms \<and> list_all mutation_ok ms"
  using assms by (cases names; cases ch) (auto simp: entry_ok_def entry_mutations_def location_ok wf_location_def split: if_splits)

lemma changeset_mutations_ok:
  "list_all (entry_ok names) chs \<Longrightarrow> \<exists>ms. changeset_mutations names pre chs = Ok ms \<and> list_all mutation_ok ms"
proof (induction chs)
  case (Cons ch chs)
  from entry_mutations_ok [of names ch pre] Cons show ?case by auto
qed simp

text \<open>What one entry does to one location of either set.\<close>

lemma entry_vertex:
  assumes "entry_ok (va, vr, ha, hr) ch" "distinct [va, vr, ha, hr]" "entry_mutations (va, vr, ha, hr) pre ch = Ok ms"
    "length d = 32" "length a = 32" "\<not> outside_prefix pre \<lparr>app_address = d, data_address = a\<rparr>"
    "\<not> removes d a vr ch" "\<lparr>app_address = d, data_address = a\<rparr> \<notin> dead (vertices g)"
  shows "\<lparr>app_address = d, data_address = a\<rparr> \<notin> dead (vertices (fold graph_step ms g)) \<and>
    members (vertices (fold graph_step ms g)) \<lparr>app_address = d, data_address = a\<rparr> =
      (case change_at d a va ch of Some v \<Rightarrow> Some v | None \<Rightarrow> members (vertices g) \<lparr>app_address = d, data_address = a\<rparr>)"
proof (cases ch)
  case (StateEntry c)
  have "location_from_domain_address (sc_domain c) (sc_address c) = Ok \<lparr>app_address = sc_domain c, data_address = sc_address c\<rparr>"
    using assms(1) by (simp add: StateEntry entry_ok_def location_ok)
  then show ?thesis
    using assms by (auto simp: StateEntry entry_ok_def entry_mutations_def removes_def change_at_def or_add_def or_remove_def split: if_splits)
qed (use assms in \<open>auto simp: entry_mutations_def change_at_def\<close>)

lemma entry_edge:
  assumes "entry_ok (va, vr, ha, hr) ch" "distinct [va, vr, ha, hr]" "entry_mutations (va, vr, ha, hr) pre ch = Ok ms"
    "length d = 32" "length a = 32" "\<not> outside_prefix pre \<lparr>app_address = d, data_address = a\<rparr>"
    "\<not> removes d a hr ch" "\<lparr>app_address = d, data_address = a\<rparr> \<notin> dead (edges g)"
  shows "\<lparr>app_address = d, data_address = a\<rparr> \<notin> dead (edges (fold graph_step ms g)) \<and>
    members (edges (fold graph_step ms g)) \<lparr>app_address = d, data_address = a\<rparr> =
      (case change_at d a ha ch of Some v \<Rightarrow> Some v | None \<Rightarrow> members (edges g) \<lparr>app_address = d, data_address = a\<rparr>)"
proof (cases ch)
  case (StateEntry c)
  have "location_from_domain_address (sc_domain c) (sc_address c) = Ok \<lparr>app_address = sc_domain c, data_address = sc_address c\<rparr>"
    using assms(1) by (simp add: StateEntry entry_ok_def location_ok)
  then show ?thesis
    using assms by (auto simp: StateEntry entry_ok_def entry_mutations_def removes_def change_at_def or_add_def or_remove_def split: if_splits)
qed (use assms in \<open>auto simp: entry_mutations_def change_at_def\<close>)

lemma changes_run:
  assumes step: "\<And>ch ms g. entry_ok names ch \<Longrightarrow> entry_mutations names pre ch = Ok ms \<Longrightarrow> \<not> removes d a rem ch \<Longrightarrow> l \<notin> dead (sel g) \<Longrightarrow>
      l \<notin> dead (sel (fold graph_step ms g)) \<and>
      members (sel (fold graph_step ms g)) l = (case change_at d a add ch of Some v \<Rightarrow> Some v | None \<Rightarrow> members (sel g) l)"
    and "list_all (entry_ok names) chs" "changeset_mutations names pre chs = Ok ms" "\<not> list_ex (removes d a rem) chs" "l \<notin> dead (sel g)"
  shows "l \<notin> dead (sel (fold graph_step ms g)) \<and>
    members (sel (fold graph_step ms g)) l =
      (case first_some (map (change_at d a add) (rev chs)) of Some v \<Rightarrow> Some v | None \<Rightarrow> members (sel g) l)"
  using assms(2-4)
proof (induction chs arbitrary: ms rule: rev_induct)
  case Nil
  then show ?case using assms(5) by simp
next
  case (snoc ch chs)
  obtain ms1 ms2 where ms: "changeset_mutations names pre chs = Ok ms1" "entry_mutations names pre ch = Ok ms2" "ms = ms1 @ ms2"
    using snoc.prems(2) by (auto simp: changeset_mutations_snoc try_then_Ok)
  note old = snoc.IH [OF _ ms(1)]
  have "l \<notin> dead (sel (fold graph_step ms1 g))" using old snoc.prems(1,3) by simp
  from step [OF _ ms(2) _ this] old snoc.prems(1,3) show ?case
    unfolding first_some_snoc ms(3) by (auto split: option.split)
qed

lemma change_nonempty:
  "change_at d a disc ch = Some v \<Longrightarrow> entry_ok (va, vr, ha, hr) ch \<Longrightarrow> disc \<noteq> vr \<Longrightarrow> disc \<noteq> hr \<Longrightarrow> v \<noteq> []"
  by (auto simp: change_at_def entry_ok_def split: execution_change.splits if_splits)

lemma scanned_nonempty:
  assumes "first_some (map (change_at d a disc) (rev chs)) = Some v" "list_all (entry_ok (va, vr, ha, hr)) chs"
    "disc \<noteq> vr" "disc \<noteq> hr"
  shows "v \<noteq> []"
  using assms(1,2)
proof (induction chs rule: rev_induct)
  case (snoc ch chs)
  then show ?case
    using change_nonempty [OF _ _ assms(3,4), of d a ch v va ha] unfolding first_some_snoc
    by (cases "change_at d a disc ch") simp_all
qed simp

lemma nonempty_Some [simp]: "v \<noteq> [] \<Longrightarrow> nonempty_blob (Some v) = Some v"
  by (cases v) (simp_all add: nonempty_blob_def)

lemma commit_cases:
  assumes "names_of poseidon names" "list_all (entry_ok names) (changeset st)"
  obtains ms where "changeset_mutations names (hg_covered st) (changeset st) = Ok ms" "list_all mutation_ok ms"
    "hg_commit env poseidon st = (st\<lparr>hg_crdt := fst (apply_mutations env (hg_crdt st) ms)\<rparr>, snd (apply_mutations env (hg_crdt st) ms))"
proof -
  obtain va vr ha hr where names: "names = (va, vr, ha, hr)" by (cases names)
  obtain ms where ms: "changeset_mutations names (hg_covered st) (changeset st) = Ok ms" "list_all mutation_ok ms"
    using changeset_mutations_ok [OF assms(2)] by blast
  then have "hg_commit env poseidon st = (st\<lparr>hg_crdt := fst (apply_mutations env (hg_crdt st) ms)\<rparr>, snd (apply_mutations env (hg_crdt st) ms))"
    using assms(1) by (simp add: hg_commit_def names_of_def names case_prod_unfold)
  with ms show thesis by (rule that)
qed

subsection \<open>Records\<close>

lemma stage_records_kept: "stage env shard ph i blob tomb p = Ok p' \<Longrightarrow> p_records p' = p_records p"
  by (auto simp: stage_def try_then_Ok)

lemma bump_records_kept: "bump st shard l c s p = Ok p' \<Longrightarrow> p_records p' = p_records p"
  by (auto simp: bump_def try_then_Ok split: if_splits)

lemma prepare_add_records: "prepare_add env st l d a p = Ok p' \<Longrightarrow> p_records p' = p_records p"
  by (auto simp: prepare_add_def Let_def try_then_Ok dest!: stage_records_kept bump_records_kept split: if_splits)

lemma prepare_remove_records: "prepare_remove env st l a p = Ok p' \<Longrightarrow> p_records p' = p_records p"
  unfolding prepare_remove_def Let_def try_then_Ok
  by (elim exE conjE) (auto dest!: stage_records_kept bump_records_kept split: if_splits)

definition mutation_record :: "bytes \<Rightarrow> crdt_mutation \<Rightarrow> bytes option option" where
  "mutation_record k m = (case m of RecordMutation k' v \<Rightarrow> if k' = k then Some v else None | _ \<Rightarrow> None)"

lemma prepare_one_records:
  "prepare_one env st m p = Ok p' \<Longrightarrow>
   fmlookup (p_records p') k = (case mutation_record k m of Some v \<Rightarrow> Some v | None \<Rightarrow> fmlookup (p_records p) k)"
  by (cases m) (auto simp: mutation_record_def dest: prepare_add_records prepare_remove_records)

lemma first_some_append: "first_some (xs @ ys) = (case first_some xs of Some v \<Rightarrow> Some v | None \<Rightarrow> first_some ys)"
proof (induction xs)
  case (Cons x xs)
  then show ?case by (cases x) simp_all
qed simp

lemma first_some_single [simp]: "first_some [x] = x"
  by (cases x) simp_all

lemma prepare_all_records:
  "prepare_all env st ms p = Ok p' \<Longrightarrow>
   fmlookup (p_records p') k =
     (case first_some (map (mutation_record k) (rev ms)) of Some v \<Rightarrow> Some v | None \<Rightarrow> fmlookup (p_records p) k)"
proof (induction ms arbitrary: p)
  case (Cons m ms)
  obtain p1 where p1: "prepare_one env st m p = Ok p1" "prepare_all env st ms p1 = Ok p'" using Cons.prems by (auto simp: try_then_Ok)
  from Cons.IH [OF p1(2)] prepare_one_records [OF p1(1), of k] show ?case by (simp add: first_some_append split: option.split)
qed simp

lemma apply_records:
  assumes "snd (apply_mutations env st ms) = Ok ()"
  shows "fmlookup (pending_records (fst (apply_mutations env st ms))) k =
    (case first_some (map (mutation_record k) (rev ms)) of Some v \<Rightarrow> Some v | None \<Rightarrow> fmlookup (pending_records st) k)"
proof (cases rule: apply_mutations_cases [of env st ms])
  case (failed e)
  then show ?thesis using assms by simp
next
  case (published p meta)
  from prepare_all_records [OF published(1), of k] have
    "fmlookup (p_records p) k = first_some (map (mutation_record k) (rev ms))"
    by (simp add: prepared_default_def split: option.split)
  then show ?thesis using published(3) by (auto simp: publish_def fmlookup_dom_iff split: option.split)
qed

lemma entry_records:
  "entry_mutations names pre ch = Ok ms \<Longrightarrow> first_some (map (mutation_record k) (rev ms)) = record_at k ch"
  by (cases names; cases ch)
    (auto simp: entry_mutations_def try_then_Ok mutation_record_def record_at_def split: if_splits)

lemma changeset_records:
  "changeset_mutations names pre chs = Ok ms \<Longrightarrow>
   first_some (map (mutation_record k) (rev ms)) = first_some (map (record_at k) (rev chs))"
proof (induction chs arbitrary: ms)
  case (Cons ch chs)
  obtain ms1 ms2 where "entry_mutations names pre ch = Ok ms1" "changeset_mutations names pre chs = Ok ms2" "ms = ms1 @ ms2"
    using Cons.prems by (auto simp: try_then_Ok)
  with Cons.IH entry_records [of names pre ch ms1 k] show ?case by (simp add: first_some_append split: option.split)
qed simp

subsection \<open>Removals\<close>

lemma removal_kills:
  "RemoveVertex l \<in> set ms \<Longrightarrow> l \<in> dead (vertices (fold graph_step ms g))"
  "RemoveHyperedge l \<in> set ms \<Longrightarrow> l \<in> dead (edges (fold graph_step ms g))"
  by (induction ms arbitrary: g) (auto intro: dead_stays_run simp: or_remove_def)

lemma removal_published:
  assumes "changeset_mutations (va, vr, ha, hr) pre chs = Ok ms" "distinct [va, vr, ha, hr]" "length d = 32" "length a = 32"
    "\<not> outside_prefix pre \<lparr>app_address = d, data_address = a\<rparr>" "list_ex (removes d a disc) chs"
  shows "(disc = vr \<longrightarrow> RemoveVertex \<lparr>app_address = d, data_address = a\<rparr> \<in> set ms) \<and>
    (disc = hr \<longrightarrow> RemoveHyperedge \<lparr>app_address = d, data_address = a\<rparr> \<in> set ms)"
  using assms(1,6)
proof (induction chs arbitrary: ms)
  case (Cons ch chs)
  obtain ms1 ms2 where ms: "entry_mutations (va, vr, ha, hr) pre ch = Ok ms1" "changeset_mutations (va, vr, ha, hr) pre chs = Ok ms2"
    "ms = ms1 @ ms2"
    using Cons.prems(1) by (auto simp: try_then_Ok)
  show ?case
  proof (cases "removes d a disc ch")
    case True
    then obtain c where c: "ch = StateEntry c" "sc_domain c = d" "sc_address c = a" "sc_discriminator c = disc"
      by (auto simp: removes_def change_at_def split: execution_change.splits if_splits)
    then show ?thesis
      using ms(1,3) assms(2-5) by (auto simp: entry_mutations_def location_ok)
  next
    case False
    then show ?thesis using Cons.IH [OF ms(2)] Cons.prems(2) ms(3) by auto
  qed
qed simp

subsection \<open>Properties\<close>

lemma abort_sel: "changeset (hg_abort st) = []" "hg_crdt (hg_abort st) = hg_crdt st"
  by (simp_all add: hg_abort_def)

lemma get_from_scan:
  assumes "reads_ok env" "names_of poseidon (va, vr, ha, hr)" "length d = 32" "length a = 32"
  shows "hg_get env poseidon st d a va = Ok (case first_some (map (change_at d a va) (rev (changeset st))) of
      Some v \<Rightarrow> Some v | None \<Rightarrow> or_read (vertices (hypergraph_of env (hg_crdt st))) \<lparr>app_address = d, data_address = a\<rparr>)"
    "hg_get env poseidon st d a ha = Ok (case first_some (map (change_at d a ha) (rev (changeset st))) of
      Some v \<Rightarrow> Some v | None \<Rightarrow> or_read (edges (hypergraph_of env (hg_crdt st))) \<lparr>app_address = d, data_address = a\<rparr>)"
  using assms reads_or_set [OF assms(1), of "\<lparr>app_address = d, data_address = a\<rparr>" "hg_crdt st"]
  by (auto simp: hg_get_def names_of_def location_ok wf_location_def split: option.split)



subsection \<open>Savepoints\<close>

text \<open>The writes a message makes while it executes.\<close>

inductive execution_step :: "(bytes \<Rightarrow> bytes result) \<Rightarrow> hg_state \<Rightarrow> hg_state \<Rightarrow> bool" for poseidon where
  step_set: "execution_step poseidon st (fst (hg_set poseidon d a disc v st))"
| step_delete: "execution_step poseidon st (fst (hg_delete d a disc st))"
| step_records: "execution_step poseidon st (stage_records rs st)"
| step_init: "execution_step poseidon st (fst (init_metadata_vertex sha mag poseidon d cm si rdf ad ty st))"

lemma push_selectors [simp]:
  "changeset (hg_push chs st) = changeset st @ chs" "hg_crdt (hg_push chs st) = hg_crdt st" "hg_covered (hg_push chs st) = hg_covered st"
  by (simp_all add: hg_push_def)

lemma set_pushes: "\<exists>chs. fst (hg_set poseidon d a disc v st) = hg_push chs st"
proof -
  have "hg_push [] st = st" by (simp add: hg_push_def)
  then show ?thesis unfolding hg_set_def by (auto split: sum.split intro: exI [of _ "[]"])
qed

lemma init_pushes: "\<exists>chs. fst (init_metadata_vertex sha mag poseidon d cm si rdf ad ty st) = hg_push chs st"
proof -
  have "hg_push [] st = st" by (simp add: hg_push_def)
  then have "\<exists>chs. st = hg_push chs st" by metis
  then show ?thesis unfolding init_metadata_vertex_def by (auto split: sum.split prod.split simp: set_pushes)
qed

lemma init_all_or_nothing:
  "init_metadata_vertex sha mag poseidon d cm si rdf ad ty st = (st', Err e) \<Longrightarrow> st' = st"
  by (auto simp: init_metadata_vertex_def hg_set_def split: if_splits prod.splits sum.splits)

lemma step_pushes: "execution_step poseidon st st' \<Longrightarrow> \<exists>chs. st' = hg_push chs st"
  by (induction rule: execution_step.induct) (auto simp: set_pushes init_pushes hg_delete_def stage_records_def)

lemma steps_push: "(execution_step poseidon)\<^sup>*\<^sup>* st st' \<Longrightarrow> \<exists>chs. st' = hg_push chs st"
proof (induction rule: rtranclp_induct)
  case base
  show ?case by (auto simp: hg_push_def intro: exI [of _ "[]"])
next
  case (step st1 st2)
  from step.IH step_pushes [OF step.hyps(2)] show ?case by (auto simp: hg_push_def)
qed

lemma records_of_fold:
  "fmlookup (foldl (\<lambda>m ch. case ch of RecordEntry k v \<Rightarrow> fmupd k v m | StateEntry c \<Rightarrow> m) m chs) k =
     (case first_some (map (record_at k) (rev chs)) of Some v \<Rightarrow> Some v | None \<Rightarrow> fmlookup m k)"
proof (induction chs rule: rev_induct)
  case (snoc ch chs)
  have "record_at k ch = (case ch of RecordEntry k' v \<Rightarrow> if k' = k then Some v else None | StateEntry c \<Rightarrow> None)"
    by (simp add: record_at_def)
  then show ?case unfolding first_some_snoc using snoc by (cases ch) simp_all
qed simp

text \<open>C11. A savepoint undoes exactly what came after it. Whatever a failing message wrote (state changes, removals, ancillary records, a
  metadata vertex), cutting the changeset back to its length before the message gives back the state before it; a
  savepoint that is not below the current length changes nothing; and at every moment a record reads as the merged
  map of pending records says, or as the store has it.\<close>

theorem savepoint_restores:
  assumes "(execution_step poseidon)\<^sup>*\<^sup>* st st'"
  shows "rollback_to (changeset_len st) st' = st \<and> changeset_len st \<le> changeset_len st' \<and>
    rollback_to (changeset_len st' + n) st' = st' \<and>
    get_record store_get st' k = (case fmlookup (pending_records_of st') k of Some v \<Rightarrow> Ok v | None \<Rightarrow> store_get k)"
proof -
  obtain chs where st': "st' = hg_push chs st" using steps_push [OF assms] by blast
  then have "rollback_to (changeset_len st) st' = st" by (cases chs) (simp_all add: rollback_to_def changeset_len_def hg_push_def)
  moreover have "get_record store_get st' k = (case fmlookup (pending_records_of st') k of Some v \<Rightarrow> Ok v | None \<Rightarrow> store_get k)"
    unfolding get_record_def pending_records_of_def records_of_fold
    by (simp add: read_execution_record_def staged_records_def split: option.split)
  ultimately show ?thesis by (simp add: st' rollback_to_def changeset_len_def)
qed

lemma get_push:
  "hg_get env poseidon (hg_push [ch] st) d a disc =
     (case change_at d a disc ch of Some v \<Rightarrow> Ok (Some v) | None \<Rightarrow> hg_get env poseidon st d a disc)"
  unfolding hg_get_def push_selectors first_some_snoc by (cases "change_at d a disc ch") simp_all

text \<open>Pending removals are invisible to reads until the commit: a vertex whose removal is staged still reads as it
  did, and one deleted under the set of additions reads as an empty value that the commit never stores.\<close>

theorem pending_removals_not_read:
  assumes "names_of poseidon (va, vr, ha, hr)"
  shows "hg_get env poseidon (fst (hg_delete d a vr st)) d a va = hg_get env poseidon st d a va \<and>
    hg_get env poseidon (fst (hg_delete d a va st)) d a va = Ok (Some []) \<and>
    (length d = 32 \<longrightarrow> length a = 32 \<longrightarrow>
      changeset_mutations (va, vr, ha, hr) pre (changeset (fst (hg_delete d a va st))) =
        changeset_mutations (va, vr, ha, hr) pre (changeset st))"
proof -
  let ?ch = "StateEntry \<lparr>sc_domain = d, sc_address = a, sc_discriminator = va, sc_event = Delete_event, sc_value = []\<rparr>"
  have "entry_mutations (va, vr, ha, hr) pre ?ch = Ok []" if "length d = 32" "length a = 32"
    by (simp add: entry_mutations_def location_ok [OF that])
  then have "changeset_mutations (va, vr, ha, hr) pre (changeset st @ [?ch]) = changeset_mutations (va, vr, ha, hr) pre (changeset st)"
    if "length d = 32" "length a = 32"
    using that unfolding changeset_mutations_snoc by (cases "changeset_mutations (va, vr, ha, hr) pre (changeset st)") simp_all
  moreover have "va \<noteq> vr" using assms by (simp add: names_of_def)
  ultimately show ?thesis by (simp add: hg_delete_def get_push change_at_def)
qed

subsection \<open>Examples\<close>

definition demo_names :: "bytes \<Rightarrow> bytes result" where "demo_names b = Ok (take 1 (rev (take 8 b)) @ [of_nat (length b)])"

definition demo_state :: hg_state where
  "demo_state = \<lparr>hg_crdt = demo_crdt, hg_covered = [],
     changeset = [StateEntry \<lparr>sc_domain = replicate 32 4, sc_address = replicate 32 5, sc_discriminator = [97, 11],
       sc_event = Update_event, sc_value = [1, 2, 3]\<rparr>, RecordEntry [1] (Some [2])]\<rparr>"

lemma demo_entries: "list_all (entry_ok ([97, 11], [114, 14], [103, 14], [103, 17])) (changeset demo_state)"
  by (simp add: demo_state_def entry_ok_def)

lemma demo_names_of: "names_of demo_names ([97, 11], [114, 14], [103, 14], [103, 17])"
  by (simp add: names_of_def demo_names_def ascii_def vertex_adds_discriminator_def vertex_removes_discriminator_def
      hyperedge_adds_discriminator_def hyperedge_removes_discriminator_def)

lemma demo_mutations_of:
  "changeset_mutations ([97, 11], [114, 14], [103, 14], [103, 17]) [] (changeset demo_state) =
     Ok [AddVertex demo_location [1, 2, 3], RecordMutation [1] (Some [2])]"
  by (simp add: demo_state_def entry_mutations_def location_ok outside_prefix_def demo_location_def)

lemma demo_covered: "hg_covered demo_state = []" "hg_crdt demo_state = demo_crdt"
  by (simp_all add: demo_state_def)

lemma demo_commits: "\<exists>st'. hg_commit demo_env demo_names demo_state = (st', Ok ())"
proof -
  have "snd (apply_mutations demo_env demo_crdt [AddVertex demo_location [1, 2, 3], RecordMutation [1] (Some [2])]) = Ok ()"
    by (intro batch_accepted demo_reads demo_routable demo_sized) (simp_all add: demo_wf bucket_def demo_crdt_def)
  moreover have "hg_commit demo_env demo_names demo_state =
    (case apply_mutations demo_env (hg_crdt demo_state) [AddVertex demo_location [1, 2, 3], RecordMutation [1] (Some [2])] of
       (c, r) \<Rightarrow> (demo_state\<lparr>hg_crdt := c\<rparr>, r))"
    using demo_names_of demo_mutations_of by (simp add: hg_commit_def names_of_def demo_covered)
  ultimately show ?thesis by (simp add: case_prod_unfold demo_covered)
qed


theorem savepoint_restores_witness:
  "rollback_to (changeset_len demo_state) (fst (hg_delete [1] [2] [3] (stage_records [([7], None)] demo_state))) = demo_state"
proof -
  have "(execution_step demo_names)\<^sup>*\<^sup>* demo_state (fst (hg_delete [1] [2] [3] (stage_records [([7], None)] demo_state)))"
    using step_records [of demo_names demo_state "[([7], None)]"] step_delete [of demo_names "stage_records [([7], None)] demo_state"]
    by (meson r_into_rtranclp rtranclp.rtrancl_into_rtrancl)
  from savepoint_restores [OF this] show ?thesis by simp
qed

end
