(* ===== verification/Bloom_Filter.thy ===== *)
theory Bloom_Filter
  imports Shard_Paths
begin

text \<open>
  The two filters that name an application (\<^verbatim>\<open>quil-hypergraph/src/addressing.rs\<close>): three sorted indices drawn from an
  extendable hash, which key the application's stores, and a mask with three bits drawn from a digest, which is
  its gossip topic. The hashes are arguments: the extendable one is the infinite stream of its bytes.

  The first draws until it has enough different positions; nothing but the hash bounds the loop. The second has a
  fixed number of tries. The logarithm of the first is exact here, as floating point has it for powers of two.
\<close>

subsection \<open>Definitions\<close>

fun bit_width :: "nat \<Rightarrow> nat" where
  "bit_width n = (if n = 0 then 0 else Suc (bit_width (n div 2)))"

definition ceil_log2 :: "nat \<Rightarrow> nat" where "ceil_log2 n = bit_width (n - 1)"

definition position_at :: "(nat \<Rightarrow> byte) \<Rightarrow> nat \<Rightarrow> nat \<Rightarrow> bytes" where
  "position_at stream pos_size i = map stream [pos_size * i ..< pos_size * i + pos_size]"

definition insert_sorted :: "bytes \<Rightarrow> bytes list \<Rightarrow> bytes list" where
  "insert_sorted p ps = takeWhile (\<lambda>q. bytes_less q p) ps @ p # dropWhile (\<lambda>q. bytes_less q p) ps"

partial_function (option) draw_indices :: "(nat \<Rightarrow> byte) \<Rightarrow> nat \<Rightarrow> nat \<Rightarrow> nat \<Rightarrow> nat \<Rightarrow> bytes list \<Rightarrow> bytes list option" where
  "draw_indices stream pos_size k actual_k i ps =
     (if length ps < k \<and> i < actual_k then
        let p = position_at stream pos_size i in
        if p \<in> set ps then draw_indices stream pos_size k (actual_k + 1) (i + 1) ps
        else draw_indices stream pos_size k actual_k (i + 1) (insert_sorted p ps)
      else Some ps)"

definition three_bytes :: "bytes list \<Rightarrow> bytes" where
  "three_bytes ps = take 3 (concat ps @ [0, 0, 0])"

definition get_bloom_filter_indices :: "(bytes \<Rightarrow> nat \<Rightarrow> byte) \<Rightarrow> bytes \<Rightarrow> nat \<Rightarrow> nat \<Rightarrow> bytes option" where
  "get_bloom_filter_indices shake256 data bit_length k =
     (if data = [] \<or> 0x3f < hd data \<or> list_all (\<lambda>b. b = 0) data then Some [0, 0, 0]
      else map_option three_bytes (draw_indices (shake256 data) (ceil_log2 bit_length div 8) k k 0 []))"

definition bit_at :: "bytes \<Rightarrow> nat \<Rightarrow> nat" where
  "bit_at bs j = (if length bs \<le> j div 8 then 0 else of_bool (bit (bs ! (length bs - 1 - j div 8)) (j mod 8)))"

definition is_bit_set :: "bytes \<Rightarrow> nat \<Rightarrow> bool" where
  "is_bit_set bs pos \<longleftrightarrow> bit_at bs pos = 1"

definition filter_set_bit :: "bytes \<Rightarrow> nat \<Rightarrow> bytes result" where
  "filter_set_bit bs pos =
     (if length bs \<le> pos div 8 then Err Panic
      else let i = length bs - 1 - pos div 8 in Ok (bs[i := bs ! i OR push_bit (pos mod 8) 1]))"

definition position_bits :: "bytes \<Rightarrow> nat \<Rightarrow> nat \<Rightarrow> nat" where
  "position_bits digest sz i = foldl (\<lambda>p j. 2 * p + bit_at digest j) 0 [sz * i ..< sz * (i + 1)]"

function set_bits_loop :: "bytes \<Rightarrow> nat \<Rightarrow> nat \<Rightarrow> nat \<Rightarrow> nat \<Rightarrow> nat \<Rightarrow> nat \<Rightarrow> bytes \<Rightarrow> bytes result" where
  "set_bits_loop digest bit_length sz k k_actual set_bits i out =
     (if set_bits < k \<and> i < k_actual then
        let p = position_bits digest sz i in
        if p < bit_length \<and> \<not> is_bit_set out p
        then (case filter_set_bit out p of
            Err e \<Rightarrow> Err e
          | Ok out' \<Rightarrow> set_bits_loop digest bit_length sz k k_actual (set_bits + 1) (i + 1) out')
        else set_bits_loop digest bit_length sz k (if k_actual < sz then k_actual + 1 else k_actual) set_bits (i + 1) out
      else Ok out)"
  by pat_completeness auto
termination
  by (relation "measure (\<lambda>(digest, bit_length, sz, k, k_actual, set_bits, i, out). max sz k_actual - i)") auto

definition floor_log2 :: "nat \<Rightarrow> nat" where "floor_log2 n = bit_width n - 1"

definition get_bloom_filter :: "(bytes \<Rightarrow> bytes) \<Rightarrow> bytes \<Rightarrow> nat \<Rightarrow> nat \<Rightarrow> bytes result" where
  "get_bloom_filter sha3 data bit_length k =
     set_bits_loop (sha3 data) bit_length (if bit_length = 0 then 0 else floor_log2 bit_length) k k 0 0
       (replicate (bit_length div 8) 0)"

declare bit_width.simps [simp del] set_bits_loop.simps [simp del]

subsection \<open>Drawing indices\<close>

lemma bytes_less_irrefl: "\<not> bytes_less p p"
  by (induction p) auto

lemma bytes_less_linear: "p \<noteq> q \<Longrightarrow> bytes_less p q \<or> bytes_less q p"
proof (induction p q rule: bytes_less.induct)
  case (3 p)
  then show ?case by (cases p) auto
qed (auto simp: neq_iff)

lemma bytes_less_order: "bytes_less p q \<Longrightarrow> bytes_less q r \<Longrightarrow> bytes_less p r"
proof (induction p q arbitrary: r rule: bytes_less.induct)
  case (1 a as b bs)
  then show ?case by (cases r) auto
next
  case (2 b bs)
  then show ?case by (cases r) auto
qed simp

lemma insert_sorted_set: "set (insert_sorted p ps) = insert p (set ps)"
proof -
  have "set ps = set (takeWhile (\<lambda>q. bytes_less q p) ps) \<union> set (dropWhile (\<lambda>q. bytes_less q p) ps)"
    by (subst set_append [symmetric]) (simp only: takeWhile_dropWhile_id)
  then show ?thesis by (auto simp only: insert_sorted_def set_append list.set)
qed

lemma insert_sorted_length: "length (insert_sorted p ps) = Suc (length ps)"
proof -
  have "length ps = length (takeWhile (\<lambda>q. bytes_less q p) ps) + length (dropWhile (\<lambda>q. bytes_less q p) ps)"
    by (subst length_append [symmetric]) (simp only: takeWhile_dropWhile_id)
  then show ?thesis by (simp only: insert_sorted_def length_append list.size)
qed

lemma insert_sorted_ordered:
  assumes "sorted_wrt bytes_less ps" "p \<notin> set ps"
  shows "sorted_wrt bytes_less (insert_sorted p ps)"
  using assms
proof (induction ps)
  case Nil
  show ?case by (simp add: insert_sorted_def)
next
  case (Cons q ps)
  then have tail: "sorted_wrt bytes_less (insert_sorted p ps)" by simp
  show ?case
  proof (cases "bytes_less q p")
    case True
    then have "insert_sorted p (q # ps) = q # insert_sorted p ps" by (simp add: insert_sorted_def)
    then show ?thesis using True tail Cons.prems by (simp add: insert_sorted_set)
  next
    case False
    then have "bytes_less p q" using bytes_less_linear [of p q] Cons.prems by auto
    then show ?thesis using False Cons.prems by (auto simp: insert_sorted_def intro: bytes_less_order)
  qed
qed

lemma sorted_distinct_bytes: "sorted_wrt bytes_less ps \<Longrightarrow> distinct ps"
  by (induction ps) (auto simp: bytes_less_irrefl)

text \<open>After \<open>i\<close> draws the list holds their positions, and the bound has moved by the repeated ones.\<close>

definition drawn :: "(nat \<Rightarrow> byte) \<Rightarrow> nat \<Rightarrow> nat \<Rightarrow> nat \<Rightarrow> nat \<Rightarrow> bytes list \<Rightarrow> bool" where
  "drawn stream pos_size k actual_k i ps \<longleftrightarrow>
     set ps = position_at stream pos_size ` {..<i} \<and> sorted_wrt bytes_less ps \<and> length ps \<le> k \<and> length ps \<le> i \<and>
     actual_k = k + (i - length ps)"

lemma drawn_card: "drawn stream pos_size k actual_k i ps \<Longrightarrow> card (position_at stream pos_size ` {..<i}) = length ps"
  using sorted_distinct_bytes [of ps] distinct_card [of ps] by (auto simp: drawn_def)

lemma drawn_bound: "drawn stream pos_size k actual_k i ps \<Longrightarrow> i < actual_k \<longleftrightarrow> length ps < k"
  by (auto simp: drawn_def)

lemma drawn_step:
  assumes "drawn stream pos_size k actual_k i ps" "length ps < k"
  shows "position_at stream pos_size i \<in> set ps \<Longrightarrow> drawn stream pos_size k (actual_k + 1) (i + 1) ps"
    "position_at stream pos_size i \<notin> set ps \<Longrightarrow>
       drawn stream pos_size k actual_k (i + 1) (insert_sorted (position_at stream pos_size i) ps)"
  using assms by (auto simp: drawn_def lessThan_Suc insert_sorted_set insert_sorted_length insert_sorted_ordered)

lemma draw_finds:
  assumes "drawn stream pos_size k actual_k i ps" "k \<le> card (position_at stream pos_size ` {..<n})"
  shows "\<exists>r j. draw_indices stream pos_size k actual_k i ps = Some r \<and> length r = k \<and> sorted_wrt bytes_less r \<and>
    set r = position_at stream pos_size ` {..<j} \<and> i \<le> j"
  using assms(1)
proof (induction "n - i" arbitrary: actual_k i ps rule: less_induct)
  case less
  show ?case
  proof (cases "length ps < k")
    case False
    then have "length ps = k" "\<not> i < actual_k" using less.prems drawn_bound [OF less.prems] by (auto simp: drawn_def)
    then show ?thesis
      using less.prems draw_indices.simps [of stream pos_size k actual_k i ps] by (auto simp: drawn_def)
  next
    case True
    have "i < n"
    proof (rule ccontr)
      assume "\<not> i < n"
      then have "card (position_at stream pos_size ` {..<n}) \<le> card (position_at stream pos_size ` {..<i})"
        by (intro card_mono) auto
      then show False using True assms(2) drawn_card [OF less.prems] by simp
    qed
    then have "n - (i + 1) < n - i" by simp
    note ih = less.hyps [OF this]
    have unfold: "draw_indices stream pos_size k actual_k i ps =
      (if position_at stream pos_size i \<in> set ps then draw_indices stream pos_size k (actual_k + 1) (i + 1) ps
       else draw_indices stream pos_size k actual_k (i + 1) (insert_sorted (position_at stream pos_size i) ps))"
      using True drawn_bound [OF less.prems] by (subst draw_indices.simps) (simp add: Let_def)
    show ?thesis
    proof (cases "position_at stream pos_size i \<in> set ps")
      case again: True
      from ih [OF drawn_step(1) [OF less.prems True again]] obtain r j where
        "draw_indices stream pos_size k (actual_k + 1) (i + 1) ps = Some r" "length r = k" "sorted_wrt bytes_less r"
        "set r = position_at stream pos_size ` {..<j}" "i + 1 \<le> j" by blast
      then show ?thesis unfolding unfold by (intro exI [of _ r] exI [of _ j]) (simp add: again)
    next
      case new: False
      from ih [OF drawn_step(2) [OF less.prems True new]] obtain r j where
        "draw_indices stream pos_size k actual_k (i + 1) (insert_sorted (position_at stream pos_size i) ps) = Some r" "length r = k"
        "sorted_wrt bytes_less r" "set r = position_at stream pos_size ` {..<j}" "i + 1 \<le> j" by blast
      then show ?thesis unfolding unfold by (intro exI [of _ r] exI [of _ j]) (simp add: new)
    qed
  qed
qed

lemma draw_returned:
  assumes "draw_indices stream pos_size k actual_k i ps = Some r" "drawn stream pos_size k actual_k i ps"
  shows "\<exists>n. card (position_at stream pos_size ` {..<n}) = k"
  using assms
proof (induction rule: draw_indices.raw_induct [rotated 1, consumes 1, case_names 1])
  case (1 draw stream pos_size k actual_k i ps r)
  show ?case
  proof (cases "length ps < k")
    case True
    note body = 1(2) [unfolded Let_def] and bound = drawn_bound [OF 1(3), THEN iffD2, OF True]
    show ?thesis
    proof (cases "position_at stream pos_size i \<in> set ps")
      case again: True
      have "draw stream pos_size k (actual_k + 1) (i + 1) ps = Some r" using body True bound again by simp
      from 1(1) [OF this drawn_step(1) [OF 1(3) True again]] show ?thesis .
    next
      case new: False
      have "draw stream pos_size k actual_k (i + 1) (insert_sorted (position_at stream pos_size i) ps) = Some r"
        using body True bound new by simp
      from 1(1) [OF this drawn_step(2) [OF 1(3) True new]] show ?thesis .
    qed
  next
    case False
    then have "length ps = k" using 1(3) unfolding drawn_def by linarith
    then show ?thesis using drawn_card [OF 1(3)] by blast
  qed
qed

lemma drawn_start: "drawn stream pos_size k k 0 []"
  by (simp add: drawn_def)

lemma byte_positions: "position_at stream 1 ` A = (\<lambda>b. [b]) ` stream ` A"
  by (simp add: position_at_def image_image)

lemma byte_positions_card: "card (position_at stream 1 ` A) = card (stream ` A)"
  unfolding byte_positions by (simp add: card_image inj_on_def)

lemma same_positions:
  assumes "card (f ` {..<i}) = card (f ` {..<j})"
  shows "f ` {..<i} = f ` {..<(j::nat)}"
proof (cases "i \<le> j")
  case True
  then show ?thesis using assms by (intro card_subset_eq) auto
next
  case False
  then show ?thesis using assms by (intro card_subset_eq [symmetric]) auto
qed

lemma log_256: "ceil_log2 256 div 8 = 1" "floor_log2 256 = 8"
  by (simp_all add: ceil_log2_def floor_log2_def bit_width.simps)

lemma three_singletons:
  assumes "length r = 3" "sorted_wrt bytes_less r" "set r = (\<lambda>b. [b]) ` B"
  obtains a b c where "r = [[a], [b], [c]]" "a < b" "b < c" "B = {a, b, c}"
proof -
  obtain x y z where r: "r = [x, y, z]" using assms(1) by (auto simp: numeral_3_eq_3 length_Suc_conv)
  have "\<forall>v \<in> set r. \<exists>a. v = [a]" using assms(3) by auto
  then obtain a b c where "x = [a]" "y = [b]" "z = [c]" using r by auto
  moreover from this have "B = {a, b, c}" using assms(3) r by auto
  ultimately show thesis using assms(2) r by (intro that [of a b c]) auto
qed

text \<open>C38. The indices of an application are drawn in finite time exactly when the hash stream has three different bytes. The loop that
  draws them has no other bound: it returns if some finite prefix of the stream holds three different bytes and
  runs forever otherwise, and what it returns is the first three, in ascending order.\<close>

theorem bloom_indices_return:
  assumes "data \<noteq> []" "hd data \<le> 0x3f" "\<not> list_all (\<lambda>b. b = 0) data"
  shows "((\<exists>r. get_bloom_filter_indices shake256 data 256 3 = Some r) \<longleftrightarrow> (\<exists>n. 3 \<le> card (shake256 data ` {..<n}))) \<and>
    (card (shake256 data ` {..<n}) = 3 \<longrightarrow>
      (\<exists>a b c. get_bloom_filter_indices shake256 data 256 3 = Some [a, b, c] \<and> a < b \<and> b < c \<and> {a, b, c} = shake256 data ` {..<n}))"
proof -
  let ?s = "shake256 data"
  have get: "get_bloom_filter_indices shake256 data 256 3 = map_option three_bytes (draw_indices ?s 1 3 3 0 [])"
    using assms(1,3) leD [OF assms(2)] unfolding get_bloom_filter_indices_def log_256 by (simp only: if_False disj_not1 simp_thms)
  have finds: "\<exists>a b c j. get_bloom_filter_indices shake256 data 256 3 = Some [a, b, c] \<and> a < b \<and> b < c \<and> {a, b, c} = ?s ` {..<j}"
    if enough: "3 \<le> card (?s ` {..<m})" for m
  proof -
    obtain r j where r: "draw_indices ?s 1 3 3 0 [] = Some r" "length r = 3" "sorted_wrt bytes_less r"
      "set r = position_at ?s 1 ` {..<j}"
      using draw_finds [OF drawn_start, of 3 ?s 1 m, unfolded byte_positions_card, OF enough] by blast
    obtain a b c where "r = [[a], [b], [c]]" "a < b" "b < c" "?s ` {..<j} = {a, b, c}"
      using three_singletons [OF r(2,3), of "?s ` {..<j}"] r(4) [unfolded byte_positions] by metis
    then show ?thesis using r(1) by (auto simp: get three_bytes_def)
  qed
  have "\<exists>m. card (?s ` {..<m}) = 3" if "get_bloom_filter_indices shake256 data 256 3 = Some r" for r
    using that draw_returned [OF _ drawn_start, of ?s 1 3, unfolded byte_positions_card] unfolding get by auto
  moreover have "{a, b, c} = ?s ` {..<n}" if "card (?s ` {..<n}) = 3" "{a, b, c} = ?s ` {..<j}" "a < b" "b < c" for a b c j
  proof -
    have "a \<noteq> b" "a \<noteq> c" "b \<noteq> c" using that(3,4) less_trans [OF that(3,4)] by blast+
    then have "card {a, b, c} = 3" by simp
    then show ?thesis using same_positions [of ?s n j] that(1,2) by simp
  qed
  ultimately show ?thesis using finds by (metis order_refl)
qed

theorem bloom_indices_return_witness:
  "get_bloom_filter_indices (\<lambda>_ i. of_nat (9 - i div 2)) [1] 256 3 = Some [7, 8, 9]"
proof -
  let ?s = "\<lambda>i::nat. of_nat (9 - i div 2) :: byte"
  have "?s ` {..<5} = {9, 8, 7}" by (simp add: lessThan_nat_numeral lessThan_Suc) auto
  moreover from this have "card (?s ` {..<5}) = 3" by simp
  ultimately obtain a b c where abc: "get_bloom_filter_indices (\<lambda>_. ?s) [1] 256 3 = Some [a, b, c]" "a < b" "b < c" "{a, b, c} = {9, 8, 7}"
    using bloom_indices_return [of "[1]" "\<lambda>_. ?s" 5] by auto
  then have "a \<in> {9, 8, 7}" "b \<in> {9, 8, 7}" "c \<in> {9, 8, 7}" by blast+
  with abc show ?thesis by auto
qed

subsection \<open>Setting bits\<close>

lemma mirror_eq: "a < n \<Longrightarrow> b < n \<Longrightarrow> n - 1 - a = n - 1 - b \<longleftrightarrow> a = (b::nat)"
  by arith

lemma div_mod_eq: "q = p \<longleftrightarrow> q div 8 = p div 8 \<and> q mod 8 = p mod (8::nat)"
  by (metis div_mult_mod_eq)

lemma bit_or_single: "m < 8 \<Longrightarrow> n < 8 \<Longrightarrow> bit (w OR push_bit n (1 :: byte)) m \<longleftrightarrow> bit w m \<or> m = n"
  by (auto simp: bit_or_iff bit_exp_iff push_bit_of_1)

lemma is_bit_set_of_set:
  assumes "filter_set_bit out p = Ok out'"
  shows "is_bit_set out' q \<longleftrightarrow> is_bit_set out q \<or> q = p" "length out' = length out"
proof -
  let ?i = "length out - 1 - p div 8"
  have p: "p div 8 < length out" "out' = out[?i := out ! ?i OR push_bit (p mod 8) 1]"
    using assms by (auto simp: filter_set_bit_def Let_def split: if_splits)
  show same: "length out' = length out" by (simp add: p(2))
  show "is_bit_set out' q \<longleftrightarrow> is_bit_set out q \<or> q = p"
  proof (cases "q div 8 < length out")
    case True
    then have "is_bit_set out' q \<longleftrightarrow> bit (out' ! (length out - 1 - q div 8)) (q mod 8)"
      "is_bit_set out q \<longleftrightarrow> bit (out ! (length out - 1 - q div 8)) (q mod 8)"
      by (simp_all add: is_bit_set_def bit_at_def same)
    moreover have "out' ! (length out - 1 - q div 8) =
      (if q div 8 = p div 8 then out ! ?i OR push_bit (p mod 8) 1 else out ! (length out - 1 - q div 8))"
    proof (cases "q div 8 = p div 8")
      case same_byte: True
      have "?i < length out" using p(1) by arith
      then show ?thesis unfolding p(2) same_byte by simp
    next
      case other: False
      then have "length out - 1 - q div 8 \<noteq> ?i" using mirror_eq [OF True p(1)] by simp
      then show ?thesis using other by (simp only: p(2) nth_list_update_neq if_False)
    qed
    ultimately show ?thesis
      using bit_or_single [of "q mod 8" "p mod 8" "out ! ?i"] div_mod_eq [of q p] by (cases "q div 8 = p div 8") simp_all
  next
    case False
    then have "q \<noteq> p" using p(1) by auto
    then show ?thesis using False by (simp add: is_bit_set_def bit_at_def same)
  qed
qed

lemma filter_set_bit_ok: "p < 8 * length out \<Longrightarrow> \<exists>out'. filter_set_bit out p = Ok out'"
  by (auto simp: filter_set_bit_def Let_def)

definition tried :: "bytes \<Rightarrow> nat \<Rightarrow> nat \<Rightarrow> nat \<Rightarrow> nat set" where
  "tried digest bit_length sz i = {p \<in> position_bits digest sz ` {..<i}. p < bit_length}"

definition setting :: "bytes \<Rightarrow> nat \<Rightarrow> nat \<Rightarrow> nat \<Rightarrow> nat \<Rightarrow> nat \<Rightarrow> nat \<Rightarrow> bytes \<Rightarrow> bool" where
  "setting digest bit_length sz k k_actual set_bits i out \<longleftrightarrow>
     {p. is_bit_set out p} = tried digest bit_length sz i \<and> card (tried digest bit_length sz i) = set_bits \<and>
     bit_length = 8 * length out \<and> set_bits \<le> k \<and> set_bits \<le> i \<and> k_actual = min (max k sz) (k + (i - set_bits)) \<and> i \<le> max k sz"

lemma tried_Suc: "tried digest bit_length sz (Suc i) =
  (let p = position_bits digest sz i in if p < bit_length then insert p (tried digest bit_length sz i) else tried digest bit_length sz i)"
  by (auto simp: tried_def lessThan_Suc Let_def)

lemma finite_tried: "finite (tried digest bit_length sz i)"
  by (simp add: tried_def)

lemma setting_hit:
  assumes "setting digest bit_length sz k k_actual set_bits i out" "set_bits < k" "i < k_actual"
    "position_bits digest sz i < bit_length" "\<not> is_bit_set out (position_bits digest sz i)"
    "filter_set_bit out (position_bits digest sz i) = Ok out'"
  shows "setting digest bit_length sz k k_actual (set_bits + 1) (i + 1) out'"
proof -
  let ?p = "position_bits digest sz i" and ?t = "tried digest bit_length sz i"
  from assms(1) have old: "{p. is_bit_set out p} = ?t" "card ?t = set_bits" "bit_length = 8 * length out" "set_bits \<le> i"
    "k_actual = min (max k sz) (k + (i - set_bits))" unfolding setting_def by blast+
  have "?p \<notin> ?t" using old(1) assms(5) by blast
  then have "card (insert ?p ?t) = set_bits + 1" using old(2) by (simp add: finite_tried)
  moreover have "tried digest bit_length sz (i + 1) = insert ?p ?t" using assms(4) by (simp add: tried_Suc)
  moreover have "{p. is_bit_set out' p} = insert ?p ?t"
    unfolding old(1) [symmetric] using is_bit_set_of_set(1) [OF assms(6)] by auto
  moreover have "k_actual = min (max k sz) (k + (i + 1 - (set_bits + 1)))" "i + 1 \<le> max k sz" using old(5) assms(3) by auto
  ultimately show ?thesis
    unfolding setting_def using old(3,4) assms(2) is_bit_set_of_set(2) [OF assms(6)] by simp
qed

lemma setting_miss:
  assumes "setting digest bit_length sz k k_actual set_bits i out" "set_bits < k" "i < k_actual"
    "\<not> (position_bits digest sz i < bit_length \<and> \<not> is_bit_set out (position_bits digest sz i))"
  shows "setting digest bit_length sz k (if k_actual < sz then k_actual + 1 else k_actual) set_bits (i + 1) out"
proof -
  let ?p = "position_bits digest sz i" and ?t = "tried digest bit_length sz i"
  from assms(1) have old: "{p. is_bit_set out p} = ?t" "card ?t = set_bits" "bit_length = 8 * length out" "set_bits \<le> i"
    "k_actual = min (max k sz) (k + (i - set_bits))" unfolding setting_def by blast+
  have "?p \<in> ?t" if "?p < bit_length" using old(1) assms(4) that by blast
  then have "tried digest bit_length sz (i + 1) = ?t" by (auto simp: tried_Suc Let_def)
  moreover have "(if k_actual < sz then k_actual + 1 else k_actual) = min (max k sz) (k + (i + 1 - set_bits))" "i + 1 \<le> max k sz"
    using old(4,5) assms(2,3) by (auto simp: min_def max_def split: if_splits)
  ultimately show ?thesis unfolding setting_def using old(1-4) assms(2) by (intro conjI) simp_all
qed

lemma set_bits_loop_result:
  assumes "setting digest bit_length sz k k_actual set_bits i out"
  shows "\<exists>out' m n. set_bits_loop digest bit_length sz k k_actual set_bits i out = Ok out' \<and>
    setting digest bit_length sz k n (card (tried digest bit_length sz m)) m out' \<and>
    (card (tried digest bit_length sz m) = k \<or> m = max k sz)"
  using assms
proof (induction digest bit_length sz k k_actual set_bits i out rule: set_bits_loop.induct)
  case (1 digest bit_length sz k k_actual set_bits i out)
  let ?p = "position_bits digest sz i"
  show ?case
  proof (cases "set_bits < k \<and> i < k_actual")
    case False
    from "1.prems" have old: "card (tried digest bit_length sz i) = set_bits" "set_bits \<le> k" "set_bits \<le> i" "i \<le> max k sz"
      "k_actual = min (max k sz) (k + (i - set_bits))" unfolding setting_def by blast+
    have "set_bits = k \<or> i = max k sz" using old(2-5) False by (auto simp: min_def split: if_splits)
    moreover have "set_bits_loop digest bit_length sz k k_actual set_bits i out = Ok out"
      using False by (subst set_bits_loop.simps) auto
    ultimately show ?thesis using "1.prems" old(1) by blast
  next
    case more: True
    show ?thesis
    proof (cases "?p < bit_length \<and> \<not> is_bit_set out ?p")
      case hit: True
      then obtain out' where out': "filter_set_bit out ?p = Ok out'"
        using "1.prems" filter_set_bit_ok [of ?p out] by (auto simp: setting_def)
      have "set_bits_loop digest bit_length sz k k_actual set_bits i out =
        set_bits_loop digest bit_length sz k k_actual (set_bits + 1) (i + 1) out'"
        using more hit out' by (subst set_bits_loop.simps) (simp add: Let_def)
      then show ?thesis
        using "1.IH"(1) [OF more refl hit out'] setting_hit [OF "1.prems" _ _ _ _ out'] more hit by simp
    next
      case miss: False
      have "set_bits_loop digest bit_length sz k k_actual set_bits i out =
        set_bits_loop digest bit_length sz k (if k_actual < sz then k_actual + 1 else k_actual) set_bits (i + 1) out"
        using more miss by (subst set_bits_loop.simps) (auto simp: Let_def)
      then show ?thesis
        using "1.IH"(2) [OF more refl miss] setting_miss [OF "1.prems" _ _ miss] more by simp
    qed
  qed
qed

lemma fold_bits_bound:
  assumes "\<And>j. f j \<le> (1::nat)"
  shows "foldl (\<lambda>p j. 2 * p + f j) a js < (a + 1) * 2 ^ length js"
proof (induction js arbitrary: a)
  case (Cons j js)
  have "foldl (\<lambda>p j. 2 * p + f j) (2 * a + f j) js < (2 * a + f j + 1) * 2 ^ length js" by (rule Cons)
  also have "\<dots> \<le> (2 * a + 2) * 2 ^ length js" by (rule mult_right_mono) (use assms [of j] in auto)
  finally show ?case by (simp add: algebra_simps)
qed simp

lemma position_bits_bound: "position_bits digest sz i < 2 ^ sz"
  using fold_bits_bound [of "bit_at digest" 0 "[sz * i ..< sz * (i + 1)]"] by (simp add: position_bits_def bit_at_def)

lemma tried_all: "tried digest (2 ^ sz) sz m = position_bits digest sz ` {..<m}"
  by (auto simp: tried_def position_bits_bound)

lemma setting_start: "setting digest (8 * n) sz k k 0 0 (replicate n 0)"
  by (auto simp: setting_def tried_def is_bit_set_def bit_at_def)

text \<open>The topic of an application is computed in at most eight tries and has no more than three bits. The mask has thirty-two
  bytes, its bits are the positions read by the first tries, and it falls short of three bits only if all eight
  tries together gave fewer than three positions.\<close>

theorem topic_bits:
  "\<exists>out m. get_bloom_filter sha3 data 256 3 = Ok out \<and> length out = 32 \<and> m \<le> 8 \<and>
     {p. is_bit_set out p} = position_bits (sha3 data) 8 ` {..<m} \<and> card {p. is_bit_set out p} \<le> 3 \<and>
     (card {p. is_bit_set out p} = 3 \<or> m = 8)"
proof -
  have "setting (sha3 data) 256 8 3 3 0 0 (replicate 32 0)" using setting_start [of "sha3 data" 32 8 3] by simp
  then obtain out m n where out: "set_bits_loop (sha3 data) 256 8 3 3 0 0 (replicate 32 0) = Ok out"
    "setting (sha3 data) 256 8 3 n (card (tried (sha3 data) 256 8 m)) m out" "card (tried (sha3 data) 256 8 m) = 3 \<or> m = max 3 8"
    using set_bits_loop_result by blast
  moreover have "tried (sha3 data) 256 8 m = position_bits (sha3 data) 8 ` {..<m}" using tried_all [of "sha3 data" 8 m] by simp
  moreover have "get_bloom_filter sha3 data 256 3 = Ok out" using out(1) by (simp add: get_bloom_filter_def log_256)
  ultimately show ?thesis unfolding setting_def by auto
qed

end
