(* ===== verification/Gossip_Topics.thy ===== *)
theory Gossip_Topics
  imports Bloom_Filter Byte_Codec "HOL-Library.Finite_Map"
begin

text \<open>
  Gossip topics and the framing of shard consensus messages (\<^verbatim>\<open>bitmasks\<close> in \<^verbatim>\<open>quil-engine/src/lib.rs\<close>), the counts of
  resolver traffic (\<^verbatim>\<open>resolver_traffic.rs\<close>) and the traffic classes (\<^verbatim>\<open>quil-p2p/src/gossip_traffic.rs\<close>). The hashes, the
  clock and the process number are arguments; the moment a count began is not modelled.
\<close>

subsection \<open>Topics\<close>

definition GLOBAL_CONSENSUS :: bytes where "GLOBAL_CONSENSUS = [0]"
definition GLOBAL_FRAME :: bytes where "GLOBAL_FRAME = [0, 0]"
definition GLOBAL_CW_VOTE :: bytes where "GLOBAL_CW_VOTE = [0, 0x10]"
definition GLOBAL_CW_CERT :: bytes where "GLOBAL_CW_CERT = [0, 0x11]"
definition GLOBAL_CW_RESOLVER :: bytes where "GLOBAL_CW_RESOLVER = [0, 0x12]"
definition GLOBAL_CW_BLOCK :: bytes where "GLOBAL_CW_BLOCK = [0, 0x13]"
definition GLOBAL_PROVER :: bytes where "GLOBAL_PROVER = [0, 0, 0]"
definition GLOBAL_PEER_INFO :: bytes where "GLOBAL_PEER_INFO = [0, 0, 0, 0]"
definition GLOBAL_ALERT :: bytes where "GLOBAL_ALERT = replicate 16 0"

definition global_cw_channel_bitmask :: "u64 \<Rightarrow> bytes" where
  "global_cw_channel_bitmask channel =
     (if channel = 0 then GLOBAL_CW_VOTE else if channel = 1 then GLOBAL_CW_CERT
      else if channel = 2 then GLOBAL_CW_RESOLVER else GLOBAL_CW_BLOCK)"

definition global_cw_channel_of :: "bytes \<Rightarrow> u64 option" where
  "global_cw_channel_of b =
     (if b = GLOBAL_CW_VOTE then Some 0 else if b = GLOBAL_CW_CERT then Some 1
      else if b = GLOBAL_CW_RESOLVER then Some 2 else if b = GLOBAL_CW_BLOCK then Some 3 else None)"

definition shard_app_filter :: "(bytes \<Rightarrow> bytes) \<Rightarrow> bytes \<Rightarrow> bytes result" where
  "shard_app_filter sha3 address = get_bloom_filter sha3 address 256 3"

definition shard_frame_bitmask :: "(bytes \<Rightarrow> bytes) \<Rightarrow> bytes \<Rightarrow> bytes result" where
  "shard_frame_bitmask sha3 address = shard_app_filter sha3 address"

definition shard_consensus_bitmask :: "(bytes \<Rightarrow> bytes) \<Rightarrow> bytes \<Rightarrow> bytes result" where
  "shard_consensus_bitmask sha3 address = try_then (shard_app_filter sha3 address) (\<lambda>af. Ok (0 # af))"

definition shard_prover_bitmask :: "(bytes \<Rightarrow> bytes) \<Rightarrow> bytes \<Rightarrow> bytes result" where
  "shard_prover_bitmask sha3 address = try_then (shard_app_filter sha3 address) (\<lambda>af. Ok ([0, 0, 0] @ af))"

definition app_address_of :: "bytes \<Rightarrow> bytes" where
  "app_address_of f = (if 32 \<le> length f then take 32 f else f)"

definition app_prover_bitmask :: "(bytes \<Rightarrow> bytes) \<Rightarrow> bytes \<Rightarrow> bytes result" where
  "app_prover_bitmask sha3 f = shard_prover_bitmask sha3 (app_address_of f)"

definition shard_dispatch_bitmask :: "(bytes \<Rightarrow> bytes) \<Rightarrow> bytes \<Rightarrow> bytes result" where
  "shard_dispatch_bitmask sha3 address = try_then (shard_app_filter sha3 address) (\<lambda>af. Ok ([0, 0] @ af))"

definition shard_cw_bitmask :: "(bytes \<Rightarrow> bytes) \<Rightarrow> bytes \<Rightarrow> bytes result" where
  "shard_cw_bitmask sha3 address = try_then (shard_app_filter sha3 address) (\<lambda>af. Ok (1 # af))"

subsection \<open>Framing of shard consensus messages\<close>

definition SHARD_CW_NONCE_FLAG :: byte where "SHARD_CW_NONCE_FLAG = 0x80"
definition SHARD_CW_ADDRESSED :: byte where "SHARD_CW_ADDRESSED = 0xAD"
definition SHARD_CW_ADDRESSEE_LEN :: nat where "SHARD_CW_ADDRESSEE_LEN = 4"

definition shard_cw_addressee_tag :: "(bytes \<Rightarrow> bytes) \<Rightarrow> bytes \<Rightarrow> bytes" where
  "shard_cw_addressee_tag sha k = take SHARD_CW_ADDRESSEE_LEN (sha (map of_char ''quilibrium shard cw addressee'' @ k))"

text \<open>The counter and the base of this process's nonces.\<close>

record nonce_cells =
  next_nonce :: u64
  base_nonce :: "u64 option"

definition shard_cw_nonce :: "u64 \<Rightarrow> u32 \<Rightarrow> nonce_cells \<Rightarrow> u64 \<times> nonce_cells" where
  "shard_cw_nonce time pid st =
     (let base = (case base_nonce st of Some b \<Rightarrow> b | None \<Rightarrow> time XOR push_bit 32 (ucast pid)) in
      ((base + next_nonce st) AND NOT (push_bit 63 1), st\<lparr>next_nonce := next_nonce st + 1, base_nonce := Some base\<rparr>))"

definition shard_cw_frame :: "u64 \<Rightarrow> bytes \<Rightarrow> bytes \<Rightarrow> bytes" where
  "shard_cw_frame channel nonce cw_bytes =
     (SHARD_CW_NONCE_FLAG OR (ucast channel AND NOT SHARD_CW_NONCE_FLAG)) # nonce @ cw_bytes"

definition shard_cw_frame_payload :: "u64 \<Rightarrow> u32 \<Rightarrow> u64 \<Rightarrow> bytes \<Rightarrow> nonce_cells \<Rightarrow> bytes \<times> nonce_cells" where
  "shard_cw_frame_payload time pid channel cw_bytes st =
     (case shard_cw_nonce time pid st of (n, st') \<Rightarrow> (shard_cw_frame channel (be_bytes 8 (unat n)) cw_bytes, st'))"

definition shard_cw_frame_for ::
  "(bytes \<Rightarrow> bytes) \<Rightarrow> u64 \<Rightarrow> u32 \<Rightarrow> u64 \<Rightarrow> bytes \<Rightarrow> bytes list \<Rightarrow> nonce_cells \<Rightarrow> bytes \<times> nonce_cells" where
  "shard_cw_frame_for sha time pid channel cw_bytes recipients st =
     (case recipients of
        [recipient] \<Rightarrow> (case shard_cw_nonce time pid st of (n, st') \<Rightarrow>
          (shard_cw_frame channel
             (SHARD_CW_ADDRESSED # shard_cw_addressee_tag sha recipient @ drop 5 (be_bytes 8 (unat n))) cw_bytes, st'))
      | _ \<Rightarrow> shard_cw_frame_payload time pid channel cw_bytes st)"

definition shard_cw_split_payload :: "bytes \<Rightarrow> (u64 \<times> bytes) option" where
  "shard_cw_split_payload payload =
     (case payload of
        [] \<Rightarrow> None
      | first # rest \<Rightarrow>
          if first AND SHARD_CW_NONCE_FLAG = 0 then Some (ucast first, rest)
          else if 8 \<le> length rest then Some (ucast (first AND NOT SHARD_CW_NONCE_FLAG), drop 8 rest) else None)"

definition shard_cw_addressee :: "bytes \<Rightarrow> bytes option" where
  "shard_cw_addressee payload =
     (case payload of
        [] \<Rightarrow> None
      | first # rest \<Rightarrow>
          if first AND SHARD_CW_NONCE_FLAG = 0 \<or> length rest < 8 \<or> rest ! 0 \<noteq> SHARD_CW_ADDRESSED then None
          else Some (take SHARD_CW_ADDRESSEE_LEN (drop 1 rest)))"

subsection \<open>Resolver traffic\<close>

datatype addressed = Here | Elsewhere | Untagged

record kind_counts =
  requests :: u64
  responses :: u64
  errors :: u64
  kind_bytes :: u64

record shard_resolver_traffic =
  sent :: kind_counts
  received :: kind_counts
  untagged :: u64
  elsewhere :: kind_counts

type_synonym resolver_traffic = "(bytes, shard_resolver_traffic) fmap"

definition kind_zero :: kind_counts where "kind_zero = \<lparr>requests = 0, responses = 0, errors = 0, kind_bytes = 0\<rparr>"

definition traffic_zero :: shard_resolver_traffic where
  "traffic_zero = \<lparr>sent = kind_zero, received = kind_zero, untagged = 0, elsewhere = kind_zero\<rparr>"

definition kind_note :: "bytes \<Rightarrow> kind_counts \<Rightarrow> kind_counts" where
  "kind_note cw c =
     (let c1 = (if 8 < length cw \<and> cw ! 8 = 0 then c\<lparr>requests := requests c + 1\<rparr>
                else if 8 < length cw \<and> cw ! 8 = 1 then c\<lparr>responses := responses c + 1\<rparr>
                else c\<lparr>errors := errors c + 1\<rparr>) in
      c1\<lparr>kind_bytes := kind_bytes c1 + of_nat (length cw)\<rparr>)"

definition kind_messages :: "kind_counts \<Rightarrow> u64" where
  "kind_messages c = requests c + responses c + errors c"

definition kind_add :: "kind_counts \<Rightarrow> kind_counts \<Rightarrow> kind_counts" where
  "kind_add c d = \<lparr>requests = requests c + requests d, responses = responses c + responses d, errors = errors c + errors d,
     kind_bytes = kind_bytes c + kind_bytes d\<rparr>"

definition traffic_add :: "shard_resolver_traffic \<Rightarrow> shard_resolver_traffic \<Rightarrow> shard_resolver_traffic" where
  "traffic_add t u = \<lparr>sent = kind_add (sent t) (sent u), received = kind_add (received t) (received u),
     untagged = untagged t + untagged u, elsewhere = kind_add (elsewhere t) (elsewhere u)\<rparr>"

definition with_shard :: "bytes \<Rightarrow> (shard_resolver_traffic \<Rightarrow> shard_resolver_traffic) \<Rightarrow> resolver_traffic \<Rightarrow> resolver_traffic" where
  "with_shard f update t = fmupd f (update (case fmlookup t f of Some s \<Rightarrow> s | None \<Rightarrow> traffic_zero)) t"

definition note_sent :: "bytes \<Rightarrow> bytes \<Rightarrow> resolver_traffic \<Rightarrow> resolver_traffic" where
  "note_sent f cw = with_shard f (\<lambda>s. s\<lparr>sent := kind_note cw (sent s)\<rparr>)"

definition note_received :: "bytes \<Rightarrow> bytes \<Rightarrow> addressed \<Rightarrow> resolver_traffic \<Rightarrow> resolver_traffic" where
  "note_received f cw ad = with_shard f (\<lambda>s. case ad of
       Elsewhere \<Rightarrow> s\<lparr>elsewhere := kind_note cw (elsewhere s)\<rparr>
     | Here \<Rightarrow> s\<lparr>received := kind_note cw (received s)\<rparr>
     | Untagged \<Rightarrow> s\<lparr>received := kind_note cw (received s), untagged := untagged s + 1\<rparr>)"

definition take_traffic :: "resolver_traffic \<Rightarrow> resolver_traffic \<times> resolver_traffic" where
  "take_traffic t = (t, fmempty)"

definition CW_APP_RESOLVER_CHANNEL :: u64 where "CW_APP_RESOLVER_CHANNEL = 2"

definition shard_cw_admit :: "bytes \<Rightarrow> bytes \<Rightarrow> bytes \<Rightarrow> resolver_traffic \<Rightarrow> (u64 \<times> bytes) option \<times> resolver_traffic" where
  "shard_cw_admit f payload local t =
     (case shard_cw_split_payload payload of
        None \<Rightarrow> (None, t)
      | Some (channel, cw) \<Rightarrow>
          let addressee = shard_cw_addressee payload; resolver = (channel = CW_APP_RESOLVER_CHANNEL) in
          if addressee \<noteq> None \<and> addressee \<noteq> Some local
          then (None, if resolver then note_received f cw Elsewhere t else t)
          else (Some (channel, cw),
            if resolver then note_received f cw (if addressee \<noteq> None then Here else Untagged) t else t))"

subsection \<open>Traffic classes\<close>

datatype gossip_class = ShardConsensus | ShardFrames | Votes | Global | PeerInfo | Other_class

definition APP_FILTER_LEN :: nat where "APP_FILTER_LEN = 32"
definition CW_VOTE_CHANNEL :: byte where "CW_VOTE_CHANNEL = 0"
definition CW_NONCE_FLAG :: byte where "CW_NONCE_FLAG = 0x80"

definition classify :: "nat \<Rightarrow> (nat \<Rightarrow> byte option) \<Rightarrow> bytes \<Rightarrow> gossip_class" where
  "classify len byte data =
     (let zero = (\<lambda>n. list_all (\<lambda>i. byte i = Some 0) [0..<n]) in
      if (len = 1 \<or> len = 3 \<or> len = 16) \<and> zero len then Global
      else if len = 2 \<and> byte 0 = Some 0 \<and> (byte 1 = Some 0 \<or> byte 1 \<in> Some ` {0x10, 0x11, 0x12, 0x13}) then Global
      else if len = 4 \<and> zero 4 then PeerInfo
      else if len = APP_FILTER_LEN then ShardFrames
      else if len = 33 then
        if byte 0 = Some 0 then Votes
        else if byte 0 = Some 1 \<and> data \<noteq> [] \<and> hd data AND NOT CW_NONCE_FLAG = CW_VOTE_CHANNEL then Votes
        else if byte 0 = Some 1 then ShardConsensus
        else Other_class
      else Other_class)"

definition list_byte :: "bytes \<Rightarrow> nat \<Rightarrow> byte option" where
  "list_byte bs i = (if i < length bs then Some (bs ! i) else None)"

definition of_bitmask :: "bytes \<Rightarrow> bytes \<Rightarrow> gossip_class" where
  "of_bitmask bs data = classify (length bs) (list_byte bs) data"

definition hex_nibble :: "byte \<Rightarrow> byte option" where
  "hex_nibble c =
     (if 48 \<le> c \<and> c \<le> 57 then Some (c - 48)
      else if 97 \<le> c \<and> c \<le> 102 then Some (c - 97 + 10)
      else if 65 \<le> c \<and> c \<le> 70 then Some (c - 65 + 10)
      else None)"

definition hex_byte :: "bytes \<Rightarrow> nat \<Rightarrow> byte option" where
  "hex_byte hex i =
     Option.bind (list_byte hex (2 * i)) (\<lambda>a. Option.bind (hex_nibble a) (\<lambda>hi.
     Option.bind (list_byte hex (2 * i + 1)) (\<lambda>b. Option.bind (hex_nibble b) (\<lambda>lo. Some (push_bit 4 hi OR lo)))))"

definition of_topic :: "bytes \<Rightarrow> bytes \<Rightarrow> gossip_class" where
  "of_topic hex data = (if length hex mod 2 \<noteq> 0 then Other_class else classify (length hex div 2) (hex_byte hex) data)"

subsection \<open>Splitting what was framed\<close>

lemma app_filter_32:
  obtains af where "shard_app_filter sha3 address = Ok af" "length af = 32"
  using topic_bits [of sha3 address] unfolding shard_app_filter_def by blast

lemma nonce_flag: "SHARD_CW_NONCE_FLAG = push_bit 7 1" "SHARD_CW_NONCE_FLAG \<noteq> 0"
  by (simp_all add: SHARD_CW_NONCE_FLAG_def)

lemma bit_nonce_flag: "bit SHARD_CW_NONCE_FLAG n \<longleftrightarrow> n = 7"
  unfolding nonce_flag(1) by (auto simp only: bit_push_bit_iff bit_1_iff) auto

lemma flagged: "(SHARD_CW_NONCE_FLAG OR (c AND NOT SHARD_CW_NONCE_FLAG)) AND SHARD_CW_NONCE_FLAG = SHARD_CW_NONCE_FLAG"
  "(SHARD_CW_NONCE_FLAG OR (c AND NOT SHARD_CW_NONCE_FLAG)) AND NOT SHARD_CW_NONCE_FLAG = c AND NOT SHARD_CW_NONCE_FLAG"
  by (auto simp: bit_eq_iff bit_simps)

lemma channel_kept:
  assumes "channel < (0x80 :: u64)"
  shows "ucast ((ucast channel :: byte) AND NOT SHARD_CW_NONCE_FLAG) = channel"
proof (rule bit_word_eqI)
  fix n
  assume "n < LENGTH(64)"
  have "unat (take_bit 7 channel) = unat channel"
    using assms by (simp add: unsigned_take_bit_eq take_bit_nat_eq_self word_less_nat_alt)
  then have "take_bit 7 channel = channel" by (simp only: unsigned_word_eqI)
  then have "bit channel n \<longleftrightarrow> n < 7 \<and> bit channel n" by (metis bit_take_bit_iff)
  then show "bit (ucast ((ucast channel :: byte) AND NOT SHARD_CW_NONCE_FLAG) :: u64) n \<longleftrightarrow> bit channel n"
    using \<open>n < LENGTH(64)\<close> by (auto simp: bit_nonce_flag bit_simps)
qed

lemma split_frame:
  "channel < 0x80 \<Longrightarrow> length nonce = 8 \<Longrightarrow> shard_cw_split_payload (shard_cw_frame channel nonce cw) = Some (channel, cw)"
  by (simp add: shard_cw_split_payload_def shard_cw_frame_def flagged nonce_flag(2) channel_kept)

lemma addressee_frame:
  "length nonce = 8 \<Longrightarrow> shard_cw_addressee (shard_cw_frame channel nonce cw) =
     (if hd nonce = SHARD_CW_ADDRESSED then Some (take SHARD_CW_ADDRESSEE_LEN (drop 1 nonce)) else None)"
  by (cases nonce) (simp_all add: shard_cw_addressee_def shard_cw_frame_def flagged nonce_flag(2) SHARD_CW_ADDRESSEE_LEN_def)

definition nonce_base :: "u64 \<Rightarrow> u32 \<Rightarrow> nonce_cells \<Rightarrow> u64" where
  "nonce_base time pid st = (case base_nonce st of Some b \<Rightarrow> b | None \<Rightarrow> time XOR push_bit 32 (ucast pid))"

lemma clear_top: "w AND NOT (push_bit 63 1) = take_bit 63 (w :: u64)"
proof (rule bit_word_eqI)
  fix n
  assume "n < LENGTH(64)"
  moreover have "bit (push_bit 63 (1 :: u64)) n \<longleftrightarrow> n = 63 \<and> n < LENGTH(64)" by (auto simp only: bit_push_bit_iff bit_1_iff) auto
  ultimately show "bit (w AND NOT (push_bit 63 1)) n \<longleftrightarrow> bit (take_bit 63 w) n"
    by (auto simp only: bit_and_iff bit_not_iff bit_take_bit_iff) auto
qed

lemma nonce_value:
  "unat (fst (shard_cw_nonce time pid st)) = (unat (nonce_base time pid st) + unat (next_nonce st)) mod 2 ^ 63"
proof -
  have "fst (shard_cw_nonce time pid st) = take_bit 63 (nonce_base time pid st + next_nonce st)"
    by (simp only: shard_cw_nonce_def Let_def fst_conv nonce_base_def clear_top)
  then have "unat (fst (shard_cw_nonce time pid st)) = take_bit 63 (unat (nonce_base time pid st + next_nonce st))"
    by (simp only: unsigned_take_bit_eq)
  then show ?thesis by (simp only: take_bit_eq_mod unat_word_ariths) (simp add: mod_mod_cancel)
qed

lemma be_bytes_head: "hd (be_bytes (Suc n) x) = of_nat (x div 256 ^ n)"
proof (induction n arbitrary: x)
  case (Suc n)
  have "hd (be_bytes (Suc (Suc n)) x) = hd (be_bytes (Suc n) (x div 256))" by (subst be_bytes.simps) (simp add: hd_append)
  then show ?case using Suc [of "x div 256"] by (simp add: div_mult2_eq)
qed simp

text \<open>The first byte of a broadcast nonce has a clear top bit, unlike the mark of an addressed one.\<close>

lemma broadcast_nonce: "hd (be_bytes 8 (unat (fst (shard_cw_nonce time pid st)))) \<noteq> SHARD_CW_ADDRESSED"
proof -
  let ?n = "unat (fst (shard_cw_nonce time pid st))"
  have "?n < 2 ^ 63" unfolding nonce_value by simp
  then have "?n div 256 ^ 7 < 128" by (simp add: less_mult_imp_div_less)
  then have "unat (of_nat (?n div 256 ^ 7) :: byte) < 128" by (simp add: unat_of_nat)
  moreover have "hd (be_bytes 8 ?n) = of_nat (?n div 256 ^ 7)" using be_bytes_head [of 7 ?n] by simp
  moreover have "unat SHARD_CW_ADDRESSED = 173" by (simp add: SHARD_CW_ADDRESSED_def)
  ultimately show ?thesis by auto
qed

lemma frame_for_cases:
  assumes "\<And>b. 4 \<le> length (sha b)"
  obtains n where "shard_cw_frame_for sha time pid channel cw recipients st = (shard_cw_frame channel n cw, snd (shard_cw_nonce time pid st))"
    "length n = 8" "shard_cw_addressee (shard_cw_frame channel n cw) =
      (case recipients of [r] \<Rightarrow> Some (shard_cw_addressee_tag sha r) | _ \<Rightarrow> None)"
proof (cases "\<exists>r. recipients = [r]")
  case True
  then obtain r where r: "recipients = [r]" by blast
  let ?n = "SHARD_CW_ADDRESSED # shard_cw_addressee_tag sha r @ drop 5 (be_bytes 8 (unat (fst (shard_cw_nonce time pid st))))"
  have tag: "length (shard_cw_addressee_tag sha r) = 4"
    using assms by (simp add: shard_cw_addressee_tag_def SHARD_CW_ADDRESSEE_LEN_def)
  then have "length ?n = 8" by simp
  moreover from this have "shard_cw_addressee (shard_cw_frame channel ?n cw) = Some (shard_cw_addressee_tag sha r)"
    using tag by (subst addressee_frame) (simp_all add: SHARD_CW_ADDRESSEE_LEN_def)
  ultimately show thesis
    by (intro that [of ?n]) (simp_all add: r shard_cw_frame_for_def case_prod_unfold)
next
  case False
  let ?n = "be_bytes 8 (unat (fst (shard_cw_nonce time pid st)))"
  have "shard_cw_addressee (shard_cw_frame channel ?n cw) = None"
    using addressee_frame [of ?n channel cw] broadcast_nonce [of time pid st] by simp
  then show thesis
    using False by (intro that [of ?n])
      (auto simp: shard_cw_frame_for_def shard_cw_frame_payload_def case_prod_unfold split: list.split)
qed

text \<open>C39. A framed consensus message reaches whom it names, intact. On every channel below 128 the receiver splits off the channel and the
  message as they were sent; a message framed for exactly one member is kept by the members with that member's tag and
  dropped by all others, one framed for none or for several is kept by everyone; and resolver messages are counted
  under the shard, as kept or as meant for someone else.\<close>

theorem framed_message_reaches_addressee:
  assumes "channel < 0x80" "\<And>b. 4 \<le> length (sha b)"
    "shard_cw_frame_for sha time pid channel cw recipients st = (payload, st')"
  shows "shard_cw_split_payload payload = Some (channel, cw) \<and>
    fst (shard_cw_admit f payload local t) =
      (case recipients of [r] \<Rightarrow> if shard_cw_addressee_tag sha r = local then Some (channel, cw) else None | _ \<Rightarrow> Some (channel, cw)) \<and>
    snd (shard_cw_admit f payload local t) =
      (if channel \<noteq> CW_APP_RESOLVER_CHANNEL then t
       else note_received f cw (case recipients of
           [r] \<Rightarrow> if shard_cw_addressee_tag sha r = local then Here else Elsewhere | _ \<Rightarrow> Untagged) t)"
proof -
  obtain n where n: "payload = shard_cw_frame channel n cw" "length n = 8"
    "shard_cw_addressee payload = (case recipients of [r] \<Rightarrow> Some (shard_cw_addressee_tag sha r) | _ \<Rightarrow> None)"
    using frame_for_cases [of sha time pid channel cw recipients st, OF assms(2)] assms(3) by auto
  have "shard_cw_split_payload payload = Some (channel, cw)" unfolding n(1) using split_frame [OF assms(1) n(2)] .
  moreover consider r where "recipients = [r]" | "\<And>r. recipients \<noteq> [r]" by blast
  then have "shard_cw_addressee payload = None \<and> (\<forall>r. recipients \<noteq> [r]) \<or>
    (\<exists>r. recipients = [r] \<and> shard_cw_addressee payload = Some (shard_cw_addressee_tag sha r))"
    by cases (auto simp: n(3) split: list.split)
  ultimately show ?thesis
    by (elim disjE exE conjE) (auto simp: shard_cw_admit_def Let_def split: list.split)
qed

definition demo_sha :: "bytes \<Rightarrow> bytes" where "demo_sha b = drop 29 b @ [0, 0, 0, 0]"

definition demo_cells :: nonce_cells where "demo_cells = \<lparr>next_nonce = 0, base_nonce = None\<rparr>"

lemma demo_tag: "shard_cw_addressee_tag demo_sha [1, 2, 3, 4] = [1, 2, 3, 4]" "4 \<le> length (demo_sha b)"
  by (simp_all add: shard_cw_addressee_tag_def SHARD_CW_ADDRESSEE_LEN_def demo_sha_def)

theorem framed_message_reaches_addressee_witness:
  "fst (shard_cw_admit [7] (fst (shard_cw_frame_for demo_sha 5 6 2 [8, 9] [[1, 2, 3, 4]] demo_cells)) [1, 2, 3, 4] fmempty) =
     Some (2, [8, 9])"
  using framed_message_reaches_addressee [of 2 demo_sha 5 6 "[8, 9]" "[[1, 2, 3, 4]]" demo_cells _ _ "[7]" "[1, 2, 3, 4]" fmempty]
  by (cases "shard_cw_frame_for demo_sha 5 6 2 [8, 9] [[1, 2, 3, 4]] demo_cells") (simp add: demo_tag)

subsection \<open>Repeated transmissions\<close>

type_synonym transmission = "u64 \<times> u64 \<times> bytes \<times> bytes list"

text \<open>The state of the nonces after a list of transmissions, each at its own time.\<close>

definition transmit_all :: "(bytes \<Rightarrow> bytes) \<Rightarrow> u32 \<Rightarrow> transmission list \<Rightarrow> nonce_cells \<Rightarrow> nonce_cells" where
  "transmit_all sha pid = fold (\<lambda>(time, channel, cw, recipients) st. snd (shard_cw_frame_for sha time pid channel cw recipients st))"

lemma be_bytes_append: "be_bytes (m + n) x = be_bytes m (x div 256 ^ n) @ be_bytes n x"
  by (induction n arbitrary: x) (simp_all add: div_mult2_eq)

lemma nonce_advances:
  "snd (shard_cw_nonce time pid st) = st\<lparr>next_nonce := next_nonce st + 1, base_nonce := Some (nonce_base time pid st)\<rparr>"
  by (simp add: shard_cw_nonce_def nonce_base_def Let_def)

lemma frame_advances:
  "snd (shard_cw_frame_for sha time pid channel cw recipients st) =
     st\<lparr>next_nonce := next_nonce st + 1, base_nonce := Some (nonce_base time pid st)\<rparr>"
  by (auto simp: shard_cw_frame_for_def shard_cw_frame_payload_def case_prod_unfold nonce_advances split: list.split)

lemma transmit_all_cells:
  "base_nonce st = Some b \<Longrightarrow> base_nonce (transmit_all sha pid ts st) = Some b \<and>
     next_nonce (transmit_all sha pid ts st) = next_nonce st + of_nat (length ts)"
proof (induction ts arbitrary: st)
  case (Cons t ts)
  obtain time channel cw recipients where t: "t = (time, channel, cw, recipients)" by (cases t)
  let ?st = "snd (shard_cw_frame_for sha time pid channel cw recipients st)"
  have "base_nonce ?st = Some b" "next_nonce ?st = next_nonce st + 1"
    using Cons.prems by (simp_all add: frame_advances nonce_base_def)
  with Cons.IH [of ?st] show ?case by (simp add: transmit_all_def t)
qed (simp add: transmit_all_def)

lemma mod_moves: "0 < m \<Longrightarrow> m < k \<Longrightarrow> (c + m) mod k \<noteq> c mod (k::nat)"
  using mod_eq_dvd_iff_nat [of c "c + m" k] by (auto dest: dvd_imp_le)

lemma nonce_moves:
  assumes "base_nonce st' = Some (nonce_base time pid st)" "next_nonce st' = next_nonce st + of_nat m" "0 < m" "m < 2 ^ k" "k \<le> 63"
  shows "unat (fst (shard_cw_nonce time' pid st')) mod 2 ^ k \<noteq> unat (fst (shard_cw_nonce time pid st)) mod 2 ^ k"
proof -
  let ?c = "unat (nonce_base time pid st) + unat (next_nonce st)"
  have dvd: "(2::nat) ^ k dvd 2 ^ 63" "(2::nat) ^ 63 dvd 2 ^ 64" using assms(5) by (rule le_imp_power_dvd, simp)+
  have "unat (next_nonce st') = (unat (next_nonce st) + m) mod 2 ^ 64"
    using assms(2) by (simp only: unat_word_ariths unat_of_nat mod_add_right_eq) simp
  then have "(unat (nonce_base time' pid st') + unat (next_nonce st')) mod 2 ^ 63 = (?c + m) mod 2 ^ 63"
    using assms(1) dvd(2) by (simp only: nonce_base_def option.case) (metis (no_types, lifting) add.assoc mod_add_right_eq mod_mod_cancel)
  then have "unat (fst (shard_cw_nonce time' pid st')) mod 2 ^ k = (?c + m) mod 2 ^ k"
    using dvd(1) by (simp only: nonce_value mod_mod_cancel)
  moreover have "unat (fst (shard_cw_nonce time pid st)) mod 2 ^ k = ?c mod 2 ^ k"
    using dvd(1) by (simp only: nonce_value mod_mod_cancel)
  ultimately show ?thesis using mod_moves [OF assms(3,4)] by simp
qed

text \<open>Every transmission is a new gossip message. A message sent again with the same bytes, channel and recipients differs from the
  earlier copy, whatever was sent in between, as long as fewer than \<open>2 ^ 63\<close> transmissions lie between them, or
  \<open>2 ^ 24\<close> when it names one member; so the duplicate cache, which goes by content, never holds it back.\<close>

theorem retransmission_is_new:
  assumes "\<And>b. 4 \<le> length (sha b)"
    "Suc (length between) < (if length recipients = 1 then 2 ^ 24 else 2 ^ 63)"
    "shard_cw_frame_for sha time pid channel cw recipients st = (payload, st1)"
    "shard_cw_frame_for sha time' pid channel cw recipients (transmit_all sha pid between st1) = (payload', st2)"
  shows "payload' \<noteq> payload"
proof
  assume same: "payload' = payload"
  let ?n = "unat (fst (shard_cw_nonce time pid st))" and ?st = "transmit_all sha pid between st1"
  let ?n' = "unat (fst (shard_cw_nonce time' pid ?st))"
  have st1: "base_nonce st1 = Some (nonce_base time pid st)" "next_nonce st1 = next_nonce st + 1"
    using frame_advances [of sha time pid channel cw recipients st] assms(3) by simp_all
  have cells: "base_nonce ?st = Some (nonce_base time pid st)" "next_nonce ?st = next_nonce st + of_nat (Suc (length between))"
    using transmit_all_cells [OF st1(1), of sha pid between] st1(2) by simp_all
  note moves = nonce_moves [OF cells, of _ time']
  show False
  proof (cases "\<exists>r. recipients = [r]")
    case True
    then obtain r where r: "recipients = [r]" by blast
    have "drop 5 (be_bytes 8 ?n') = drop 5 (be_bytes 8 ?n)"
      using assms(3,4) same by (auto simp: r shard_cw_frame_for_def case_prod_unfold shard_cw_frame_def)
    then have "be_bytes 3 ?n' = be_bytes 3 ?n" using be_bytes_append [of 5 3] by simp
    then have "?n' mod 256 ^ 3 = ?n mod 256 ^ 3" using from_be_bytes by metis
    then show False using moves [of 24] assms(2) by (simp add: r)
  next
    case False
    then have "length recipients \<noteq> 1" by (auto simp: length_Suc_conv)
    have "be_bytes 8 ?n' = be_bytes 8 ?n"
      using assms(3,4) same False by (auto simp: shard_cw_frame_for_def shard_cw_frame_payload_def case_prod_unfold shard_cw_frame_def split: list.splits)
    then have "?n' mod 256 ^ 8 = ?n mod 256 ^ 8" using from_be_bytes by metis
    moreover have "?n' < 2 ^ 63" "?n < 2 ^ 63" unfolding nonce_value by simp_all
    ultimately show False using moves [of 63] assms(2) \<open>length recipients \<noteq> 1\<close> by simp
  qed
qed

theorem retransmission_is_new_witness:
  "fst (shard_cw_frame_for demo_sha 9 6 2 [8, 9] [[1, 2, 3, 4]]
       (transmit_all demo_sha 6 [(7, 0, [5], [])] (snd (shard_cw_frame_for demo_sha 5 6 2 [8, 9] [[1, 2, 3, 4]] demo_cells)))) \<noteq>
     fst (shard_cw_frame_for demo_sha 5 6 2 [8, 9] [[1, 2, 3, 4]] demo_cells)"
  by (rule retransmission_is_new [OF demo_tag(2) _ prod.collapse [symmetric] prod.collapse [symmetric]]) simp

subsection \<open>Topics and classes\<close>

lemmas topic_defs = GLOBAL_CONSENSUS_def GLOBAL_FRAME_def GLOBAL_CW_VOTE_def GLOBAL_CW_CERT_def GLOBAL_CW_RESOLVER_def
  GLOBAL_CW_BLOCK_def GLOBAL_PROVER_def GLOBAL_PEER_INFO_def GLOBAL_ALERT_def

definition global_topics :: "bytes list" where
  "global_topics = [GLOBAL_CONSENSUS, GLOBAL_FRAME, GLOBAL_CW_VOTE, GLOBAL_CW_CERT, GLOBAL_CW_RESOLVER, GLOBAL_CW_BLOCK,
     GLOBAL_PROVER, GLOBAL_PEER_INFO, GLOBAL_ALERT]"

text \<open>The text of a topic is the hexadecimal form of its bitmask, in digits of either case.\<close>

definition hex_of :: "bytes \<Rightarrow> bytes \<Rightarrow> bool" where
  "hex_of t bs \<longleftrightarrow> length t = 2 * length bs \<and>
     (\<forall>i < length bs. hex_nibble (t ! (2 * i)) = Some (drop_bit 4 (bs ! i)) \<and> hex_nibble (t ! (2 * i + 1)) = Some (bs ! i AND 15))"

lemma nibbles_join: "push_bit 4 (drop_bit 4 b) OR (b AND 15) = (b :: byte)"
proof -
  have "(15 :: byte) = mask 4" by (simp add: mask_eq_exp_minus_1)
  then show ?thesis by (auto simp: bit_eq_iff bit_simps)
qed

lemma hex_byte_of: "hex_of t bs \<Longrightarrow> hex_byte t i = list_byte bs i"
  by (auto simp: hex_of_def hex_byte_def list_byte_def nibbles_join)

lemma of_topic_hex: "hex_of t bs \<Longrightarrow> of_topic t data = of_bitmask bs data"
proof -
  assume t: "hex_of t bs"
  then have "hex_byte t = list_byte bs" using hex_byte_of by (intro ext)
  then show ?thesis using t by (simp add: of_topic_def of_bitmask_def hex_of_def)
qed

lemma framed_vote:
  assumes "channel < 0x80"
  shows "hd (shard_cw_frame channel nonce cw) AND NOT CW_NONCE_FLAG = CW_VOTE_CHANNEL \<longleftrightarrow> channel = 0"
proof -
  have "CW_NONCE_FLAG = SHARD_CW_NONCE_FLAG" by (simp add: CW_NONCE_FLAG_def SHARD_CW_NONCE_FLAG_def)
  then have "hd (shard_cw_frame channel nonce cw) AND NOT CW_NONCE_FLAG = ucast channel AND NOT SHARD_CW_NONCE_FLAG"
    by (simp add: shard_cw_frame_def flagged)
  then show ?thesis using channel_kept [OF assms] by (auto simp: CW_VOTE_CHANNEL_def)
qed

definition topic_key :: "bytes \<Rightarrow> nat \<times> byte" where
  "topic_key t = (length t, if length t = 2 then t ! 1 else t ! 0)"

text \<open>C40. Topics never collide, and traffic is counted under the class of its topic. Whatever the applications, the five topics of a shard
  and the nine global ones are pairwise different; a global consensus channel is read back from its topic; and the
  class of a message is that of its topic, votes apart from the other channels of shard consensus, from the bytes
  of the topic as from its hexadecimal text.\<close>

theorem topics_apart_and_classified:
  assumes "channel < 0x80" "hex_of hex t"
  shows "(\<exists>t1 t2 t3 t4 t5. shard_frame_bitmask sha3 a1 = Ok t1 \<and> shard_consensus_bitmask sha3 a2 = Ok t2 \<and>
      shard_dispatch_bitmask sha3 a3 = Ok t3 \<and> shard_prover_bitmask sha3 a4 = Ok t4 \<and> shard_cw_bitmask sha3 a5 = Ok t5 \<and>
      distinct (global_topics @ [t1, t2, t3, t4, t5]) \<and>
      map (\<lambda>t. of_bitmask t data) [t1, t2, t3, t4] = [ShardFrames, Votes, Other_class, Other_class] \<and>
      of_bitmask t5 (shard_cw_frame channel nonce cw) = (if channel = 0 then Votes else ShardConsensus)) \<and>
    map (\<lambda>t. of_bitmask t data) global_topics = [Global, Global, Global, Global, Global, Global, Global, PeerInfo, Global] \<and>
    (channel < 4 \<longrightarrow> global_cw_channel_of (global_cw_channel_bitmask channel) = Some channel) \<and>
    of_topic hex data = of_bitmask t data"
proof -
  obtain f1 f2 f3 f4 f5 where f: "shard_app_filter sha3 a1 = Ok f1" "length f1 = 32" "shard_app_filter sha3 a2 = Ok f2" "length f2 = 32"
    "shard_app_filter sha3 a3 = Ok f3" "length f3 = 32" "shard_app_filter sha3 a4 = Ok f4" "length f4 = 32"
    "shard_app_filter sha3 a5 = Ok f5" "length f5 = 32"
    using app_filter_32 by metis
  have "distinct (map topic_key (global_topics @ [f1, 0 # f2, [0, 0] @ f3, [0, 0, 0] @ f4, 1 # f5]))"
    by (simp add: global_topics_def topic_defs topic_key_def f)
  then have "distinct (global_topics @ [f1, 0 # f2, [0, 0] @ f3, [0, 0, 0] @ f4, 1 # f5])" by (simp only: distinct_map)
  moreover have "map (\<lambda>t. of_bitmask t data) [f1, 0 # f2, [0, 0] @ f3, [0, 0, 0] @ f4] = [ShardFrames, Votes, Other_class, Other_class]"
    by (simp add: of_bitmask_def classify_def f APP_FILTER_LEN_def list_byte_def)
  moreover have "of_bitmask (1 # f5) (shard_cw_frame channel nonce cw) = (if channel = 0 then Votes else ShardConsensus)"
    using framed_vote [OF assms(1), of nonce cw]
    by (auto simp: of_bitmask_def classify_def f APP_FILTER_LEN_def list_byte_def) (simp add: shard_cw_frame_def)
  ultimately have "\<exists>t1 t2 t3 t4 t5. shard_frame_bitmask sha3 a1 = Ok t1 \<and> shard_consensus_bitmask sha3 a2 = Ok t2 \<and>
      shard_dispatch_bitmask sha3 a3 = Ok t3 \<and> shard_prover_bitmask sha3 a4 = Ok t4 \<and> shard_cw_bitmask sha3 a5 = Ok t5 \<and>
      distinct (global_topics @ [t1, t2, t3, t4, t5]) \<and>
      map (\<lambda>t. of_bitmask t data) [t1, t2, t3, t4] = [ShardFrames, Votes, Other_class, Other_class] \<and>
      of_bitmask t5 (shard_cw_frame channel nonce cw) = (if channel = 0 then Votes else ShardConsensus)"
    by (simp add: shard_frame_bitmask_def shard_consensus_bitmask_def shard_dispatch_bitmask_def shard_prover_bitmask_def
        shard_cw_bitmask_def f)
  moreover have "map (\<lambda>t. of_bitmask t data) global_topics = [Global, Global, Global, Global, Global, Global, Global, PeerInfo, Global]"
    by (simp add: global_topics_def topic_defs of_bitmask_def classify_def list_byte_def numeral_eq_Suc upt_rec)
  moreover have "global_cw_channel_of (global_cw_channel_bitmask channel) = Some channel" if "channel < 4"
  proof -
    have "channel \<in> {0, 1, 2, 3}" using that by (simp add: word_less_nat_alt word_unat_eq_iff) arith
    then show ?thesis by (auto simp: global_cw_channel_of_def global_cw_channel_bitmask_def topic_defs)
  qed
  ultimately show ?thesis using of_topic_hex [OF assms(2)] by (intro conjI impI)
qed

theorem topics_apart_and_classified_witness:
  "hex_of [48, 48, 49, 51] GLOBAL_CW_BLOCK \<and> of_topic [48, 48, 49, 51] [] = of_bitmask GLOBAL_CW_BLOCK [] \<and>
   global_cw_channel_of (global_cw_channel_bitmask 3) = Some 3"
proof -
  have "hex_of [48, 48, 49, 51] GLOBAL_CW_BLOCK" by (auto simp: hex_of_def topic_defs hex_nibble_def less_Suc_eq)
  then show ?thesis using topics_apart_and_classified [of 3 "[48, 48, 49, 51]" GLOBAL_CW_BLOCK] by simp
qed

end
