(* ===== verification/Prover_Messages.thy ===== *)
theory Prover_Messages
  imports Canonical_Cursor Prover_Ops
begin

text \<open>
  The canonical bytes of prover messages (\<^verbatim>\<open>quil-execution/src/global_intrinsic\<close>: \<^verbatim>\<open>prover_join.rs\<close>, \<^verbatim>\<open>prover_filter_ops.rs\<close>,
  \<^verbatim>\<open>prover_ops.rs\<close>, \<^verbatim>\<open>seniority_merge.rs\<close>, \<^verbatim>\<open>addressed_signature.rs\<close>, \<^verbatim>\<open>sig_with_pop.rs\<close>, the leaf roots of a confirm and their registration in
  \<^verbatim>\<open>leaf_root_registration.rs\<close>) and the check a sender makes before it publishes one (\<^verbatim>\<open>decode_prover_op\<close> in
  \<^verbatim>\<open>quil-engine/src/prover_pipeline.rs\<close>).

  A writer returns the bytes it builds; its \<^verbatim>\<open>Result\<close> is never an error. A reader gets the bytes of the message
  and ignores what follows it, except in the two messages with an optional tail. The frame from which a confirm
  carries a release and the gate of the replay guard are arguments.

  A message and its reader meet in the locale \<open>message_codec\<close>; \<open>tail_tolerant\<close> adds that trailing bytes are ignored.
\<close>

subsection \<open>Contracts\<close>

locale message_codec =
  fixes enc :: "'a \<Rightarrow> bytes"
    and dec :: "bytes \<Rightarrow> 'b result"
    and wanted :: u32
    and fits :: "'a \<Rightarrow> bool"
    and norm :: "'a \<Rightarrow> 'b"
  assumes decode_encode: "fits m \<Longrightarrow> dec (enc m) = Ok (norm m)"
    and encode_tag: "take 4 (enc m) = put_u32 wanted"
    and decode_tag: "dec bs = Ok x \<Longrightarrow> take 4 bs = put_u32 wanted"
begin

lemma unambiguous: "fits m \<Longrightarrow> fits m' \<Longrightarrow> enc m = enc m' \<Longrightarrow> norm m = norm m'"
  using decode_encode [of m] decode_encode [of m'] by simp

lemma other_kind: "take 4 bs = put_u32 wanted' \<Longrightarrow> wanted' \<noteq> wanted \<Longrightarrow> dec bs \<noteq> Ok x"
  using decode_tag [of bs x] cursor_u32_put [of wanted "[]"] cursor_u32_put [of wanted' "[]"] by auto

end

locale tail_tolerant =
  fixes enc :: "'a \<Rightarrow> bytes"
    and dec :: "bytes \<Rightarrow> 'b result"
    and wanted :: u32
    and fits :: "'a \<Rightarrow> bool"
    and norm :: "'a \<Rightarrow> 'b"
  assumes decode_tail: "fits m \<Longrightarrow> dec (enc m @ tail) = Ok (norm m)"
    and starts_with_tag: "take 4 (enc m) = put_u32 wanted"
    and tag_decoded: "dec bs = Ok x \<Longrightarrow> take 4 bs = put_u32 wanted"
begin

lemma decode_alone: "fits m \<Longrightarrow> dec (enc m) = Ok (norm m)"
  using decode_tail [of m "[]"] by simp

lemma same_stream: "fits m \<Longrightarrow> fits m' \<Longrightarrow> enc m @ tail = enc m' @ tail' \<Longrightarrow> norm m = norm m'"
  using decode_tail [of m tail] decode_tail [of m' tail'] by simp

end

sublocale tail_tolerant \<subseteq> message_codec
  by unfold_locales (auto simp: decode_alone starts_with_tag dest: tag_decoded)

subsection \<open>Shared readers\<close>

definition cursor_bounded :: "nat \<Rightarrow> bytes \<Rightarrow> (bytes \<times> bytes) result" where
  "cursor_bounded cap bs = try_then (cursor_u32 bs) (\<lambda>(l, r). if cap < unat l then Err InvalidArgument else cursor_bytes (unat l) r)"

definition cursor_exact :: "nat \<Rightarrow> bytes \<Rightarrow> (bytes \<times> bytes) result" where
  "cursor_exact n bs = try_then (cursor_u32 bs) (\<lambda>(l, r). if unat l \<noteq> n then Err InvalidArgument else cursor_bytes (unat l) r)"

definition cursor_bounded_array :: "nat \<Rightarrow> nat \<Rightarrow> bytes \<Rightarrow> (bytes list \<times> bytes) result" where
  "cursor_bounded_array max_count cap bs =
     try_then (cursor_u32 bs) (\<lambda>(n, r). if max_count < unat n then Err InvalidArgument else read_n (cursor_bounded cap) (unat n) r)"

definition cursor_tag :: "u32 \<Rightarrow> bytes \<Rightarrow> bytes result" where
  "cursor_tag wanted bs = try_then (cursor_u32 bs) (\<lambda>(tp, r). if tp \<noteq> wanted then Err InvalidArgument else Ok r)"

definition MAX_FILTERS_PER_OP :: nat where "MAX_FILTERS_PER_OP = 100"
definition MAX_FILTER_LEN :: nat where "MAX_FILTER_LEN = 64"

definition check_filters :: "bytes list \<Rightarrow> unit result" where
  "check_filters fs =
     (if MAX_FILTERS_PER_OP < length fs then Err InvalidArgument
      else if list_ex (\<lambda>f. MAX_FILTER_LEN < length f) fs then Err InvalidArgument else Ok ())"

definition read_filters :: "bytes \<Rightarrow> (bytes list \<times> bytes) result" where
  "read_filters = cursor_bounded_array MAX_FILTERS_PER_OP MAX_FILTER_LEN"

definition write_filters :: "bytes list \<Rightarrow> bytes" where
  "write_filters fs = put_u32 (of_nat (length fs)) @ concat (map put_lp fs)"

subsection \<open>Signatures and merge targets\<close>

record addressed_signature =
  as_signature :: bytes
  as_address :: bytes

definition TYPE_BLS48581_ADDRESSED_SIGNATURE :: u32 where "TYPE_BLS48581_ADDRESSED_SIGNATURE = 0x011B"
definition MAX_ADDRESSED_SIG_LEN :: nat where "MAX_ADDRESSED_SIG_LEN = 4 + 4 + (666 + 516) + 4 + 32"
definition SIG_LEN_SINGLE :: nat where "SIG_LEN_SINGLE = 666"
definition SIG_LEN_AGGREGATE_1 :: nat where "SIG_LEN_AGGREGATE_1 = 666 + 516"
definition ADDRESS_LEN :: nat where "ADDRESS_LEN = 32"

definition encode_addressed_signature :: "addressed_signature \<Rightarrow> bytes" where
  "encode_addressed_signature s = put_u32 TYPE_BLS48581_ADDRESSED_SIGNATURE @ put_lp (as_signature s) @ put_lp (as_address s)"

definition decode_addressed_signature :: "bytes \<Rightarrow> addressed_signature result" where
  "decode_addressed_signature bs =
     try_then (cursor_tag TYPE_BLS48581_ADDRESSED_SIGNATURE bs) (\<lambda>r.
     try_then (try_then (cursor_u32 r) (\<lambda>(l, r). if unat l \<noteq> SIG_LEN_SINGLE \<and> unat l \<noteq> SIG_LEN_AGGREGATE_1
         then Err InvalidArgument else cursor_bytes (unat l) r)) (\<lambda>(sig, r).
     try_then (cursor_exact ADDRESS_LEN r) (\<lambda>(addr, r). Ok \<lparr>as_signature = sig, as_address = addr\<rparr>)))"

record signature_with_pop =
  sp_signature :: bytes
  sp_public_key :: "bytes option"
  sp_pop_signature :: bytes

definition TYPE_BLS48581_SIG_WITH_POP :: u32 where "TYPE_BLS48581_SIG_WITH_POP = 0x011A"
definition SIG_LEN :: nat where "SIG_LEN = 666"
definition WRAPPED_PUBKEY_LEN :: nat where "WRAPPED_PUBKEY_LEN = 901"

definition encode_signature_with_pop :: "signature_with_pop \<Rightarrow> bytes" where
  "encode_signature_with_pop s = put_u32 TYPE_BLS48581_SIG_WITH_POP @ put_lp (sp_signature s) @
     (case sp_public_key s of Some pk \<Rightarrow> put_lp (put_u32 0x0117 @ pk) | None \<Rightarrow> put_u32 0) @ put_lp (sp_pop_signature s)"

definition decode_signature_with_pop :: "bytes \<Rightarrow> signature_with_pop result" where
  "decode_signature_with_pop bs =
     try_then (cursor_tag TYPE_BLS48581_SIG_WITH_POP bs) (\<lambda>r.
     try_then (cursor_exact SIG_LEN r) (\<lambda>(sig, r).
     try_then (cursor_u32 r) (\<lambda>(l, r).
     try_then (if 0 < unat l then
         if unat l \<noteq> WRAPPED_PUBKEY_LEN then Err InvalidArgument
         else try_then (cursor_bytes (unat l) r) (\<lambda>(pk, r).
           if length pk < 4 then Err InvalidArgument else Ok (Some (drop 4 pk), r))
       else Ok (None, r)) (\<lambda>(pk, r).
     try_then (cursor_exact SIG_LEN r) (\<lambda>(pop, r).
       Ok \<lparr>sp_signature = sig, sp_public_key = pk, sp_pop_signature = pop\<rparr>)))))"

record seniority_merge =
  sm_signature :: bytes
  sm_key_type :: u32
  sm_prover_public_key :: bytes

definition TYPE_SENIORITY_MERGE :: u32 where "TYPE_SENIORITY_MERGE = 0x0310"
definition MAX_SENIORITY_SIG_LEN :: nat where "MAX_SENIORITY_SIG_LEN = 114"
definition MAX_SENIORITY_KEY_LEN :: nat where "MAX_SENIORITY_KEY_LEN = 585"

definition encode_seniority_merge :: "seniority_merge \<Rightarrow> bytes" where
  "encode_seniority_merge m = put_u32 TYPE_SENIORITY_MERGE @ put_lp (sm_signature m) @ put_u32 (sm_key_type m) @
     put_lp (sm_prover_public_key m)"

definition decode_seniority_merge :: "bytes \<Rightarrow> seniority_merge result" where
  "decode_seniority_merge bs =
     try_then (cursor_tag TYPE_SENIORITY_MERGE bs) (\<lambda>r.
     try_then (cursor_bounded MAX_SENIORITY_SIG_LEN r) (\<lambda>(sig, r).
     try_then (cursor_u32 r) (\<lambda>(kt, r).
     try_then (cursor_bounded MAX_SENIORITY_KEY_LEN r) (\<lambda>(k, r).
       Ok \<lparr>sm_signature = sig, sm_key_type = kt, sm_prover_public_key = k\<rparr>))))"

text \<open>A nested message with a length in front; zero stands for none.\<close>

definition write_opt :: "('a \<Rightarrow> bytes) \<Rightarrow> 'a option \<Rightarrow> bytes" where
  "write_opt enc x = (case x of Some s \<Rightarrow> put_lp (enc s) | None \<Rightarrow> put_u32 0)"

definition read_opt :: "nat \<Rightarrow> (bytes \<Rightarrow> 'a result) \<Rightarrow> bytes \<Rightarrow> ('a option \<times> bytes) result" where
  "read_opt cap dec bs =
     try_then (cursor_u32 bs) (\<lambda>(l, r).
       if cap < unat l then Err InvalidArgument
       else if unat l = 0 then Ok (None, r)
       else try_then (cursor_bytes (unat l) r) (\<lambda>(b, r). try_then (dec b) (\<lambda>x. Ok (Some x, r))))"

definition write_opt_addr_sig :: "addressed_signature option \<Rightarrow> bytes" where
  "write_opt_addr_sig = write_opt encode_addressed_signature"

definition read_opt_addr_sig :: "bytes \<Rightarrow> (addressed_signature option \<times> bytes) result" where
  "read_opt_addr_sig = read_opt MAX_ADDRESSED_SIG_LEN decode_addressed_signature"

definition read_target :: "nat \<Rightarrow> bytes \<Rightarrow> (seniority_merge \<times> bytes) result" where
  "read_target cap bs = try_then (cursor_bounded cap bs) (\<lambda>(b, r). try_then (decode_seniority_merge b) (\<lambda>m. Ok (m, r)))"

definition write_targets :: "seniority_merge list \<Rightarrow> bytes" where
  "write_targets ms = put_u32 (of_nat (length ms)) @ concat (map (\<lambda>m. put_lp (encode_seniority_merge m)) ms)"

subsection \<open>Join, leave, pause and resume\<close>

definition TYPE_PROVER_JOIN :: u32 where "TYPE_PROVER_JOIN = 0x0301"
definition MAX_SIG_LEN :: nat where "MAX_SIG_LEN = 2249"
definition MAX_DELEGATE_ADDR_LEN :: nat where "MAX_DELEGATE_ADDR_LEN = 32"
definition MAX_MERGE_TARGET_LEN :: nat where "MAX_MERGE_TARGET_LEN = 675"
definition MAX_PROOF_LEN :: nat where "MAX_PROOF_LEN = 51600"

record prover_join =
  pj_filters :: "bytes list"
  pj_frame_number :: u64
  pj_signature :: "signature_with_pop option"
  pj_delegate_address :: bytes
  pj_merge_targets :: "seniority_merge list"
  pj_proof :: bytes

definition encode_join :: "prover_join \<Rightarrow> bytes" where
  "encode_join j = put_u32 TYPE_PROVER_JOIN @ write_filters (pj_filters j) @ put_u64 (pj_frame_number j) @
     write_opt encode_signature_with_pop (pj_signature j) @ put_lp (pj_delegate_address j) @
     write_targets (pj_merge_targets j) @ put_lp (pj_proof j)"

definition decode_join :: "bytes \<Rightarrow> prover_join result" where
  "decode_join bs =
     try_then (cursor_tag TYPE_PROVER_JOIN bs) (\<lambda>r.
     try_then (read_filters r) (\<lambda>(fs, r).
     try_then (cursor_u64 r) (\<lambda>(frame, r).
     try_then (read_opt MAX_SIG_LEN decode_signature_with_pop r) (\<lambda>(sig, r).
     try_then (cursor_bounded MAX_DELEGATE_ADDR_LEN r) (\<lambda>(addr, r).
     try_then (cursor_u32 r) (\<lambda>(n, r).
     try_then (read_n (read_target MAX_MERGE_TARGET_LEN) (unat n) r) (\<lambda>(ms, r).
     try_then (cursor_bounded MAX_PROOF_LEN r) (\<lambda>(proof, r).
       Ok \<lparr>pj_filters = fs, pj_frame_number = frame, pj_signature = sig, pj_delegate_address = addr, pj_merge_targets = ms,
           pj_proof = proof\<rparr>))))))))"

definition TYPE_PROVER_LEAVE :: u32 where "TYPE_PROVER_LEAVE = 0x0302"
definition TYPE_PROVER_PAUSE :: u32 where "TYPE_PROVER_PAUSE = 0x0303"
definition TYPE_PROVER_RESUME :: u32 where "TYPE_PROVER_RESUME = 0x0304"
definition MAX_FILTER_OP_SIG_LEN :: nat where "MAX_FILTER_OP_SIG_LEN = MAX_ADDRESSED_SIG_LEN"

definition write_optional_addressed_sig :: "addressed_signature option \<Rightarrow> bytes" where
  "write_optional_addressed_sig = write_opt encode_addressed_signature"

definition read_optional_addressed_sig :: "bytes \<Rightarrow> (addressed_signature option \<times> bytes) result" where
  "read_optional_addressed_sig = read_opt MAX_FILTER_OP_SIG_LEN decode_addressed_signature"

record prover_leave =
  pl_filters :: "bytes list"
  pl_frame_number :: u64
  pl_signature :: "addressed_signature option"

definition encode_leave :: "prover_leave \<Rightarrow> bytes" where
  "encode_leave m = put_u32 TYPE_PROVER_LEAVE @ write_filters (pl_filters m) @ put_u64 (pl_frame_number m) @
     write_optional_addressed_sig (pl_signature m)"

definition decode_leave :: "bytes \<Rightarrow> prover_leave result" where
  "decode_leave bs =
     try_then (cursor_tag TYPE_PROVER_LEAVE bs) (\<lambda>r.
     try_then (read_filters r) (\<lambda>(fs, r).
     try_then (cursor_u64 r) (\<lambda>(frame, r).
     try_then (read_optional_addressed_sig r) (\<lambda>(sig, r).
       Ok \<lparr>pl_filters = fs, pl_frame_number = frame, pl_signature = sig\<rparr>))))"

record prover_pause =
  pp_filter :: bytes
  pp_frame_number :: u64
  pp_signature :: "addressed_signature option"

definition encode_pause :: "prover_pause \<Rightarrow> bytes" where
  "encode_pause m = put_u32 TYPE_PROVER_PAUSE @ put_lp (pp_filter m) @ put_u64 (pp_frame_number m) @
     write_optional_addressed_sig (pp_signature m)"

definition decode_pause :: "bytes \<Rightarrow> prover_pause result" where
  "decode_pause bs =
     try_then (cursor_tag TYPE_PROVER_PAUSE bs) (\<lambda>r.
     try_then (cursor_bounded MAX_FILTER_LEN r) (\<lambda>(f, r).
     try_then (cursor_u64 r) (\<lambda>(frame, r).
     try_then (read_optional_addressed_sig r) (\<lambda>(sig, r).
       Ok \<lparr>pp_filter = f, pp_frame_number = frame, pp_signature = sig\<rparr>))))"

record prover_resume =
  pr_filter :: bytes
  pr_frame_number :: u64
  pr_signature :: "addressed_signature option"

definition encode_resume :: "prover_resume \<Rightarrow> bytes" where
  "encode_resume m = put_u32 TYPE_PROVER_RESUME @ put_lp (pr_filter m) @ put_u64 (pr_frame_number m) @
     write_optional_addressed_sig (pr_signature m)"

definition decode_resume :: "bytes \<Rightarrow> prover_resume result" where
  "decode_resume bs =
     try_then (cursor_tag TYPE_PROVER_RESUME bs) (\<lambda>r.
     try_then (cursor_bounded MAX_FILTER_LEN r) (\<lambda>(f, r).
     try_then (cursor_u64 r) (\<lambda>(frame, r).
     try_then (read_optional_addressed_sig r) (\<lambda>(sig, r).
       Ok \<lparr>pr_filter = f, pr_frame_number = frame, pr_signature = sig\<rparr>))))"

subsection \<open>Confirm and reject\<close>

definition MAX_SHARD_FILTER_LEN :: nat where "MAX_SHARD_FILTER_LEN = 64"
definition MAX_PREFIX_LEN :: nat where "MAX_PREFIX_LEN = 256"
definition MAX_LEAF_ROOT_LEN :: nat where "MAX_LEAF_ROOT_LEN = 128"
definition MAX_CONFIRM_LEAF_ROOT_GROUPS :: nat where "MAX_CONFIRM_LEAF_ROOT_GROUPS = MAX_PREFIX_LEN"

record leaf_root_entry =
  le_prefix :: "u32 list"
  le_leaf_root :: bytes
  le_num_blocks :: u64

record confirm_leaf_roots =
  cl_filter :: bytes
  cl_entries :: "leaf_root_entry list"

definition write_entry :: "leaf_root_entry \<Rightarrow> bytes" where
  "write_entry e = put_u32 (of_nat (length (le_prefix e))) @ concat (map put_u32 (le_prefix e)) @ put_lp (le_leaf_root e) @
     put_u64 (le_num_blocks e)"

definition write_group :: "confirm_leaf_roots \<Rightarrow> bytes" where
  "write_group g = put_lp (cl_filter g) @ put_u32 (of_nat (length (cl_entries g))) @ concat (map write_entry (cl_entries g))"

definition append_confirm_leaf_roots :: "confirm_leaf_roots list \<Rightarrow> bytes" where
  "append_confirm_leaf_roots gs = (if gs = [] then [] else put_u32 (of_nat (length gs)) @ concat (map write_group gs))"

definition group_exceeds :: "confirm_leaf_roots \<Rightarrow> bool" where
  "group_exceeds g \<longleftrightarrow> MAX_SHARD_FILTER_LEN < length (cl_filter g) \<or> MAX_PREFIX_LEN < length (cl_entries g) \<or>
     list_ex (\<lambda>e. MAX_PREFIX_LEN < length (le_prefix e)) (cl_entries g) \<or>
     list_ex (\<lambda>e. MAX_LEAF_ROOT_LEN < length (le_leaf_root e)) (cl_entries g)"

definition check_confirm_leaf_roots :: "confirm_leaf_roots list \<Rightarrow> unit result" where
  "check_confirm_leaf_roots gs =
     (if MAX_CONFIRM_LEAF_ROOT_GROUPS < length gs then Err InvalidArgument
      else if list_ex group_exceeds gs then Err InvalidArgument else Ok ())"

definition read_entry :: "bytes \<Rightarrow> (leaf_root_entry \<times> bytes) result" where
  "read_entry bs =
     try_then (cursor_u32 bs) (\<lambda>(n, r).
       if MAX_PREFIX_LEN < unat n then Err InvalidArgument
       else try_then (read_n cursor_u32 (unat n) r) (\<lambda>(ps, r).
            try_then (cursor_bounded MAX_LEAF_ROOT_LEN r) (\<lambda>(lr, r).
            try_then (cursor_u64 r) (\<lambda>(nb, r). Ok (\<lparr>le_prefix = ps, le_leaf_root = lr, le_num_blocks = nb\<rparr>, r)))))"

definition read_group :: "bytes \<Rightarrow> (confirm_leaf_roots \<times> bytes) result" where
  "read_group bs =
     try_then (cursor_bounded MAX_SHARD_FILTER_LEN bs) (\<lambda>(f, r).
     try_then (cursor_u32 r) (\<lambda>(n, r).
       if MAX_PREFIX_LEN < unat n then Err InvalidArgument
       else try_then (read_n read_entry (unat n) r) (\<lambda>(es, r). Ok (\<lparr>cl_filter = f, cl_entries = es\<rparr>, r))))"

definition read_confirm_leaf_roots :: "bytes \<Rightarrow> (confirm_leaf_roots list \<times> bytes) result" where
  "read_confirm_leaf_roots bs =
     (if bs = [] then Ok ([], [])
      else try_then (cursor_u32 bs) (\<lambda>(n, r).
        if MAX_CONFIRM_LEAF_ROOT_GROUPS < unat n then Err InvalidArgument else read_n read_group (unat n) r))"

definition TYPE_PROVER_CONFIRM :: u32 where "TYPE_PROVER_CONFIRM = 0x0305"
definition TYPE_PROVER_REJECT :: u32 where "TYPE_PROVER_REJECT = 0x0306"
definition RELEASE_ENCODED_LEN :: nat where "RELEASE_ENCODED_LEN = 6"

definition reserved_filter :: bytes where
  "reserved_filter = map of_char ''reservedreservedreservedreserved''"

record prover_confirm =
  pc_filter :: bytes
  pc_frame_number :: u64
  pc_signature :: "addressed_signature option"
  pc_filters :: "bytes list"
  pc_leaf_roots :: "confirm_leaf_roots list"
  pc_release :: "release option"

definition encode_confirm :: "prover_confirm \<Rightarrow> bytes" where
  "encode_confirm m = put_u32 TYPE_PROVER_CONFIRM @ put_u32 32 @ reserved_filter @ put_u64 (pc_frame_number m) @
     write_opt_addr_sig (pc_signature m) @ write_filters (pc_filters m) @ append_confirm_leaf_roots (pc_leaf_roots m) @
     (case pc_release m of
        None \<Rightarrow> []
      | Some rel \<Rightarrow> (if pc_leaf_roots m = [] then put_u32 0 else []) @ release_to_bytes rel)"

definition decode_confirm :: "u64 \<Rightarrow> bytes \<Rightarrow> prover_confirm result" where
  "decode_confirm confirm_release_frame bs =
     try_then (cursor_tag TYPE_PROVER_CONFIRM bs) (\<lambda>r.
     try_then (cursor_bounded 64 r) (\<lambda>(f, r).
     try_then (cursor_u64 r) (\<lambda>(frame, r).
     try_then (read_opt_addr_sig r) (\<lambda>(sig, r).
     try_then (read_filters r) (\<lambda>(fs, r).
     try_then (read_confirm_leaf_roots r) (\<lambda>(gs, r).
       Ok \<lparr>pc_filter = f, pc_frame_number = frame, pc_signature = sig, pc_filters = fs, pc_leaf_roots = gs,
           pc_release = (if confirm_release_frame \<le> frame \<and> RELEASE_ENCODED_LEN \<le> length r
             then release_from_bytes (take RELEASE_ENCODED_LEN r) else None)\<rparr>))))))"

record prover_reject =
  px_filter :: bytes
  px_frame_number :: u64
  px_signature :: "addressed_signature option"
  px_filters :: "bytes list"

definition encode_reject :: "prover_reject \<Rightarrow> bytes" where
  "encode_reject m = put_u32 TYPE_PROVER_REJECT @ put_u32 32 @ reserved_filter @ put_u64 (px_frame_number m) @
     write_opt_addr_sig (px_signature m) @ write_filters (px_filters m)"

definition decode_reject :: "bytes \<Rightarrow> prover_reject result" where
  "decode_reject bs =
     try_then (cursor_tag TYPE_PROVER_REJECT bs) (\<lambda>r.
     try_then (cursor_bounded 64 r) (\<lambda>(f, r).
     try_then (cursor_u64 r) (\<lambda>(frame, r).
     try_then (read_opt_addr_sig r) (\<lambda>(sig, r).
     try_then (read_filters r) (\<lambda>(fs, r).
       Ok \<lparr>px_filter = f, px_frame_number = frame, px_signature = sig, px_filters = fs\<rparr>)))))"

subsection \<open>Registration of one leaf root\<close>

definition TYPE_LEAF_ROOT_REGISTRATION :: u32 where "TYPE_LEAF_ROOT_REGISTRATION = 0x0320"
definition REGISTRATION_MAX_SIG_LEN :: nat where "REGISTRATION_MAX_SIG_LEN = 2249"

record leaf_root_registration =
  lr_shard_filter :: bytes
  lr_prefix :: "u32 list"
  lr_epoch :: u64
  lr_leaf_root :: bytes
  lr_num_blocks :: u64
  lr_frame_number :: u64
  lr_signature :: "signature_with_pop option"

definition encode_registration :: "leaf_root_registration \<Rightarrow> bytes" where
  "encode_registration m = put_u32 TYPE_LEAF_ROOT_REGISTRATION @ put_lp (lr_shard_filter m) @
     put_u32 (of_nat (length (lr_prefix m))) @ concat (map put_u32 (lr_prefix m)) @ put_u64 (lr_epoch m) @ put_lp (lr_leaf_root m) @
     put_u64 (lr_num_blocks m) @ put_u64 (lr_frame_number m) @ write_opt encode_signature_with_pop (lr_signature m)"

definition decode_registration :: "bytes \<Rightarrow> leaf_root_registration result" where
  "decode_registration bs =
     try_then (cursor_tag TYPE_LEAF_ROOT_REGISTRATION bs) (\<lambda>r.
     try_then (cursor_bounded MAX_SHARD_FILTER_LEN r) (\<lambda>(f, r).
     try_then (cursor_u32 r) (\<lambda>(n, r).
     try_then (if MAX_PREFIX_LEN < unat n then Err InvalidArgument else read_n cursor_u32 (unat n) r) (\<lambda>(ps, r).
     try_then (cursor_u64 r) (\<lambda>(epoch, r).
     try_then (cursor_bounded MAX_LEAF_ROOT_LEN r) (\<lambda>(lr, r).
     try_then (cursor_u64 r) (\<lambda>(nb, r).
     try_then (cursor_u64 r) (\<lambda>(frame, r).
     try_then (read_opt REGISTRATION_MAX_SIG_LEN decode_signature_with_pop r) (\<lambda>(sig, r).
       Ok \<lparr>lr_shard_filter = f, lr_prefix = ps, lr_epoch = epoch, lr_leaf_root = lr, lr_num_blocks = nb, lr_frame_number = frame,
           lr_signature = sig\<rparr>)))))))))"

definition leaf_id_bytes :: "bytes \<Rightarrow> u32 list \<Rightarrow> bytes" where
  "leaf_id_bytes shard_filter ps = shard_filter @ [0xFF] @ concat (map put_u32 ps)"

definition leaf_id :: "leaf_root_registration \<Rightarrow> bytes" where
  "leaf_id m = leaf_id_bytes (lr_shard_filter m) (lr_prefix m)"

subsection \<open>Kick, update, seniority merge, and the shard proposals\<close>

definition TYPE_PROVER_KICK :: u32 where "TYPE_PROVER_KICK = 0x0307"
definition TYPE_PROVER_UPDATE :: u32 where "TYPE_PROVER_UPDATE = 0x0308"
definition TYPE_PROVER_SENIORITY_MERGE :: u32 where "TYPE_PROVER_SENIORITY_MERGE = 0x031A"
definition TYPE_SHARD_SPLIT :: u32 where "TYPE_SHARD_SPLIT = 0x031E"
definition TYPE_SHARD_MERGE :: u32 where "TYPE_SHARD_MERGE = 0x031F"

record prover_kick =
  pk_frame_number :: u64
  pk_kicked :: bytes
  pk_frame_1 :: bytes
  pk_frame_2 :: bytes
  pk_commitment :: bytes
  pk_proof :: bytes
  pk_traversal_proof :: bytes

definition encode_kick :: "prover_kick \<Rightarrow> bytes" where
  "encode_kick m = put_u32 TYPE_PROVER_KICK @ put_u64 (pk_frame_number m) @ put_lp (pk_kicked m) @ put_lp (pk_frame_1 m) @
     put_lp (pk_frame_2 m) @ put_lp (pk_commitment m) @ put_lp (pk_proof m) @ put_lp (pk_traversal_proof m)"

definition decode_kick :: "bytes \<Rightarrow> prover_kick result" where
  "decode_kick bs =
     try_then (cursor_tag TYPE_PROVER_KICK bs) (\<lambda>r.
     try_then (cursor_u64 r) (\<lambda>(frame, r).
     try_then (cursor_bounded 897 r) (\<lambda>(k, r).
     try_then (cursor_bounded 34825 r) (\<lambda>(f1, r).
     try_then (cursor_bounded 34825 r) (\<lambda>(f2, r).
     try_then (cursor_bounded 74 r) (\<lambda>(c, r).
     try_then (cursor_bounded 160 r) (\<lambda>(p, r).
     try_then (cursor_bounded 4000 r) (\<lambda>(t, r).
       Ok \<lparr>pk_frame_number = frame, pk_kicked = k, pk_frame_1 = f1, pk_frame_2 = f2, pk_commitment = c, pk_proof = p,
           pk_traversal_proof = t\<rparr>))))))))"

record prover_update =
  pu_delegate_address :: bytes
  pu_signature :: "addressed_signature option"
  pu_frame_number :: u64

definition signed_frame :: "(u64 \<Rightarrow> bool) \<Rightarrow> u64 \<Rightarrow> u64" where
  "signed_frame replay_guard_active frame = (if replay_guard_active frame then frame else 0)"

definition encode_update :: "prover_update \<Rightarrow> bytes" where
  "encode_update m = put_u32 TYPE_PROVER_UPDATE @ put_lp (pu_delegate_address m) @ write_opt_addr_sig (pu_signature m) @
     (if pu_frame_number m \<noteq> 0 then put_u64 (pu_frame_number m) else [])"

definition decode_update :: "(u64 \<Rightarrow> bool) \<Rightarrow> bytes \<Rightarrow> prover_update result" where
  "decode_update replay_guard_active bs =
     try_then (cursor_tag TYPE_PROVER_UPDATE bs) (\<lambda>r.
     try_then (cursor_bounded 32 r) (\<lambda>(addr, r).
     try_then (read_opt_addr_sig r) (\<lambda>(sig, r).
     try_then (if 8 \<le> length r then try_then (cursor_u64 r) (\<lambda>(f, r). Ok (signed_frame replay_guard_active f)) else Ok 0) (\<lambda>frame.
       Ok \<lparr>pu_delegate_address = addr, pu_signature = sig, pu_frame_number = frame\<rparr>))))"

record prover_seniority_merge =
  ps_frame_number :: u64
  ps_signature :: "addressed_signature option"
  ps_merge_targets :: "seniority_merge list"

definition encode_prover_seniority_merge :: "prover_seniority_merge \<Rightarrow> bytes" where
  "encode_prover_seniority_merge m = put_u32 TYPE_PROVER_SENIORITY_MERGE @ put_u64 (ps_frame_number m) @
     write_opt_addr_sig (ps_signature m) @ write_targets (ps_merge_targets m)"

definition decode_prover_seniority_merge :: "bytes \<Rightarrow> prover_seniority_merge result" where
  "decode_prover_seniority_merge bs =
     try_then (cursor_tag TYPE_PROVER_SENIORITY_MERGE bs) (\<lambda>r.
     try_then (cursor_u64 r) (\<lambda>(frame, r).
     try_then (read_opt_addr_sig r) (\<lambda>(sig, r).
     try_then (cursor_u32 r) (\<lambda>(n, r).
     try_then (if 100 < unat n then Err InvalidArgument else read_n (read_target 1000) (unat n) r) (\<lambda>(ms, r).
       Ok \<lparr>ps_frame_number = frame, ps_signature = sig, ps_merge_targets = ms\<rparr>)))))"

record shard_split =
  ss_shard_address :: bytes
  ss_proposed_shards :: "bytes list"
  ss_frame_number :: u64
  ss_signature :: "addressed_signature option"

definition encode_shard_split :: "shard_split \<Rightarrow> bytes" where
  "encode_shard_split m = put_u32 TYPE_SHARD_SPLIT @ put_lp (ss_shard_address m) @ write_filters (ss_proposed_shards m) @
     put_u64 (ss_frame_number m) @ write_opt_addr_sig (ss_signature m)"

definition decode_shard_split :: "bytes \<Rightarrow> shard_split result" where
  "decode_shard_split bs =
     try_then (cursor_tag TYPE_SHARD_SPLIT bs) (\<lambda>r.
     try_then (cursor_bounded 64 r) (\<lambda>(a, r).
     try_then (cursor_bounded_array 8 66 r) (\<lambda>(ps, r).
     try_then (cursor_u64 r) (\<lambda>(frame, r).
     try_then (read_opt_addr_sig r) (\<lambda>(sig, r).
       Ok \<lparr>ss_shard_address = a, ss_proposed_shards = ps, ss_frame_number = frame, ss_signature = sig\<rparr>)))))"

record shard_merge =
  sg_shard_addresses :: "bytes list"
  sg_parent_address :: bytes
  sg_frame_number :: u64
  sg_signature :: "addressed_signature option"

definition encode_shard_merge :: "shard_merge \<Rightarrow> bytes" where
  "encode_shard_merge m = put_u32 TYPE_SHARD_MERGE @ write_filters (sg_shard_addresses m) @ put_lp (sg_parent_address m) @
     put_u64 (sg_frame_number m) @ write_opt_addr_sig (sg_signature m)"

definition decode_shard_merge :: "bytes \<Rightarrow> shard_merge result" where
  "decode_shard_merge bs =
     try_then (cursor_tag TYPE_SHARD_MERGE bs) (\<lambda>r.
     try_then (cursor_bounded_array 8 64 r) (\<lambda>(ss, r).
     try_then (cursor_bounded 64 r) (\<lambda>(p, r).
     try_then (cursor_u64 r) (\<lambda>(frame, r).
     try_then (read_opt_addr_sig r) (\<lambda>(sig, r).
       Ok \<lparr>sg_shard_addresses = ss, sg_parent_address = p, sg_frame_number = frame, sg_signature = sig\<rparr>)))))"

subsection \<open>The check before publication\<close>

definition dropped :: "'a result \<Rightarrow> unit result" where
  "dropped r = try_then r (\<lambda>_. Ok ())"

definition decode_prover_op :: "u64 \<Rightarrow> bytes \<Rightarrow> unit result" where
  "decode_prover_op confirm_release_frame inner =
     (if length inner < 4 then Err InvalidArgument
      else let tp = of_nat (from_be (take 4 inner)) :: u32 in
        if tp = TYPE_PROVER_JOIN then dropped (decode_join inner)
        else if tp = TYPE_PROVER_CONFIRM then dropped (decode_confirm confirm_release_frame inner)
        else if tp = TYPE_PROVER_REJECT then dropped (decode_reject inner)
        else if tp = TYPE_PROVER_LEAVE then dropped (decode_leave inner)
        else if tp = TYPE_PROVER_SENIORITY_MERGE then dropped (decode_prover_seniority_merge inner)
        else if tp = TYPE_SHARD_SPLIT then dropped (decode_shard_split inner)
        else if tp = TYPE_SHARD_MERGE then dropped (decode_shard_merge inner)
        else Ok ())"

subsection \<open>Reading what was written\<close>

lemma cursor_tag_put [simp]: "cursor_tag t (put_u32 t' @ r) = (if t' \<noteq> t then Err InvalidArgument else Ok r)"
  by (simp add: cursor_tag_def)

lemma put_u32_length [simp]: "length (put_u32 w) = 4" "length (put_u64 v) = 8" "length (put_lp d) = 4 + length d"
  by (simp_all add: put_u32_def write_u32_def put_u64_def write_u64_def put_lp_def)

lemma put_not_nil [simp]: "put_u32 w \<noteq> []" "put_lp d \<noteq> []"
  using put_u32_length(1,3) by (metis list.size(3) zero_neq_numeral, metis add_is_0 list.size(3) zero_neq_numeral)

lemma cursor_u32_bytes: "cursor_u32 bs = Ok (w, r) \<Longrightarrow> bs = put_u32 w @ r"
proof -
  assume "cursor_u32 bs = Ok (w, r)"
  then obtain b where b: "bs = b @ r" "length b = 4" "w = of_nat (from_be b)"
    by (auto simp: cursor_u32_def try_then_Ok dest: cursor_bytes_consumes)
  have "from_be b < 2 ^ 32" using from_be_less [of b] b(2) by simp
  then have "put_u32 w = b" using be_from_bytes [of b] b(2,3) by (simp add: put_u32_def write_u32_def unat_of_nat)
  then show ?thesis using b(1) by simp
qed

lemma cursor_tag_bytes: "cursor_tag t bs = Ok r \<Longrightarrow> take 4 bs = put_u32 t"
  by (auto simp: cursor_tag_def try_then_Ok split: if_splits dest!: cursor_u32_bytes)

lemma cursor_bounded_put [simp]:
  "length d < 2 ^ 32 \<Longrightarrow> cursor_bounded cap (put_lp d @ r) = (if cap < length d then Err InvalidArgument else Ok (d, r))"
  by (simp add: cursor_bounded_def put_lp_def unat_of_nat)

lemma cursor_exact_put [simp]:
  "length d < 2 ^ 32 \<Longrightarrow> cursor_exact n (put_lp d @ r) = (if length d \<noteq> n then Err InvalidArgument else Ok (d, r))"
  by (simp add: cursor_exact_def put_lp_def unat_of_nat)

lemma bounded_entries:
  "list_all (\<lambda>f. length f < 2 ^ 32) fs \<Longrightarrow>
   read_n (cursor_bounded cap) (length fs) (concat (map put_lp fs) @ r) =
     (if list_all (\<lambda>f. length f \<le> cap) fs then Ok (fs, r) else Err InvalidArgument)"
  by (induction fs) auto

lemma bounded_array_write [simp]:
  assumes "length fs < 2 ^ 32" "list_all (\<lambda>f. length f < 2 ^ 32) fs"
  shows "cursor_bounded_array max_count cap (write_filters fs @ r) =
    (if length fs \<le> max_count \<and> list_all (\<lambda>f. length f \<le> cap) fs then Ok (fs, r) else Err InvalidArgument)"
  using assms bounded_entries [OF assms(2), of cap r] by (auto simp: cursor_bounded_array_def write_filters_def unat_of_nat)

lemma read_opt_write:
  assumes "\<And>s. x = Some s \<Longrightarrow> dec (enc s) = Ok s \<and> enc s \<noteq> [] \<and> length (enc s) \<le> cap" "cap < 2 ^ 32"
  shows "read_opt cap dec (write_opt enc x @ r) = Ok (x, r)"
proof (cases x)
  case None
  then show ?thesis by (simp add: read_opt_def write_opt_def)
next
  case (Some s)
  then show ?thesis using assms(1) [OF Some] assms(2) by (simp add: read_opt_def write_opt_def put_lp_def unat_of_nat)
qed

lemma tagged_decode: "try_then (cursor_tag t bs) f = Ok x \<Longrightarrow> take 4 bs = put_u32 t"
  by (auto simp: try_then_Ok dest: cursor_tag_bytes)

definition fits_addressed :: "addressed_signature \<Rightarrow> bool" where
  "fits_addressed s \<longleftrightarrow> (length (as_signature s) = SIG_LEN_SINGLE \<or> length (as_signature s) = SIG_LEN_AGGREGATE_1) \<and>
     length (as_address s) = ADDRESS_LEN"

definition fits_pop :: "signature_with_pop \<Rightarrow> bool" where
  "fits_pop s \<longleftrightarrow> length (sp_signature s) = SIG_LEN \<and> length (sp_pop_signature s) = SIG_LEN \<and>
     (case sp_public_key s of None \<Rightarrow> True | Some k \<Rightarrow> length k + 4 = WRAPPED_PUBKEY_LEN)"

definition fits_target :: "nat \<Rightarrow> seniority_merge \<Rightarrow> bool" where
  "fits_target cap m \<longleftrightarrow> length (sm_signature m) \<le> MAX_SENIORITY_SIG_LEN \<and> length (sm_prover_public_key m) \<le> MAX_SENIORITY_KEY_LEN \<and>
     length (encode_seniority_merge m) \<le> cap"

lemmas sig_lens = SIG_LEN_SINGLE_def SIG_LEN_AGGREGATE_1_def ADDRESS_LEN_def SIG_LEN_def WRAPPED_PUBKEY_LEN_def
  MAX_ADDRESSED_SIG_LEN_def MAX_SIG_LEN_def MAX_SENIORITY_SIG_LEN_def MAX_SENIORITY_KEY_LEN_def MAX_FILTER_OP_SIG_LEN_def

lemma addressed_tail: "fits_addressed s \<Longrightarrow> decode_addressed_signature (encode_addressed_signature s @ tail) = Ok s"
  by (auto simp: fits_addressed_def decode_addressed_signature_def encode_addressed_signature_def sig_lens put_lp_def unat_of_nat
      cursor_exact_def)

lemma pop_tail:
  assumes "fits_pop s"
  shows "decode_signature_with_pop (encode_signature_with_pop s @ tail) = Ok s"
proof (cases "sp_public_key s")
  case None
  then show ?thesis
    using assms by (simp add: fits_pop_def decode_signature_with_pop_def encode_signature_with_pop_def sig_lens)
next
  case (Some k)
  have "cursor_u32 (put_lp (put_u32 0x0117 @ k) @ r) = Ok (901, put_u32 0x0117 @ k @ r)" for r
    using assms Some by (simp add: fits_pop_def sig_lens put_lp_def)
  moreover have "cursor_bytes 901 (put_u32 0x0117 @ k @ r) = Ok (put_u32 0x0117 @ k, r)" for r
    using assms Some cursor_bytes_append [of "put_u32 0x0117 @ k" 901 r] by (simp add: fits_pop_def sig_lens)
  ultimately show ?thesis
    using assms Some by (simp add: fits_pop_def decode_signature_with_pop_def encode_signature_with_pop_def sig_lens)
qed

lemma target_tail:
  assumes "fits_target cap m"
  shows "decode_seniority_merge (encode_seniority_merge m @ tail) = Ok m"
proof -
  have "length (sm_signature m) \<le> 114" "length (sm_prover_public_key m) \<le> 585" using assms by (simp_all add: fits_target_def sig_lens)
  then show ?thesis by (simp add: decode_seniority_merge_def encode_seniority_merge_def sig_lens)
qed

lemma encoded_lengths:
  "length (encode_addressed_signature s) = 12 + length (as_signature s) + length (as_address s)"
  "fits_pop p \<Longrightarrow> length (encode_signature_with_pop p) \<le> MAX_SIG_LEN \<and> encode_signature_with_pop p \<noteq> []"
  by (auto simp: encode_addressed_signature_def encode_signature_with_pop_def fits_pop_def sig_lens split: option.splits)

lemma addr_sig_write [simp]:
  assumes "pred_option fits_addressed x"
  shows "read_opt_addr_sig (write_opt_addr_sig x @ r) = Ok (x, r)"
    "read_optional_addressed_sig (write_optional_addressed_sig x @ r) = Ok (x, r)"
    "read_opt_addr_sig (write_opt_addr_sig x) = Ok (x, [])"
    "read_optional_addressed_sig (write_optional_addressed_sig x) = Ok (x, [])"
proof -
  have "decode_addressed_signature (encode_addressed_signature s) = Ok s \<and> encode_addressed_signature s \<noteq> [] \<and>
    length (encode_addressed_signature s) \<le> MAX_ADDRESSED_SIG_LEN" if "x = Some s" for s
  proof -
    have "fits_addressed s" using assms that by simp
    moreover have "encode_addressed_signature s \<noteq> []" by (simp add: encode_addressed_signature_def)
    ultimately show ?thesis using addressed_tail [of s "[]"] encoded_lengths(1) [of s] by (auto simp: fits_addressed_def sig_lens)
  qed
  then have "read_opt MAX_ADDRESSED_SIG_LEN decode_addressed_signature (write_opt encode_addressed_signature x @ r) = Ok (x, r)" for r
    by (intro read_opt_write) (auto simp: sig_lens)
  from this [of r] this [of "[]"] show "read_opt_addr_sig (write_opt_addr_sig x @ r) = Ok (x, r)"
    "read_optional_addressed_sig (write_optional_addressed_sig x @ r) = Ok (x, r)"
    "read_opt_addr_sig (write_opt_addr_sig x) = Ok (x, [])"
    "read_optional_addressed_sig (write_optional_addressed_sig x) = Ok (x, [])"
    by (simp_all add: read_opt_addr_sig_def write_opt_addr_sig_def read_optional_addressed_sig_def write_optional_addressed_sig_def
        MAX_FILTER_OP_SIG_LEN_def)
qed

lemma pop_sig_write [simp]:
  assumes "pred_option fits_pop x"
  shows "read_opt MAX_SIG_LEN decode_signature_with_pop (write_opt encode_signature_with_pop x @ r) = Ok (x, r)"
proof (rule read_opt_write)
  fix s
  assume "x = Some s"
  then have "fits_pop s" using assms by simp
  then show "decode_signature_with_pop (encode_signature_with_pop s) = Ok s \<and> encode_signature_with_pop s \<noteq> [] \<and>
      length (encode_signature_with_pop s) \<le> MAX_SIG_LEN"
    using pop_tail [of s "[]"] encoded_lengths(2) [of s] by simp
qed (simp add: sig_lens)

lemma target_write: "fits_target cap m \<Longrightarrow> cap < 2 ^ 32 \<Longrightarrow> read_target cap (put_lp (encode_seniority_merge m) @ r) = Ok (m, r)"
  using target_tail [of cap m "[]"] by (simp add: read_target_def fits_target_def)

interpretation join_target: codec "\<lambda>m. put_lp (encode_seniority_merge m)" "read_target MAX_MERGE_TARGET_LEN" "fits_target MAX_MERGE_TARGET_LEN" id
  by unfold_locales (simp add: target_write MAX_MERGE_TARGET_LEN_def)

interpretation merge_target: codec "\<lambda>m. put_lp (encode_seniority_merge m)" "read_target 1000" "fits_target 1000" id
  by unfold_locales (simp add: target_write)

definition fits_entry :: "leaf_root_entry \<Rightarrow> bool" where
  "fits_entry e \<longleftrightarrow> length (le_prefix e) < 2 ^ 32 \<and> length (le_leaf_root e) < 2 ^ 32"

definition fits_group :: "confirm_leaf_roots \<Rightarrow> bool" where
  "fits_group g \<longleftrightarrow> length (cl_filter g) < 2 ^ 32 \<and> length (cl_entries g) < 2 ^ 32 \<and> list_all fits_entry (cl_entries g)"

lemmas leaf_limits = MAX_SHARD_FILTER_LEN_def MAX_PREFIX_LEN_def MAX_LEAF_ROOT_LEN_def MAX_CONFIRM_LEAF_ROOT_GROUPS_def

lemma entry_write:
  assumes "fits_entry e"
  shows "read_entry (write_entry e @ r) =
    (if MAX_PREFIX_LEN < length (le_prefix e) \<or> MAX_LEAF_ROOT_LEN < length (le_leaf_root e) then Err InvalidArgument else Ok (e, r))"
  using assms cursor_u32.read_n_write [of "le_prefix e" "put_lp (le_leaf_root e) @ put_u64 (le_num_blocks e) @ r"]
  by (simp add: read_entry_def write_entry_def fits_entry_def unat_of_nat list_all_iff)

lemma read_n_or_error:
  assumes "\<And>x r. x \<in> set xs \<Longrightarrow> rd (enc x @ r) = (if bad x then Err InvalidArgument else Ok (x, r))"
  shows "read_n rd (length xs) (concat (map enc xs) @ r) = (if list_ex bad xs then Err InvalidArgument else Ok (xs, r))"
  using assms by (induction xs) auto

lemma group_write:
  assumes "fits_group g"
  shows "read_group (write_group g @ r) = (if group_exceeds g then Err InvalidArgument else Ok (g, r))"
proof -
  have "read_n read_entry (length (cl_entries g)) (concat (map write_entry (cl_entries g)) @ r) =
    (if list_ex (\<lambda>e. MAX_PREFIX_LEN < length (le_prefix e) \<or> MAX_LEAF_ROOT_LEN < length (le_leaf_root e)) (cl_entries g)
     then Err InvalidArgument else Ok (cl_entries g, r))"
    by (rule read_n_or_error) (use assms in \<open>auto simp: entry_write fits_group_def list_all_iff\<close>)
  then show ?thesis
    using assms by (auto simp: read_group_def write_group_def fits_group_def unat_of_nat group_exceeds_def list_ex_iff)
qed

lemma leaf_roots_write:
  assumes "length gs < 2 ^ 32" "list_all fits_group gs" "gs \<noteq> [] \<or> r = []"
  shows "read_confirm_leaf_roots (append_confirm_leaf_roots gs @ r) =
    (if check_confirm_leaf_roots gs = Ok () then Ok (gs, r) else Err InvalidArgument)"
proof (cases "gs = []")
  case True
  then show ?thesis using assms(3) by (simp add: read_confirm_leaf_roots_def append_confirm_leaf_roots_def check_confirm_leaf_roots_def)
next
  case False
  have "read_n read_group (length gs) (concat (map write_group gs) @ r) = (if list_ex group_exceeds gs then Err InvalidArgument else Ok (gs, r))"
    by (rule read_n_or_error) (use assms(2) in \<open>auto simp: group_write list_all_iff\<close>)
  then show ?thesis
    using False assms(1) by (simp add: read_confirm_leaf_roots_def append_confirm_leaf_roots_def check_confirm_leaf_roots_def unat_of_nat)
qed

subsection \<open>Messages\<close>

definition sized_filters :: "bytes list \<Rightarrow> bool" where
  "sized_filters fs \<longleftrightarrow> length fs < 2 ^ 32 \<and> list_all (\<lambda>f. length f < 2 ^ 32) fs"

lemma check_filters_Ok: "check_filters fs = Ok () \<longleftrightarrow> length fs \<le> MAX_FILTERS_PER_OP \<and> list_all (\<lambda>f. length f \<le> MAX_FILTER_LEN) fs"
  by (auto simp: check_filters_def list_all_iff list_ex_iff simp flip: not_less)

lemma filters_write [simp]:
  "sized_filters fs \<Longrightarrow> read_filters (write_filters fs @ r) = (if check_filters fs = Ok () then Ok (fs, r) else Err InvalidArgument)"
  "sized_filters fs \<Longrightarrow> read_filters (write_filters fs) = (if check_filters fs = Ok () then Ok (fs, []) else Err InvalidArgument)"
  using bounded_array_write [of fs MAX_FILTERS_PER_OP MAX_FILTER_LEN r] bounded_array_write [of fs MAX_FILTERS_PER_OP MAX_FILTER_LEN "[]"]
  by (simp_all add: read_filters_def sized_filters_def check_filters_Ok)

definition fits_join :: "prover_join \<Rightarrow> bool" where
  "fits_join j \<longleftrightarrow> pred_option fits_pop (pj_signature j) \<and> length (pj_delegate_address j) \<le> MAX_DELEGATE_ADDR_LEN \<and>
     length (pj_merge_targets j) < 2 ^ 32 \<and> list_all (fits_target MAX_MERGE_TARGET_LEN) (pj_merge_targets j) \<and>
     length (pj_proof j) \<le> MAX_PROOF_LEN"

lemma join_write:
  assumes "sized_filters (pj_filters j)" "fits_join j"
  shows "decode_join (encode_join j @ tail) = (if check_filters (pj_filters j) = Ok () then Ok j else Err InvalidArgument)"
proof -
  have lens: "length (pj_delegate_address j) \<le> 32" "length (pj_proof j) \<le> 51600"
    using assms(2) by (simp_all add: fits_join_def MAX_DELEGATE_ADDR_LEN_def MAX_PROOF_LEN_def)
  moreover have "cursor_u32 (write_targets (pj_merge_targets j) @ r) =
      Ok (of_nat (length (pj_merge_targets j)), concat (map (\<lambda>m. put_lp (encode_seniority_merge m)) (pj_merge_targets j)) @ r)" for r
    by (simp add: write_targets_def)
  moreover have "unat (of_nat (length (pj_merge_targets j)) :: u32) = length (pj_merge_targets j)"
    using assms(2) by (simp add: fits_join_def unat_of_nat)
  moreover note join_target.read_n_write [of "pj_merge_targets j"]
  ultimately show ?thesis
    using assms by (simp add: decode_join_def encode_join_def fits_join_def MAX_DELEGATE_ADDR_LEN_def MAX_PROOF_LEN_def)
qed

lemma leave_write:
  "sized_filters (pl_filters m) \<Longrightarrow> pred_option fits_addressed (pl_signature m) \<Longrightarrow>
   decode_leave (encode_leave m @ tail) = (if check_filters (pl_filters m) = Ok () then Ok m else Err InvalidArgument)"
  by (simp add: decode_leave_def encode_leave_def)

lemma reserved_read: "cursor_bounded 64 (put_u32 32 @ reserved_filter @ r) = Ok (reserved_filter, r)"
  using cursor_bounded_put [of reserved_filter 64 r] by (simp add: put_lp_def reserved_filter_def)

lemma reject_write:
  "sized_filters (px_filters m) \<Longrightarrow> pred_option fits_addressed (px_signature m) \<Longrightarrow>
   decode_reject (encode_reject m @ tail) =
     (if check_filters (px_filters m) = Ok () then Ok (m\<lparr>px_filter := reserved_filter\<rparr>) else Err InvalidArgument)"
  by (simp add: decode_reject_def encode_reject_def reserved_read)

definition fits_confirm :: "prover_confirm \<Rightarrow> bool" where
  "fits_confirm m \<longleftrightarrow> pred_option fits_addressed (pc_signature m) \<and> length (pc_leaf_roots m) < 2 ^ 32 \<and>
     list_all fits_group (pc_leaf_roots m)"

definition confirmed :: "u64 \<Rightarrow> prover_confirm \<Rightarrow> prover_confirm" where
  "confirmed confirm_release_frame m = m\<lparr>pc_filter := reserved_filter,
     pc_release := (if confirm_release_frame \<le> pc_frame_number m then pc_release m else None)\<rparr>"

lemma confirm_leaf_roots_read:
  assumes "fits_confirm m"
  shows "read_confirm_leaf_roots (append_confirm_leaf_roots (pc_leaf_roots m) @
      (case pc_release m of None \<Rightarrow> [] | Some rel \<Rightarrow> (if pc_leaf_roots m = [] then put_u32 0 else []) @ release_to_bytes rel)) =
    (if check_confirm_leaf_roots (pc_leaf_roots m) = Ok ()
     then Ok (pc_leaf_roots m, case pc_release m of None \<Rightarrow> [] | Some rel \<Rightarrow> release_to_bytes rel) else Err InvalidArgument)"
proof (cases "pc_leaf_roots m = [] \<and> pc_release m \<noteq> None")
  case True
  then obtain rel where rel: "pc_release m = Some rel" by auto
  have "put_u32 0 @ release_to_bytes rel \<noteq> []" using release_length [of rel] by auto
  then show ?thesis
    using True rel by (simp add: append_confirm_leaf_roots_def read_confirm_leaf_roots_def check_confirm_leaf_roots_def)
next
  case False
  then show ?thesis
    using leaf_roots_write [of "pc_leaf_roots m" "case pc_release m of None \<Rightarrow> [] | Some rel \<Rightarrow> release_to_bytes rel"] assms
    by (auto simp: fits_confirm_def split: option.split)
qed

lemma confirm_write:
  assumes "sized_filters (pc_filters m)" "fits_confirm m"
  shows "decode_confirm confirm_release_frame (encode_confirm m) =
    (if check_filters (pc_filters m) = Ok () \<and> check_confirm_leaf_roots (pc_leaf_roots m) = Ok ()
     then Ok (confirmed confirm_release_frame m) else Err InvalidArgument)"
proof -
  have "pred_option fits_addressed (pc_signature m)" using assms(2) by (simp add: fits_confirm_def)
  then show ?thesis
    using assms(1) confirm_leaf_roots_read [OF assms(2)]
    by (cases "pc_release m")
      (simp_all add: decode_confirm_def encode_confirm_def reserved_read confirmed_def release_length RELEASE_ENCODED_LEN_def)
qed

lemma pause_write:
  "length (pp_filter m) \<le> MAX_FILTER_LEN \<Longrightarrow> pred_option fits_addressed (pp_signature m) \<Longrightarrow>
   decode_pause (encode_pause m @ tail) = Ok m"
  by (simp add: decode_pause_def encode_pause_def MAX_FILTER_LEN_def)

lemma resume_write:
  "length (pr_filter m) \<le> MAX_FILTER_LEN \<Longrightarrow> pred_option fits_addressed (pr_signature m) \<Longrightarrow>
   decode_resume (encode_resume m @ tail) = Ok m"
  by (simp add: decode_resume_def encode_resume_def MAX_FILTER_LEN_def)

definition fits_kick :: "prover_kick \<Rightarrow> bool" where
  "fits_kick m \<longleftrightarrow> length (pk_kicked m) \<le> 897 \<and> length (pk_frame_1 m) \<le> 34825 \<and> length (pk_frame_2 m) \<le> 34825 \<and>
     length (pk_commitment m) \<le> 74 \<and> length (pk_proof m) \<le> 160 \<and> length (pk_traversal_proof m) \<le> 4000"

lemma kick_write: "fits_kick m \<Longrightarrow> decode_kick (encode_kick m @ tail) = Ok m"
  by (simp add: decode_kick_def encode_kick_def fits_kick_def)

definition fits_update :: "prover_update \<Rightarrow> bool" where
  "fits_update m \<longleftrightarrow> length (pu_delegate_address m) \<le> 32 \<and> pred_option fits_addressed (pu_signature m)"

definition updated :: "(u64 \<Rightarrow> bool) \<Rightarrow> prover_update \<Rightarrow> prover_update" where
  "updated replay_guard_active m = m\<lparr>pu_frame_number :=
     (if pu_frame_number m \<noteq> 0 then signed_frame replay_guard_active (pu_frame_number m) else 0)\<rparr>"

lemma cursor_u64_put_end [simp]: "cursor_u64 (put_u64 w) = Ok (w, [])"
  using cursor_u64_put [of w "[]"] by simp

lemma update_write: "fits_update m \<Longrightarrow> decode_update guard (encode_update m) = Ok (updated guard m)"
  by (simp add: decode_update_def encode_update_def fits_update_def updated_def)

definition fits_seniority :: "prover_seniority_merge \<Rightarrow> bool" where
  "fits_seniority m \<longleftrightarrow> pred_option fits_addressed (ps_signature m) \<and> length (ps_merge_targets m) \<le> 100 \<and>
     list_all (fits_target 1000) (ps_merge_targets m)"

lemma seniority_write:
  assumes "fits_seniority m"
  shows "decode_prover_seniority_merge (encode_prover_seniority_merge m @ tail) = Ok m"
proof -
  have "unat (of_nat (length (ps_merge_targets m)) :: u32) = length (ps_merge_targets m)"
    using assms by (simp add: fits_seniority_def unat_of_nat)
  moreover note merge_target.read_n_write [of "ps_merge_targets m"]
  ultimately show ?thesis
    using assms by (simp add: decode_prover_seniority_merge_def encode_prover_seniority_merge_def fits_seniority_def write_targets_def)
qed

definition fits_split :: "shard_split \<Rightarrow> bool" where
  "fits_split m \<longleftrightarrow> length (ss_shard_address m) \<le> 64 \<and> length (ss_proposed_shards m) \<le> 8 \<and>
     list_all (\<lambda>p. length p \<le> 66) (ss_proposed_shards m) \<and> pred_option fits_addressed (ss_signature m)"

definition fits_merge :: "shard_merge \<Rightarrow> bool" where
  "fits_merge m \<longleftrightarrow> length (sg_parent_address m) \<le> 64 \<and> length (sg_shard_addresses m) \<le> 8 \<and>
     list_all (\<lambda>p. length p \<le> 64) (sg_shard_addresses m) \<and> pred_option fits_addressed (sg_signature m)"

lemma short_items: "list_all (\<lambda>p. length p \<le> cap) ps \<Longrightarrow> cap < 2 ^ 32 \<Longrightarrow> list_all (\<lambda>p. length p < 2 ^ 32) ps"
  by (auto simp: list_all_iff)

lemma split_write: "fits_split m \<Longrightarrow> decode_shard_split (encode_shard_split m @ tail) = Ok m"
  using short_items [of 66 "ss_proposed_shards m"] by (simp add: decode_shard_split_def encode_shard_split_def fits_split_def)

lemma merge_write: "fits_merge m \<Longrightarrow> decode_shard_merge (encode_shard_merge m @ tail) = Ok m"
  using short_items [of 64 "sg_shard_addresses m"] by (simp add: decode_shard_merge_def encode_shard_merge_def fits_merge_def)

definition fits_registration :: "leaf_root_registration \<Rightarrow> bool" where
  "fits_registration m \<longleftrightarrow> length (lr_shard_filter m) \<le> MAX_SHARD_FILTER_LEN \<and> length (lr_prefix m) \<le> MAX_PREFIX_LEN \<and>
     length (lr_leaf_root m) \<le> MAX_LEAF_ROOT_LEN \<and> pred_option fits_pop (lr_signature m)"

lemma registration_write:
  assumes "fits_registration m"
  shows "decode_registration (encode_registration m @ tail) = Ok m"
proof -
  have "length (lr_shard_filter m) \<le> 64" "length (lr_prefix m) \<le> 256" "length (lr_leaf_root m) \<le> 128"
    using assms by (simp_all add: fits_registration_def leaf_limits)
  moreover from this have "unat (of_nat (length (lr_prefix m)) :: u32) = length (lr_prefix m)" by (simp add: unat_of_nat)
  moreover have "REGISTRATION_MAX_SIG_LEN = MAX_SIG_LEN" by (simp add: REGISTRATION_MAX_SIG_LEN_def MAX_SIG_LEN_def)
  moreover note cursor_u32.read_n_write [of "lr_prefix m"]
  ultimately show ?thesis
    using assms by (simp add: decode_registration_def encode_registration_def fits_registration_def leaf_limits list_all_iff)
qed

subsection \<open>Leaf identifiers\<close>

lemma put_u32_bytes: "put_u32 p = [of_nat (unat p div 16777216), of_nat (unat p div 65536), of_nat (unat p div 256), of_nat (unat p)]"
proof -
  have "be_bytes (Suc (Suc (Suc (Suc 0)))) n = [of_nat (n div 16777216), of_nat (n div 65536), of_nat (n div 256), of_nat n]" for n
    by (simp flip: div_mult2_eq)
  moreover have "Suc (Suc (Suc (Suc 0))) = 4" by simp
  ultimately show ?thesis by (simp only: put_u32_def write_u32_def)
qed

lemma nibble_not_separator: "p < 64 \<Longrightarrow> 0xFF \<notin> set (put_u32 p)"
proof -
  assume "p < 64"
  then have small: "unat p < 64" by (simp add: word_less_nat_alt)
  then have "unat (of_nat (unat p) :: byte) = unat p" unfolding unat_of_nat by simp
  then have "of_nat (unat p) \<noteq> (0xFF :: byte)" using small by auto
  then show ?thesis using small unfolding put_u32_bytes by simp
qed

lemma last_separator: "f @ s # a = g @ s # b \<Longrightarrow> s \<notin> set a \<Longrightarrow> s \<notin> set b \<Longrightarrow> f = g \<and> a = b"
proof (induction f arbitrary: g)
  case Nil
  then show ?case by (cases g) auto
next
  case (Cons x f)
  then show ?case by (cases g) auto
qed

lemma put_u32_concat_inj: "concat (map put_u32 ps) = concat (map put_u32 qs) \<Longrightarrow> ps = qs"
proof (induction ps arbitrary: qs)
  case Nil
  then show ?case by (cases qs) simp_all
next
  case (Cons p ps)
  then obtain q qs' where qs: "qs = q # qs'" by (cases qs) simp_all
  from Cons.prems have "cursor_u32 (put_u32 p @ concat (map put_u32 ps)) = cursor_u32 (put_u32 q @ concat (map put_u32 qs'))"
    unfolding qs by simp
  then show ?case using Cons.IH [of qs'] qs by simp
qed

subsection \<open>The messages as codecs\<close>

lemma sized_when_checked: "check_filters fs = Ok () \<Longrightarrow> sized_filters fs"
  using short_items [of MAX_FILTER_LEN fs] by (simp add: check_filters_Ok sized_filters_def MAX_FILTERS_PER_OP_def MAX_FILTER_LEN_def)

interpretation addressed: tail_tolerant encode_addressed_signature decode_addressed_signature TYPE_BLS48581_ADDRESSED_SIGNATURE
  fits_addressed id
  by unfold_locales (simp add: addressed_tail, simp add: encode_addressed_signature_def, unfold decode_addressed_signature_def, rule tagged_decode)

interpretation with_pop: tail_tolerant encode_signature_with_pop decode_signature_with_pop TYPE_BLS48581_SIG_WITH_POP
  fits_pop id
  by unfold_locales (simp add: pop_tail, simp add: encode_signature_with_pop_def, unfold decode_signature_with_pop_def, rule tagged_decode)

interpretation merge_of_seniority: tail_tolerant encode_seniority_merge decode_seniority_merge TYPE_SENIORITY_MERGE
  "fits_target cap" id
  by unfold_locales (simp add: target_tail, simp add: encode_seniority_merge_def, unfold decode_seniority_merge_def, rule tagged_decode)

interpretation join_message: tail_tolerant encode_join decode_join TYPE_PROVER_JOIN
  "\<lambda>j. check_filters (pj_filters j) = Ok () \<and> fits_join j" id
  by unfold_locales (simp add: sized_when_checked join_write, simp add: encode_join_def, unfold decode_join_def, rule tagged_decode)

interpretation leave_message: tail_tolerant encode_leave decode_leave TYPE_PROVER_LEAVE
  "\<lambda>m. check_filters (pl_filters m) = Ok () \<and> pred_option fits_addressed (pl_signature m)" id
  by unfold_locales (simp add: sized_when_checked leave_write, simp add: encode_leave_def, unfold decode_leave_def, rule tagged_decode)

interpretation pause_message: tail_tolerant encode_pause decode_pause TYPE_PROVER_PAUSE
  "\<lambda>m. length (pp_filter m) \<le> MAX_FILTER_LEN \<and> pred_option fits_addressed (pp_signature m)" id
  by unfold_locales (simp add: pause_write, simp add: encode_pause_def, unfold decode_pause_def, rule tagged_decode)

interpretation resume_message: tail_tolerant encode_resume decode_resume TYPE_PROVER_RESUME
  "\<lambda>m. length (pr_filter m) \<le> MAX_FILTER_LEN \<and> pred_option fits_addressed (pr_signature m)" id
  by unfold_locales (simp add: resume_write, simp add: encode_resume_def, unfold decode_resume_def, rule tagged_decode)

interpretation reject_message: tail_tolerant encode_reject decode_reject TYPE_PROVER_REJECT
  "\<lambda>m. check_filters (px_filters m) = Ok () \<and> pred_option fits_addressed (px_signature m)" "\<lambda>m. m\<lparr>px_filter := reserved_filter\<rparr>"
  by unfold_locales (simp add: sized_when_checked reject_write, simp add: encode_reject_def, unfold decode_reject_def, rule tagged_decode)

interpretation registration_message: tail_tolerant encode_registration decode_registration TYPE_LEAF_ROOT_REGISTRATION
  fits_registration id
  by unfold_locales (simp add: registration_write, simp add: encode_registration_def, unfold decode_registration_def, rule tagged_decode)

interpretation kick_message: tail_tolerant encode_kick decode_kick TYPE_PROVER_KICK
  fits_kick id
  by unfold_locales (simp add: kick_write, simp add: encode_kick_def, unfold decode_kick_def, rule tagged_decode)

interpretation seniority_message: tail_tolerant encode_prover_seniority_merge decode_prover_seniority_merge TYPE_PROVER_SENIORITY_MERGE
  fits_seniority id
  by unfold_locales (simp add: seniority_write, simp add: encode_prover_seniority_merge_def, unfold decode_prover_seniority_merge_def, rule tagged_decode)

interpretation split_message: tail_tolerant encode_shard_split decode_shard_split TYPE_SHARD_SPLIT
  fits_split id
  by unfold_locales (simp add: split_write, simp add: encode_shard_split_def, unfold decode_shard_split_def, rule tagged_decode)

interpretation merge_message: tail_tolerant encode_shard_merge decode_shard_merge TYPE_SHARD_MERGE
  fits_merge id
  by unfold_locales (simp add: merge_write, simp add: encode_shard_merge_def, unfold decode_shard_merge_def, rule tagged_decode)

interpretation confirm_message: message_codec encode_confirm "decode_confirm confirm_release_frame" TYPE_PROVER_CONFIRM
  "\<lambda>m. check_filters (pc_filters m) = Ok () \<and> check_confirm_leaf_roots (pc_leaf_roots m) = Ok () \<and> fits_confirm m"
  "confirmed confirm_release_frame"
  by unfold_locales (simp add: sized_when_checked confirm_write, simp add: encode_confirm_def, unfold decode_confirm_def, rule tagged_decode)

interpretation update_message: message_codec encode_update "decode_update replay_guard_active" TYPE_PROVER_UPDATE fits_update
  "updated replay_guard_active"
  by unfold_locales (simp add: update_write, simp add: encode_update_def, unfold decode_update_def, rule tagged_decode)

lemma tag_read: "take 4 bs = put_u32 t \<Longrightarrow> 4 \<le> length bs \<and> of_nat (from_be (take 4 bs)) = t"
proof -
  assume first: "take 4 bs = put_u32 t"
  then have "4 \<le> length bs" using put_u32_length(1) [of t] by (metis length_take min.cobounded1)
  moreover have "from_be (put_u32 t) = unat t"
    using unat_u32_bound [of t] by (simp add: put_u32_def write_u32_def from_be_bytes)
  ultimately show ?thesis using first by simp
qed

lemmas prover_tags = TYPE_PROVER_JOIN_def TYPE_PROVER_LEAVE_def TYPE_PROVER_CONFIRM_def TYPE_PROVER_REJECT_def
  TYPE_PROVER_SENIORITY_MERGE_def TYPE_SHARD_SPLIT_def TYPE_SHARD_MERGE_def

lemma prover_op_dispatch:
  "decode_prover_op crf (encode_join j) = dropped (decode_join (encode_join j))"
  "decode_prover_op crf (encode_leave l) = dropped (decode_leave (encode_leave l))"
  "decode_prover_op crf (encode_confirm c) = dropped (decode_confirm crf (encode_confirm c))"
  "decode_prover_op crf (encode_reject x) = dropped (decode_reject (encode_reject x))"
  using tag_read [OF join_message.starts_with_tag [of j]] tag_read [OF leave_message.starts_with_tag [of l]]
    tag_read [OF confirm_message.encode_tag [of c]] tag_read [OF reject_message.starts_with_tag [of x]]
  by (simp_all add: decode_prover_op_def prover_tags)

lemma check_results: "check_filters fs \<noteq> Ok () \<Longrightarrow> check_filters fs = Err InvalidArgument"
  "check_confirm_leaf_roots gs \<noteq> Ok () \<Longrightarrow> check_confirm_leaf_roots gs = Err InvalidArgument"
  by (simp_all add: check_filters_def check_confirm_leaf_roots_def split: if_splits)

subsection \<open>Properties\<close>

text \<open>C34. Every prover message whose parts are within their limits comes back from its canonical bytes: a join, leave, pause,
  resume, reject, leaf-root registration, kick, seniority merge, shard split and shard merge whatever bytes follow; a confirm with its release
  exactly from the frame at which releases are read, also when it registers no leaf roots; an update with the frame
  it was signed at when the replay guard is active there and zero otherwise. The reserved filter of a confirm or reject replaces the one given.\<close>

theorem prover_messages_round_trip:
  "(check_filters (pj_filters j) = Ok () \<and> fits_join j \<longrightarrow> decode_join (encode_join j @ tail) = Ok j) \<and>
   (check_filters (pl_filters l) = Ok () \<and> pred_option fits_addressed (pl_signature l) \<longrightarrow> decode_leave (encode_leave l @ tail) = Ok l) \<and>
   (length (pp_filter p) \<le> MAX_FILTER_LEN \<and> pred_option fits_addressed (pp_signature p) \<longrightarrow>
      decode_pause (encode_pause p @ tail) = Ok p) \<and>
   (length (pr_filter r) \<le> MAX_FILTER_LEN \<and> pred_option fits_addressed (pr_signature r) \<longrightarrow>
      decode_resume (encode_resume r @ tail) = Ok r) \<and>
   (check_filters (pc_filters c) = Ok () \<and> check_confirm_leaf_roots (pc_leaf_roots c) = Ok () \<and> fits_confirm c \<longrightarrow>
      decode_confirm confirm_release_frame (encode_confirm c) = Ok (c\<lparr>pc_filter := reserved_filter,
        pc_release := (if confirm_release_frame \<le> pc_frame_number c then pc_release c else None)\<rparr>)) \<and>
   (check_filters (px_filters x) = Ok () \<and> pred_option fits_addressed (px_signature x) \<longrightarrow>
      decode_reject (encode_reject x @ tail) = Ok (x\<lparr>px_filter := reserved_filter\<rparr>)) \<and>
   (fits_registration reg \<longrightarrow> decode_registration (encode_registration reg @ tail) = Ok reg) \<and>
   (fits_kick k \<longrightarrow> decode_kick (encode_kick k @ tail) = Ok k) \<and>
   (fits_update u \<longrightarrow> decode_update replay_guard_active (encode_update u) = Ok (u\<lparr>pu_frame_number :=
      (if replay_guard_active (pu_frame_number u) then pu_frame_number u else 0)\<rparr>)) \<and>
   (fits_seniority sm \<longrightarrow> decode_prover_seniority_merge (encode_prover_seniority_merge sm @ tail) = Ok sm) \<and>
   (fits_split ss \<longrightarrow> decode_shard_split (encode_shard_split ss @ tail) = Ok ss) \<and>
   (fits_merge sg \<longrightarrow> decode_shard_merge (encode_shard_merge sg @ tail) = Ok sg)"
  using join_message.decode_tail [of j tail] leave_message.decode_tail [of l tail] pause_message.decode_tail [of p tail]
    resume_message.decode_tail [of r tail] confirm_message.decode_encode [of c confirm_release_frame]
    reject_message.decode_tail [of x tail] registration_message.decode_tail [of reg tail] kick_message.decode_tail [of k tail] update_message.decode_encode [of u replay_guard_active]
    seniority_message.decode_tail [of sm tail] split_message.decode_tail [of ss tail] merge_message.decode_tail [of sg tail]
  by (simp add: confirmed_def updated_def signed_frame_def)

theorem prover_messages_round_trip_witness:
  "decode_join (encode_join \<lparr>pj_filters = [[1, 2]], pj_frame_number = 8, pj_signature = Some \<lparr>sp_signature = replicate 666 1,
      sp_public_key = Some (replicate 897 2), sp_pop_signature = replicate 666 3\<rparr>, pj_delegate_address = [4],
      pj_merge_targets = [\<lparr>sm_signature = [5], sm_key_type = 6, sm_prover_public_key = [7]\<rparr>], pj_proof = [8]\<rparr> @ [9]) =
    Ok \<lparr>pj_filters = [[1, 2]], pj_frame_number = 8, pj_signature = Some \<lparr>sp_signature = replicate 666 1,
      sp_public_key = Some (replicate 897 2), sp_pop_signature = replicate 666 3\<rparr>, pj_delegate_address = [4],
      pj_merge_targets = [\<lparr>sm_signature = [5], sm_key_type = 6, sm_prover_public_key = [7]\<rparr>], pj_proof = [8]\<rparr> \<and>
   decode_confirm 5 (encode_confirm \<lparr>pc_filter = [], pc_frame_number = 5, pc_signature = None, pc_filters = [[1]], pc_leaf_roots = [],
      pc_release = Some \<lparr>version = (2, 1, 0), patch = 4, subpatch = 3\<rparr>\<rparr>) =
    Ok \<lparr>pc_filter = reserved_filter, pc_frame_number = 5, pc_signature = None, pc_filters = [[1]], pc_leaf_roots = [],
      pc_release = Some \<lparr>version = (2, 1, 0), patch = 4, subpatch = 3\<rparr>\<rparr> \<and>
   decode_update (\<lambda>f. 10 \<le> f) (encode_update \<lparr>pu_delegate_address = [1], pu_signature = Some \<lparr>as_signature = replicate 666 1,
      as_address = replicate 32 2\<rparr>, pu_frame_number = 9\<rparr>) =
    Ok \<lparr>pu_delegate_address = [1], pu_signature = Some \<lparr>as_signature = replicate 666 1, as_address = replicate 32 2\<rparr>,
      pu_frame_number = 0\<rparr>"
  using prover_messages_round_trip [where tail = "[9]" and confirm_release_frame = 5 and replay_guard_active = "\<lambda>f. 10 \<le> f" and
      j = "\<lparr>pj_filters = [[1, 2]], pj_frame_number = 8, pj_signature = Some \<lparr>sp_signature = replicate 666 1,
        sp_public_key = Some (replicate 897 2), sp_pop_signature = replicate 666 3\<rparr>, pj_delegate_address = [4],
        pj_merge_targets = [\<lparr>sm_signature = [5], sm_key_type = 6, sm_prover_public_key = [7]\<rparr>], pj_proof = [8]\<rparr>" and
      c = "\<lparr>pc_filter = [], pc_frame_number = 5, pc_signature = None, pc_filters = [[1]], pc_leaf_roots = [],
        pc_release = Some \<lparr>version = (2, 1, 0), patch = 4, subpatch = 3\<rparr>\<rparr>" and
      u = "\<lparr>pu_delegate_address = [1], pu_signature = Some \<lparr>as_signature = replicate 666 1, as_address = replicate 32 2\<rparr>,
        pu_frame_number = 9\<rparr>"]
  by (simp add: check_filters_def check_confirm_leaf_roots_def fits_join_def fits_pop_def fits_target_def fits_confirm_def fits_update_def
      fits_addressed_def sig_lens leaf_limits MAX_FILTERS_PER_OP_def MAX_FILTER_LEN_def MAX_DELEGATE_ADDR_LEN_def MAX_MERGE_TARGET_LEN_def
      MAX_PROOF_LEN_def encode_seniority_merge_def)



text \<open>C36. The identifiers of leaves tell leaves apart as long as a prefix is made of six-bit nibbles: two registrations have the
  same identifier only for the same shard and prefix. The decoder takes any 32-bit value in a prefix, and there two
  registrations that fit their messages share an identifier: the separator can also be a byte of a prefix.\<close>

theorem leaf_ids_apart:
  "(list_all (\<lambda>p. p < 64) (lr_prefix a) \<and> list_all (\<lambda>p. p < 64) (lr_prefix b) \<and> leaf_id a = leaf_id b \<longrightarrow>
      lr_shard_filter a = lr_shard_filter b \<and> lr_prefix a = lr_prefix b) \<and>
   (\<exists>x y. decode_registration (encode_registration x) = Ok x \<and> decode_registration (encode_registration y) = Ok y \<and>
      lr_shard_filter x \<noteq> lr_shard_filter y \<and> lr_prefix x \<noteq> lr_prefix y \<and> leaf_id x = leaf_id y)"
proof (intro conjI impI)
  assume same: "list_all (\<lambda>p. p < 64) (lr_prefix a) \<and> list_all (\<lambda>p. p < 64) (lr_prefix b) \<and> leaf_id a = leaf_id b"
  then have "0xFF \<notin> set (concat (map put_u32 (lr_prefix a)))" "0xFF \<notin> set (concat (map put_u32 (lr_prefix b)))"
    by (auto simp: list_all_iff dest: nibble_not_separator)
  then have "lr_shard_filter a = lr_shard_filter b \<and> concat (map put_u32 (lr_prefix a)) = concat (map put_u32 (lr_prefix b))"
    using same by (intro last_separator) (simp_all add: leaf_id_def leaf_id_bytes_def)
  then show "lr_shard_filter a = lr_shard_filter b" "lr_prefix a = lr_prefix b" by (auto dest: put_u32_concat_inj)
next
  define reg where "reg f ps = \<lparr>lr_shard_filter = f, lr_prefix = ps, lr_epoch = 0, lr_leaf_root = [], lr_num_blocks = 0,
    lr_frame_number = 0, lr_signature = None\<rparr>" for f ps
  have "fits_registration (reg [1] [0xFF, 7])" "fits_registration (reg [1, 0xFF, 0, 0, 0] [7])"
    by (simp_all add: reg_def fits_registration_def leaf_limits)
  then have "decode_registration (encode_registration (reg [1] [0xFF, 7])) = Ok (reg [1] [0xFF, 7])"
    "decode_registration (encode_registration (reg [1, 0xFF, 0, 0, 0] [7])) = Ok (reg [1, 0xFF, 0, 0, 0] [7])"
    by (simp_all add: registration_message.decode_alone)
  moreover have "leaf_id (reg [1] [0xFF, 7]) = leaf_id (reg [1, 0xFF, 0, 0, 0] [7])"
    by (simp add: leaf_id_def leaf_id_bytes_def reg_def put_u32_bytes)
  ultimately show "\<exists>x y. decode_registration (encode_registration x) = Ok x \<and> decode_registration (encode_registration y) = Ok y \<and>
      lr_shard_filter x \<noteq> lr_shard_filter y \<and> lr_prefix x \<noteq> lr_prefix y \<and> leaf_id x = leaf_id y"
    by (intro exI [of _ "reg [1] [0xFF, 7]"] exI [of _ "reg [1, 0xFF, 0, 0, 0] [7]"]) (simp add: reg_def)
qed

text \<open>A leaf at the empty prefix and one below it.\<close>

theorem leaf_ids_apart_witness:
  "leaf_id \<lparr>lr_shard_filter = [1], lr_prefix = [], lr_epoch = 0, lr_leaf_root = [], lr_num_blocks = 0, lr_frame_number = 0,
     lr_signature = None\<rparr> \<noteq> leaf_id \<lparr>lr_shard_filter = [1], lr_prefix = [63], lr_epoch = 0, lr_leaf_root = [], lr_num_blocks = 0,
     lr_frame_number = 0, lr_signature = None\<rparr>"
  using leaf_ids_apart [of "\<lparr>lr_shard_filter = [1], lr_prefix = [], lr_epoch = 0, lr_leaf_root = [], lr_num_blocks = 0,
      lr_frame_number = 0, lr_signature = None\<rparr>" "\<lparr>lr_shard_filter = [1], lr_prefix = [63], lr_epoch = 0, lr_leaf_root = [],
      lr_num_blocks = 0, lr_frame_number = 0, lr_signature = None\<rparr>"]
  by auto

end
