(* ===== verification/Spec2Isabelle.thy ===== *)
theory Spec2Isabelle
  imports Bitmask Fork_Choice Tree_Codec Traversal_Proof Reel_Properties Gates Allocation
    Dynamic_Fees Difficulty Leaf_Roots Seat_Vertex Pricing Prover_Rings Vertex_Blob Shard_Roots Shard_Grid
    Size_Buckets Hypergraph_State Gossip_Topics Prover_Messages
begin

text \<open>
  \<^bold>\<open>A verification library for Quilibrium.\<close>

  Quilibrium is a network of provers that keep the state of many application shards and of one GLOBAL
  shard. GLOBAL frames order the operations of provers; every frame is scored, chained and
  finalized; the state is a forest of vector commitment trees whose root digests the frames carry;
  provers hold seats on shards by the epoch, prove that they store the shard's data, and are
  paid from what their frames earned. The library models the deterministic core of that program, from
  the Rust crates under \<^verbatim>\<open>src/crates\<close>, as executable definitions, and proves what makes
  each part correct.

  \<^bold>\<open>Conventions\<close> (theory \<open>Prelude\<close>). Unsigned integers are machine words and wrap where
  the release build wraps; \<^verbatim>\<open>usize\<close> counts of things in memory are natural
  numbers; \<^verbatim>\<open>i64\<close> and \<^verbatim>\<open>BigInt\<close> values are integers with the reduction or
  the truncating division the code applies. A fallible function returns \<open>quil_error + 'a\<close>
  (\<open>Ok\<close> and \<open>Err\<close>); \<open>Panic\<close> marks an index out of range. A method on
  \<^verbatim>\<open>&mut self\<close> returns the new state. Hash functions, commitment schemes and clocks are
  arguments; what is required of them is a hypothesis of the theorem that needs it. The iteration order
  of a Rust hash map is an argument too, so what is proved holds for every order.

  \<^bold>\<open>Parts and theories.\<close>

  \<^item> \<open>Bitmask\<close> (\<^verbatim>\<open>quil-consensus/src/bitmask.rs\<close>): signer masks. Setting, counting, intersecting
    and listing agree with sets of members, and two masks of more than half the members share
    one that is reported.
  \<^item> \<open>Fork_Choice\<close> (\<^verbatim>\<open>quil-engine/src/fork_choice.rs\<close>): branch scores in fixed point and the
    choice with its switching margin: optimal up to the margin, sticky, bounded and
    idempotent under the default parameters.
  \<^item> \<open>Nibble\<close>, \<open>Trie_Node\<close>, \<open>Commitment_Tree\<close>
    (\<^verbatim>\<open>quil-tries/src/nibble.rs\<close>, \<^verbatim>\<open>node.rs\<close>, \<^verbatim>\<open>tree.rs\<close>): the 64-way path-compressed trie with
    insertion, deletion, lookup and commitment, exactly as the recursive functions are written.
    \<open>Tree_Map\<close> relates it to its set of leaves (shape, counters, collapse), and
    \<open>Keyed_Store\<close> states the contract of a keyed store as a locale, interpreted on the
    tree for keys of one length and, in \<open>Vertex_Schema\<close>, for the keys of a vertex.
    Lookups after insertions and deletions are those of a map, and the root digest depends
    on the stored leaves only, never on the history.
  \<^item> \<open>Byte_Codec\<close>, \<open>Tree_Codec\<close>, \<open>Traversal_Proof\<close>
    (\<^verbatim>\<open>serialize.rs\<close>, \<^verbatim>\<open>go_format.rs\<close>, and the proofs of \<^verbatim>\<open>tree.rs\<close>): the stored and the wire form of
    trees, their round trips and the limits of the readers, and inclusion proofs. A writer and
    its reader meet in the locale \<open>codec\<close>.
  \<^item> \<open>Time_Reel\<close>, \<open>Reel_Invariant\<close>, \<open>Reel_Properties\<close>
    (\<^verbatim>\<open>quil-engine/src/time_reel.rs\<close>): the reel of GLOBAL frames with orphans, equivocations,
    the choice of the head and pruning; an invariant of every history of insertions.
  \<^item> \<open>Epochs\<close>, \<open>Gates\<close>, \<open>Allocation\<close> (\<^verbatim>\<open>quil-types/src/consensus.rs\<close>): the frame clock,
    the once-only activation gates with their mainnet schedule as a state machine, and the
    status of a prover's seat at a frame, which moves forward only and changes at epoch
    boundaries only.
  \<^item> \<open>Dynamic_Fees\<close>, \<open>Difficulty\<close> (\<^verbatim>\<open>quil-engine/src/fees.rs\<close>, \<^verbatim>\<open>difficulty.rs\<close>): the window of
    fee votes as a refinement of the list of accepted votes, the adjustment for traffic, the
    bounds that members check, and the difficulty as a fixed-point exponential.
  \<^item> \<open>Vertex_Schema\<close>, \<open>Prover_Ops\<close>, \<open>Registry_View\<close>, \<open>Prover_Lifecycle\<close>
    (\<^verbatim>\<open>quil-execution/src/global_schema.rs\<close>, \<^verbatim>\<open>global_intrinsic/materialize.rs\<close>, the timing rules of
    \<^verbatim>\<open>verify.rs\<close>, the decoders of \<^verbatim>\<open>prover_registry.rs\<close>): the operations of provers on the vertex trees
    that store them. The locale \<open>refined_machine\<close> carries a simulation of single operations to
    histories; its interpretation shows that the code implements the update of the record the
    registry decodes. On top of it: confirms keep the committee of the running epoch.
    \<open>Leaf_Roots\<close> has the registrations of leaf roots in the same file: the vertex with its three
    slots refines the full history of registrations and seals.
  \<^item> \<open>Prover_Messages\<close> (\<^verbatim>\<open>global_intrinsic/prover_ops.rs\<close>, \<^verbatim>\<open>prover_join.rs\<close>, \<^verbatim>\<open>prover_filter_ops.rs\<close>, \<^verbatim>\<open>seniority_merge.rs\<close>,
    \<^verbatim>\<open>addressed_signature.rs\<close>, \<^verbatim>\<open>sig_with_pop.rs\<close>, \<^verbatim>\<open>leaf_root_registration.rs\<close>, \<^verbatim>\<open>decode_prover_op\<close> of \<^verbatim>\<open>quil-engine/src/prover_pipeline.rs\<close>): the
    canonical bytes of prover operations. Every message is an instance of the locale \<open>message_codec\<close>, most of them of
    \<open>tail_tolerant\<close>; the sender's limits are exactly the decoders', and leaf identifiers are apart for six-bit prefixes.
  \<^item> \<open>Canonical_Cursor\<close>, \<open>Storage_Seat\<close>, \<open>Seat_Codec\<close>, \<open>Seat_History\<close>,
    \<open>Seat_Vertex\<close> (\<^verbatim>\<open>canonical_cursor.rs\<close>, \<^verbatim>\<open>global_intrinsic/storage_seat.rs\<close>): storage seats with their
    commitments, held rewards, settlement and expiry, the compact codec of their slots with its
    variable-length integers, and the vertex that stores a seat. Every history keeps a seat
    readable and pays no more than was held; the sweep visits each bucket exactly once an epoch.
  \<^item> \<open>Vertex_Blob\<close> (\<^verbatim>\<open>vertex_tree_to_blob\<close>, \<^verbatim>\<open>rebuild_vertex_tree_from_blob\<close>): the stored form of vertices. Every
    history of rewrites of a stored vertex stays well-formed and reads back its last writes.
  \<^item> \<open>Pricing\<close> (\<^verbatim>\<open>quil-execution/src/pricing.rs\<close>, \<^verbatim>\<open>quil-engine/src/rewards.rs\<close>): the basis of issuance as an integer
    root, the fee multiplier and budget, and what a frame issues: never more than the basis.
  \<^item> \<open>Ring_Rank\<close>, \<open>Prover_Rings\<close> (\<^verbatim>\<open>global_intrinsic/prover_rings.rs\<close>, \<^verbatim>\<open>quil-types/src/reward_ring.rs\<close>): the ranking of
    members into rings of eight, the groups of a split, the stored keys and the estimate of a ring.
  \<^item> \<open>Shard_Paths\<close>, \<open>Shard_Roots\<close> (\<^verbatim>\<open>quil-forest/src/lib.rs\<close>): shard addresses as bit paths with their three encodings,
    routing, and the aggregation of shard roots into an application root with its membership paths.
  \<^item> \<open>Ordered_Map\<close>, \<open>Shard_Store\<close>, \<open>Shard_Ranges\<close>, \<open>Shard_Grid\<close> (\<^verbatim>\<open>quil-store/src/shards.rs\<close>, \<^verbatim>\<open>global_intrinsic/handoff.rs\<close>,
    \<^verbatim>\<open>materialize.rs\<close>, \<^verbatim>\<open>intrinsic.rs\<close>): the staged shard metadata over a store, the comparison of shard ranges, and
    the splits and merges that change the grid at an epoch boundary. The locale \<open>staged_rows\<close> states what a
    staged table promises; it is interpreted for the shard rows and for the pending changes. Splits and merges keep
    the shards of an application a partition of its addresses.
  \<^item> \<open>Crdt_Staging\<close>, \<open>Crdt_Properties\<close>, \<open>Size_Buckets\<close> (\<^verbatim>\<open>quil-hypergraph/src/crdt.rs\<close>, \<^verbatim>\<open>addressing.rs\<close>,
    \<^verbatim>\<open>quil-tries/src/vertex_commit.rs\<close>): the hypergraph as execution stages it. Batches of mutations refine two growing sets with
    tombstones, a failed batch changes nothing, the sizes of the shards follow the data exactly, and what is staged can be
    discarded or put back; the stored form of the sizes reads back.
  \<^item> \<open>Hypergraph_State\<close> (\<^verbatim>\<open>quil-execution/src/hypergraph_state.rs\<close>): the changeset of state changes and records that messages
    write through, with savepoints and metadata vertices. Its commit publishes what its reads showed.
  \<^item> \<open>Bloom_Filter\<close>, \<open>Gossip_Topics\<close> (\<^verbatim>\<open>addressing.rs\<close>, \<^verbatim>\<open>bitmasks\<close> in \<^verbatim>\<open>quil-engine/src/lib.rs\<close>, \<^verbatim>\<open>resolver_traffic.rs\<close>,
    \<^verbatim>\<open>quil-p2p/src/gossip_traffic.rs\<close>): the filters that name an application, the gossip topics made from them, the framing of
    shard consensus messages with its nonces and addressees, and the classes under which traffic is counted.

  \<^bold>\<open>How the parts interact.\<close> The commitment tree is the ground: vertices are trees over the schema's keys
  (\<open>Vertex_Schema\<close> instantiates \<open>Keyed_Store\<close>), prover operations and storage seats are chains of
  writes into them (\<open>write_all\<close>), and what the registry reads back (\<open>decode_allocation_tree\<close>,
  \<open>seat_from_tree\<close>) is determined by the tree's map alone. The status of the decoded record over
  frames comes from \<open>Allocation\<close> with the clock of \<open>Epochs\<close>; which rules apply at a frame comes from
  \<open>Gates\<close>. The grid of \<open>Shard_Grid\<close> is rows of \<open>Shard_Store\<close>, addressed and routed by \<open>Shard_Paths\<close>; its splits are shared out
  by \<open>Ring_Rank\<close> and pass the range check of \<open>Shard_Ranges\<close>; the ring of a seat sets its reward in \<open>Pricing\<close>.
  Execution writes through \<open>Hypergraph_State\<close>, whose commit is one batch of \<open>Crdt_Staging\<close>; that batch finds the size bucket of a
  location by the routing of \<open>Shard_Paths\<close>, and its leaves commit the vertex trees of \<open>Commitment_Tree\<close>. A metadata vertex is a tree in
  the wire form of \<open>Tree_Codec\<close>. The topics of \<open>Gossip_Topics\<close> are the masks of \<open>Bloom_Filter\<close>.

  \<^bold>\<open>Loops, fuel and bounds.\<close> Recursions are structural or carry a measure. Three loops take fuel: the
  blob reader starts with 129 levels, one more than the depth the format admits; the walk to an
  ancestor in the reel takes two more steps than there are stored frames, and is shown
  to decide within that (\<open>is_ancestor_decides\<close>), so that running out means the
  links form a cycle and the code does not return; the drain of pending frames takes one step
  more than there are pending frames. A variable-length integer has at most ten bytes by the code's own loop
  bound. The draw of an application's indices is a partial function, since only the hash bounds it; when it
  returns is proved (\<open>bloom_indices_return\<close>).

  \<^bold>\<open>Not modelled.\<close> Cryptographic primitives and proof systems, which the core uses through their
  verdicts and digests; vendored libraries (the consensus library, libp2p, the jellyfish
  merkle tree); input and output (stores, networking, RPC, command line); the asynchronous
  engines that schedule the modelled parts; the text of errors and logs; locks and caches
  that change time only. Of the modelled files these parts are left out: resolving a type hash to a
  class name, the release eligibility schedule, reading and writing seats and expiry queues
  through the hypergraph state; of the hypergraph, the commit into the versioned forest, synchronization with peers and
  snapshots; in front of a due shard change, the gate of the committee handoff and the move of allocations.

  \<^bold>\<open>Left open.\<close> The dispatch of the GLOBAL intrinsic over the hypergraph state; the commit of staged work into the forest; the
  signing messages of prover operations; the lazily loaded tree as a refinement of \<open>Commitment_Tree\<close>.
\<close>

end
